(* ===== verification/Prelude.thy ===== *)
theory Prelude
  imports Main "HOL-Library.Word"
begin

unbundle bit_operations_syntax

text \<open>
  Shared vocabulary of the development: Go's fixed-width integers as words, byte slices as
  lists of bytes, errors and run-time panics as values, checked slicing and indexing, the
  big-endian accessors of \<open>encoding/binary\<close>, and the generic list and word lemmas that the
  component theories rely on.

  Conventions. A Go \<open>int\<close> is an \<open>int\<close> here (it is 64 bits wide in the builds of this
  program; every \<open>int\<close> of the modelled code is a length, an index or a small count, far
  below \<open>2^63\<close>). A slice is the list of its elements: a nil slice and an empty slice are the
  same list, which is how the modelled code treats them. A slice expression \<open>s[a:b]\<close> is taken
  to panic when \<open>b\<close> exceeds the length (Go allows up to the capacity), so a proof that the
  model does not panic covers the program.
\<close>

section \<open>Integers, slices and results\<close>

type_synonym u8 = "8 word"
type_synonym u16 = "16 word"
type_synonym u32 = "32 word"
type_synonym u64 = "64 word"
type_synonym bytes = "8 word list"

text \<open>
  A Go call ends in a result, an error value of the package, or a run-time panic (an index
  or slice bound out of range).
\<close>

datatype 'e fault = Err 'e | Panic

type_synonym ('e, 'a) res = "'e fault + 'a"

definition rbind :: "('e, 'a) res \<Rightarrow> ('a \<Rightarrow> ('e, 'b) res) \<Rightarrow> ('e, 'b) res" where
  "rbind m f = (case m of Inl e \<Rightarrow> Inl e | Inr a \<Rightarrow> f a)"

definition glen :: "'a list \<Rightarrow> int" where
  "glen xs = int (length xs)"

text \<open>\<open>xs[i]\<close>\<close>

definition gidx :: "'a list \<Rightarrow> int \<Rightarrow> ('e, 'a) res" where
  "gidx xs i = (if 0 \<le> i \<and> i < glen xs then Inr (xs ! nat i) else Inl Panic)"

text \<open>\<open>xs[lo:hi]\<close> and \<open>xs[lo:]\<close>\<close>

definition gslice :: "'a list \<Rightarrow> int \<Rightarrow> int \<Rightarrow> ('e, 'a list) res" where
  "gslice xs lo hi =
     (if 0 \<le> lo \<and> lo \<le> hi \<and> hi \<le> glen xs
      then Inr (take (nat (hi - lo)) (drop (nat lo) xs)) else Inl Panic)"

definition gfrom :: "'a list \<Rightarrow> int \<Rightarrow> ('e, 'a list) res" where
  "gfrom xs lo = gslice xs lo (glen xs)"

text \<open>Whether a call ended in a panic.\<close>

definition panics :: "('e, 'a) res \<Rightarrow> bool" where
  "panics r \<longleftrightarrow> r = Inl Panic"

named_theorems go_simps \<open>evaluation of results, checked slices and indices\<close>

lemma rbind_Inl [simp, go_simps]: "rbind (Inl e) f = Inl e"
  by (simp add: rbind_def)

lemma rbind_Inr [simp, go_simps]: "rbind (Inr a) f = f a"
  by (simp add: rbind_def)

lemma rbind_eq_Inr: "rbind m f = Inr b \<longleftrightarrow> (\<exists>a. m = Inr a \<and> f a = Inr b)"
  by (cases m) auto

lemma rbind_eq_Inl: "rbind m f = Inl e \<longleftrightarrow> m = Inl e \<or> (\<exists>a. m = Inr a \<and> f a = Inl e)"
  by (cases m) auto

lemma panics_simps [simp, go_simps]:
  "panics (Inr a) = False" "panics (Inl (Err e)) = False" "panics (Inl Panic) = True"
  by (simp_all add: panics_def)

lemma panics_rbind: "panics (rbind m f) \<longleftrightarrow> panics m \<or> (\<exists>a. m = Inr a \<and> panics (f a))"
  by (cases m) (auto simp: panics_def)

lemma glen_nonneg [simp]: "0 \<le> glen xs"
  by (simp add: glen_def)

lemma nat_glen [simp]: "nat (glen xs) = length xs"
  by (simp add: glen_def)

lemma glen_simps [simp, go_simps]:
  "glen [] = 0" "glen (x # xs) = glen xs + 1" "glen (xs @ ys) = glen xs + glen ys"
  by (simp_all add: glen_def)

lemma glen_sign [simp]: "\<not> glen xs < 0" "0 < glen xs + 1" "glen xs + 1 \<noteq> 0" "0 < 1 + glen xs" "0 < 2 + glen xs"
  by (simp_all add: glen_def)

lemma glen_eq_0 [simp]: "glen xs = 0 \<longleftrightarrow> xs = []"
  by (simp add: glen_def)

lemma gidx_Cons [simp, go_simps]: "gidx (x # xs) 0 = Inr x" "gidx (x # y # xs) 1 = Inr y"
  by (simp_all add: gidx_def glen_def)

lemma gfrom_Cons [simp, go_simps]: "gfrom (x # xs) 1 = Inr xs" "gfrom (x # y # xs) 2 = Inr xs"
  by (simp_all add: gfrom_def gslice_def glen_def nat_add_distrib)

lemma gidx_ok [go_simps]: "0 \<le> i \<Longrightarrow> i < glen xs \<Longrightarrow> gidx xs i = Inr (xs ! nat i)"
  by (simp add: gidx_def)

lemma gslice_ok [go_simps]:
  "0 \<le> lo \<Longrightarrow> lo \<le> hi \<Longrightarrow> hi \<le> glen xs \<Longrightarrow>
     gslice xs lo hi = Inr (take (nat (hi - lo)) (drop (nat lo) xs))"
  by (simp add: gslice_def)

lemma gfrom_ok [go_simps]: "0 \<le> lo \<Longrightarrow> lo \<le> glen xs \<Longrightarrow> gfrom xs lo = Inr (drop (nat lo) xs)"
  by (simp add: gfrom_def gslice_def glen_def nat_diff_distrib)

lemma gfrom_nat: "n \<le> length xs \<Longrightarrow> gfrom xs (int n) = Inr (drop n xs)"
  by (simp add: gfrom_def gslice_def glen_def)

lemma gslice_nat: "m \<le> n \<Longrightarrow> n \<le> length xs \<Longrightarrow> gslice xs (int m) (int n) = Inr (take (n - m) (drop m xs))"
  by (simp add: gslice_def glen_def nat_diff_distrib')

section \<open>Big-endian integers\<close>

text \<open>\<open>binary.BigEndian.AppendUint32\<close>, \<open>AppendUint16\<close>: the bytes appended.\<close>

definition be32 :: "u32 \<Rightarrow> bytes" where
  "be32 v = [ucast (drop_bit 24 v), ucast (drop_bit 16 v), ucast (drop_bit 8 v), ucast v]"

definition be16 :: "u16 \<Rightarrow> bytes" where
  "be16 v = [ucast (drop_bit 8 v), ucast v]"

text \<open>\<open>binary.BigEndian.Uint32\<close>, \<open>Uint16\<close>: they panic on a slice that is too short.\<close>

fun getU32 :: "bytes \<Rightarrow> ('e, u32) res" where
  "getU32 (a # b # c # d # _) =
     Inr (ucast d OR push_bit 8 (ucast c) OR push_bit 16 (ucast b) OR push_bit 24 (ucast a))"
| "getU32 _ = Inl Panic"

fun getU16 :: "bytes \<Rightarrow> ('e, u16) res" where
  "getU16 (a # b # _) = Inr (ucast b OR push_bit 8 (ucast a))"
| "getU16 _ = Inl Panic"

lemma length_be32 [simp]: "length (be32 v) = 4"
  by (simp add: be32_def)

lemma length_be16 [simp]: "length (be16 v) = 2"
  by (simp add: be16_def)

lemma be32_join:
  "ucast (ucast v :: u8) OR push_bit 8 (ucast (ucast (drop_bit 8 v) :: u8))
     OR push_bit 16 (ucast (ucast (drop_bit 16 v) :: u8))
     OR push_bit 24 (ucast (ucast (drop_bit 24 v) :: u8)) = (v :: u32)"
proof (rule bit_word_eqI)
  fix n
  assume "n < LENGTH(32)"
  then consider "n < 8" | "8 \<le> n" "n < 16" | "16 \<le> n" "n < 24" | "24 \<le> n" "n < 32"
    by fastforce
  then show "bit (ucast (ucast v :: u8) OR push_bit 8 (ucast (ucast (drop_bit 8 v) :: u8))
     OR push_bit 16 (ucast (ucast (drop_bit 16 v) :: u8))
     OR push_bit 24 (ucast (ucast (drop_bit 24 v) :: u8)) :: u32) n = bit v n"
    by cases (auto simp: bit_simps)
qed

lemma be16_join:
  "ucast (ucast v :: u8) OR push_bit 8 (ucast (ucast (drop_bit 8 v) :: u8)) = (v :: u16)"
  by (rule bit_word_eqI) (auto simp: bit_simps)

lemma getU32_be32 [simp]: "getU32 (be32 v @ xs) = Inr v"
  by (simp add: be32_def be32_join)

lemma getU16_be16 [simp]: "getU16 (be16 v @ xs) = Inr v"
  by (simp add: be16_def be16_join)

lemma getU32_be32_only [simp]: "getU32 (be32 v) = Inr v"
  using getU32_be32 [of v "[]"] by simp

lemma list_ge4E:
  assumes "4 \<le> length xs"
  obtains a b c d ys where "xs = a # b # c # d # ys"
  using assms by (metis Suc_le_length_iff numeral_eq_Suc pred_numeral_simps(2,3) semiring_norm(26,27))

lemma list_ge2E:
  assumes "2 \<le> length xs"
  obtains a b ys where "xs = a # b # ys"
  using assms by (metis Suc_le_length_iff numeral_2_eq_2)

lemma getU32_total: "4 \<le> length xs \<Longrightarrow> \<exists>v. getU32 xs = Inr v"
  by (elim list_ge4E) simp

lemma getU16_total: "2 \<le> length xs \<Longrightarrow> \<exists>v. getU16 xs = Inr v"
  by (elim list_ge2E) simp

lemma getU32_inv: "getU32 xs = Inr v \<Longrightarrow> take 4 xs = be32 v"
proof (induction xs rule: getU32.induct)
  case (1 a b c d ys)
  then have v: "v = ucast d OR push_bit 8 (ucast c) OR push_bit 16 (ucast b) OR push_bit 24 (ucast a)"
    by simp
  have "a = ucast (drop_bit 24 v)" "b = ucast (drop_bit 16 v)" "c = ucast (drop_bit 8 v)" "d = ucast v"
    unfolding v by (rule bit_word_eqI; auto simp: bit_simps dest: bit_imp_le_length)+
  then show ?case by (simp add: be32_def)
qed simp_all

section \<open>Strings and decimal numbers\<close>

text \<open>A Go string is a sequence of bytes, a list of characters here.\<close>

definition byte_of :: "char \<Rightarrow> u8" where
  "byte_of c = of_nat (of_char c)"

definition char_of_byte :: "u8 \<Rightarrow> char" where
  "char_of_byte b = char_of (unat b)"

definition bytes_of :: "string \<Rightarrow> bytes" where
  "bytes_of s = map byte_of s"

definition string_of :: "bytes \<Rightarrow> string" where
  "string_of bs = map char_of_byte bs"

text \<open>\<open>strconv.FormatUint(n, 10)\<close> and \<open>strconv.Itoa\<close>\<close>

fun formatUint :: "nat \<Rightarrow> string" where
  "formatUint n = (if n < 10 then [char_of (48 + n)] else formatUint (n div 10) @ [char_of (48 + n mod 10)])"

declare formatUint.simps [simp del]

definition itoa :: "int \<Rightarrow> string" where
  "itoa i = (if i < 0 then CHR ''-'' # formatUint (nat (- i)) else formatUint (nat i))"

lemma char_of_byte_byte_of [simp]: "char_of_byte (byte_of c) = c"
  by (simp add: char_of_byte_def byte_of_def unat_of_nat)

lemma byte_of_char_of_byte [simp]: "byte_of (char_of_byte b) = b"
proof -
  have "unat b < 256" using unsigned_less [of b] by simp
  then show ?thesis by (simp add: char_of_byte_def byte_of_def)
qed

lemma string_of_bytes_of [simp]: "string_of (bytes_of s) = s"
  by (simp add: string_of_def bytes_of_def comp_def)

lemma bytes_of_string_of [simp]: "bytes_of (string_of b) = b"
  by (simp add: string_of_def bytes_of_def comp_def)

lemma length_bytes_of [simp]: "length (bytes_of s) = length s"
  by (simp add: bytes_of_def)

section \<open>Lists\<close>

lemma take_drop_eq_slice: "take n (drop m (xs @ ys @ zs)) = ys"
  if "length xs = m" "length ys = n" for m n
  using that by simp

lemma map_upt_nth_eq: "(\<And>i. i < n \<Longrightarrow> f i = g i) \<Longrightarrow> map f [0..<n] = map g [0..<n]"
  by simp

end
