(* ===== verification/Wire.thy ===== *)
theory Wire
  imports Prelude
begin

text \<open>
  The packet formats of the OpenVPN core (\<open>core/proxy/openvpn/ovpn/wire/wire.go\<close>): the
  opcode/key-id byte, the unwrapped control packet, the data-channel header and the
  length framing over TCP. The operations are the exported functions of the package, in its
  order; the theorems are the round trips of the three codecs, that parsing is total (no
  index or slice bound is ever out of range) and injective on what it accepts, and that the
  frame reader keeps a TCP stream in step.
\<close>

section \<open>Opcodes and the header byte\<close>

type_synonym opcode = "8 word"

definition ControlHardResetClientV1 :: opcode where "ControlHardResetClientV1 = 1"
definition ControlHardResetServerV1 :: opcode where "ControlHardResetServerV1 = 2"
definition ControlSoftResetV1 :: opcode where "ControlSoftResetV1 = 3"
definition ControlV1 :: opcode where "ControlV1 = 4"
definition AckV1 :: opcode where "AckV1 = 5"
definition DataV1 :: opcode where "DataV1 = 6"
definition ControlHardResetClientV2 :: opcode where "ControlHardResetClientV2 = 7"
definition ControlHardResetServerV2 :: opcode where "ControlHardResetServerV2 = 8"
definition DataV2 :: opcode where "DataV2 = 9"
definition ControlHardResetClientV3 :: opcode where "ControlHardResetClientV3 = 10"
definition ControlWKCV1 :: opcode where "ControlWKCV1 = 11"

lemmas opcode_defs = ControlHardResetClientV1_def ControlHardResetServerV1_def
  ControlSoftResetV1_def ControlV1_def AckV1_def DataV1_def ControlHardResetClientV2_def
  ControlHardResetServerV2_def DataV2_def ControlHardResetClientV3_def ControlWKCV1_def

definition KeyIDMask :: u8 where "KeyIDMask = 0x07"

definition MaxAcks :: int where "MaxAcks = 8"

definition NoPeerID :: u32 where "NoPeerID = 0xFFFFFF"

definition MaxPacketSize :: int where "MaxPacketSize = 65535"

datatype wire_err = ErrShort | ErrBadOpcode | ErrTooMany | ErrTooLarge

definition Header :: "opcode \<Rightarrow> u8 \<Rightarrow> u8" where
  "Header op keyID = push_bit 3 op OR (keyID AND KeyIDMask)"

definition SplitHeader :: "u8 \<Rightarrow> opcode \<times> u8" where
  "SplitHeader b = (drop_bit 3 b, b AND KeyIDMask)"

definition IsData :: "opcode \<Rightarrow> bool" where
  "IsData op \<longleftrightarrow> op = DataV1 \<or> op = DataV2"

definition IsControl :: "opcode \<Rightarrow> bool" where
  "IsControl op \<longleftrightarrow> op \<in> set [ControlHardResetClientV1, ControlHardResetServerV1, ControlSoftResetV1,
     ControlV1, AckV1, ControlHardResetClientV2, ControlHardResetServerV2,
     ControlHardResetClientV3, ControlWKCV1]"

definition IsReset :: "opcode \<Rightarrow> bool" where
  "IsReset op \<longleftrightarrow> op \<in> set [ControlHardResetClientV1, ControlHardResetServerV1, ControlSoftResetV1,
     ControlHardResetClientV2, ControlHardResetServerV2, ControlHardResetClientV3]"

definition Opcode_String :: "opcode \<Rightarrow> string" where
  "Opcode_String op =
    (if op = ControlHardResetClientV1 then ''P_CONTROL_HARD_RESET_CLIENT_V1''
     else if op = ControlHardResetServerV1 then ''P_CONTROL_HARD_RESET_SERVER_V1''
     else if op = ControlSoftResetV1 then ''P_CONTROL_SOFT_RESET_V1''
     else if op = ControlV1 then ''P_CONTROL_V1''
     else if op = AckV1 then ''P_ACK_V1''
     else if op = DataV1 then ''P_DATA_V1''
     else if op = ControlHardResetClientV2 then ''P_CONTROL_HARD_RESET_CLIENT_V2''
     else if op = ControlHardResetServerV2 then ''P_CONTROL_HARD_RESET_SERVER_V2''
     else if op = DataV2 then ''P_DATA_V2''
     else if op = ControlHardResetClientV3 then ''P_CONTROL_HARD_RESET_CLIENT_V3''
     else if op = ControlWKCV1 then ''P_CONTROL_WKC_V1''
     else ''P_OPCODE_'' @ itoa (uint op))"

section \<open>Control packets\<close>

text \<open>A \<open>SessionID\<close> is an array of eight bytes; the zero array is \<open>SessionID{}\<close>.\<close>

type_synonym session_id = bytes
type_synonym packet_id = u32

definition zeroSessionID :: session_id where
  "zeroSessionID = replicate 8 0"

record control_packet =
  Opcode :: opcode
  KeyID :: u8
  SessionID :: session_id
  Acks :: "packet_id list"
  RemoteSessionID :: session_id
  PacketID :: packet_id
  Payload :: bytes

definition HasMessageID :: "control_packet \<Rightarrow> bool" where
  "HasMessageID p \<longleftrightarrow> Opcode p \<noteq> AckV1"

text \<open>The loop of \<open>AppendBody\<close> over the acks.\<close>

fun appendAcks :: "bytes \<Rightarrow> packet_id list \<Rightarrow> bytes" where
  "appendAcks dst [] = dst"
| "appendAcks dst (i # ids) = appendAcks (dst @ be32 i) ids"

definition AppendBody :: "bytes \<Rightarrow> control_packet \<Rightarrow> bytes" where
  "AppendBody dst p =
    (let dst = dst @ [of_nat (length (Acks p))];
         dst = appendAcks dst (Acks p);
         dst = (if length (Acks p) > 0 then dst @ RemoteSessionID p else dst)
     in if HasMessageID p then dst @ be32 (PacketID p) @ Payload p else dst)"

text \<open>The loop of \<open>ParseBody\<close> that fills \<open>p.Acks[i]\<close> from \<open>body[4*i:]\<close>.\<close>

fun parseAcks :: "bytes \<Rightarrow> int \<Rightarrow> nat \<Rightarrow> (wire_err, packet_id list) res" where
  "parseAcks body i 0 = Inr []"
| "parseAcks body i (Suc k) =
     rbind (gfrom body (4 * i)) (\<lambda>s. rbind (getU32 s) (\<lambda>v.
       rbind (parseAcks body (i + 1) k) (\<lambda>vs. Inr (v # vs))))"

text \<open>
  \<open>ParseBody\<close> fills in \<open>p\<close>; its two callers drop \<open>p\<close> when it fails, so the error result
  carries no packet.
\<close>

definition parseTail :: "control_packet \<Rightarrow> bytes \<Rightarrow> (wire_err, control_packet) res" where
  "parseTail p body =
    (if \<not> HasMessageID p then Inr (p\<lparr>PacketID := 0, Payload := []\<rparr>)
     else if glen body < 4 then Inl (Err ErrShort)
     else rbind (getU32 body) (\<lambda>pid. rbind (gfrom body 4) (\<lambda>pl.
            Inr (p\<lparr>PacketID := pid, Payload := pl\<rparr>))))"

definition ParseBody :: "control_packet \<Rightarrow> bytes \<Rightarrow> (wire_err, control_packet) res" where
  "ParseBody p body =
    (if glen body < 1 then Inl (Err ErrShort)
     else rbind (gidx body 0) (\<lambda>b0. rbind (gfrom body 1) (\<lambda>body.
       let n = uint b0 in
       if n > MaxAcks then Inl (Err ErrTooMany)
       else if glen body < 4 * n then Inl (Err ErrShort)
       else if n > 0 then
         rbind (parseAcks body 0 (nat n)) (\<lambda>acks.
         rbind (gfrom body (4 * n)) (\<lambda>body.
           if glen body < 8 then Inl (Err ErrShort)
           else rbind (gslice body 0 8) (\<lambda>rsid. rbind (gfrom body 8) (\<lambda>body.
             parseTail (p\<lparr>Acks := acks, RemoteSessionID := rsid\<rparr>) body))))
       else parseTail (p\<lparr>Acks := [], RemoteSessionID := zeroSessionID\<rparr>) body)))"

definition Marshal :: "control_packet \<Rightarrow> bytes" where
  "Marshal p = AppendBody (([] @ [Header (Opcode p) (KeyID p)]) @ SessionID p) p"

definition Unmarshal :: "bytes \<Rightarrow> (wire_err, control_packet) res" where
  "Unmarshal b =
    (if glen b < 9 then Inl (Err ErrShort)
     else rbind (gidx b 0) (\<lambda>b0.
       let (op, key) = SplitHeader b0 in
       if \<not> IsControl op then Inl (Err ErrBadOpcode)
       else rbind (gslice b 1 9) (\<lambda>sid. rbind (gfrom b 9) (\<lambda>body.
         ParseBody \<lparr>Opcode = op, KeyID = key, SessionID = sid, Acks = [],
           RemoteSessionID = zeroSessionID, PacketID = 0, Payload = []\<rparr> body))))"

section \<open>The data-channel header\<close>

definition AppendDataHeader :: "bytes \<Rightarrow> u8 \<Rightarrow> u32 \<Rightarrow> bytes" where
  "AppendDataHeader dst keyID peerID =
    (if peerID = NoPeerID then dst @ [Header DataV1 keyID]
     else dst @ [Header DataV2 keyID, ucast (drop_bit 16 peerID), ucast (drop_bit 8 peerID), ucast peerID])"

definition ParseDataHeader :: "bytes \<Rightarrow> (wire_err, opcode \<times> u8 \<times> u32 \<times> int) res" where
  "ParseDataHeader b =
    (if glen b < 1 then Inl (Err ErrShort)
     else rbind (gidx b 0) (\<lambda>b0.
       let (op, keyID) = SplitHeader b0 in
       if op = DataV1 then Inr (op, keyID, NoPeerID, 1)
       else if op = DataV2 then
         (if glen b < 4 then Inl (Err ErrShort)
          else rbind (gidx b 1) (\<lambda>b1. rbind (gidx b 2) (\<lambda>b2. rbind (gidx b 3) (\<lambda>b3.
            Inr (op, keyID, push_bit 16 (ucast b1) OR push_bit 8 (ucast b2) OR ucast b3, 4)))))
       else Inl (Err ErrBadOpcode)))"

section \<open>Framing over TCP\<close>

definition AppendFrame :: "bytes \<Rightarrow> bytes \<Rightarrow> bytes \<times> wire_err option" where
  "AppendFrame dst pkt =
    (if glen pkt > MaxPacketSize then (dst, Some ErrTooLarge)
     else let dst = dst @ be16 (of_nat (length pkt)) in (dst @ pkt, None))"

text \<open>
  The reader of a \<open>FrameReader\<close> is the list of bytes the stream still delivers before its
  end. \<open>io.ReadFull\<close> reports \<open>EOF\<close> when the stream ends before the first byte and
  \<open>ErrUnexpectedEOF\<close> when it ends later; \<open>io.CopyN\<close> reports \<open>EOF\<close> for a stream that
  is too short. Each returns what is left of the stream.
\<close>

datatype io_err = EOF | ErrUnexpectedEOF | ErrShortBuffer

definition ReadFull :: "bytes \<Rightarrow> nat \<Rightarrow> (io_err + bytes) \<times> bytes" where
  "ReadFull r n =
    (if n = 0 then (Inr [], r)
     else if r = [] then (Inl EOF, [])
     else if length r < n then (Inl ErrUnexpectedEOF, [])
     else (Inr (take n r), drop n r))"

definition CopyNDiscard :: "bytes \<Rightarrow> nat \<Rightarrow> io_err option \<times> bytes" where
  "CopyNDiscard r n = (if length r < n then (Some EOF, []) else (None, drop n r))"

text \<open>
  \<open>ReadPacket\<close> with a buffer of \<open>bufLen\<close> bytes: the packet read (the filled part of the
  buffer) or the error, and the stream after the call.
\<close>

definition ReadPacket :: "bytes \<Rightarrow> nat \<Rightarrow> (io_err, bytes) res \<times> bytes" where
  "ReadPacket r bufLen =
    (case ReadFull r 2 of
      (Inl e, r) \<Rightarrow> (Inl (Err e), r)
    | (Inr l, r) \<Rightarrow>
        (case getU16 l of
          Inl e \<Rightarrow> (Inl e, r)
        | Inr n16 \<Rightarrow>
          (let n = unat n16 in
           if n > bufLen then
             (case CopyNDiscard r n of
               (Some e, r) \<Rightarrow> (Inl (Err (if e = EOF then ErrUnexpectedEOF else e)), r)
             | (None, r) \<Rightarrow> (Inl (Err ErrShortBuffer), r))
           else
             (case ReadFull r n of
               (Inl e, r) \<Rightarrow> (Inl (Err (if e = EOF then ErrUnexpectedEOF else e)), r)
             | (Inr p, r) \<Rightarrow> (Inr p, r)))))"

section \<open>The header byte splits back\<close>

text \<open>Five bits of opcode and three of key id share the byte; both survive the trip.\<close>

lemma SplitHeader_Header: "SplitHeader (Header op k) = (op AND 31, k AND 7)"
proof -
  have "drop_bit 3 (push_bit 3 op OR (k AND 7)) = op AND 31"
  proof (rule bit_word_eqI)
    fix n
    assume "n < LENGTH(8)"
    then have "n \<in> set [0..<8]" by simp
    then show "bit (drop_bit 3 (push_bit 3 op OR (k AND 7))) n = bit (op AND 31) n"
      by (auto simp: bit_simps upt_rec)
  qed
  moreover have "(push_bit 3 op OR (k AND 7)) AND 7 = k AND 7"
  proof (rule bit_word_eqI)
    fix n
    assume "n < LENGTH(8)"
    then have "n \<in> set [0..<8]" by simp
    then show "bit ((push_bit 3 op OR (k AND 7)) AND 7) n = bit (k AND 7) n"
      by (auto simp: bit_simps upt_rec)
  qed
  ultimately show ?thesis by (simp add: SplitHeader_def Header_def KeyIDMask_def)
qed

lemma push_bit_drop_bit_or_low3: "push_bit 3 (drop_bit 3 h) OR (h AND 7) = (h :: u8)"
proof -
  have "h AND 7 = take_bit 3 h" by (simp add: take_bit_eq_mask mask_eq_exp_minus_1)
  then show ?thesis by (simp only:) (rule bit_word_eqI, auto simp: bit_simps)
qed

section \<open>Control packets: round trip, totality, inverse\<close>

lemma IsControl_mask: "IsControl op \<Longrightarrow> op AND 31 = op"
  by (auto simp: IsControl_def opcode_defs)

lemma appendAcks_eq: "appendAcks dst ids = dst @ concat (map be32 ids)"
  by (induction ids arbitrary: dst) simp_all

lemma length_concat_be32 [simp]: "length (concat (map be32 ids)) = 4 * length ids"
  by (induction ids) simp_all

lemma AppendBody_eq:
  "AppendBody dst p = dst @ of_nat (length (Acks p)) # concat (map be32 (Acks p)) @
     (if Acks p \<noteq> [] then RemoteSessionID p else []) @
     (if HasMessageID p then be32 (PacketID p) @ Payload p else [])"
  by (simp add: AppendBody_def appendAcks_eq)

text \<open>Reading the ack array back, from any position of the array.\<close>

lemma parseAcks_append:
  "int (length xs) = 4 * i \<Longrightarrow>
     parseAcks (xs @ concat (map be32 ids) @ rest) i (length ids) = Inr ids"
proof (induction ids arbitrary: xs i)
  case Nil
  then show ?case by simp
next
  case (Cons a ids)
  have "int (length (xs @ be32 a)) = 4 * (i + 1)" using Cons.prems by simp
  then have IH: "parseAcks ((xs @ be32 a) @ concat (map be32 ids) @ rest) (i + 1) (length ids) = Inr ids"
    by (rule Cons.IH)
  have "nat (4 * i) = length xs" "0 \<le> 4 * i" using Cons.prems by linarith+
  then have "(gfrom (xs @ be32 a @ concat (map be32 ids) @ rest) (4 * i) :: (wire_err, bytes) res)
      = Inr (be32 a @ concat (map be32 ids) @ rest)"
    using Cons.prems by (simp add: gfrom_ok glen_def)
  with IH show ?case by simp
qed

lemmas parseAcks_body = parseAcks_append [where xs = "[]" and i = 0, simplified]

text \<open>What a caller may hand to \<open>Marshal\<close>, and what \<open>Unmarshal\<close> returns.\<close>

definition wf_packet :: "control_packet \<Rightarrow> bool" where
  "wf_packet p \<longleftrightarrow> IsControl (Opcode p) \<and> KeyID p AND 7 = KeyID p \<and> length (SessionID p) = 8 \<and>
     length (Acks p) \<le> 8 \<and> length (RemoteSessionID p) = 8 \<and>
     (Acks p = [] \<longrightarrow> RemoteSessionID p = zeroSessionID) \<and>
     (\<not> HasMessageID p \<longrightarrow> PacketID p = 0 \<and> Payload p = [])"

lemma HasMessageID_upd [simp]:
  "HasMessageID (p\<lparr>Acks := a\<rparr>) = HasMessageID p"
  "HasMessageID (p\<lparr>RemoteSessionID := s\<rparr>) = HasMessageID p"
  "HasMessageID (p\<lparr>PacketID := i\<rparr>) = HasMessageID p"
  "HasMessageID (p\<lparr>Payload := b\<rparr>) = HasMessageID p"
  by (simp_all add: HasMessageID_def)

lemma parseTail_append:
  "(\<not> HasMessageID p \<longrightarrow> i = 0 \<and> pl = []) \<Longrightarrow>
   parseTail p ((if HasMessageID p then be32 i @ pl else []) @ rest)
     = Inr (p\<lparr>PacketID := i, Payload := (if HasMessageID p then pl @ rest else [])\<rparr>)"
  by (simp add: parseTail_def gfrom_ok glen_def)

text \<open>
  Parsing a body that \<open>AppendBody\<close> wrote, followed by any bytes: a message takes them into
  its payload, a \<open>P_ACK_V1\<close> ignores them.
\<close>

lemma ParseBody_AppendBody:
  assumes wf: "wf_packet p"
    and q: "Opcode q = Opcode p" "KeyID q = KeyID p" "SessionID q = SessionID p"
  shows "ParseBody q (AppendBody [] p @ rest)
     = Inr (p\<lparr>Payload := (if HasMessageID p then Payload p @ rest else [])\<rparr>)"
proof -
  have n: "uint (of_nat (length (Acks p)) :: u8) = int (length (Acks p))" "length (Acks p) \<le> 8"
    using wf by (simp_all add: wf_packet_def unsigned_of_nat take_bit_nat_eq_self)
  have hq: "HasMessageID q = HasMessageID p" using q by (simp add: HasMessageID_def)
  have rs: "length (RemoteSessionID p) = 8" using wf by (simp add: wf_packet_def)
  let ?tail = "(if HasMessageID p then be32 (PacketID p) @ Payload p else []) @ rest"
  have t: "parseTail r ?tail = Inr (r\<lparr>PacketID := PacketID p,
      Payload := (if HasMessageID p then Payload p @ rest else [])\<rparr>)"
    if "HasMessageID r = HasMessageID p" for r
    using parseTail_append [of r "PacketID p" "Payload p" rest] that wf by (simp add: wf_packet_def)
  show ?thesis
  proof (cases "Acks p = []")
    case True
    then have "ParseBody q (AppendBody [] p @ rest)
        = parseTail (q\<lparr>Acks := [], RemoteSessionID := zeroSessionID\<rparr>) ?tail"
      by (simp add: AppendBody_eq ParseBody_def gidx_ok gfrom_ok glen_def MaxAcks_def)
    then show ?thesis using t hq q wf True by (auto simp: wf_packet_def)
  next
    case False
    have "ParseBody q (AppendBody [] p @ rest)
        = parseTail (q\<lparr>Acks := Acks p, RemoteSessionID := RemoteSessionID p\<rparr>) ?tail"
      using False n rs
      by (simp add: AppendBody_eq ParseBody_def gidx_ok gfrom_ok gslice_ok glen_def MaxAcks_def
          parseAcks_body nat_mult_distrib)
    then show ?thesis using t hq q by auto
  qed
qed

lemma Marshal_eq: "Marshal p = (Header (Opcode p) (KeyID p) # SessionID p) @ AppendBody [] p"
  by (simp add: Marshal_def AppendBody_eq)

lemma Unmarshal_Cons:
  assumes "length sid = 8"
  shows "Unmarshal (h # sid @ body) =
    (let (op, key) = SplitHeader h in
     if \<not> IsControl op then Inl (Err ErrBadOpcode)
     else ParseBody \<lparr>Opcode = op, KeyID = key, SessionID = sid, Acks = [],
           RemoteSessionID = zeroSessionID, PacketID = 0, Payload = []\<rparr> body)"
  using assms by (simp add: Unmarshal_def gidx_ok gfrom_ok gslice_ok glen_def split: prod.split)

theorem Unmarshal_Marshal_append:
  assumes "wf_packet p"
  shows "Unmarshal (Marshal p @ rest)
     = Inr (p\<lparr>Payload := (if HasMessageID p then Payload p @ rest else [])\<rparr>)"
proof -
  have l: "length (SessionID p) = 8" and op: "IsControl (Opcode p)" and k: "KeyID p AND 7 = KeyID p"
    using assms by (simp_all add: wf_packet_def)
  have "Unmarshal (Header (Opcode p) (KeyID p) # SessionID p @ AppendBody [] p @ rest)
      = Inr (p\<lparr>Payload := (if HasMessageID p then Payload p @ rest else [])\<rparr>)"
    using op k assms
    by (simp add: Unmarshal_Cons [OF l] SplitHeader_Header IsControl_mask
        ParseBody_AppendBody)
  then show ?thesis by (simp add: Marshal_eq)
qed

lemma parseAcks_total:
  assumes "0 \<le> i" "4 * (i + int k) \<le> glen body"
  shows "\<exists>ids. parseAcks body i k = Inr ids \<and> length ids = k \<and>
           concat (map be32 ids) = take (4 * k) (drop (nat (4 * i)) body)"
  using assms
proof (induction k arbitrary: i)
  case 0
  then show ?case by simp
next
  case (Suc k)
  let ?s = "drop (nat (4 * i)) body"
  have len: "nat (4 * i) + 4 * Suc k \<le> length body"
    using Suc.prems by (simp add: glen_def)
  from Suc.IH [of "i + 1"] Suc.prems obtain ids where
    ids: "parseAcks body (i + 1) k = Inr ids" "length ids = k"
      "concat (map be32 ids) = take (4 * k) (drop (nat (4 * (i + 1))) body)"
    by auto
  have "4 \<le> length ?s" using len by simp
  then obtain v where v: "getU32 ?s = (Inr v :: (wire_err, u32) res)"
    using getU32_total by blast
  have "nat (4 * (i + 1)) = 4 + nat (4 * i)" using Suc.prems(1) by simp
  then have "concat (map be32 (v # ids)) = take 4 ?s @ take (4 * k) (drop 4 ?s)"
    using getU32_inv [OF v] ids(3) by simp
  also have "\<dots> = take (4 * Suc k) ?s" by (simp add: take_add)
  finally show ?case
    using ids v Suc.prems by (intro exI [of _ "v # ids"]) (simp add: gfrom_ok)
qed

lemma parseTail_no_panic: "\<not> panics (parseTail p body)"
proof (cases "glen body < 4")
  case True
  then show ?thesis by (simp add: parseTail_def)
next
  case False
  then obtain v where "getU32 body = (Inr v :: (wire_err, u32) res)"
    using getU32_total [of body] by (auto simp: glen_def)
  with False show ?thesis by (simp add: parseTail_def gfrom_ok)
qed

lemma ParseBody_no_panic: "\<not> panics (ParseBody p body)"
proof (cases body)
  case Nil
  then show ?thesis by (simp add: ParseBody_def)
next
  case (Cons b0 rest)
  show ?thesis
  proof (cases "uint b0 > MaxAcks \<or> glen rest < 4 * uint b0")
    case True
    with Cons show ?thesis by (auto simp: ParseBody_def go_simps Let_def)
  next
    case False
    then obtain ids where "parseAcks rest 0 (nat (uint b0)) = Inr ids"
      using parseAcks_total [of 0 "nat (uint b0)" rest] by auto
    with Cons False show ?thesis
      by (auto simp: ParseBody_def go_simps Let_def parseTail_no_panic)
  qed
qed


lemma parseTail_inv:
  assumes "parseTail q body = Inr p"
  shows "\<exists>rest. body = (if HasMessageID p then be32 (PacketID p) @ Payload p else []) @ rest \<and>
     (HasMessageID p \<longrightarrow> rest = []) \<and> (\<not> HasMessageID p \<longrightarrow> PacketID p = 0 \<and> Payload p = []) \<and>
     Opcode p = Opcode q \<and> KeyID p = KeyID q \<and> SessionID p = SessionID q \<and> Acks p = Acks q \<and>
     RemoteSessionID p = RemoteSessionID q"
proof (cases "HasMessageID q")
  case False
  with assms show ?thesis by (auto simp: parseTail_def)
next
  case True
  with assms have len: "\<not> glen body < 4" by (auto simp: parseTail_def)
  then obtain v where v: "getU32 body = (Inr v :: (wire_err, u32) res)"
    using getU32_total [of body] by (auto simp: glen_def)
  with assms True len have p: "p = q\<lparr>PacketID := v, Payload := drop 4 body\<rparr>"
    by (auto simp: parseTail_def gfrom_ok)
  have "body = be32 v @ drop 4 body"
    using getU32_inv [OF v] by (metis append_take_drop_id)
  with p True show ?thesis by auto
qed

lemma ParseBody_inv:
  assumes "ParseBody q body = Inr p"
  shows "\<exists>rest. body = AppendBody [] p @ rest \<and> (HasMessageID p \<longrightarrow> rest = []) \<and>
     (\<not> HasMessageID p \<longrightarrow> PacketID p = 0 \<and> Payload p = []) \<and>
     Opcode p = Opcode q \<and> KeyID p = KeyID q \<and> SessionID p = SessionID q \<and>
     length (Acks p) \<le> 8 \<and> length (RemoteSessionID p) = 8 \<and>
     (Acks p = [] \<longrightarrow> RemoteSessionID p = zeroSessionID)"
proof (cases body)
  case Nil
  with assms show ?thesis by (simp add: ParseBody_def)
next
  case (Cons b0 tl)
  let ?n = "nat (uint b0)"
  from assms Cons have n: "uint b0 \<le> 8" "4 * uint b0 \<le> glen tl"
    by (auto simp: ParseBody_def go_simps Let_def MaxAcks_def split: if_splits)
  have b0: "of_nat ?n = b0" by (simp add: nat_uint_eq)
  obtain ids where ids: "parseAcks tl 0 ?n = Inr ids" "length ids = ?n"
      "concat (map be32 ids) = take (4 * ?n) tl"
    using parseAcks_total [of 0 ?n tl] n by auto
  show ?thesis
  proof (cases "uint b0 = 0")
    case True
    with assms Cons have "parseTail (q\<lparr>Acks := [], RemoteSessionID := zeroSessionID\<rparr>) tl = Inr p"
      by (auto simp: ParseBody_def go_simps Let_def MaxAcks_def split: if_splits)
    from parseTail_inv [OF this] Cons b0 True show ?thesis
      by (auto simp: AppendBody_eq zeroSessionID_def)
  next
    case False
    let ?body = "drop (4 * ?n) tl"
    have pos: "uint b0 > 0" using False unsigned_greater_eq [of b0] by (simp add: less_le)
    with assms Cons n ids have len: "\<not> glen ?body < 8"
      and t: "parseTail (q\<lparr>Acks := ids, RemoteSessionID := take 8 ?body\<rparr>) (drop 8 ?body) = Inr p"
      by (auto simp: ParseBody_def go_simps Let_def MaxAcks_def nat_mult_distrib split: if_splits)
    from parseTail_inv [OF t] obtain rest where
      r: "drop 8 ?body = (if HasMessageID p then be32 (PacketID p) @ Payload p else []) @ rest"
        "HasMessageID p \<longrightarrow> rest = []" "\<not> HasMessageID p \<longrightarrow> PacketID p = 0 \<and> Payload p = []"
        "Opcode p = Opcode q" "KeyID p = KeyID q" "SessionID p = SessionID q" "Acks p = ids"
        "RemoteSessionID p = take 8 ?body"
      by auto
    have "0 < ?n" using pos by linarith
    then have "ids \<noteq> []" using ids(2) by force
    moreover have "tl = concat (map be32 ids) @ take 8 ?body @ drop 8 ?body"
      unfolding ids(3) by (simp only: append_take_drop_id)
    ultimately have "body = AppendBody [] p @ rest"
      unfolding r(1) using Cons b0 ids(2) r(7,8) by (simp add: AppendBody_eq)
    moreover have "?n \<le> 8" using n(1) by linarith
    ultimately show ?thesis using r ids len \<open>ids \<noteq> []\<close> by (auto simp: glen_def)
  qed
qed

text \<open>
  What \<open>Unmarshal\<close> accepts is exactly the image of \<open>Marshal\<close>: an accepted packet is
  well-formed, and encoding it gives back the bytes read, but for what followed a \<open>P_ACK_V1\<close>.
\<close>

lemma Unmarshal_inv:
  assumes "Unmarshal b = Inr p"
  shows "wf_packet p \<and> (\<exists>rest. b = Marshal p @ rest \<and> (HasMessageID p \<longrightarrow> rest = []))"
proof -
  from assms have len: "9 \<le> length b" by (auto simp: Unmarshal_def glen_def split: if_splits)
  then obtain h tl where b: "b = h # tl" by (cases b) auto
  let ?sid = "take 8 tl" and ?body = "drop 8 tl"
  have split: "b = h # ?sid @ ?body" and l8: "length ?sid = 8" using b len by auto
  obtain op key where hd: "SplitHeader h = (op, key)" by (cases "SplitHeader h")
  from assms hd have op: "IsControl op"
    and pb: "ParseBody \<lparr>Opcode = op, KeyID = key, SessionID = ?sid, Acks = [],
           RemoteSessionID = zeroSessionID, PacketID = 0, Payload = []\<rparr> ?body = Inr p"
    by (auto simp: Unmarshal_Cons [OF l8] split simp del: append_take_drop_id split: if_splits)
  from ParseBody_inv [OF pb] obtain rest where
    r: "?body = AppendBody [] p @ rest" "HasMessageID p \<longrightarrow> rest = []"
      "\<not> HasMessageID p \<longrightarrow> PacketID p = 0 \<and> Payload p = []"
      "Opcode p = op" "KeyID p = key" "SessionID p = ?sid" "length (Acks p) \<le> 8"
      "length (RemoteSessionID p) = 8" "Acks p = [] \<longrightarrow> RemoteSessionID p = zeroSessionID"
    by auto
  have key: "key AND 7 = key" and h: "Header op key = h"
    using hd by (auto simp: SplitHeader_def KeyIDMask_def Header_def push_bit_drop_bit_or_low3)
  have "wf_packet p" using op key r l8 by (simp add: wf_packet_def)
  moreover have "b = Marshal p @ rest" using split r h by (simp add: Marshal_eq)
  ultimately show ?thesis using r(2) by blast
qed

text \<open>
  Claim C4. The control packet codec is exact: encoding a well-formed packet and decoding the
  result gives the packet back, and whatever \<open>Unmarshal\<close> accepts is a well-formed packet
  whose encoding is the bytes read, all of them for a message and a prefix of them for a
  \<open>P_ACK_V1\<close>, which ignores what follows.
\<close>

theorem control_packet_codec:
  "(wf_packet p \<longrightarrow> Unmarshal (Marshal p) = Inr p) \<and>
   (Unmarshal b = Inr p \<longrightarrow>
      wf_packet p \<and> (\<exists>rest. b = Marshal p @ rest \<and> (HasMessageID p \<longrightarrow> rest = [])))"
proof (intro conjI impI)
  assume wf: "wf_packet p"
  then have "p\<lparr>Payload := (if HasMessageID p then Payload p @ [] else [])\<rparr> = p"
    by (auto simp: wf_packet_def)
  with Unmarshal_Marshal_append [OF wf, of "[]"] show "Unmarshal (Marshal p) = Inr p" by simp
qed (use Unmarshal_inv in blast)+

section \<open>The data header and the TCP framing\<close>

lemma peer_id_join:
  "push_bit 16 (ucast (ucast (drop_bit 16 v) :: u8)) OR push_bit 8 (ucast (ucast (drop_bit 8 v) :: u8))
     OR ucast (ucast v :: u8) = (take_bit 24 v :: u32)"
proof (rule bit_word_eqI)
  fix n
  assume "n < LENGTH(32)"
  then consider "n < 8" | "8 \<le> n" "n < 16" | "16 \<le> n" "n < 24" | "24 \<le> n" "n < 32"
    by fastforce
  then show "bit (push_bit 16 (ucast (ucast (drop_bit 16 v) :: u8)) OR
      push_bit 8 (ucast (ucast (drop_bit 8 v) :: u8)) OR ucast (ucast v :: u8) :: u32) n
      = bit (take_bit 24 v) n"
    by cases (auto simp: bit_simps)
qed

text \<open>
  The data-channel header reads back from any packet that starts with it: the low
  three bits of the key id, the low 24 bits of the peer id (a channel without a peer id sends
  \<open>P_DATA_V1\<close> and reads back as having none), and the length of the header itself.
\<close>

theorem data_header_roundtrip:
  "ParseDataHeader (AppendDataHeader [] keyID peerID @ rest) =
    Inr (if peerID = NoPeerID then (DataV1, keyID AND 7, NoPeerID, 1)
         else (DataV2, keyID AND 7, take_bit 24 peerID, 4)) \<and>
   int (length (AppendDataHeader [] keyID peerID)) = (if peerID = NoPeerID then 1 else 4)"
  by (simp add: AppendDataHeader_def ParseDataHeader_def SplitHeader_Header gidx_ok glen_def
      opcode_defs peer_id_join)

lemma ReadPacket_frame:
  assumes "glen pkt \<le> MaxPacketSize"
  shows "ReadPacket (be16 (of_nat (length pkt)) @ pkt @ rest) bufLen =
    (if length pkt \<le> bufLen then (Inr pkt, rest) else (Inl (Err ErrShortBuffer), rest))"
proof -
  have n: "unat (of_nat (length pkt) :: u16) = length pkt"
    using assms by (simp add: glen_def MaxPacketSize_def unat_of_nat)
  have "ReadFull (be16 (of_nat (length pkt)) @ pkt @ rest) 2
      = (Inr (be16 (of_nat (length pkt))), pkt @ rest)"
    by (simp add: ReadFull_def be16_def)
  moreover have "getU16 (be16 v) = (Inr v :: (io_err, u16) res)" for v
    using getU16_be16 [of v "[]"] by simp
  ultimately show ?thesis
    using n by (auto simp: ReadPacket_def CopyNDiscard_def ReadFull_def Let_def)
qed

text \<open>A sender framing packets one after another, and a reader taking \<open>k\<close> packets.\<close>

fun sendFrames :: "bytes \<Rightarrow> bytes list \<Rightarrow> bytes" where
  "sendFrames dst [] = dst"
| "sendFrames dst (p # ps) = sendFrames (fst (AppendFrame dst p)) ps"

fun readFrames :: "nat \<Rightarrow> bytes \<Rightarrow> nat \<Rightarrow> (io_err, bytes) res list \<times> bytes" where
  "readFrames 0 r bufLen = ([], r)"
| "readFrames (Suc k) r bufLen =
     (let (p, r) = ReadPacket r bufLen; (ps, r) = readFrames k r bufLen in (p # ps, r))"

lemma sendFrames_eq:
  "\<forall>p \<in> set ps. glen p \<le> MaxPacketSize \<Longrightarrow>
     sendFrames dst ps = dst @ concat (map (\<lambda>p. be16 (of_nat (length p)) @ p) ps)"
  by (induction ps arbitrary: dst) (auto simp: AppendFrame_def)

text \<open>
  Claim C7. The framing keeps a TCP stream in step: reading as many packets as were framed
  returns each of them in order, one too long for the buffer as \<open>ErrShortBuffer\<close> without
  disturbing its successors, and leaves the reader exactly behind the last.
\<close>

theorem frames_stay_in_sync:
  assumes "\<forall>p \<in> set ps. glen p \<le> MaxPacketSize"
  shows "readFrames (length ps) (sendFrames [] ps @ rest) bufLen =
    (map (\<lambda>p. if length p \<le> bufLen then Inr p else Inl (Err ErrShortBuffer)) ps, rest)"
  using assms unfolding sendFrames_eq [OF assms]
proof (induction ps)
  case Nil
  then show ?case by simp
next
  case (Cons p ps)
  then have "readFrames (length ps) (concat (map (\<lambda>p. be16 (of_nat (length p)) @ p) ps) @ rest) bufLen =
    (map (\<lambda>p. if length p \<le> bufLen then Inr p else Inl (Err ErrShortBuffer)) ps, rest)"
    by simp
  with Cons.prems show ?case by (simp add: ReadPacket_frame)
qed

theorem frames_stay_in_sync_witness:
  "readFrames 2 (sendFrames [] [[1, 2], [3, 4, 5]] @ [9]) 2 =
     ([Inr [1, 2], Inl (Err ErrShortBuffer)], [9])"
  using frames_stay_in_sync [of "[[1, 2], [3, 4, 5]]" "[9]" 2]
  by (simp add: MaxPacketSize_def numeral_2_eq_2 del: readFrames.simps sendFrames.simps)

theorem control_packet_codec_witness:
  "let p = \<lparr>Opcode = ControlV1, KeyID = 1, SessionID = [1, 2, 3, 4, 5, 6, 7, 8], Acks = [258, 7],
       RemoteSessionID = [8, 7, 6, 5, 4, 3, 2, 1], PacketID = 65537, Payload = [10, 20]\<rparr>
   in wf_packet p \<and> Unmarshal (Marshal p) = Inr p \<and> length (Marshal p) = 32"
  using control_packet_codec [of "\<lparr>Opcode = ControlV1, KeyID = 1, SessionID = [1, 2, 3, 4, 5, 6, 7, 8],
       Acks = [258, 7], RemoteSessionID = [8, 7, 6, 5, 4, 3, 2, 1], PacketID = 65537, Payload = [10, 20]\<rparr>"
       "[]"]
  by (simp add: wf_packet_def IsControl_def HasMessageID_def opcode_defs Marshal_eq AppendBody_eq)

end
