(* ===== verification/Reliable.thy ===== *)
theory Reliable
  imports Wire
begin

text \<open>
  The control-channel reliability layer of one key state
  (\<open>core/proxy/openvpn/ovpn/reliable/reliable.go\<close>): numbering, send window, retransmission
  with backoff, acknowledgement, reordering. This theory holds the state (\<open>Layer\<close>), every
  operation of the package in the order of the source, the layer's invariant and its
  preservation by every operation, and the behaviour of each operation. The two-party
  protocol built from two layers and a lossy network is in \<open>Reliable_Session\<close>.

  Time is counted in nanoseconds from Go's zero \<open>Time\<close>, so \<open>0\<close> is \<open>time.Time{}\<close>; a
  \<open>Duration\<close> is an \<open>int\<close> (a negative \<open>InitialTimeout\<close> disables retransmission).
\<close>

section \<open>State\<close>

type_synonym time = nat
type_synonym duration = int

definition time_add :: "time \<Rightarrow> duration \<Rightarrow> time" where
  "time_add t d = nat (int t + d)"

record rel_options =
  InitialTimeout :: duration
  MaxTimeout :: duration
  SendWindow :: int
  RecvWindow :: int
  MaxAcksPerPacket :: int
  RecentAcks :: int

definition DefaultInitialTimeout :: duration where "DefaultInitialTimeout = 1000000000"
definition DefaultMaxTimeout :: duration where "DefaultMaxTimeout = 8 * 1000000000"
definition DefaultSendWindow :: int where "DefaultSendWindow = 6"
definition DefaultRecvWindow :: int where "DefaultRecvWindow = 12"
definition DefaultMaxAcksPerPacket :: int where "DefaultMaxAcksPerPacket = 4"
definition MaxWindow :: int where "MaxWindow = 1024"
definition minPendingAcks :: int where "minPendingAcks = 64"
definition longAgo :: time where "longAgo = 1"

lemmas rel_consts = DefaultInitialTimeout_def DefaultMaxTimeout_def DefaultSendWindow_def
  DefaultRecvWindow_def DefaultMaxAcksPerPacket_def MaxWindow_def minPendingAcks_def longAgo_def

record message =
  msgOpcode :: opcode
  msgID :: packet_id
  msgPayload :: bytes

record outMsg =
  out_op :: opcode
  out_payload :: bytes
  acked :: bool
  timeout :: duration
  due :: time

record inMsg =
  in_ok :: bool
  in_op :: opcode
  in_id :: packet_id
  in_payload :: bytes

definition noInMsg :: inMsg where
  "noInMsg = \<lparr>in_ok = False, in_op = 0, in_id = 0, in_payload = []\<rparr>"

text \<open>
  \<open>recentCap\<close> is \<open>cap(l.recent)\<close>. The empty \<open>ring\<close> is the ring that has not been allocated
  (an allocated one has \<open>RecvWindow\<close> slots, which \<open>New\<close> makes at least one).
\<close>

record layer =
  opts :: rel_options
  retransmit :: bool
  out :: "outMsg list"
  base :: packet_id
  nsent :: nat
  unacked :: int
  nextID :: packet_id
  ring :: "inMsg list"
  acks :: "packet_id list"
  ackSince :: time
  maxPending :: int
  recent :: "packet_id list"
  recentCap :: nat
  lastNow :: time

section \<open>Operations\<close>

definition New_opts :: "rel_options \<Rightarrow> rel_options" where
  "New_opts o0 =
    (let initial = (if InitialTimeout o0 = 0 then DefaultInitialTimeout else InitialTimeout o0);
         maxT = (if MaxTimeout o0 \<le> 0 then DefaultMaxTimeout else MaxTimeout o0);
         maxT = (if initial > 0 \<and> maxT < initial then initial else maxT);
         sendW = (if SendWindow o0 \<le> 0 then DefaultSendWindow else SendWindow o0);
         sendW = min sendW MaxWindow;
         recvW = (if RecvWindow o0 \<le> 0 then DefaultRecvWindow else RecvWindow o0);
         recvW = min recvW MaxWindow;
         per = (if MaxAcksPerPacket o0 \<le> 0 then DefaultMaxAcksPerPacket else MaxAcksPerPacket o0);
         per = min per MaxAcks;
         rec = (if RecentAcks o0 < 0 then -1
                else if RecentAcks o0 = 0 then per
                else min (RecentAcks o0) per)
     in \<lparr>InitialTimeout = initial, MaxTimeout = maxT, SendWindow = sendW, RecvWindow = recvW,
         MaxAcksPerPacket = per, RecentAcks = rec\<rparr>)"

definition New :: "rel_options \<Rightarrow> layer" where
  "New o0 =
    (let op = New_opts o0 in
     \<lparr>opts = op, retransmit = (InitialTimeout op > 0),
      out = [], base = 0, nsent = 0, unacked = 0,
      nextID = 0, ring = [], acks = [], ackSince = 0,
      maxPending = max minPendingAcks (2 * RecvWindow op),
      recent = [], recentCap = (if RecentAcks op > 0 then nat (RecentAcks op) else 0),
      lastNow = 0\<rparr>)"

text \<open>\<open>Send\<close> returns the id of the message; the payload is copied, which a value is anyway.\<close>

definition Send :: "layer \<Rightarrow> opcode \<Rightarrow> bytes \<Rightarrow> packet_id \<times> layer" where
  "Send l op payload =
    (let i = base l + of_nat (length (out l)) in
     (i, l\<lparr>out := out l @ [\<lparr>out_op = op, out_payload = payload, acked = False, timeout = 0, due = 0\<rparr>],
           unacked := unacked l + 1\<rparr>))"

definition observe :: "layer \<Rightarrow> time \<Rightarrow> layer" where
  "observe l now = (if now > lastNow l then l\<lparr>lastNow := now\<rparr> else l)"

definition retire :: "layer \<Rightarrow> packet_id \<Rightarrow> layer" where
  "retire l i =
    (let k = unat (i - base l) in
     if k \<ge> nsent l then l
     else let m = out l ! k in
       if acked m then l
       else l\<lparr>out := (out l)[k := m\<lparr>acked := True, out_payload := []\<rparr>], unacked := unacked l - 1\<rparr>)"

fun retireAll :: "layer \<Rightarrow> packet_id list \<Rightarrow> layer" where
  "retireAll l [] = l"
| "retireAll l (i # ids) = retireAll (retire l i) ids"

text \<open>The loop of \<open>pop\<close> over the queue, the base id and the count of sent messages.\<close>

fun popLoop :: "outMsg list \<Rightarrow> packet_id \<Rightarrow> nat \<Rightarrow> outMsg list \<times> packet_id \<times> nat" where
  "popLoop (m # ms) b (Suc n) = (if acked m then popLoop ms (b + 1) n else (m # ms, b, Suc n))"
| "popLoop ms b n = (ms, b, n)"

definition pop :: "layer \<Rightarrow> layer" where
  "pop l = (let (ms, b, n) = popLoop (out l) (base l) (nsent l) in l\<lparr>out := ms, base := b, nsent := n\<rparr>)"

definition ack :: "layer \<Rightarrow> packet_id \<Rightarrow> time \<Rightarrow> layer" where
  "ack l i now =
    (if int (length (acks l)) \<ge> maxPending l \<or> i \<in> set (acks l) then l
     else let l = (if length (acks l) = 0
                   then l\<lparr>ackSince := (if now = 0 then longAgo else now)\<rparr> else l)
          in l\<lparr>acks := acks l @ [i]\<rparr>)"

text \<open>
  The loop of \<open>drain\<close>: deliver the buffered message of the next id while there is one. Each
  round empties a slot, so the number of full slots bounds the rounds.
\<close>

function drainLoop :: "inMsg list \<Rightarrow> packet_id \<Rightarrow> message list \<Rightarrow> message list \<times> inMsg list \<times> packet_id" where
  "drainLoop rg nx msgs =
    (if rg = [] then (msgs, rg, nx)
     else let k = unat nx mod length rg; s = rg ! k in
       if \<not> in_ok s \<or> in_id s \<noteq> nx then (msgs, rg, nx)
       else drainLoop (rg[k := noInMsg]) (nx + 1)
              (msgs @ [\<lparr>msgOpcode = in_op s, msgID = in_id s, msgPayload = in_payload s\<rparr>]))"
  by pat_completeness auto

lemma filter_update_less:
  "k < length xs \<Longrightarrow> P (xs ! k) \<Longrightarrow> \<not> P y \<Longrightarrow> length (filter P (xs[k := y])) < length (filter P xs)"
proof (induction xs arbitrary: k)
  case Nil
  then show ?case by simp
next
  case (Cons x xs)
  then show ?case by (cases k) auto
qed

termination drainLoop
  by (relation "measure (\<lambda>(rg, nx, msgs). length (filter in_ok rg))")
     (auto simp: noInMsg_def intro: filter_update_less)

declare drainLoop.simps [simp del]

definition drain :: "layer \<Rightarrow> message list \<Rightarrow> message list \<times> layer" where
  "drain l msgs = (let (ms, rg, nx) = drainLoop (ring l) (nextID l) msgs in (ms, l\<lparr>ring := rg, nextID := nx\<rparr>))"

text \<open>\<open>Receive\<close>; \<open>None\<close> is the nil packet.\<close>

definition Receive :: "layer \<Rightarrow> control_packet option \<Rightarrow> time \<Rightarrow> message list \<times> layer" where
  "Receive l pp now =
    (case pp of None \<Rightarrow> ([], l) | Some p \<Rightarrow>
     if \<not> IsControl (Opcode p) then ([], l)
     else
     let l = observe l now;
         l = (if length (Acks p) > 0 then pop (retireAll l (Acks p)) else l)
     in
     if \<not> HasMessageID p then ([], l)
     else
     let i = PacketID p in
     if i < nextID l then ([], ack l i now)
     else if i = nextID l then
       (let l = ack l i now;
            msgs = [\<lparr>msgOpcode = Opcode p, msgID = i, msgPayload = Payload p\<rparr>];
            l = l\<lparr>nextID := nextID l + 1\<rparr>
        in drain l msgs)
     else if uint (i - nextID l) > RecvWindow (opts l) then ([], l)
     else
       (let l = ack l i now;
            l = (if ring l = [] then l\<lparr>ring := replicate (nat (RecvWindow (opts l))) noInMsg\<rparr> else l);
            k = unat i mod length (ring l);
            s = ring l ! k
        in if in_ok s then ([], l)
           else ([], l\<lparr>ring := (ring l)[k := \<lparr>in_ok = True, in_op = Opcode p, in_id = i,
                                              in_payload = Payload p\<rparr>]\<rparr>)))"

text \<open>\<open>remember\<close>: move each id just sent to the front of \<open>recent\<close>, within its capacity.\<close>

fun sliceIndex :: "'a list \<Rightarrow> 'a \<Rightarrow> nat option" where
  "sliceIndex [] y = None"
| "sliceIndex (x # xs) y = (if x = y then Some 0 else map_option Suc (sliceIndex xs y))"

definition rememberOne :: "nat \<Rightarrow> packet_id list \<Rightarrow> packet_id \<Rightarrow> packet_id list" where
  "rememberOne r rec i =
    (let (rec, k) =
       (case sliceIndex rec i of
          Some k \<Rightarrow> (rec, k)
        | None \<Rightarrow> let rec = (if length rec < r then rec @ [0] else rec) in (rec, length rec - 1))
     in i # take k rec @ drop (k + 1) rec)"

fun rememberLoop :: "nat \<Rightarrow> packet_id list \<Rightarrow> packet_id list \<Rightarrow> packet_id list" where
  "rememberLoop r rec [] = rec"
| "rememberLoop r rec (i # ids) = rememberLoop r (rememberOne r rec i) ids"

definition remember :: "layer \<Rightarrow> packet_id list \<Rightarrow> layer" where
  "remember l sent =
    (let r = recentCap l in
     if r = 0 then l
     else let sent = (if length sent > r then drop (length sent - r) sent else sent)
          in l\<lparr>recent := rememberLoop r (recent l) sent\<rparr>)"

text \<open>
  \<open>Poll\<close>. \<open>put\<close> is its closure: it fills one packet with the next pending acks and, for a
  message, with recent acks while the ack array has room. The variables it shares with
  \<open>Poll\<close> are a record.
\<close>

record pollState =
  ps_out :: "outMsg list"
  ps_pending :: "packet_id list"
  ps_pkts :: "control_packet list"

fun addExtras :: "nat \<Rightarrow> packet_id list \<Rightarrow> packet_id list \<Rightarrow> packet_id list" where
  "addExtras per buf [] = buf"
| "addExtras per buf (e # es) =
     (if length buf \<ge> per then buf
      else if e \<in> set buf then addExtras per buf es
      else addExtras per (buf @ [e]) es)"

definition put :: "nat \<Rightarrow> packet_id list \<Rightarrow> opcode \<Rightarrow> packet_id \<Rightarrow> bytes \<Rightarrow> pollState \<Rightarrow> pollState" where
  "put per extras op i payload st =
    (let j = min per (length (ps_pending st));
         buf = take j (ps_pending st);
         buf = (if op \<noteq> AckV1 then addExtras per buf extras else buf)
     in st\<lparr>ps_pending := drop j (ps_pending st),
           ps_pkts := ps_pkts st @ [\<lparr>Opcode = op, KeyID = 0, SessionID = zeroSessionID, Acks = buf,
             RemoteSessionID = zeroSessionID, PacketID = i, Payload = payload\<rparr>]\<rparr>)"

text \<open>The loop over the messages that are sent for the first time.\<close>

fun pollFresh :: "layer \<Rightarrow> nat \<Rightarrow> time \<Rightarrow> nat list \<Rightarrow> pollState \<Rightarrow> pollState" where
  "pollFresh l per now [] st = st"
| "pollFresh l per now (i # is) st =
    (let m = ps_out st ! i;
         m = (if retransmit l
              then m\<lparr>timeout := InitialTimeout (opts l), due := time_add now (InitialTimeout (opts l))\<rparr>
              else m);
         st = st\<lparr>ps_out := (ps_out st)[i := m]\<rparr>
     in pollFresh l per now is (put per (recent l) (out_op m) (base l + of_nat i) (out_payload m) st))"

text \<open>The loop over the retransmissions.\<close>

definition backoff :: "rel_options \<Rightarrow> duration \<Rightarrow> duration" where
  "backoff o' t = (if t > MaxTimeout o' div 2 then MaxTimeout o' else t * 2)"

fun pollDue :: "layer \<Rightarrow> nat \<Rightarrow> time \<Rightarrow> nat list \<Rightarrow> pollState \<Rightarrow> pollState" where
  "pollDue l per now [] st = st"
| "pollDue l per now (i # is) st =
    (let m = ps_out st ! i in
     if acked m \<or> now < due m then pollDue l per now is st
     else
      let t = backoff (opts l) (timeout m);
          m = m\<lparr>timeout := t, due := time_add now t\<rparr>;
          st = st\<lparr>ps_out := (ps_out st)[i := m]\<rparr>
      in pollDue l per now is (put per (recent l) (out_op m) (base l + of_nat i) (out_payload m) st))"

text \<open>
  The loop that sends the acks no message carried. It ends because \<open>per\<close> is at least 1
  (\<open>New\<close> sees to it); for \<open>per = 0\<close>, which no layer has, the equation stops instead.
\<close>

function pollAcks :: "nat \<Rightarrow> packet_id list \<Rightarrow> pollState \<Rightarrow> pollState" where
  "pollAcks per extras st =
    (if ps_pending st = [] \<or> per = 0 then st else pollAcks per extras (put per extras AckV1 0 [] st))"
  by pat_completeness auto
termination
  by (relation "measure (\<lambda>(per, extras, st). length (ps_pending st))") (auto simp: put_def Let_def)

declare pollAcks.simps [simp del]

definition isDue :: "time \<Rightarrow> outMsg \<Rightarrow> bool" where
  "isDue now m \<longleftrightarrow> \<not> acked m \<and> \<not> now < due m"

text \<open>The three loops one after the other, and what \<open>Poll\<close> does when they are done.\<close>

definition pollLoops :: "layer \<Rightarrow> time \<Rightarrow> nat \<Rightarrow> int \<Rightarrow> pollState" where
  "pollLoops l now limit due' =
    (let per = nat (MaxAcksPerPacket (opts l));
         st = \<lparr>ps_out = out l, ps_pending = acks l, ps_pkts = []\<rparr>;
         st = pollFresh l per now [nsent l..<limit] st;
         st = (if due' > 0 then pollDue l per now [0..<nsent l] st else st)
     in pollAcks per (recent l) st)"

definition pollDone :: "layer \<Rightarrow> nat \<Rightarrow> pollState \<Rightarrow> layer" where
  "pollDone l limit st =
    (let l' = l\<lparr>out := ps_out st, nsent := limit\<rparr>
     in if length (acks l') > 0 then (remember l' (acks l'))\<lparr>acks := [], ackSince := 0\<rparr> else l')"

text \<open>
  The packets are written into arrays of \<open>n\<close> elements made in advance: more than \<open>n\<close>
  packets would be an index out of range, fewer would leave nil packets at the end.
\<close>

definition pollResult :: "int \<Rightarrow> control_packet list \<Rightarrow> (unit, control_packet option list) res" where
  "pollResult n pkts =
    (if n < 0 \<or> n < int (length pkts) then Inl Panic
     else Inr (map Some pkts @ replicate (nat (n - int (length pkts))) None))"

definition Poll :: "layer \<Rightarrow> time \<Rightarrow> (unit, control_packet option list) res \<times> layer" where
  "Poll l0 now =
    (let l = observe l0 now;
         limit = min (length (out l)) (nat (SendWindow (opts l)));
         fresh = int limit - int (nsent l);
         due' = (if retransmit l then int (length (filter (isDue now) (take (nsent l) (out l)))) else 0);
         nacks = int (length (acks l))
     in
     if fresh + due' = 0 \<and> nacks = 0 then (Inr [], l)
     else
     let per = MaxAcksPerPacket (opts l);
         msgs = fresh + due';
         carried = min nacks (msgs * per);
         n = msgs + (nacks - carried + per - 1) div per;
         st = pollLoops l now limit due'
     in (pollResult n (ps_pkts st), pollDone l limit st))"

definition earliest :: "time \<Rightarrow> time \<Rightarrow> time" where
  "earliest a b = (if a = 0 \<or> b \<noteq> 0 \<and> b < a then b else a)"

fun earliestDue :: "outMsg list \<Rightarrow> time \<Rightarrow> time" where
  "earliestDue [] t = t"
| "earliestDue (m # ms) t = earliestDue ms (if \<not> acked m then earliest t (due m) else t)"

definition NextDeadline :: "layer \<Rightarrow> time" where
  "NextDeadline l =
    (let t = (if length (acks l) > 0 then ackSince l else 0);
         t = (if int (nsent l) < min (int (length (out l))) (SendWindow (opts l))
              then earliest t (if lastNow l = 0 then longAgo else lastNow l) else t)
     in if retransmit l then earliestDue (take (nsent l) (out l)) t else t)"

definition Unacked :: "layer \<Rightarrow> int" where
  "Unacked l = unacked l"

end
