(* ===== verification/Reliable_Recv.thy ===== *)
theory Reliable_Recv
  imports Reliable
begin

text \<open>
  The receive side of the reliability layer: the reorder ring refines a map from ids to
  messages, \<open>drain\<close> delivers the longest run of consecutive ids it holds, and \<open>Receive\<close>
  hands every message to the owner once and in order, whatever packets arrive.
\<close>

section \<open>The ring as a map\<close>

text \<open>What the ring holds for an id.\<close>

definition buffered :: "inMsg list \<Rightarrow> packet_id \<Rightarrow> (opcode \<times> bytes) option" where
  "buffered rg i =
    (if rg = [] then None
     else let s = rg ! (unat i mod length rg) in
       if in_ok s \<and> in_id s = i then Some (in_op s, in_payload s) else None)"

text \<open>
  A ring of \<open>W\<close> slots whose messages have their ids in \<open>[lo, lo + W)\<close> and sit in the slot
  of their id. Such ids have distinct slots, so a slot never has to hold two.
\<close>

definition ring_in :: "nat \<Rightarrow> nat \<Rightarrow> inMsg list \<Rightarrow> bool" where
  "ring_in W lo rg \<longleftrightarrow> rg = [] \<or> length rg = W \<and>
     (\<forall>k < W. in_ok (rg ! k) \<longrightarrow>
        unat (in_id (rg ! k)) mod W = k \<and> lo \<le> unat (in_id (rg ! k)) \<and> unat (in_id (rg ! k)) < lo + W)"

lemma ring_inD:
  assumes "ring_in W lo rg" "k < length rg" "in_ok (rg ! k)"
  shows "unat (in_id (rg ! k)) mod W = k" "lo \<le> unat (in_id (rg ! k))"
    "unat (in_id (rg ! k)) < lo + W" "length rg = W"
  using assms by (auto simp: ring_in_def)

lemma ring_in_Nil [simp]: "ring_in W lo []"
  by (simp add: ring_in_def)

lemma ring_in_replicate [simp]: "ring_in W lo (replicate W noInMsg)"
  by (simp add: ring_in_def noInMsg_def)

lemma buffered_Nil [simp]: "buffered [] i = None"
  by (simp add: buffered_def)

lemma buffered_replicate [simp]: "buffered (replicate W noInMsg) i = None"
  by (cases "W = 0") (simp_all add: buffered_def noInMsg_def Let_def)

lemma buffered_SomeD:
  assumes "buffered rg i = Some c" "ring_in W lo rg"
  shows "lo \<le> unat i \<and> unat i < lo + W"
proof -
  let ?k = "unat i mod length rg"
  from assms(1) have "rg \<noteq> []" "in_ok (rg ! ?k)" "in_id (rg ! ?k) = i"
    by (auto simp: buffered_def Let_def split: if_splits)
  with ring_inD [OF assms(2), of ?k] show ?thesis by auto
qed

lemma buffered_below:
  assumes "ring_in W lo rg" "unat i < lo"
  shows "buffered rg i = None"
proof (rule ccontr)
  assume "buffered rg i \<noteq> None"
  then obtain c where "buffered rg i = Some c" by blast
  from buffered_SomeD [OF this assms(1)] assms(2) show False by simp
qed

lemma mod_eq_window:
  assumes "(a::nat) mod W = b mod W" "lo \<le> a" "a < lo + W" "lo \<le> b" "b < lo + W"
  shows "a = b"
proof (rule ccontr)
  assume "a \<noteq> b"
  then consider "a < b" | "b < a" by linarith
  then show False
  proof cases
    case 1
    with assms have "W dvd (b - a)" by (metis less_imp_le mod_eq_dvd_iff_nat)
    then show False using 1 assms by (auto dest: dvd_imp_le)
  next
    case 2
    with assms have "W dvd (a - b)" by (metis less_imp_le mod_eq_dvd_iff_nat)
    then show False using 2 assms by (auto dest: dvd_imp_le)
  qed
qed

text \<open>Taking the next message out of the ring.\<close>

lemma unat_Suc_word: "unat (nx + 1 :: u32) = (if nx = - 1 then 0 else unat nx + 1)"
proof (cases "nx = - 1")
  case False
  then have "1 + nx \<noteq> 0" by (metis add_eq_0_iff)
  then show ?thesis using False unatSuc [of nx] by (simp add: add.commute)
qed simp

lemma buffered_take:
  assumes ok: "ring_in W (unat nx) rg" and rg: "rg \<noteq> []"
    and s: "in_ok (rg ! (unat nx mod length rg))" "in_id (rg ! (unat nx mod length rg)) = nx"
  shows "buffered (rg[unat nx mod length rg := noInMsg]) i = (if i = nx then None else buffered rg i)"
  using assms by (auto simp: buffered_def Let_def noInMsg_def nth_list_update)

lemma ring_in_take:
  assumes ok: "ring_in W (unat nx) rg" and rg: "rg \<noteq> []"
    and s: "in_ok (rg ! (unat nx mod length rg))" "in_id (rg ! (unat nx mod length rg)) = nx"
  shows "ring_in W (unat (nx + 1)) (rg[unat nx mod length rg := noInMsg])"
proof -
  let ?k = "unat nx mod length rg" and ?rg = "rg[unat nx mod length rg := noInMsg]"
  have W: "length rg = W" "?k < W" using ok rg by (auto simp: ring_in_def)
  have other: "in_ok (rg ! k) \<and> unat nx < unat (in_id (rg ! k)) \<and> k = unat (in_id (rg ! k)) mod W \<and>
      unat (in_id (rg ! k)) < unat nx + W" if "k < W" "in_ok (?rg ! k)" for k
  proof -
    from that W have k: "k \<noteq> ?k" "in_ok (rg ! k)"
      by (auto simp: nth_list_update noInMsg_def split: if_splits)
    have lk: "k < length rg" using that W by simp
    note d = ring_inD [OF ok lk k(2)]
    have "unat (in_id (rg ! k)) \<noteq> unat nx" using d(1) k(1) W(1) by metis
    with d(1,2,3) k(2) show ?thesis by simp
  qed
  have id': "in_id (?rg ! k) = in_id (rg ! k)" if "k < W" "in_ok (?rg ! k)" for k
    using that W by (auto simp: nth_list_update noInMsg_def split: if_splits)
  show ?thesis
  proof (cases "nx = - 1")
    case True
    have "\<not> in_ok (?rg ! k)" if "k < W" for k
    proof
      assume "in_ok (?rg ! k)"
      with other [OF that] True have "unat (- 1 :: u32) < unat (in_id (rg ! k))" by simp
      moreover have "unat (in_id (rg ! k)) \<le> unat (- 1 :: u32)"
        by (simp add: word_le_nat_alt [symmetric])
      ultimately show False by simp
    qed
    then show ?thesis using W by (simp add: ring_in_def)
  next
    case False
    then show ?thesis using W other id' by (fastforce simp: ring_in_def unat_Suc_word)
  qed
qed

section \<open>\<open>drain\<close>\<close>

text \<open>
  \<open>drain\<close> delivers the buffered messages of the ids \<open>nx, nx + 1, \<dots>\<close>, removes exactly
  those, and stops only where the next id is not there.
\<close>

lemma drainLoop_spec:
  assumes "ring_in W (unat nx) rg"
  shows "\<exists>ds rg' nx'. drainLoop rg nx msgs = (msgs @ ds, rg', nx') \<and>
     nx' = nx + of_nat (length ds) \<and>
     (\<forall>k < length ds. msgID (ds ! k) = nx + of_nat k \<and>
        buffered rg (nx + of_nat k) = Some (msgOpcode (ds ! k), msgPayload (ds ! k))) \<and>
     ring_in W (unat nx' + 1) rg' \<and>
     (\<forall>i. buffered rg' i = (if \<exists>k < length ds. i = nx + of_nat k then None else buffered rg i))"
  using assms
proof (induction rg nx msgs rule: drainLoop.induct)
  case (1 rg nx msgs)
  let ?k = "unat nx mod length rg"
  let ?s = "rg ! ?k"
  show ?case
  proof (cases "rg = [] \<or> \<not> in_ok ?s \<or> in_id ?s \<noteq> nx")
    case True
    then have "drainLoop rg nx msgs = (msgs, rg, nx)"
      by (auto simp: drainLoop.simps [of rg nx msgs] Let_def)
    moreover have "ring_in W (unat nx + 1) rg"
    proof (cases "rg = []")
      case False
      have W: "length rg = W" using "1.prems" False by (simp add: ring_in_def)
      have "unat nx < unat (in_id (rg ! k)) \<and> unat (in_id (rg ! k)) < unat nx + 1 + W
          \<and> unat (in_id (rg ! k)) mod W = k" if k: "k < W" "in_ok (rg ! k)" for k
      proof -
        have lk: "k < length rg" using k W by simp
        note d = ring_inD [OF "1.prems" lk k(2)]
        have "unat (in_id (rg ! k)) \<noteq> unat nx"
        proof
          assume eq: "unat (in_id (rg ! k)) = unat nx"
          then have "?k = k" using d(1) W by simp
          moreover have "in_id (rg ! k) = nx" using eq by (simp add: word_unat_eq_iff)
          ultimately show False using True False k(2) by auto
        qed
        then show ?thesis using d(1,2,3) by simp
      qed
      then show ?thesis using W by (fastforce simp: ring_in_def)
    qed simp
    ultimately show ?thesis by (intro exI [of _ "[]"] exI [of _ rg] exI [of _ nx]) simp
  next
    case False
    let ?m = "\<lparr>msgOpcode = in_op ?s, msgID = in_id ?s, msgPayload = in_payload ?s\<rparr>"
    let ?rg = "rg[?k := noInMsg]"
    from False have rg: "rg \<noteq> []" and s: "in_ok ?s" "in_id ?s = nx" by auto
    have step: "drainLoop rg nx msgs = drainLoop ?rg (nx + 1) (msgs @ [?m])"
      using rg s by (simp add: drainLoop.simps [of rg nx msgs] Let_def)
    have "ring_in W (unat (nx + 1)) ?rg" by (rule ring_in_take [OF "1.prems" rg s])
    from "1.IH" [OF rg refl refl _ this] s obtain ds rg' nx' where
      IH: "drainLoop ?rg (nx + 1) (msgs @ [?m]) = ((msgs @ [?m]) @ ds, rg', nx')"
        "nx' = nx + 1 + of_nat (length ds)"
        "\<forall>k < length ds. msgID (ds ! k) = nx + 1 + of_nat k \<and>
           buffered ?rg (nx + 1 + of_nat k) = Some (msgOpcode (ds ! k), msgPayload (ds ! k))"
        "ring_in W (unat nx' + 1) rg'"
        "\<forall>i. buffered rg' i = (if \<exists>k < length ds. i = nx + 1 + of_nat k then None else buffered ?rg i)"
      by auto
    note tk = buffered_take [OF "1.prems" rg s]
    have b0: "buffered rg nx = Some (in_op ?s, in_payload ?s)"
      using rg s by (simp add: buffered_def Let_def)
    have "msgID ((?m # ds) ! k) = nx + of_nat k \<and>
        buffered rg (nx + of_nat k) = Some (msgOpcode ((?m # ds) ! k), msgPayload ((?m # ds) ! k))"
      if "k < length (?m # ds)" for k
      using that IH(3) s b0 by (cases k) (auto simp: tk add.assoc split: if_splits)
    moreover have "buffered rg' i = (if \<exists>k < length (?m # ds). i = nx + of_nat k then None else buffered rg i)" for i
    proof -
      have "(\<exists>k < length (?m # ds). i = nx + of_nat k) \<longleftrightarrow>
          i = nx \<or> (\<exists>k < length ds. i = nx + 1 + of_nat k)"
        by (auto simp: less_Suc_eq_0_disj add.assoc)
      then show ?thesis using IH(5) by (auto simp: tk)
    qed
    ultimately show ?thesis
      using step IH(1,2,4) by (intro exI [of _ "?m # ds"] exI [of _ rg'] exI [of _ nx']) (simp add: add.assoc)
  qed
qed

section \<open>\<open>Receive\<close>\<close>

text \<open>The send-side steps and the recording of acks leave the receive side alone.\<close>

lemma observe_frame [simp]:
  "opts (observe l t) = opts l" "retransmit (observe l t) = retransmit l" "out (observe l t) = out l"
  "base (observe l t) = base l" "nsent (observe l t) = nsent l" "unacked (observe l t) = unacked l"
  "nextID (observe l t) = nextID l" "ring (observe l t) = ring l" "acks (observe l t) = acks l"
  "ackSince (observe l t) = ackSince l" "maxPending (observe l t) = maxPending l"
  "recent (observe l t) = recent l" "recentCap (observe l t) = recentCap l"
  by (simp_all add: observe_def)

lemma retire_frame [simp]:
  "opts (retire l i) = opts l" "retransmit (retire l i) = retransmit l"
  "base (retire l i) = base l" "nsent (retire l i) = nsent l"
  "nextID (retire l i) = nextID l" "ring (retire l i) = ring l" "acks (retire l i) = acks l"
  "ackSince (retire l i) = ackSince l" "maxPending (retire l i) = maxPending l"
  "recent (retire l i) = recent l" "recentCap (retire l i) = recentCap l" "lastNow (retire l i) = lastNow l"
  by (simp_all add: retire_def Let_def)

lemma retireAll_frame [simp]:
  "opts (retireAll l ids) = opts l" "retransmit (retireAll l ids) = retransmit l"
  "base (retireAll l ids) = base l" "nsent (retireAll l ids) = nsent l"
  "nextID (retireAll l ids) = nextID l" "ring (retireAll l ids) = ring l" "acks (retireAll l ids) = acks l"
  "ackSince (retireAll l ids) = ackSince l" "maxPending (retireAll l ids) = maxPending l"
  "recent (retireAll l ids) = recent l" "recentCap (retireAll l ids) = recentCap l"
  "lastNow (retireAll l ids) = lastNow l"
  by (induction l ids rule: retireAll.induct) simp_all

lemma pop_frame [simp]:
  "opts (pop l) = opts l" "retransmit (pop l) = retransmit l" "unacked (pop l) = unacked l"
  "nextID (pop l) = nextID l" "ring (pop l) = ring l" "acks (pop l) = acks l"
  "ackSince (pop l) = ackSince l" "maxPending (pop l) = maxPending l"
  "recent (pop l) = recent l" "recentCap (pop l) = recentCap l" "lastNow (pop l) = lastNow l"
  by (simp_all add: pop_def split: prod.split)

lemma ack_frame [simp]:
  "opts (ack l i t) = opts l" "retransmit (ack l i t) = retransmit l" "out (ack l i t) = out l"
  "base (ack l i t) = base l" "nsent (ack l i t) = nsent l" "unacked (ack l i t) = unacked l"
  "nextID (ack l i t) = nextID l" "ring (ack l i t) = ring l" "maxPending (ack l i t) = maxPending l"
  "recent (ack l i t) = recent l" "recentCap (ack l i t) = recentCap l" "lastNow (ack l i t) = lastNow l"
  by (simp_all add: ack_def Let_def)

text \<open>The invariant of the receive side.\<close>

definition recv_ok :: "layer \<Rightarrow> bool" where
  "recv_ok l \<longleftrightarrow> 1 \<le> RecvWindow (opts l) \<and>
     ring_in (nat (RecvWindow (opts l))) (unat (nextID l) + 1) (ring l)"

text \<open>
  The messages at hand when a packet has arrived: those buffered, and the packet's own if it
  is a control message with an id from the next expected one up to \<open>RecvWindow\<close> past it
  that is not buffered already.
\<close>

definition offered :: "layer \<Rightarrow> control_packet \<Rightarrow> packet_id \<Rightarrow> (opcode \<times> bytes) option" where
  "offered l p =
    (if IsControl (Opcode p) \<and> HasMessageID p \<and> nextID l \<le> PacketID p \<and>
        uint (PacketID p - nextID l) \<le> RecvWindow (opts l) \<and> buffered (ring l) (PacketID p) = None
     then (buffered (ring l))(PacketID p \<mapsto> (Opcode p, Payload p))
     else buffered (ring l))"

text \<open>
  The specification of one delivery, over a map \<open>B\<close> of the messages at hand: the messages
  handed out are those of the consecutive ids from \<open>nx\<close> on, and they are all there are.
\<close>

definition delivers :: "packet_id \<Rightarrow> (packet_id \<Rightarrow> (opcode \<times> bytes) option) \<Rightarrow> message list \<Rightarrow>
    packet_id \<Rightarrow> (packet_id \<Rightarrow> (opcode \<times> bytes) option) \<Rightarrow> bool" where
  "delivers nx B ms nx' B' \<longleftrightarrow>
     nx' = nx + of_nat (length ms) \<and>
     (\<forall>k < length ms. msgID (ms ! k) = nx + of_nat k \<and>
        B (nx + of_nat k) = Some (msgOpcode (ms ! k), msgPayload (ms ! k))) \<and>
     (\<forall>i. B' i = (if \<exists>k < length ms. i = nx + of_nat k then None else B i)) \<and> B' nx' = None"

lemma recv_ok_next_None:
  assumes "recv_ok l"
  shows "buffered (ring l) (nextID l) = None"
  by (rule buffered_below) (use assms in \<open>auto simp: recv_ok_def\<close>)

lemma delivers_Nil: "B nx = None \<Longrightarrow> delivers nx B [] nx B"
  by (simp add: delivers_def)

lemma uint_minus_word: "(b::u32) \<le> a \<Longrightarrow> uint (a - b) = uint a - uint b"
  by (rule iffD1 [OF uint_minus_simple_alt])

text \<open>A message past the next expected one goes to its slot, which is free or holds it.\<close>

lemma ring_insert:
  fixes opc :: opcode and pl :: bytes
  assumes ri: "ring_in W (unat nx + 1) rg" "rg \<noteq> []"
    and i: "unat nx < unat i" "unat i \<le> unat nx + W"
    and free: "\<not> in_ok (rg ! (unat i mod length rg))"
  defines "rg' \<equiv> rg[unat i mod length rg := \<lparr>in_ok = True, in_op = opc, in_id = i, in_payload = pl\<rparr>]"
  shows "ring_in W (unat nx + 1) rg'" "buffered rg' = (buffered rg)(i \<mapsto> (opc, pl))"
    "buffered rg i = None"
proof -
  have W: "length rg = W" using ri by (simp add: ring_in_def)
  then show "ring_in W (unat nx + 1) rg'"
    using ri i by (auto simp: rg'_def ring_in_def nth_list_update)
  show "buffered rg' = (buffered rg)(i \<mapsto> (opc, pl))"
  proof
    fix j
    show "buffered rg' j = ((buffered rg)(i \<mapsto> (opc, pl))) j"
      using ri(2) free by (auto simp: rg'_def buffered_def Let_def nth_list_update)
  qed
  show "buffered rg i = None" using free by (simp add: buffered_def Let_def)
qed

lemma ring_occupied:
  assumes ri: "ring_in W (unat nx + 1) rg" "rg \<noteq> []"
    and i: "unat nx < unat i" "unat i \<le> unat nx + W"
    and full: "in_ok (rg ! (unat i mod length rg))"
  shows "\<exists>c. buffered rg i = Some c"
proof -
  let ?k = "unat i mod length rg"
  have k: "?k < length rg" using ri(2) by simp
  note d = ring_inD [OF ri(1) k full]
  have "unat (in_id (rg ! ?k)) = unat i"
    by (rule mod_eq_window [of _ W _ "unat nx + 1"]) (use d i in auto)
  then have "in_id (rg ! ?k) = i" by (simp add: word_unat_eq_iff)
  then show ?thesis using full ri(2) by (simp add: buffered_def Let_def)
qed

text \<open>The layer after the acks of a packet have been dealt with.\<close>

definition absorb :: "layer \<Rightarrow> control_packet \<Rightarrow> time \<Rightarrow> layer" where
  "absorb l p now =
    (let l = observe l now in if length (Acks p) > 0 then pop (retireAll l (Acks p)) else l)"

lemma absorb_frame [simp]:
  "opts (absorb l p now) = opts l" "retransmit (absorb l p now) = retransmit l"
  "nextID (absorb l p now) = nextID l" "ring (absorb l p now) = ring l" "acks (absorb l p now) = acks l"
  "ackSince (absorb l p now) = ackSince l" "maxPending (absorb l p now) = maxPending l"
  "recent (absorb l p now) = recent l" "recentCap (absorb l p now) = recentCap l"
  by (simp_all add: absorb_def Let_def)

text \<open>\<open>Receive\<close> branch by branch.\<close>

lemma Receive_ignored: "\<not> IsControl (Opcode p) \<Longrightarrow> Receive l (Some p) now = ([], l)"
  by (simp add: Receive_def)

lemma Receive_ack:
  "IsControl (Opcode p) \<Longrightarrow> \<not> HasMessageID p \<Longrightarrow> Receive l (Some p) now = ([], absorb l p now)"
  by (simp add: Receive_def absorb_def Let_def)

lemma Receive_old:
  "IsControl (Opcode p) \<Longrightarrow> HasMessageID p \<Longrightarrow> PacketID p < nextID l \<Longrightarrow>
     Receive l (Some p) now = ([], ack (absorb l p now) (PacketID p) now)"
  by (auto simp: Receive_def absorb_def Let_def)

lemma Receive_next:
  "IsControl (Opcode p) \<Longrightarrow> HasMessageID p \<Longrightarrow> PacketID p = nextID l \<Longrightarrow>
     Receive l (Some p) now =
       drain ((ack (absorb l p now) (PacketID p) now)\<lparr>nextID := nextID l + 1\<rparr>)
         [\<lparr>msgOpcode = Opcode p, msgID = PacketID p, msgPayload = Payload p\<rparr>]"
  by (simp add: Receive_def absorb_def Let_def)

lemma Receive_far:
  "IsControl (Opcode p) \<Longrightarrow> HasMessageID p \<Longrightarrow> nextID l < PacketID p \<Longrightarrow>
     uint (PacketID p - nextID l) > RecvWindow (opts l) \<Longrightarrow>
     Receive l (Some p) now = ([], absorb l p now)"
  by (auto simp: Receive_def absorb_def Let_def)

lemma Receive_ahead:
  assumes "IsControl (Opcode p)" "HasMessageID p" "nextID l < PacketID p"
    and "uint (PacketID p - nextID l) \<le> RecvWindow (opts l)"
    and "rg = (if ring l = [] then replicate (nat (RecvWindow (opts l))) noInMsg else ring l)"
  shows "Receive l (Some p) now =
     ([], (ack (absorb l p now) (PacketID p) now)\<lparr>ring :=
        (if in_ok (rg ! (unat (PacketID p) mod length rg)) then rg
         else rg[unat (PacketID p) mod length rg :=
           \<lparr>in_ok = True, in_op = Opcode p, in_id = PacketID p, in_payload = Payload p\<rparr>])\<rparr>)"
  using assms by (auto simp: Receive_def absorb_def Let_def)

lemma offered_far:
  assumes "\<not> (IsControl (Opcode p) \<and> HasMessageID p \<and> nextID l \<le> PacketID p \<and>
        uint (PacketID p - nextID l) \<le> RecvWindow (opts l))"
  shows "offered l p = buffered (ring l)"
  using assms by (auto simp: offered_def)

lemma Receive_ahead_delivers:
  assumes ok: "recv_ok l"
    and c: "IsControl (Opcode p)" "HasMessageID p" "nextID l < PacketID p"
    and near: "uint (PacketID p - nextID l) \<le> RecvWindow (opts l)"
    and eq: "Receive l (Some p) now = (ms, l')"
  shows "recv_ok l' \<and> delivers (nextID l) (offered l p) ms (nextID l') (buffered (ring l'))"
proof -
  let ?W = "nat (RecvWindow (opts l))" and ?i = "PacketID p"
  define rg where "rg = (if ring l = [] then replicate ?W noInMsg else ring l)"
  have W: "1 \<le> RecvWindow (opts l)" and ri: "ring_in ?W (unat (nextID l) + 1) rg" and ne: "rg \<noteq> []"
    using ok by (auto simp: recv_ok_def rg_def)
  have same: "buffered rg = buffered (ring l)" by (auto simp: rg_def)
  have i: "unat (nextID l) < unat ?i" using c(3) by (simp add: word_less_nat_alt)
  have "uint ?i - uint (nextID l) \<le> RecvWindow (opts l)"
    using near uint_minus_word [of "nextID l" ?i] c(3) by simp
  then have "int (unat ?i) - int (unat (nextID l)) \<le> RecvWindow (opts l)" by simp
  then have i': "unat ?i \<le> unat (nextID l) + ?W" using W by linarith
  note rcv = Receive_ahead [OF c near rg_def, of now] eq
  have nx: "buffered (ring l) (nextID l) = None" by (rule recv_ok_next_None [OF ok])
  show ?thesis
  proof (cases "in_ok (rg ! (unat ?i mod length rg))")
    case True
    from ring_occupied [OF ri ne i i' True] same have "offered l p = buffered (ring l)"
      by (auto simp: offered_def)
    then show ?thesis using rcv True ri same nx W by (auto simp: recv_ok_def intro: delivers_Nil)
  next
    case False
    note ins = ring_insert [OF ri ne i i' False]
    have "offered l p = (buffered (ring l))(?i \<mapsto> (Opcode p, Payload p))"
      using c near ins(3) same by (simp add: offered_def less_imp_le)
    then show ?thesis
      using rcv False ins(1,2) [of "Opcode p" "Payload p"] same nx W i
      by (auto simp: recv_ok_def intro!: delivers_Nil)
  qed
qed

lemma Receive_next_delivers:
  assumes ok: "recv_ok l"
    and c: "IsControl (Opcode p)" "HasMessageID p" "PacketID p = nextID l"
    and eq: "Receive l (Some p) now = (ms, l')"
  shows "recv_ok l' \<and> delivers (nextID l) (offered l p) ms (nextID l') (buffered (ring l'))"
proof -
  let ?W = "nat (RecvWindow (opts l))" and ?nx = "nextID l"
  let ?m = "\<lparr>msgOpcode = Opcode p, msgID = PacketID p, msgPayload = Payload p\<rparr>"
  have W: "1 \<le> RecvWindow (opts l)" and ri: "ring_in ?W (unat ?nx + 1) (ring l)"
    using ok by (auto simp: recv_ok_def)
  have nx: "buffered (ring l) ?nx = None" by (rule recv_ok_next_None [OF ok])
  have off: "offered l p = (buffered (ring l))(?nx \<mapsto> (Opcode p, Payload p))"
    using c nx W by (simp add: offered_def)
  have "ring_in ?W (unat (?nx + 1)) (ring l)"
  proof (cases "?nx = - 1")
    case True
    have "\<not> in_ok (ring l ! k)" if "k < length (ring l)" for k
    proof
      assume "in_ok (ring l ! k)"
      then have "unat (- 1 :: u32) + 1 \<le> unat (in_id (ring l ! k))"
        using ring_inD(2) [OF ri that] True by simp
      moreover have "unat (in_id (ring l ! k)) \<le> unat (- 1 :: u32)"
        by (simp add: word_le_nat_alt [symmetric])
      ultimately show False by simp
    qed
    then show ?thesis using ri by (auto simp: ring_in_def)
  next
    case False
    then show ?thesis using ri by (simp add: unat_Suc_word)
  qed
  from drainLoop_spec [OF this, of "[?m]"] obtain ds rg' nx' where
    d: "drainLoop (ring l) (?nx + 1) [?m] = ([?m] @ ds, rg', nx')"
      "nx' = ?nx + 1 + of_nat (length ds)"
      "\<forall>k < length ds. msgID (ds ! k) = ?nx + 1 + of_nat k \<and>
         buffered (ring l) (?nx + 1 + of_nat k) = Some (msgOpcode (ds ! k), msgPayload (ds ! k))"
      "ring_in ?W (unat nx' + 1) rg'"
      "\<forall>i. buffered rg' i = (if \<exists>k < length ds. i = ?nx + 1 + of_nat k then None else buffered (ring l) i)"
    by blast
  have ms: "ms = ?m # ds" "ring l' = rg'" "nextID l' = nx'" "opts l' = opts l"
    using Receive_next [OF c] eq d(1) by (auto simp: drain_def)
  have "msgID (ms ! k) = ?nx + of_nat k \<and>
      offered l p (?nx + of_nat k) = Some (msgOpcode (ms ! k), msgPayload (ms ! k))"
    if "k < length ms" for k
    using that d(3) c nx by (cases k) (auto simp: ms off add.assoc)
  moreover have "buffered rg' i = (if \<exists>k < length ms. i = ?nx + of_nat k then None else offered l p i)" for i
  proof -
    have "(\<exists>k < length ms. i = ?nx + of_nat k) \<longleftrightarrow> i = ?nx \<or> (\<exists>k < length ds. i = ?nx + 1 + of_nat k)"
      by (auto simp: ms less_Suc_eq_0_disj add.assoc)
    then show ?thesis using d(5) nx by (auto simp: off)
  qed
  moreover have "buffered rg' nx' = None"
    by (rule buffered_below [OF d(4)]) simp
  ultimately show ?thesis
    using ms d(2,4) W by (auto simp: recv_ok_def delivers_def add.assoc)
qed

text \<open>
  Every call of \<open>Receive\<close> keeps the receive side's invariant and delivers, of the messages
  at hand, the longest run of consecutive ids from the next expected one.
\<close>

lemma Receive_delivers:
  assumes ok: "recv_ok l" and eq: "Receive l (Some p) now = (ms, l')"
  shows "recv_ok l' \<and> delivers (nextID l) (offered l p) ms (nextID l') (buffered (ring l'))"
proof -
  have nx: "buffered (ring l) (nextID l) = None" by (rule recv_ok_next_None [OF ok])
  consider "\<not> IsControl (Opcode p)" | "IsControl (Opcode p)" "\<not> HasMessageID p"
    | "IsControl (Opcode p)" "HasMessageID p" "PacketID p < nextID l"
    | "IsControl (Opcode p)" "HasMessageID p" "PacketID p = nextID l"
    | "IsControl (Opcode p)" "HasMessageID p" "nextID l < PacketID p"
        "uint (PacketID p - nextID l) \<le> RecvWindow (opts l)"
    | "IsControl (Opcode p)" "HasMessageID p" "nextID l < PacketID p"
        "uint (PacketID p - nextID l) > RecvWindow (opts l)"
    by fastforce
  then show ?thesis
  proof cases
    case 4
    then show ?thesis using Receive_next_delivers [OF ok _ _ _ eq] by blast
  next
    case 5
    then show ?thesis using Receive_ahead_delivers [OF ok _ _ _ _ eq] by blast
  qed (use eq ok nx in \<open>auto simp: Receive_ignored Receive_ack Receive_old Receive_far offered_far
         not_le recv_ok_def intro: delivers_Nil\<close>)
qed

section \<open>In-order delivery\<close>

text \<open>
  The interface of a receiver that hands messages out in the order of their ids, over any
  type of state and of input: what the owner of a key state relies on. \<open>runRecv\<close> feeds a
  receiver a sequence of inputs and collects what it hands out.
\<close>

fun runRecv :: "('s \<Rightarrow> 'p \<Rightarrow> 'm list \<times> 's) \<Rightarrow> 's \<Rightarrow> 'p list \<Rightarrow> 'm list \<times> 's" where
  "runRecv recv s [] = ([], s)"
| "runRecv recv s (p # ps) =
    (let (ms, s) = recv s p; (ms', s) = runRecv recv s ps in (ms @ ms', s))"

locale in_order_receiver =
  fixes inv :: "'s \<Rightarrow> bool"
    and nx :: "'s \<Rightarrow> u32"
    and recv :: "'s \<Rightarrow> 'p \<Rightarrow> 'm list \<times> 's"
    and mid :: "'m \<Rightarrow> u32"
  assumes inv_recv: "inv s \<Longrightarrow> recv s p = (ms, s') \<Longrightarrow> inv s'"
    and nx_recv: "inv s \<Longrightarrow> recv s p = (ms, s') \<Longrightarrow> nx s' = nx s + of_nat (length ms)"
    and ids_recv: "inv s \<Longrightarrow> recv s p = (ms, s') \<Longrightarrow>
      map mid ms = map (\<lambda>k. nx s + of_nat k) [0..<length ms]"
begin

lemma run_in_order:
  assumes "inv s" "runRecv recv s ps = (ms, s')"
  shows "inv s' \<and> nx s' = nx s + of_nat (length ms) \<and>
     map mid ms = map (\<lambda>k. nx s + of_nat k) [0..<length ms]"
  using assms
proof (induction ps arbitrary: s ms s')
  case Nil
  then show ?case by simp
next
  case (Cons p ps)
  obtain m1 s1 where r1: "recv s p = (m1, s1)" by (cases "recv s p")
  obtain m2 s2 where r2: "runRecv recv s1 ps = (m2, s2)" by (cases "runRecv recv s1 ps")
  have eq: "ms = m1 @ m2" "s' = s2" using Cons.prems(2) r1 r2 by simp_all
  note f1 = inv_recv [OF Cons.prems(1) r1] nx_recv [OF Cons.prems(1) r1] ids_recv [OF Cons.prems(1) r1]
  note f2 = Cons.IH [OF f1(1) r2]
  have "map (\<lambda>k. nx s + of_nat k) [0..<length m1 + length m2] =
      map (\<lambda>k. nx s + of_nat k) [0..<length m1] @ map (\<lambda>k. nx s1 + of_nat k) [0..<length m2]"
    by (auto simp: f1(2) add.assoc intro!: nth_equalityI simp: nth_append)
  with f1 f2 eq show ?case by (simp add: add.assoc)
qed

end

definition receiveEv :: "layer \<Rightarrow> control_packet option \<times> time \<Rightarrow> message list \<times> layer" where
  "receiveEv l e = Receive l (fst e) (snd e)"

lemma Receive_None: "Receive l None now = ([], l)"
  by (simp add: Receive_def)

interpretation layer_recv: in_order_receiver recv_ok nextID receiveEv msgID
proof
  fix s s' :: layer and e :: "control_packet option \<times> time" and ms
  assume ok: "recv_ok s" and eq: "receiveEv s e = (ms, s')"
  obtain pp now where e: "e = (pp, now)" by (cases e)
  have d: "recv_ok s' \<and> nextID s' = nextID s + of_nat (length ms) \<and>
      (\<forall>k < length ms. msgID (ms ! k) = nextID s + of_nat k)"
  proof (cases pp)
    case None
    then show ?thesis using ok eq e by (simp add: receiveEv_def Receive_None)
  next
    case (Some p)
    then show ?thesis
      using Receive_delivers [OF ok, of p now ms s'] eq e by (auto simp: receiveEv_def delivers_def)
  qed
  show "recv_ok s'" "nextID s' = nextID s + of_nat (length ms)" using d by auto
  show "map msgID ms = map (\<lambda>k. nextID s + of_nat k) [0..<length ms]"
    using d by (auto intro: nth_equalityI)
qed

lemma New_opts_RecvWindow: "1 \<le> RecvWindow (New_opts o0) \<and> RecvWindow (New_opts o0) \<le> MaxWindow"
  by (auto simp: New_opts_def Let_def rel_consts min_def)

lemma recv_ok_New: "recv_ok (New o0)"
  using New_opts_RecvWindow [of o0] by (simp add: recv_ok_def New_def Let_def)

text \<open>
  Claim C2. Whatever packets reach a layer, in whatever order, with whatever repetitions and
  at whatever times: the messages it hands to its owner have the ids 0, 1, 2, and so on (as
  32-bit ids), each exactly once and in that order, and the layer's next expected id is the
  number of messages it has handed out.
\<close>

theorem Receive_in_order_exactly_once:
  assumes "runRecv receiveEv (New o0) evs = (ms, l)"
  shows "map msgID ms = map of_nat [0..<length ms] \<and> nextID l = of_nat (length ms)"
  using layer_recv.run_in_order [OF recv_ok_New assms] by (simp add: New_def Let_def)

text \<open>A message packet and the default options, for concrete runs.\<close>

definition demoPacket :: "packet_id \<Rightarrow> packet_id list \<Rightarrow> bytes \<Rightarrow> control_packet" where
  "demoPacket i as b = \<lparr>Opcode = ControlV1, KeyID = 0, SessionID = zeroSessionID, Acks = as,
     RemoteSessionID = zeroSessionID, PacketID = i, Payload = b\<rparr>"

definition demoOptions :: rel_options where
  "demoOptions = \<lparr>InitialTimeout = 0, MaxTimeout = 0, SendWindow = 0, RecvWindow = 0,
     MaxAcksPerPacket = 0, RecentAcks = 0\<rparr>"

lemma demoRun:
  "length (fst (runRecv receiveEv (New demoOptions)
     [(Some (demoPacket 1 [] [7]), 5), (Some (demoPacket 0 [] [8]), 6), (Some (demoPacket 0 [] [8]), 7)])) = 2"
  by code_simp

theorem Receive_in_order_exactly_once_witness:
  "\<exists>ms l. runRecv receiveEv (New demoOptions)
     [(Some (demoPacket 1 [] [7]), 5), (Some (demoPacket 0 [] [8]), 6), (Some (demoPacket 0 [] [8]), 7)]
       = (ms, l) \<and> map msgID ms = [0, 1] \<and> nextID l = 2"
proof -
  obtain ms l where run: "runRecv receiveEv (New demoOptions)
     [(Some (demoPacket 1 [] [7]), 5), (Some (demoPacket 0 [] [8]), 6), (Some (demoPacket 0 [] [8]), 7)]
       = (ms, l)"
    by fastforce
  with demoRun have "length ms = 2" by simp
  with Receive_in_order_exactly_once [OF run] have "map msgID ms = [0, 1] \<and> nextID l = 2"
    by (simp add: numeral_2_eq_2)
  with run show ?thesis by (intro exI [of _ ms] exI [of _ l] conjI) simp_all
qed

end
