(* ===== verification/Reliable_Send.thy ===== *)
theory Reliable_Send
  imports Reliable_Recv
begin

text \<open>
  The send side of the reliability layer: \<open>Poll\<close> is shown equal to a closed description of
  the packets it sends (fresh messages, then retransmissions, then bare acks, filled with the
  pending acks from the front), which gives the exact size of its arrays, the ack discipline
  and the send window; the layer's invariant is kept by every operation; and \<open>NextDeadline\<close>
  is right about when \<open>Poll\<close> has something to send.
\<close>

section \<open>Filling packets with acks\<close>

text \<open>The ack array of one packet, and the packets of a list of messages \<open>(op, id, payload)\<close>.\<close>

definition ackArray :: "nat \<Rightarrow> packet_id list \<Rightarrow> opcode \<Rightarrow> packet_id list \<Rightarrow> packet_id list" where
  "ackArray per extras op pend =
    (if op \<noteq> AckV1 then addExtras per (take per pend) extras else take per pend)"

definition mkPacket :: "opcode \<Rightarrow> packet_id \<Rightarrow> bytes \<Rightarrow> packet_id list \<Rightarrow> control_packet" where
  "mkPacket op i pl as = \<lparr>Opcode = op, KeyID = 0, SessionID = zeroSessionID, Acks = as,
     RemoteSessionID = zeroSessionID, PacketID = i, Payload = pl\<rparr>"

fun fill :: "nat \<Rightarrow> packet_id list \<Rightarrow> (opcode \<times> packet_id \<times> bytes) list \<Rightarrow> packet_id list \<Rightarrow> control_packet list" where
  "fill per extras [] pend = []"
| "fill per extras ((op, i, pl) # ms) pend =
     mkPacket op i pl (ackArray per extras op pend) # fill per extras ms (drop per pend)"

lemma fill_append:
  "fill per ex (xs @ ys) pend = fill per ex xs pend @ fill per ex ys (drop (length xs * per) pend)"
  by (induction per ex xs pend rule: fill.induct) (simp_all add: add.commute)

lemma length_fill [simp]: "length (fill per ex ms pend) = length ms"
  by (induction per ex ms pend rule: fill.induct) simp_all

lemma put_eq:
  "put per ex op i pl st = st\<lparr>ps_pending := drop per (ps_pending st),
     ps_pkts := ps_pkts st @ [mkPacket op i pl (ackArray per ex op (ps_pending st))]\<rparr>"
proof -
  have "take (min per (length xs)) xs = take per xs" "drop (min per (length xs)) xs = drop per xs"
    for xs :: "packet_id list" by (simp_all add: min_def)
  then show ?thesis by (simp add: put_def ackArray_def mkPacket_def Let_def)
qed

lemma addExtras_spec:
  assumes "length buf \<le> per"
  shows "\<exists>es. addExtras per buf extras = buf @ es \<and> set es \<subseteq> set extras \<and>
     length (addExtras per buf extras) \<le> per \<and> (distinct buf \<longrightarrow> distinct (addExtras per buf extras))"
  using assms
proof (induction per buf extras rule: addExtras.induct)
  case (1 per buf)
  then show ?case by simp
next
  case (2 per buf e es)
  show ?case
  proof (cases "length buf \<ge> per")
    case True
    with "2.prems" show ?thesis by simp
  next
    case False
    show ?thesis
    proof (cases "e \<in> set buf")
      case True
      with False "2.IH"(1) "2.prems" show ?thesis by auto
    next
      case new: False
      with False "2.IH"(2) obtain es' where es': "addExtras per (buf @ [e]) es = (buf @ [e]) @ es'"
          "set es' \<subseteq> set es" "length (addExtras per (buf @ [e]) es) \<le> per"
          "distinct (buf @ [e]) \<longrightarrow> distinct (addExtras per (buf @ [e]) es)"
        by auto
      from es' new False show ?thesis by (intro exI [of _ "e # es'"]) auto
    qed
  qed
qed

text \<open>
  The pending acks are dealt out from the front: each packet takes the next \<open>per\<close> of them,
  a message may repeat some recent ones behind, and no array is longer than \<open>per\<close>.
\<close>

lemma fill_acks:
  assumes "distinct pend"
  shows "\<exists>cs. length cs = length ms \<and> concat cs = take (length ms * per) pend \<and>
     (\<forall>k < length ms. \<exists>es. Acks (fill per ex ms pend ! k) = cs ! k @ es \<and> set es \<subseteq> set ex \<and>
        (Opcode (fill per ex ms pend ! k) = AckV1 \<longrightarrow> es = []) \<and>
        length (Acks (fill per ex ms pend ! k)) \<le> per \<and> distinct (Acks (fill per ex ms pend ! k)))"
  using assms
proof (induction per ex ms pend rule: fill.induct)
  case (1 per extras pend)
  then show ?case by simp
next
  case (2 per ex op i pl ms pend)
  from "2.IH" "2.prems" obtain cs where cs: "length cs = length ms"
    "concat cs = take (length ms * per) (drop per pend)"
    "\<forall>k < length ms. \<exists>es. Acks (fill per ex ms (drop per pend) ! k) = cs ! k @ es \<and> set es \<subseteq> set ex \<and>
        (Opcode (fill per ex ms (drop per pend) ! k) = AckV1 \<longrightarrow> es = []) \<and>
        length (Acks (fill per ex ms (drop per pend) ! k)) \<le> per \<and>
        distinct (Acks (fill per ex ms (drop per pend) ! k))"
    by auto
  from addExtras_spec [of "take per pend" per ex] "2.prems"
  obtain es where es: "ackArray per ex op pend = take per pend @ es" "set es \<subseteq> set ex"
      "op = AckV1 \<longrightarrow> es = []" "length (ackArray per ex op pend) \<le> per" "distinct (ackArray per ex op pend)"
    by (cases "op = AckV1") (auto simp: ackArray_def)
  have "concat (take per pend # cs) = take (length ((op, i, pl) # ms) * per) pend"
    by (simp add: cs(2) take_add)
  moreover have "\<exists>es. Acks (fill per ex ((op, i, pl) # ms) pend ! k) = (take per pend # cs) ! k @ es \<and>
      set es \<subseteq> set ex \<and> (Opcode (fill per ex ((op, i, pl) # ms) pend ! k) = AckV1 \<longrightarrow> es = []) \<and>
      length (Acks (fill per ex ((op, i, pl) # ms) pend ! k)) \<le> per \<and>
      distinct (Acks (fill per ex ((op, i, pl) # ms) pend ! k))"
    if "k < length ((op, i, pl) # ms)" for k
  proof (cases k)
    case 0
    then show ?thesis using es by (auto simp: mkPacket_def)
  next
    case (Suc j)
    then show ?thesis using cs(3) that by simp
  qed
  ultimately show ?case using cs(1) by (intro exI [of _ "take per pend # cs"]) simp
qed

section \<open>The loops of \<open>Poll\<close>\<close>

text \<open>What a message carries on the wire does not depend on its timers.\<close>

definition msgOf :: "layer \<Rightarrow> outMsg list \<Rightarrow> nat \<Rightarrow> opcode \<times> packet_id \<times> bytes" where
  "msgOf l ms i = (out_op (ms ! i), base l + of_nat i, out_payload (ms ! i))"

definition startTimer :: "layer \<Rightarrow> time \<Rightarrow> outMsg \<Rightarrow> outMsg" where
  "startTimer l now m =
    (if retransmit l
     then m\<lparr>timeout := InitialTimeout (opts l), due := time_add now (InitialTimeout (opts l))\<rparr> else m)"

definition restartTimer :: "layer \<Rightarrow> time \<Rightarrow> outMsg \<Rightarrow> outMsg" where
  "restartTimer l now m =
    m\<lparr>timeout := backoff (opts l) (timeout m), due := time_add now (backoff (opts l) (timeout m))\<rparr>"

lemma timer_frame [simp]:
  "out_op (startTimer l now m) = out_op m" "out_payload (startTimer l now m) = out_payload m"
  "acked (startTimer l now m) = acked m" "out_op (restartTimer l now m) = out_op m"
  "out_payload (restartTimer l now m) = out_payload m" "acked (restartTimer l now m) = acked m"
  by (simp_all add: startTimer_def restartTimer_def)

lemma msgOf_update:
  "i \<notin> set is \<Longrightarrow> map (msgOf l (ms[i := m])) is = map (msgOf l ms) is"
  by (auto simp: msgOf_def) (metis nth_list_update_neq)+

lemma pollFresh_Cons:
  "pollFresh l per now (i # is) st = pollFresh l per now is
    (put per (recent l) (out_op (ps_out st ! i)) (base l + of_nat i) (out_payload (ps_out st ! i))
      (st\<lparr>ps_out := (ps_out st)[i := startTimer l now (ps_out st ! i)]\<rparr>))"
  by (simp add: startTimer_def Let_def)

lemma pollDue_Cons:
  "pollDue l per now (i # is) st =
    (if isDue now (ps_out st ! i)
     then pollDue l per now is
      (put per (recent l) (out_op (ps_out st ! i)) (base l + of_nat i) (out_payload (ps_out st ! i))
        (st\<lparr>ps_out := (ps_out st)[i := restartTimer l now (ps_out st ! i)]\<rparr>))
     else pollDue l per now is st)"
  by (auto simp: restartTimer_def isDue_def Let_def)

declare pollFresh.simps(2) [simp del] pollDue.simps(2) [simp del]

lemma pollFresh_spec:
  assumes "distinct is" "\<forall>i \<in> set is. i < length (ps_out st)"
  shows "ps_pkts (pollFresh l per now is st)
      = ps_pkts st @ fill per (recent l) (map (msgOf l (ps_out st)) is) (ps_pending st) \<and>
     ps_pending (pollFresh l per now is st) = drop (length is * per) (ps_pending st) \<and>
     length (ps_out (pollFresh l per now is st)) = length (ps_out st) \<and>
     (\<forall>j < length (ps_out st). ps_out (pollFresh l per now is st) ! j
      = (if j \<in> set is then startTimer l now (ps_out st ! j) else ps_out st ! j))"
  using assms
proof (induction "is" arbitrary: st)
  case Nil
  then show ?case by simp
next
  case (Cons i "is")
  define st1 where "st1 = put per (recent l) (out_op (ps_out st ! i)) (base l + of_nat i)
      (out_payload (ps_out st ! i)) (st\<lparr>ps_out := (ps_out st)[i := startTimer l now (ps_out st ! i)]\<rparr>)"
  have st1: "ps_out st1 = (ps_out st)[i := startTimer l now (ps_out st ! i)]"
      "ps_pending st1 = drop per (ps_pending st)"
      "ps_pkts st1 = ps_pkts st @ [mkPacket (out_op (ps_out st ! i)) (base l + of_nat i)
         (out_payload (ps_out st ! i)) (ackArray per (recent l) (out_op (ps_out st ! i)) (ps_pending st))]"
    by (simp_all add: st1_def put_eq)
  have step: "pollFresh l per now (i # is) st = pollFresh l per now is st1"
    by (simp add: pollFresh_Cons st1_def)
  have "distinct is" "\<forall>i \<in> set is. i < length (ps_out st1)" using Cons.prems st1(1) by auto
  note IH = Cons.IH [OF this]
  have mo: "map (msgOf l (ps_out st1)) is = map (msgOf l (ps_out st)) is"
    unfolding st1(1) using Cons.prems(1) by (intro msgOf_update) simp
  have hd: "msgOf l (ps_out st) i = (out_op (ps_out st ! i), base l + of_nat i, out_payload (ps_out st ! i))"
    by (simp add: msgOf_def)
  have "ps_pkts (pollFresh l per now (i # is) st)
      = ps_pkts st @ fill per (recent l) (map (msgOf l (ps_out st)) (i # is)) (ps_pending st)"
    unfolding step using IH by (simp add: mo st1(2,3) hd)
  moreover have "ps_pending (pollFresh l per now (i # is) st) = drop (length (i # is) * per) (ps_pending st)"
    unfolding step using IH by (simp add: st1(2) add.commute)
  moreover have "length (ps_out (pollFresh l per now (i # is) st)) = length (ps_out st)"
    unfolding step using IH by (simp add: st1(1))
  moreover have "ps_out (pollFresh l per now (i # is) st) ! j
      = (if j \<in> set (i # is) then startTimer l now (ps_out st ! j) else ps_out st ! j)"
    if "j < length (ps_out st)" for j
  proof -
    have "ps_out (pollFresh l per now is st1) ! j
        = (if j \<in> set is then startTimer l now (ps_out st1 ! j) else ps_out st1 ! j)"
      using IH that by (simp add: st1(1))
    moreover have "ps_out st1 ! j = (if j = i then startTimer l now (ps_out st ! j) else ps_out st ! j)"
      using that by (simp add: st1(1) nth_list_update)
    ultimately show ?thesis unfolding step using Cons.prems(1) by (cases "j = i") auto
  qed
  ultimately show ?case by blast
qed

lemma pollDue_spec:
  assumes "distinct is" "\<forall>i \<in> set is. i < length (ps_out st)"
  shows "ps_pkts (pollDue l per now is st)
      = ps_pkts st @ fill per (recent l)
          (map (msgOf l (ps_out st)) (filter (\<lambda>i. isDue now (ps_out st ! i)) is)) (ps_pending st) \<and>
     ps_pending (pollDue l per now is st)
      = drop (length (filter (\<lambda>i. isDue now (ps_out st ! i)) is) * per) (ps_pending st) \<and>
     length (ps_out (pollDue l per now is st)) = length (ps_out st) \<and>
     (\<forall>j < length (ps_out st). ps_out (pollDue l per now is st) ! j
      = (if j \<in> set is \<and> isDue now (ps_out st ! j) then restartTimer l now (ps_out st ! j) else ps_out st ! j))"
  using assms
proof (induction "is" arbitrary: st)
  case Nil
  then show ?case by simp
next
  case (Cons i "is")
  show ?case
  proof (cases "isDue now (ps_out st ! i)")
    case False
    with Cons show ?thesis by (auto simp: pollDue_Cons)
  next
    case True
    define st1 where "st1 = put per (recent l) (out_op (ps_out st ! i)) (base l + of_nat i)
        (out_payload (ps_out st ! i)) (st\<lparr>ps_out := (ps_out st)[i := restartTimer l now (ps_out st ! i)]\<rparr>)"
    have st1: "ps_out st1 = (ps_out st)[i := restartTimer l now (ps_out st ! i)]"
        "ps_pending st1 = drop per (ps_pending st)"
        "ps_pkts st1 = ps_pkts st @ [mkPacket (out_op (ps_out st ! i)) (base l + of_nat i)
           (out_payload (ps_out st ! i)) (ackArray per (recent l) (out_op (ps_out st ! i)) (ps_pending st))]"
      by (simp_all add: st1_def put_eq)
    have step: "pollDue l per now (i # is) st = pollDue l per now is st1"
      using True by (simp add: pollDue_Cons st1_def)
    have "distinct is" "\<forall>i \<in> set is. i < length (ps_out st1)" using Cons.prems st1(1) by auto
    note IH = Cons.IH [OF this]
    let ?f = "filter (\<lambda>j. isDue now (ps_out st ! j))"
    have ne: "ps_out st1 ! j = ps_out st ! j" if "j \<in> set is" for j
      unfolding st1(1) using that Cons.prems(1) by (intro nth_list_update_neq) auto
    then have fl: "filter (\<lambda>j. isDue now (ps_out st1 ! j)) is = ?f is"
      by (intro filter_cong) simp_all
    have mo: "map (msgOf l (ps_out st1)) (?f is) = map (msgOf l (ps_out st)) (?f is)"
      unfolding st1(1) using Cons.prems(1) by (intro msgOf_update) simp
    have hd: "msgOf l (ps_out st) i = (out_op (ps_out st ! i), base l + of_nat i, out_payload (ps_out st ! i))"
      by (simp add: msgOf_def)
    have "ps_pkts (pollDue l per now (i # is) st)
        = ps_pkts st @ fill per (recent l) (map (msgOf l (ps_out st)) (?f (i # is))) (ps_pending st)"
      unfolding step using IH True by (simp add: fl mo st1(2,3) hd)
    moreover have "ps_pending (pollDue l per now (i # is) st) = drop (length (?f (i # is)) * per) (ps_pending st)"
      unfolding step using IH True by (simp add: fl st1(2) add.commute)
    moreover have "length (ps_out (pollDue l per now (i # is) st)) = length (ps_out st)"
      unfolding step using IH by (simp add: st1(1))
    moreover have "ps_out (pollDue l per now (i # is) st) ! j
        = (if j \<in> set (i # is) \<and> isDue now (ps_out st ! j) then restartTimer l now (ps_out st ! j) else ps_out st ! j)"
      if "j < length (ps_out st)" for j
    proof -
      have "ps_out (pollDue l per now is st1) ! j = (if j \<in> set is \<and> isDue now (ps_out st1 ! j)
          then restartTimer l now (ps_out st1 ! j) else ps_out st1 ! j)"
        using IH that by (simp add: st1(1))
      moreover have "ps_out st1 ! j = (if j = i then restartTimer l now (ps_out st ! j) else ps_out st ! j)"
        using that by (simp add: st1(1) nth_list_update)
      ultimately show ?thesis unfolding step using Cons.prems(1) True by (cases "j = i") auto
    qed
    ultimately show ?thesis by blast
  qed
qed

definition bareAcks :: "nat \<Rightarrow> nat \<Rightarrow> nat" where
  "bareAcks per n = (n + per - 1) div per"

lemma bareAcks_step:
  assumes "0 < per" "0 < n"
  shows "bareAcks per n = Suc (bareAcks per (n - per))"
proof (cases "per \<le> n")
  case True
  have "n + per - 1 = (n - 1) + per" using assms by simp
  then have "bareAcks per n = ((n - 1) + per) div per" unfolding bareAcks_def by (rule arg_cong)
  also have "\<dots> = Suc ((n - 1) div per)" by (subst div_add_self2) (use assms in simp_all)
  also have "(n - 1) div per = bareAcks per (n - per)" using True by (simp add: bareAcks_def)
  finally show ?thesis .
next
  case False
  with assms have "(n + per - 1) div per = 1" by (intro div_nat_eqI) simp_all
  with False assms show ?thesis by (simp add: bareAcks_def)
qed

lemma bareAcks_0 [simp]: "bareAcks per 0 = 0"
  by (cases per) (simp_all add: bareAcks_def)

lemma pollAcks_spec:
  assumes "0 < per"
  shows "ps_pkts (pollAcks per ex st)
      = ps_pkts st @ fill per ex (replicate (bareAcks per (length (ps_pending st))) (AckV1, 0, [])) (ps_pending st) \<and>
     ps_out (pollAcks per ex st) = ps_out st"
  using assms
proof (induction per ex st rule: pollAcks.induct)
  case (1 per ex st)
  show ?case
  proof (cases "ps_pending st = []")
    case True
    then show ?thesis by (simp add: pollAcks.simps [of per ex st])
  next
    case False
    let ?st = "put per ex AckV1 0 [] st"
    have "pollAcks per ex st = pollAcks per ex ?st"
      using False "1.prems" by (simp add: pollAcks.simps [of per ex st])
    moreover have "bareAcks per (length (ps_pending st)) = Suc (bareAcks per (length (ps_pending ?st)))"
      using False "1.prems" bareAcks_step by (simp add: put_eq)
    ultimately show ?thesis using "1.IH" False "1.prems" by (simp add: put_eq)
  qed
qed

section \<open>\<open>Poll\<close>, described\<close>

definition limitOf :: "layer \<Rightarrow> nat" where
  "limitOf l = min (length (out l)) (nat (SendWindow (opts l)))"

definition dueIdx :: "layer \<Rightarrow> time \<Rightarrow> nat list" where
  "dueIdx l now = (if retransmit l then filter (\<lambda>i. isDue now (out l ! i)) [0..<nsent l] else [])"

definition pollMsgs :: "layer \<Rightarrow> time \<Rightarrow> (opcode \<times> packet_id \<times> bytes) list" where
  "pollMsgs l now = map (msgOf l (out l)) ([nsent l..<limitOf l] @ dueIdx l now)"

text \<open>
  The packets of \<open>Poll\<close>: one per message to send, then as many \<open>P_ACK_V1\<close> as the acks left
  over take.
\<close>

definition pollPackets :: "layer \<Rightarrow> time \<Rightarrow> control_packet list" where
  "pollPackets l now =
    (let per = nat (MaxAcksPerPacket (opts l)); ms = pollMsgs l now
     in fill per (recent l)
          (ms @ replicate (bareAcks per (length (acks l) - length ms * per)) (AckV1, 0, [])) (acks l))"

definition polledOut :: "layer \<Rightarrow> time \<Rightarrow> outMsg list" where
  "polledOut l now = map (\<lambda>i.
     if i < nsent l then (if retransmit l \<and> isDue now (out l ! i) then restartTimer l now (out l ! i) else out l ! i)
     else if i < limitOf l then startTimer l now (out l ! i) else out l ! i) [0..<length (out l)]"

definition poll_ok :: "layer \<Rightarrow> bool" where
  "poll_ok l \<longleftrightarrow> nsent l \<le> limitOf l \<and> 1 \<le> MaxAcksPerPacket (opts l)"

lemma observe_timers [simp]:
  "limitOf (observe l t) = limitOf l" "msgOf (observe l t) ms i = msgOf l ms i"
  "startTimer (observe l t) now m = startTimer l now m"
  "restartTimer (observe l t) now m = restartTimer l now m"
  "dueIdx (observe l t) now = dueIdx l now" "poll_ok (observe l t) = poll_ok l"
  by (simp_all add: limitOf_def msgOf_def startTimer_def restartTimer_def dueIdx_def poll_ok_def)

lemma observe_polled [simp]:
  "pollMsgs (observe l t) now = pollMsgs l now" "polledOut (observe l t) now = polledOut l now"
  by (simp_all add: pollMsgs_def polledOut_def)

lemma observe_packets [simp]: "pollPackets (observe l t) now = pollPackets l now"
  by (simp add: pollPackets_def)

lemma length_filter_take:
  "length (filter P (take n xs)) = length (filter (\<lambda>i. P (xs ! i)) [0..<n])" if "n \<le> length xs"
proof -
  have "take n xs = map (\<lambda>i. xs ! i) [0..<n]" using that by (auto intro: nth_equalityI)
  then show ?thesis by (simp add: filter_map comp_def)
qed

lemma pollLoops_spec:
  assumes ok: "poll_ok l" and d: "due' = int (length (dueIdx l now))"
  shows "ps_pkts (pollLoops l now (limitOf l) due') = pollPackets l now \<and> ps_out (pollLoops l now (limitOf l) due') = polledOut l now"
proof -
  let ?per = "nat (MaxAcksPerPacket (opts l))"
  let ?st0 = "\<lparr>ps_out = out l, ps_pending = acks l, ps_pkts = []\<rparr>"
  let ?is = "[nsent l..<limitOf l]"
  define st1 where "st1 = pollFresh l ?per now ?is ?st0"
  define st2 where "st2 = (if due' > 0 then pollDue l ?per now [0..<nsent l] st1 else st1)"
  have lim: "limitOf l \<le> length (out l)" "nsent l \<le> limitOf l" "0 < ?per"
    using ok by (auto simp: limitOf_def poll_ok_def)
  have f: "ps_pkts st1 = fill ?per (recent l) (map (msgOf l (out l)) ?is) (acks l)"
      "ps_pending st1 = drop (length ?is * ?per) (acks l)" "length (ps_out st1) = length (out l)"
      "\<forall>j < length (out l). ps_out st1 ! j = (if j \<in> set ?is then startTimer l now (out l ! j) else out l ! j)"
    using pollFresh_spec [of ?is ?st0 l ?per now] lim unfolding st1_def by auto
  have old: "ps_out st1 ! j = out l ! j" if "j < nsent l" for j using f(4) that lim by auto
  have fl: "filter (\<lambda>i. isDue now (ps_out st1 ! i)) [0..<nsent l] = filter (\<lambda>i. isDue now (out l ! i)) [0..<nsent l]"
    by (intro filter_cong) (auto simp: old)
  have ms: "map (msgOf l (ps_out st1)) (filter (\<lambda>i. isDue now (out l ! i)) [0..<nsent l])
      = map (msgOf l (out l)) (filter (\<lambda>i. isDue now (out l ! i)) [0..<nsent l])"
    by (auto simp: msgOf_def old)
  have "\<forall>i \<in> set [0..<nsent l]. i < length (ps_out st1)" using lim f(3) by auto
  note pd = pollDue_spec [OF _ this, of l ?per now, simplified, unfolded fl ms]
  have g: "ps_pkts st2 = ps_pkts st1 @ fill ?per (recent l) (map (msgOf l (out l)) (dueIdx l now)) (ps_pending st1)"
      "ps_pending st2 = drop (length (dueIdx l now) * ?per) (ps_pending st1)"
      "length (ps_out st2) = length (out l)"
    unfolding st2_def using pd d f(3) by (auto simp: dueIdx_def)
  have g4: "ps_out st2 ! j = (if j < nsent l \<and> retransmit l \<and> isDue now (ps_out st1 ! j)
      then restartTimer l now (ps_out st1 ! j) else ps_out st1 ! j)" if "j < length (out l)" for j
  proof (cases "due' > 0")
    case True
    then show ?thesis unfolding st2_def using pd that f(3) d by (auto simp: dueIdx_def split: if_splits)
  next
    case False
    then have "dueIdx l now = []" using d by simp
    then have "\<not> (j < nsent l \<and> retransmit l \<and> isDue now (ps_out st1 ! j))"
      using old by (auto simp: dueIdx_def filter_empty_conv split: if_splits)
    then show ?thesis using False by (auto simp: st2_def)
  qed
  have loops: "pollLoops l now (limitOf l) due' = pollAcks ?per (recent l) st2"
    by (simp add: pollLoops_def st1_def st2_def Let_def)
  have "ps_pkts (pollLoops l now (limitOf l) due') = pollPackets l now"
    unfolding loops using pollAcks_spec [OF lim(3), of "recent l" st2]
    by (simp add: g f pollPackets_def pollMsgs_def fill_append Let_def algebra_simps)
  moreover have "ps_out (pollLoops l now (limitOf l) due') = polledOut l now"
  proof (rule nth_equalityI)
    show "length (ps_out (pollLoops l now (limitOf l) due')) = length (polledOut l now)"
      unfolding loops using pollAcks_spec [OF lim(3), of "recent l" st2] g(3) by (simp add: polledOut_def)
    fix j
    assume "j < length (ps_out (pollLoops l now (limitOf l) due'))"
    then have j: "j < length (out l)"
      unfolding loops using pollAcks_spec [OF lim(3), of "recent l" st2] g(3) by simp
    have "ps_out (pollLoops l now (limitOf l) due') ! j = ps_out st2 ! j"
      unfolding loops using pollAcks_spec [OF lim(3), of "recent l" st2] by simp
    also have "\<dots> = polledOut l now ! j"
      using g4 [OF j] f(4) j old by (auto simp: polledOut_def)
    finally show "ps_out (pollLoops l now (limitOf l) due') ! j = polledOut l now ! j" .
  qed
  ultimately show ?thesis by blast
qed

lemma dueIdx_count:
  assumes "nsent l \<le> length (out l)"
  shows "(if retransmit l then int (length (filter (isDue now) (take (nsent l) (out l)))) else 0)
     = int (length (dueIdx l now))"
  using length_filter_take [OF assms, of "isDue now"] by (simp add: dueIdx_def)

lemma poll_count:
  assumes "1 \<le> per"
  shows "int a + (int b - min (int b) (int a * per) + per - 1) div per
     = int (a + bareAcks (nat per) (b - a * nat per))"
proof -
  obtain q where q: "per = int q" "0 < q" using assms by (metis nat_0_le of_nat_0_less_iff zero_less_one_class.zero_le_one
        order.trans zero_less_imp_eq_int less_le_trans zero_less_one)
  have "int b - min (int b) (int a * int q) = int (b - a * q)"
    by (simp add: min_def of_nat_diff flip: of_nat_mult)
  moreover have "int (b - a * q) + int q - 1 = int ((b - a * q) + q - 1)" using q(2) by simp
  ultimately show ?thesis using q by (simp add: bareAcks_def zdiv_int)
qed

lemma Poll_unfold:
  assumes "limit = min (length (out l)) (nat (SendWindow (opts l)))"
    and "d = (if retransmit l then int (length (filter (isDue now) (take (nsent l) (out l)))) else 0)"
    and "a = int limit - int (nsent l) + d"
  shows "Poll l now =
    (if a = 0 \<and> int (length (acks l)) = 0 then (Inr [], observe l now)
     else (pollResult (a + (int (length (acks l)) - min (int (length (acks l)))
               (a * MaxAcksPerPacket (opts l)) + MaxAcksPerPacket (opts l) - 1) div MaxAcksPerPacket (opts l))
             (ps_pkts (pollLoops (observe l now) now limit d)),
           pollDone (observe l now) limit (pollLoops (observe l now) now limit d)))"
  unfolding assms by (simp only: Poll_def Let_def observe_frame)

text \<open>
  \<open>Poll\<close> returns exactly the packets described, all of its arrays used and no index out of
  range, and leaves the layer with the timers of what it sent set.
\<close>

lemma Poll_eq:
  assumes ok: "poll_ok l"
  shows "fst (Poll l now) = Inr (map Some (pollPackets l now))"
    and "out (snd (Poll l now)) = polledOut l now"
    and "nsent (snd (Poll l now)) = limitOf l"
    and "acks (snd (Poll l now)) = []"
    and "acks l \<noteq> [] \<Longrightarrow> ackSince (snd (Poll l now)) = 0"
    and "acks l = [] \<Longrightarrow> ackSince (snd (Poll l now)) = ackSince l"
    and "recent (snd (Poll l now)) = (if acks l = [] then recent l else recent (remember l (acks l)))"
proof -
  let ?l = "observe l now"
  have lim: "nsent l \<le> limitOf l" "limitOf l \<le> length (out l)" "1 \<le> MaxAcksPerPacket (opts l)"
    using ok by (auto simp: limitOf_def poll_ok_def)
  have dc: "(if retransmit l then int (length (filter (isDue now) (take (nsent l) (out l)))) else 0)
     = int (length (dueIdx l now))"
    using lim by (intro dueIdx_count) simp
  let ?a = "length (pollMsgs l now)" and ?per = "MaxAcksPerPacket (opts l)"
  have msgs: "int (limitOf l) - int (nsent l) + int (length (dueIdx l now)) = int ?a"
    using lim by (simp add: pollMsgs_def)
  define st where "st = pollLoops ?l now (limitOf l) (int (length (dueIdx l now)))"
  have st: "ps_pkts st = pollPackets l now" "ps_out st = polledOut l now"
    using pollLoops_spec [of ?l "int (length (dueIdx l now))" now] ok by (simp_all add: st_def)
  have len: "length (pollPackets l now) = ?a + bareAcks (nat ?per) (length (acks l) - ?a * nat ?per)"
    by (simp add: pollPackets_def Let_def)
  have n: "int ?a + (int (length (acks l)) - min (int (length (acks l))) (int ?a * ?per) + ?per - 1) div ?per
      = int (length (pollPackets l now))"
    using poll_count [OF lim(3), of ?a "length (acks l)"] len by simp
  have P: "Poll l now = (if ?a = 0 \<and> acks l = [] then (Inr [], ?l)
     else (Inr (map Some (pollPackets l now)), pollDone ?l (limitOf l) st))"
    unfolding Poll_unfold [OF limitOf_def dc [symmetric] msgs [symmetric]] n st_def [symmetric]
    by (simp add: st pollResult_def)
  have triv: "pollPackets l now = []" "polledOut l now = out l" "limitOf l = nsent l"
    if "?a = 0" "acks l = []"
  proof -
    from that have "limitOf l - nsent l + length (dueIdx l now) = 0" by (simp add: pollMsgs_def)
    then have "limitOf l = nsent l" "length (dueIdx l now) = 0" using lim by linarith+
    then have e: "limitOf l = nsent l" "dueIdx l now = []" by simp_all
    then show "limitOf l = nsent l" by blast
    show "pollPackets l now = []" using that len by simp
    have "\<not> (j < nsent l \<and> retransmit l \<and> isDue now (out l ! j))" for j
      using e(2) by (auto simp: dueIdx_def filter_empty_conv split: if_splits)
    then show "polledOut l now = out l"
      using e(1) by (auto simp: polledOut_def intro!: nth_equalityI)
  qed
  show "fst (Poll l now) = Inr (map Some (pollPackets l now))"
    using triv(1) by (auto simp: P)
  show "out (snd (Poll l now)) = polledOut l now"
    using triv(2) st by (auto simp: P pollDone_def remember_def Let_def)
  show "nsent (snd (Poll l now)) = limitOf l"
    using triv(3) by (auto simp: P pollDone_def remember_def Let_def)
  show "acks (snd (Poll l now)) = []" by (auto simp: P pollDone_def Let_def)
  show "ackSince (snd (Poll l now)) = 0" if "acks l \<noteq> []" using that by (auto simp: P pollDone_def Let_def)
  show "ackSince (snd (Poll l now)) = ackSince l" if "acks l = []" using that by (auto simp: P pollDone_def Let_def)
  show "recent (snd (Poll l now)) = (if acks l = [] then recent l else recent (remember l (acks l)))"
    by (auto simp: P pollDone_def remember_def Let_def)
qed

lemma Poll_frame [simp]:
  "opts (snd (Poll l now)) = opts l" "retransmit (snd (Poll l now)) = retransmit l"
  "base (snd (Poll l now)) = base l" "unacked (snd (Poll l now)) = unacked l"
  "nextID (snd (Poll l now)) = nextID l" "ring (snd (Poll l now)) = ring l"
  "maxPending (snd (Poll l now)) = maxPending l" "recentCap (snd (Poll l now)) = recentCap l"
  by (simp_all add: Poll_def pollDone_def Let_def remember_def)

section \<open>The layer's invariant\<close>

definition opts_ok :: "rel_options \<Rightarrow> bool" where
  "opts_ok q \<longleftrightarrow> 1 \<le> SendWindow q \<and> SendWindow q \<le> MaxWindow \<and> 1 \<le> RecvWindow q \<and> RecvWindow q \<le> MaxWindow \<and>
     1 \<le> MaxAcksPerPacket q \<and> MaxAcksPerPacket q \<le> MaxAcks \<and>
     RecentAcks q \<le> MaxAcksPerPacket q \<and> RecentAcks q \<noteq> 0 \<and>
     InitialTimeout q \<noteq> 0 \<and> 0 < MaxTimeout q \<and> (0 < InitialTimeout q \<longrightarrow> InitialTimeout q \<le> MaxTimeout q)"

text \<open>
  The send queue: at most \<open>SendWindow\<close> messages are in flight, only those can have been
  acknowledged, the oldest of them has not, and \<open>unacked\<close> counts the messages still to be
  acknowledged; the timers of messages in flight lie between the initial and the maximal
  timeout.
\<close>

definition timer_ok :: "rel_options \<Rightarrow> outMsg \<Rightarrow> bool" where
  "timer_ok q m \<longleftrightarrow> InitialTimeout q \<le> timeout m \<and> timeout m \<le> MaxTimeout q \<and> due m \<noteq> 0"

definition send_ok :: "layer \<Rightarrow> bool" where
  "send_ok l \<longleftrightarrow> nsent l \<le> limitOf l \<and>
     unacked l = int (length (filter (\<lambda>m. \<not> acked m) (out l))) \<and>
     (\<forall>m \<in> set (drop (nsent l) (out l)). \<not> acked m) \<and>
     (0 < nsent l \<longrightarrow> \<not> acked (hd (out l))) \<and>
     (retransmit l \<longrightarrow> (\<forall>m \<in> set (take (nsent l) (out l)). timer_ok (opts l) m))"

text \<open>The acks: those pending are distinct and bounded and dated, those remembered fit their slots.\<close>

definition acks_ok :: "layer \<Rightarrow> bool" where
  "acks_ok l \<longleftrightarrow> distinct (acks l) \<and> int (length (acks l)) \<le> maxPending l \<and>
     (acks l \<noteq> [] \<longrightarrow> ackSince l \<noteq> 0) \<and>
     distinct (recent l) \<and> length (recent l) \<le> recentCap l \<and>
     int (recentCap l) \<le> MaxAcksPerPacket (opts l)"

definition layer_ok :: "layer \<Rightarrow> bool" where
  "layer_ok l \<longleftrightarrow> opts_ok (opts l) \<and> retransmit l = (0 < InitialTimeout (opts l)) \<and>
     maxPending l = max minPendingAcks (2 * RecvWindow (opts l)) \<and>
     send_ok l \<and> recv_ok l \<and> acks_ok l"

lemma opts_ok_New: "opts_ok (New_opts o0)"
  by (simp add: opts_ok_def New_opts_def Let_def rel_consts MaxAcks_def min_def) auto

lemma layer_ok_New: "layer_ok (New o0)"
  using opts_ok_New [of o0] recv_ok_New [of o0]
  by (simp add: layer_ok_def send_ok_def acks_ok_def New_def Let_def limitOf_def rel_consts opts_ok_def)

lemma layer_ok_Send:
  assumes "layer_ok l"
  shows "layer_ok (snd (Send l op pl))"
proof -
  let ?m = "\<lparr>out_op = op, out_payload = pl, acked = False, timeout = 0, due = 0\<rparr>"
  have n: "nsent l \<le> length (out l)" using assms by (simp add: layer_ok_def send_ok_def limitOf_def)
  then have "drop (nsent l) (out l @ [?m]) = drop (nsent l) (out l) @ [?m]"
    "take (nsent l) (out l @ [?m]) = take (nsent l) (out l)" by simp_all
  moreover have "0 < nsent l \<Longrightarrow> hd (out l @ [?m]) = hd (out l)"
    using n by (cases "out l") auto
  ultimately show ?thesis
    using assms by (auto simp: layer_ok_def send_ok_def recv_ok_def acks_ok_def limitOf_def Send_def Let_def)
qed

text \<open>Acknowledged messages leave the count of those outstanding right.\<close>

lemma filter_update_count:
  "k < length xs \<Longrightarrow> P (xs ! k) \<Longrightarrow> \<not> P y \<Longrightarrow>
     int (length (filter P (xs[k := y]))) = int (length (filter P xs)) - 1"
proof (induction xs arbitrary: k)
  case Nil
  then show ?case by simp
next
  case (Cons x xs)
  then show ?case by (cases k) auto
qed

text \<open>
  \<open>send_ok\<close> without the claim that the oldest message in flight is unacknowledged: what
  holds between \<open>retire\<close> and \<open>pop\<close>.
\<close>

definition send_mid :: "layer \<Rightarrow> bool" where
  "send_mid l \<longleftrightarrow> nsent l \<le> limitOf l \<and>
     unacked l = int (length (filter (\<lambda>m. \<not> acked m) (out l))) \<and>
     (\<forall>m \<in> set (drop (nsent l) (out l)). \<not> acked m) \<and>
     (retransmit l \<longrightarrow> (\<forall>m \<in> set (take (nsent l) (out l)). timer_ok (opts l) m))"

lemma send_ok_mid: "send_ok l \<longleftrightarrow> send_mid l \<and> (0 < nsent l \<longrightarrow> \<not> acked (hd (out l)))"
  by (auto simp: send_ok_def send_mid_def)

lemma send_mid_retire:
  assumes "send_mid l"
  shows "send_mid (retire l i)"
proof (cases "nsent l \<le> unat (i - base l) \<or> acked (out l ! unat (i - base l))")
  case True
  then have "retire l i = l" by (auto simp: retire_def Let_def)
  with assms show ?thesis by simp
next
  case False
  let ?k = "unat (i - base l)"
  let ?m = "(out l ! ?k)\<lparr>acked := True, out_payload := []\<rparr>"
  have k: "?k < nsent l" "\<not> acked (out l ! ?k)" and n: "nsent l \<le> length (out l)"
    using False assms by (auto simp: send_mid_def limitOf_def)
  have r: "out (retire l i) = (out l)[?k := ?m]" "unacked (retire l i) = unacked l - 1"
    using k by (simp_all add: retire_def Let_def)
  have "int (length (filter (\<lambda>m. \<not> acked m) ((out l)[?k := ?m]))) = int (length (filter (\<lambda>m. \<not> acked m) (out l))) - 1"
    by (rule filter_update_count) (use k n in simp_all)
  moreover have "drop (nsent l) ((out l)[?k := ?m]) = drop (nsent l) (out l)"
    using k by simp
  moreover have "timer_ok (opts l) m" if "retransmit l" "m \<in> set (take (nsent l) ((out l)[?k := ?m]))" for m
  proof -
    have "take (nsent l) ((out l)[?k := ?m]) = (take (nsent l) (out l))[?k := ?m]"
      by (simp add: take_update_swap)
    with that have "m \<in> insert ?m (set (take (nsent l) (out l)))"
      using set_update_subset_insert by fastforce
    moreover have "timer_ok (opts l) ?m \<longleftrightarrow> timer_ok (opts l) (out l ! ?k)" by (simp add: timer_ok_def)
    moreover have "out l ! ?k \<in> set (take (nsent l) (out l))"
      using k n by (auto simp: in_set_conv_nth)
    ultimately show ?thesis using assms that(1) by (auto simp: send_mid_def)
  qed
  ultimately show ?thesis using assms r by (auto simp: send_mid_def limitOf_def)
qed

lemma send_mid_retireAll: "send_mid l \<Longrightarrow> send_mid (retireAll l ids)"
  by (induction l ids rule: retireAll.induct) (simp_all add: send_mid_retire)

text \<open>\<open>pop\<close> drops a prefix of acknowledged messages and stops at one that is not.\<close>

lemma popLoop_spec:
  assumes "n \<le> length ms"
  shows "\<exists>j \<le> n. popLoop ms b n = (drop j ms, b + of_nat j, n - j) \<and>
     (\<forall>m \<in> set (take j ms). acked m) \<and> (j < n \<longrightarrow> \<not> acked (hd (drop j ms)))"
  using assms
proof (induction ms b n rule: popLoop.induct)
  case (1 m ms b n)
  show ?case
  proof (cases "acked m")
    case True
    with "1.IH" "1.prems" obtain j where "j \<le> n" "popLoop ms (b + 1) n = (drop j ms, b + 1 + of_nat j, n - j)"
      "\<forall>m \<in> set (take j ms). acked m" "j < n \<longrightarrow> \<not> acked (hd (drop j ms))" by auto
    with True show ?thesis by (intro exI [of _ "Suc j"]) (simp add: add.assoc)
  next
    case False
    then show ?thesis by (intro exI [of _ 0]) simp
  qed
qed auto

lemma pop_spec:
  assumes "nsent l \<le> length (out l)"
  obtains j where "j \<le> nsent l" "out (pop l) = drop j (out l)" "base (pop l) = base l + of_nat j"
    "nsent (pop l) = nsent l - j" "\<forall>m \<in> set (take j (out l)). acked m"
    "j < nsent l \<longrightarrow> \<not> acked (hd (drop j (out l)))"
  using popLoop_spec [OF assms, of "base l"] by (auto simp: pop_def)

lemma send_ok_pop:
  assumes "send_mid l"
  shows "send_ok (pop l)"
proof -
  have n: "nsent l \<le> length (out l)" using assms by (simp add: send_mid_def limitOf_def)
  from pop_spec [OF n] obtain j where j: "j \<le> nsent l" "out (pop l) = drop j (out l)"
    "nsent (pop l) = nsent l - j" "\<forall>m \<in> set (take j (out l)). acked m"
    "j < nsent l \<longrightarrow> \<not> acked (hd (drop j (out l)))" by metis
  have "filter (\<lambda>m. \<not> acked m) (out l) = filter (\<lambda>m. \<not> acked m) (drop j (out l))"
    using j(4) by (subst append_take_drop_id [of j, symmetric], subst filter_append) simp
  moreover have "take (nsent l - j) (drop j (out l)) = drop j (take (nsent l) (out l))"
    by (simp add: drop_take)
  ultimately show ?thesis
    using assms j n set_drop_subset [of j "take (nsent l) (out l)"]
    by (auto simp: send_ok_mid send_mid_def limitOf_def)
qed

lemma send_ok_absorb: "send_ok l \<Longrightarrow> send_ok (absorb l p now)"
proof -
  assume ok: "send_ok l"
  then have ok': "send_ok (observe l now)" by (simp add: send_ok_def)
  then show ?thesis
    by (auto simp: absorb_def Let_def send_ok_mid [of l] intro!: send_ok_pop send_mid_retireAll
        dest: iffD1 [OF send_ok_mid])
qed

lemma acks_ok_ack:
  assumes "acks_ok l" "1 \<le> maxPending l"
  shows "acks_ok (ack l i now)"
  using assms by (auto simp: acks_ok_def ack_def Let_def longAgo_def)

lemma send_ok_ack [simp]: "send_ok (ack l i now) = send_ok l"
  by (simp add: send_ok_def limitOf_def)

lemma send_ok_cong:
  "out l' = out l \<Longrightarrow> nsent l' = nsent l \<Longrightarrow> unacked l' = unacked l \<Longrightarrow> opts l' = opts l \<Longrightarrow>
     retransmit l' = retransmit l \<Longrightarrow> send_ok l' = send_ok l"
  by (simp add: send_ok_def limitOf_def)

lemma acks_ok_cong:
  "acks l' = acks l \<Longrightarrow> maxPending l' = maxPending l \<Longrightarrow> ackSince l' = ackSince l \<Longrightarrow> recent l' = recent l \<Longrightarrow>
     recentCap l' = recentCap l \<Longrightarrow> opts l' = opts l \<Longrightarrow> acks_ok l' = acks_ok l"
  by (simp add: acks_ok_def)

text \<open>The layer after \<open>Receive\<close>, but for the receive side: absorbed acks, perhaps a new pending one.\<close>

lemma ring_update_shape: "\<exists>rg nx. l\<lparr>ring := r\<rparr> = l\<lparr>ring := rg, nextID := nx\<rparr>"
  by (intro exI [of _ r] exI [of _ "nextID l"]) simp

lemma Receive_shape:
  "\<exists>l1. (l1 = l \<or> l1 = absorb l p now \<or> l1 = ack (absorb l p now) (PacketID p) now) \<and>
     (\<exists>rg nx. snd (Receive l (Some p) now) = l1\<lparr>ring := rg, nextID := nx\<rparr>)"
proof -
  consider "\<not> IsControl (Opcode p)" | "IsControl (Opcode p)" "\<not> HasMessageID p"
    | "IsControl (Opcode p)" "HasMessageID p" "PacketID p < nextID l"
    | "IsControl (Opcode p)" "HasMessageID p" "PacketID p = nextID l"
    | "IsControl (Opcode p)" "HasMessageID p" "nextID l < PacketID p"
        "uint (PacketID p - nextID l) \<le> RecvWindow (opts l)"
    | "IsControl (Opcode p)" "HasMessageID p" "nextID l < PacketID p"
        "uint (PacketID p - nextID l) > RecvWindow (opts l)"
    by fastforce
  then show ?thesis
  proof cases
    case 1
    then show ?thesis by (intro exI [of _ l]) (auto simp: Receive_ignored intro!: exI [of _ "ring l"] exI [of _ "nextID l"])
  next
    case 2
    then show ?thesis
      by (intro exI [of _ "absorb l p now"])
         (auto simp: Receive_ack intro!: exI [of _ "ring (absorb l p now)"] exI [of _ "nextID (absorb l p now)"])
  next
    case 3
    let ?l = "ack (absorb l p now) (PacketID p) now"
    from 3 show ?thesis
      by (intro exI [of _ ?l]) (auto simp: Receive_old intro!: exI [of _ "ring ?l"] exI [of _ "nextID ?l"])
  next
    case 4
    then show ?thesis
      by (intro exI [of _ "ack (absorb l p now) (PacketID p) now"])
         (auto simp: Receive_next drain_def split: prod.split)
  next
    case 5
    let ?l = "ack (absorb l p now) (PacketID p) now"
    from Receive_ahead [OF 5 refl, of now] show ?thesis
      using ring_update_shape [where l = ?l] by (intro exI [of _ ?l]) (simp only: snd_conv, simp)
  next
    case 6
    then show ?thesis
      by (intro exI [of _ "absorb l p now"])
         (auto simp: Receive_far intro!: exI [of _ "ring (absorb l p now)"] exI [of _ "nextID (absorb l p now)"])
  qed
qed

lemma layer_ok_Receive:
  assumes ok: "layer_ok l"
  shows "layer_ok (snd (Receive l pp now))"
proof (cases pp)
  case None
  with ok show ?thesis by (simp add: Receive_None)
next
  case (Some p)
  have one: "1 \<le> maxPending l" using ok by (simp add: layer_ok_def rel_consts)
  from Receive_shape [of l p now] obtain l1 rg nx where
    l1: "l1 = l \<or> l1 = absorb l p now \<or> l1 = ack (absorb l p now) (PacketID p) now"
    and sh: "snd (Receive l (Some p) now) = l1\<lparr>ring := rg, nextID := nx\<rparr>"
    by blast
  have fr: "opts l1 = opts l" "retransmit l1 = retransmit l" "maxPending l1 = maxPending l"
    using l1 by auto
  have so: "send_ok l1" using ok l1 send_ok_absorb by (auto simp: layer_ok_def)
  have "acks_ok (absorb l p now)" using ok by (simp add: layer_ok_def acks_ok_def)
  then have ao: "acks_ok l1" using ok l1 one acks_ok_ack by (auto simp: layer_ok_def)
  have "recv_ok (snd (Receive l (Some p) now))"
    using Receive_delivers [of l p now] ok by (metis layer_ok_def prod.collapse)
  moreover have "send_ok (snd (Receive l (Some p) now))"
    unfolding sh using so by (subst send_ok_cong [of _ l1]) simp_all
  moreover have "acks_ok (snd (Receive l (Some p) now))"
    unfolding sh using ao by (subst acks_ok_cong [of _ l1]) simp_all
  ultimately show ?thesis using ok Some fr by (simp add: layer_ok_def sh)
qed

lemma sliceIndex_Some: "sliceIndex xs y = Some k \<Longrightarrow> k < length xs \<and> xs ! k = y"
  by (induction xs arbitrary: k) (auto split: if_splits)

lemma sliceIndex_None: "sliceIndex xs y = None \<longleftrightarrow> y \<notin> set xs"
  by (induction xs) auto

text \<open>\<open>remember\<close> moves an id to the front, dropping the oldest when there is no room.\<close>

lemma rememberOne_eq:
  assumes "0 < r" "length rec \<le> r" "distinct rec"
  shows "rememberOne r rec i = i # take (r - 1) (filter (\<lambda>j. j \<noteq> i) rec)"
proof (cases "sliceIndex rec i")
  case (Some k)
  then have k: "k < length rec" "rec ! k = i" using sliceIndex_Some [OF Some] by auto
  have split: "rec = take k rec @ i # drop (Suc k) rec"
    using k by (metis id_take_nth_drop)
  then have "i \<notin> set (take k rec)" "i \<notin> set (drop (Suc k) rec)"
    using assms(3) by (metis distinct.simps(2) distinct_append disjoint_insert(1) list.set(2) not_distinct_conv_prefix)+
  then have "filter (\<lambda>j. j \<noteq> i) (take k rec) = take k rec"
      "filter (\<lambda>j. j \<noteq> i) (drop (Suc k) rec) = drop (Suc k) rec"
    by (auto intro!: filter_True)
  then have "filter (\<lambda>j. j \<noteq> i) rec = take k rec @ drop (Suc k) rec"
    by (subst split) simp
  with Some k assms show ?thesis by (simp add: rememberOne_def)
next
  case None
  then have "i \<notin> set rec" by (simp add: sliceIndex_None)
  then have f: "filter (\<lambda>j. j \<noteq> i) rec = rec" by (auto intro!: filter_True)
  show ?thesis
  proof (cases "length rec < r")
    case True
    with None f show ?thesis by (simp add: rememberOne_def Let_def)
  next
    case False
    with assms have "length rec = r" by simp
    with None f assms(1) show ?thesis by (simp add: rememberOne_def Let_def)
  qed
qed

lemma rememberLoop_ok:
  "0 < r \<Longrightarrow> length rec \<le> r \<Longrightarrow> distinct rec \<Longrightarrow>
     length (rememberLoop r rec ids) \<le> r \<and> distinct (rememberLoop r rec ids) \<and>
     set (rememberLoop r rec ids) \<subseteq> set rec \<union> set ids"
proof (induction r rec ids rule: rememberLoop.induct)
  case (1 r rec)
  then show ?case by simp
next
  case (2 r rec i ids)
  let ?rec = "rememberOne r rec i"
  have eq: "?rec = i # take (r - 1) (filter (\<lambda>j. j \<noteq> i) rec)" by (rule rememberOne_eq) (use 2 in auto)
  have "set (take (r - 1) (filter (\<lambda>j. j \<noteq> i) rec)) \<subseteq> set rec - {i}"
    using set_take_subset [of "r - 1" "filter (\<lambda>j. j \<noteq> i) rec"] by auto
  then have "length ?rec \<le> r" "distinct ?rec" "set ?rec \<subseteq> insert i (set rec)"
    using 2 unfolding eq by auto
  with 2 show ?case by fastforce
qed

lemma remember_ok:
  assumes "acks_ok l"
  shows "length (recent (remember l ids)) \<le> recentCap l \<and> distinct (recent (remember l ids)) \<and>
     set (recent (remember l ids)) \<subseteq> set (recent l) \<union> set ids"
proof (cases "recentCap l = 0")
  case True
  then show ?thesis using assms by (auto simp: remember_def acks_ok_def)
next
  case False
  let ?ids = "if length ids > recentCap l then drop (length ids - recentCap l) ids else ids"
  have "set ?ids \<subseteq> set ids" by (auto dest: in_set_dropD)
  with rememberLoop_ok [of "recentCap l" "recent l" ?ids] False assms show ?thesis
    by (auto simp: remember_def acks_ok_def Let_def)
qed

lemma backoff_bounds:
  assumes "0 < InitialTimeout q" "InitialTimeout q \<le> t" "t \<le> MaxTimeout q"
  shows "InitialTimeout q \<le> backoff q t" "backoff q t \<le> MaxTimeout q" "t \<le> backoff q t"
  using assms by (auto simp: backoff_def)

lemma polledOut_nth:
  "i < length (out l) \<Longrightarrow> polledOut l now ! i =
     (if i < nsent l then (if retransmit l \<and> isDue now (out l ! i) then restartTimer l now (out l ! i) else out l ! i)
      else if i < limitOf l then startTimer l now (out l ! i) else out l ! i)"
  by (simp add: polledOut_def)

lemma length_polledOut [simp]: "length (polledOut l now) = length (out l)"
  by (simp add: polledOut_def)

lemma polledOut_same:
  assumes "i < length (out l)"
  shows "acked (polledOut l now ! i) = acked (out l ! i)" "out_op (polledOut l now ! i) = out_op (out l ! i)"
    "out_payload (polledOut l now ! i) = out_payload (out l ! i)"
  using assms by (auto simp: polledOut_nth)

lemma layer_ok_poll: "layer_ok l \<Longrightarrow> poll_ok l"
  by (simp add: layer_ok_def send_ok_def poll_ok_def opts_ok_def)

lemma polledOut_timer_ok:
  assumes ok: "layer_ok l" and re: "retransmit l" and i: "i < limitOf l"
  shows "timer_ok (opts l) (polledOut l now ! i)"
proof -
  have q: "0 < InitialTimeout (opts l)" "InitialTimeout (opts l) \<le> MaxTimeout (opts l)"
    using ok re by (auto simp: layer_ok_def opts_ok_def)
  have len: "i < length (out l)" using i by (simp add: limitOf_def)
  show ?thesis
  proof (cases "i < nsent l")
    case False
    with len i re q show ?thesis by (simp add: polledOut_nth startTimer_def timer_ok_def time_add_def)
  next
    case True
    then have "out l ! i \<in> set (take (nsent l) (out l))"
      using len by (auto simp: in_set_conv_nth intro!: exI [of _ i])
    then have t: "timer_ok (opts l) (out l ! i)" using ok re by (auto simp: layer_ok_def send_ok_def)
    then have "InitialTimeout (opts l) \<le> timeout (out l ! i)" "timeout (out l ! i) \<le> MaxTimeout (opts l)"
      by (simp_all add: timer_ok_def)
    from backoff_bounds [OF q(1) this] t True len q(1) show ?thesis
      by (auto simp: polledOut_nth restartTimer_def timer_ok_def time_add_def)
  qed
qed

lemma send_ok_polled:
  assumes ok: "layer_ok l"
    and l': "out l' = polledOut l now" "nsent l' = limitOf l" "unacked l' = unacked l" "opts l' = opts l"
      "retransmit l' = retransmit l"
  shows "send_ok l'"
proof -
  have s: "send_ok l" and n: "nsent l \<le> limitOf l" "limitOf l \<le> length (out l)"
    using ok by (auto simp: layer_ok_def send_ok_def limitOf_def)
  have ac: "map acked (polledOut l now) = map acked (out l)"
    by (auto intro: nth_equalityI simp: polledOut_same)
  have cnt: "length (filter (\<lambda>m. \<not> acked m) xs) = length (filter Not (map acked xs))" for xs :: "outMsg list"
    by (simp add: filter_map comp_def)
  have nacked: "\<not> acked (out l ! i)" if "nsent l \<le> i" "i < length (out l)" for i
  proof -
    have "drop (nsent l) (out l) ! (i - nsent l) \<in> set (drop (nsent l) (out l))"
      using that by (intro nth_mem) simp
    then have "out l ! i \<in> set (drop (nsent l) (out l))" using that by simp
    then show ?thesis using s by (auto simp: send_ok_def)
  qed
  have "\<not> acked m" if "m \<in> set (drop (limitOf l) (polledOut l now))" for m
    using that n nacked by (auto simp: in_set_conv_nth polledOut_same)
  moreover have "\<not> acked (hd (polledOut l now))" if "0 < limitOf l"
  proof -
    have len: "0 < length (out l)" using that n by linarith
    then have "out l \<noteq> []" "polledOut l now \<noteq> []"
      using length_polledOut [of l now] by (metis length_greater_0_conv)+
    then have "hd (polledOut l now) = polledOut l now ! 0" "hd (out l) = out l ! 0"
      by (simp_all add: hd_conv_nth)
    then show ?thesis using s nacked [of 0] len polledOut_same(1) [of 0 l now]
      by (cases "nsent l") (auto simp: send_ok_def)
  qed
  moreover have "timer_ok (opts l) m" if "retransmit l" "m \<in> set (take (limitOf l) (polledOut l now))" for m
    using that polledOut_timer_ok [OF ok that(1)] by (auto simp: in_set_conv_nth)
  moreover have "unacked l = int (length (filter (\<lambda>m. \<not> acked m) (polledOut l now)))"
    using s by (simp add: send_ok_def cnt ac)
  ultimately show ?thesis using l' by (auto simp: send_ok_def limitOf_def)
qed

lemma layer_ok_Poll:
  assumes ok: "layer_ok l"
  shows "layer_ok (snd (Poll l now))"
proof -
  let ?l = "snd (Poll l now)"
  note P = Poll_eq [OF layer_ok_poll [OF ok], of now]
  have "send_ok ?l" by (rule send_ok_polled [OF ok]) (simp_all add: P)
  moreover have "recv_ok ?l" using ok by (simp add: layer_ok_def recv_ok_def)
  moreover have "acks_ok ?l"
    using ok remember_ok [of l "acks l"] by (auto simp: layer_ok_def acks_ok_def P rel_consts)
  ultimately show ?thesis using ok by (simp add: layer_ok_def)
qed

end
