(* ===== verification/Reliable_Timing.thy ===== *)
theory Reliable_Timing
  imports Reliable_Send
begin

text \<open>
  A layer in use: any sequence of calls on a layer keeps its invariant, \<open>Poll\<close> never runs
  past its arrays, acks go out once and from the front, and \<open>NextDeadline\<close> is exact: it
  names a moment that has come precisely when \<open>Poll\<close> has something to send.
\<close>

section \<open>Sequences of calls\<close>

datatype layerOp =
  OpSend opcode bytes
| OpReceive "control_packet option" time
| OpPoll time

fun stepOp :: "layer \<Rightarrow> layerOp \<Rightarrow> layer" where
  "stepOp l (OpSend op pl) = snd (Send l op pl)"
| "stepOp l (OpReceive p now) = snd (Receive l p now)"
| "stepOp l (OpPoll now) = snd (Poll l now)"

definition runOps :: "rel_options \<Rightarrow> layerOp list \<Rightarrow> layer" where
  "runOps o0 cs = foldl stepOp (New o0) cs"

text \<open>When the pending acks became pending: not after the last moment the layer saw.\<close>

definition since_ok :: "layer \<Rightarrow> bool" where
  "since_ok l \<longleftrightarrow> acks l \<noteq> [] \<longrightarrow> ackSince l \<le> max longAgo (lastNow l)"

lemma lastNow_absorb: "lastNow (absorb l p now) = max (lastNow l) now"
  by (auto simp: absorb_def Let_def observe_def)

lemma since_ok_ack:
  assumes "since_ok l" "now \<le> lastNow l"
  shows "since_ok (ack l i now)"
  using assms by (auto simp: since_ok_def ack_def Let_def)

lemma since_ok_Receive:
  assumes "since_ok l"
  shows "since_ok (snd (Receive l pp now))"
proof (cases pp)
  case None
  with assms show ?thesis by (simp add: Receive_None)
next
  case (Some p)
  have ab: "since_ok (absorb l p now)" using assms by (auto simp: since_ok_def lastNow_absorb)
  then have "since_ok (ack (absorb l p now) (PacketID p) now)"
    by (rule since_ok_ack) (simp add: lastNow_absorb)
  with ab assms Some Receive_shape [of l p now] show ?thesis by (auto simp: since_ok_def)
qed

lemma since_ok_step: "layer_ok l \<Longrightarrow> since_ok l \<Longrightarrow> since_ok (stepOp l c)"
proof (cases c)
  case (OpReceive p now)
  assume "since_ok l"
  with OpReceive show ?thesis by (simp add: since_ok_Receive)
qed (simp_all add: since_ok_def Send_def Let_def Poll_eq(4) layer_ok_poll)

lemma layer_ok_step: "layer_ok l \<Longrightarrow> layer_ok (stepOp l c)"
  by (cases c) (simp_all add: layer_ok_Send layer_ok_Receive layer_ok_Poll)

lemma runOps_ok: "layer_ok (runOps o0 cs) \<and> since_ok (runOps o0 cs)"
proof -
  have "layer_ok (foldl stepOp l cs) \<and> since_ok (foldl stepOp l cs)" if "layer_ok l" "since_ok l" for l
    using that by (induction cs arbitrary: l) (simp_all add: layer_ok_step since_ok_step)
  moreover have "since_ok (New o0)" by (simp add: since_ok_def New_def Let_def)
  ultimately show ?thesis by (simp add: runOps_def layer_ok_New)
qed

text \<open>The packets of \<open>Poll\<close> and the acks they carry.\<close>

lemma Receive_opts: "opts (snd (Receive l pp now)) = opts l"
proof (cases pp)
  case None
  then show ?thesis by (simp add: Receive_None)
next
  case (Some p)
  with Receive_shape [of l p now] show ?thesis by auto
qed

lemma bareAcks_enough: "0 < per \<Longrightarrow> n \<le> bareAcks per n * per"
proof (induction n rule: less_induct)
  case (less n)
  show ?case
  proof (cases "n = 0")
    case False
    with less have "n - per \<le> bareAcks per (n - per) * per" by simp
    with False less.prems show ?thesis by (simp add: bareAcks_step [of per n])
  qed simp
qed

lemma pollPackets_acks:
  assumes ok: "layer_ok l"
  shows "\<exists>cs. length cs = length (pollPackets l now) \<and> concat cs = acks l \<and>
     (\<forall>k < length cs. \<exists>es. Acks (pollPackets l now ! k) = cs ! k @ es \<and>
        set es \<subseteq> set (recent l) \<and> (Opcode (pollPackets l now ! k) = AckV1 \<longrightarrow> es = []) \<and>
        int (length (Acks (pollPackets l now ! k))) \<le> min MaxAcks (MaxAcksPerPacket (opts l)) \<and>
        distinct (Acks (pollPackets l now ! k))) \<and>
     acks (snd (Poll l now)) = []"
proof -
  let ?per = "nat (MaxAcksPerPacket (opts l))"
  let ?m = "length (pollMsgs l now)"
  define ms where "ms = pollMsgs l now @
    replicate (bareAcks ?per (length (acks l) - ?m * ?per)) (AckV1, 0, [])"
  have per: "1 \<le> MaxAcksPerPacket (opts l)" "MaxAcksPerPacket (opts l) \<le> MaxAcks" and d: "distinct (acks l)"
    using ok by (auto simp: layer_ok_def opts_ok_def acks_ok_def)
  have pk: "pollPackets l now = fill ?per (recent l) ms (acks l)"
    by (simp add: pollPackets_def ms_def Let_def)
  have "length (acks l) \<le> ?m * ?per + bareAcks ?per (length (acks l) - ?m * ?per) * ?per"
    using bareAcks_enough [of ?per "length (acks l) - ?m * ?per"] per by linarith
  then have "take (length ms * ?per) (acks l) = acks l" by (simp add: ms_def add_mult_distrib)
  with fill_acks [OF d, of ms ?per "recent l"] obtain cs where cs: "length cs = length ms" "concat cs = acks l"
    "\<forall>k < length ms. \<exists>es. Acks (pollPackets l now ! k) = cs ! k @ es \<and> set es \<subseteq> set (recent l) \<and>
        (Opcode (pollPackets l now ! k) = AckV1 \<longrightarrow> es = []) \<and>
        length (Acks (pollPackets l now ! k)) \<le> ?per \<and> distinct (Acks (pollPackets l now ! k))"
    unfolding pk by auto
  have "int n \<le> min MaxAcks (MaxAcksPerPacket (opts l))" if "n \<le> ?per" for n using that per by simp
  with cs show ?thesis
    by (intro exI [of _ cs]) (simp add: pk Poll_eq(4) layer_ok_poll ok, blast)
qed

section \<open>Deadlines\<close>

lemma earliest_le:
  "earliest a b \<noteq> 0 \<and> earliest a b \<le> now \<longleftrightarrow> a \<noteq> 0 \<and> a \<le> now \<or> b \<noteq> 0 \<and> b \<le> now"
  by (auto simp: earliest_def)

lemma earliestDue_le:
  "earliestDue ms t \<noteq> 0 \<and> earliestDue ms t \<le> now \<longleftrightarrow>
     t \<noteq> 0 \<and> t \<le> now \<or> (\<exists>m \<in> set ms. \<not> acked m \<and> due m \<noteq> 0 \<and> due m \<le> now)"
proof (induction ms t rule: earliestDue.induct)
  case (2 m ms t)
  then show ?case using earliest_le [of t "due m" now] by auto
qed simp

lemma pollPackets_Nil:
  assumes ok: "layer_ok l"
  shows "pollPackets l now = [] \<longleftrightarrow> limitOf l \<le> nsent l \<and> dueIdx l now = [] \<and> acks l = []"
proof -
  have "1 \<le> MaxAcksPerPacket (opts l)" using ok by (auto simp: layer_ok_def opts_ok_def)
  then have "bareAcks (nat (MaxAcksPerPacket (opts l))) n = 0 \<longleftrightarrow> n = 0" for n
    using bareAcks_enough [of "nat (MaxAcksPerPacket (opts l))" n] by auto
  then have "length (pollPackets l now) = 0 \<longleftrightarrow>
      length (pollMsgs l now) = 0 \<and> length (acks l) - length (pollMsgs l now) * nat (MaxAcksPerPacket (opts l)) = 0"
    by (simp add: pollPackets_def Let_def)
  then have "pollPackets l now = [] \<longleftrightarrow> pollMsgs l now = [] \<and> acks l = []" by auto
  then show ?thesis by (auto simp: pollMsgs_def)
qed

lemma dueIdx_Nil:
  assumes ok: "layer_ok l"
  shows "dueIdx l now \<noteq> [] \<longleftrightarrow>
     retransmit l \<and> (\<exists>m \<in> set (take (nsent l) (out l)). \<not> acked m \<and> due m \<noteq> 0 \<and> due m \<le> now)"
proof -
  have n: "nsent l \<le> length (out l)" using ok by (simp add: layer_ok_def send_ok_def limitOf_def)
  have nz: "due m \<noteq> 0" if "retransmit l" "m \<in> set (take (nsent l) (out l))" for m
    using ok that by (auto simp: layer_ok_def send_ok_def timer_ok_def)
  have "take (nsent l) (out l) = map (\<lambda>i. out l ! i) [0..<nsent l]"
    using n by (auto intro: nth_equalityI)
  then have "set (take (nsent l) (out l)) = (\<lambda>i. out l ! i) ` {0..<nsent l}" by simp
  then show ?thesis using nz by (auto simp: dueIdx_def filter_empty_conv isDue_def)
qed

lemma NextDeadline_iff:
  assumes ok: "layer_ok l" and si: "since_ok l" and now: "longAgo \<le> now" "lastNow l \<le> now"
  shows "pollPackets l now \<noteq> [] \<longleftrightarrow> NextDeadline l \<noteq> 0 \<and> NextDeadline l \<le> now"
proof -
  define t1 where "t1 = (if length (acks l) > 0 then ackSince l else 0)"
  define t2 where "t2 = (if int (nsent l) < min (int (length (out l))) (SendWindow (opts l))
      then earliest t1 (if lastNow l = 0 then longAgo else lastNow l) else t1)"
  have nd: "NextDeadline l = (if retransmit l then earliestDue (take (nsent l) (out l)) t2 else t2)"
    by (simp add: NextDeadline_def t1_def t2_def Let_def)
  have "1 \<le> SendWindow (opts l)" using ok by (simp add: layer_ok_def opts_ok_def)
  then have lim: "int (nsent l) < min (int (length (out l))) (SendWindow (opts l)) \<longleftrightarrow> nsent l < limitOf l"
    by (auto simp: limitOf_def)
  have t1: "t1 \<noteq> 0 \<and> t1 \<le> now \<longleftrightarrow> acks l \<noteq> []"
    using ok si now by (auto simp: t1_def layer_ok_def acks_ok_def since_ok_def)
  have t2: "t2 \<noteq> 0 \<and> t2 \<le> now \<longleftrightarrow> acks l \<noteq> [] \<or> nsent l < limitOf l"
    using earliest_le [of t1 "if lastNow l = 0 then longAgo else lastNow l" now] t1 now lim
    by (auto simp: t2_def longAgo_def)
  show ?thesis
    using earliestDue_le [of "take (nsent l) (out l)" t2 now] t2 pollPackets_Nil [OF ok, of now] dueIdx_Nil [OF ok, of now]
    by (auto simp: nd)
qed

text \<open>
  Claim C3. After any sequence of calls on a new layer, with any options: the layer's
  invariant holds; \<open>Poll\<close> fills its arrays exactly (no index out of range, no nil packet) and
  returns one packet per message that is due or not sent yet, followed by bare acks; at most
  \<open>SendWindow\<close> messages are in flight; \<open>Unacked\<close> counts the queued messages that are not
  acknowledged; the pending acks stay within their bound.
\<close>

theorem Layer_calls_safe:
  "layer_ok (runOps o0 cs) \<and>
   fst (Poll (runOps o0 cs) now) = Inr (map Some (pollPackets (runOps o0 cs) now)) \<and>
   int (nsent (runOps o0 cs)) \<le> SendWindow (New_opts o0) \<and>
   Unacked (runOps o0 cs) = int (length (filter (\<lambda>m. \<not> acked m) (out (runOps o0 cs)))) \<and>
   int (length (acks (runOps o0 cs))) \<le> max minPendingAcks (2 * RecvWindow (New_opts o0))"
proof -
  let ?l = "runOps o0 cs"
  have ok: "layer_ok ?l" by (simp add: runOps_ok)
  have "opts (stepOp l c) = opts l" for l c
    by (cases c) (auto simp: Send_def Let_def Receive_opts)
  then have "opts (foldl stepOp l cs) = opts l" for l by (induction cs arbitrary: l) simp_all
  then have o: "opts ?l = New_opts o0" by (simp add: runOps_def New_def Let_def)
  have "int (nsent ?l) \<le> SendWindow (opts ?l)"
    using ok by (auto simp: layer_ok_def send_ok_def limitOf_def opts_ok_def)
  with ok o show ?thesis
    by (simp add: Poll_eq(1) layer_ok_poll) (simp add: layer_ok_def send_ok_def acks_ok_def Unacked_def)
qed


text \<open>A layer that has received one message and owes its ack.\<close>

definition demoOps :: "layerOp list" where
  "demoOps = [OpReceive (Some (demoPacket 0 [] [1])) 5]"

lemma demoOps_acks:
  "acks (runOps demoOptions demoOps) = [0]" "length (pollPackets (runOps demoOptions demoOps) 6) = 1"
  by code_simp+



text \<open>A layer with a short initial timeout that has sent one message, at time 10.\<close>

definition demoLayer :: "layer" where
  "demoLayer = runOps (demoOptions\<lparr>InitialTimeout := 5\<rparr>) [OpSend ControlV1 [1], OpPoll 10]"

lemma demoLayer_times: "lastNow demoLayer = 10" "NextDeadline demoLayer = 15"
  by code_simp+


end
