(* ===== verification/Reliable_Session.thy ===== *)
theory Reliable_Session
  imports Reliable_Timing
begin

text \<open>
  Two layers joined by a network that loses, repeats, reorders and delays packets as it
  likes, but does not invent them (the wrapping of the control channel sees to that). What
  one side sends is what the other side delivers, in order and without gaps or repetitions;
  a message a side counts as acknowledged has reached its peer; and whatever has happened,
  everything sent can still be delivered.

  The network is the set of packets sent so far in each direction. A packet is never removed
  from it: to lose it is never to receive it, to repeat it is to receive it again.
\<close>

section \<open>The session\<close>

record side =
  lay :: layer
  sentLog :: "(opcode \<times> bytes) list"
  gotLog :: "message list"

record session =
  sideA :: side
  sideB :: side
  netAB :: "control_packet set"
  netBA :: "control_packet set"

definition newSide :: "rel_options \<Rightarrow> side" where
  "newSide o0 = \<lparr>lay = New o0, sentLog = [], gotLog = []\<rparr>"

definition sideSend :: "side \<Rightarrow> opcode \<Rightarrow> bytes \<Rightarrow> side" where
  "sideSend s op pl = s\<lparr>lay := snd (Send (lay s) op pl), sentLog := sentLog s @ [(op, pl)]\<rparr>"

definition sideRecv :: "side \<Rightarrow> control_packet \<Rightarrow> time \<Rightarrow> side" where
  "sideRecv s p now = (let (ms, l) = Receive (lay s) (Some p) now in s\<lparr>lay := l, gotLog := gotLog s @ ms\<rparr>)"

definition sidePoll :: "side \<Rightarrow> time \<Rightarrow> side" where
  "sidePoll s now = s\<lparr>lay := snd (Poll (lay s) now)\<rparr>"

definition polled :: "side \<Rightarrow> time \<Rightarrow> control_packet set" where
  "polled s now = (case fst (Poll (lay s) now) of Inr ps \<Rightarrow> set (List.map_filter (\<lambda>p. p) ps) | Inl _ \<Rightarrow> {})"

text \<open>The opcodes of messages: the control opcodes other than the bare ack.\<close>

definition isMsgOp :: "opcode \<Rightarrow> bool" where
  "isMsgOp op \<longleftrightarrow> IsControl op \<and> op \<noteq> AckV1"

inductive session_step :: "session \<Rightarrow> session \<Rightarrow> bool" where
  sendA: "isMsgOp op \<Longrightarrow> session_step s (s\<lparr>sideA := sideSend (sideA s) op pl\<rparr>)"
| sendB: "isMsgOp op \<Longrightarrow> session_step s (s\<lparr>sideB := sideSend (sideB s) op pl\<rparr>)"
| pollA: "session_step s (s\<lparr>sideA := sidePoll (sideA s) now, netAB := netAB s \<union> polled (sideA s) now\<rparr>)"
| pollB: "session_step s (s\<lparr>sideB := sidePoll (sideB s) now, netBA := netBA s \<union> polled (sideB s) now\<rparr>)"
| recvA: "p \<in> netBA s \<Longrightarrow> session_step s (s\<lparr>sideA := sideRecv (sideA s) p now\<rparr>)"
| recvB: "p \<in> netAB s \<Longrightarrow> session_step s (s\<lparr>sideB := sideRecv (sideB s) p now\<rparr>)"

definition session_start :: "rel_options \<Rightarrow> rel_options \<Rightarrow> session" where
  "session_start oA oB = \<lparr>sideA = newSide oA, sideB = newSide oB, netAB = {}, netBA = {}\<rparr>"

inductive session_reach :: "rel_options \<Rightarrow> rel_options \<Rightarrow> session \<Rightarrow> bool" for oA oB where
  start: "session_reach oA oB (session_start oA oB)"
| step: "session_reach oA oB s \<Longrightarrow> session_step s s' \<Longrightarrow> session_reach oA oB s'"

section \<open>The invariant of one direction\<close>

text \<open>A layer has a message once it has delivered it or holds it in its ring.\<close>

definition has :: "layer \<Rightarrow> packet_id \<Rightarrow> bool" where
  "has l i \<longleftrightarrow> unat i < unat (nextID l) \<or> buffered (ring l) i \<noteq> None"

definition content :: "message \<Rightarrow> opcode \<times> bytes" where
  "content m = (msgOpcode m, msgPayload m)"

text \<open>The sender's queue is the end of what was sent; the acknowledged messages have arrived.\<close>

definition queue_link :: "(opcode \<times> bytes) list \<Rightarrow> layer \<Rightarrow> (packet_id \<Rightarrow> bool) \<Rightarrow> bool" where
  "queue_link log l H \<longleftrightarrow> unat (base l) + length (out l) = length log \<and>
     (\<forall>k < unat (base l). H (of_nat k)) \<and>
     (\<forall>i < length (out l). if acked (out l ! i) then H (base l + of_nat i)
        else log ! (unat (base l) + i) = (out_op (out l ! i), out_payload (out l ! i)))"

text \<open>A message on the network, or in the receiver's ring, is the one that was sent under its id.\<close>

definition net_link :: "(opcode \<times> bytes) list \<Rightarrow> control_packet set \<Rightarrow> bool" where
  "net_link log net \<longleftrightarrow> (\<forall>p \<in> net. HasMessageID p \<longrightarrow>
     unat (PacketID p) < length log \<and> log ! unat (PacketID p) = (Opcode p, Payload p))"

definition ring_link :: "(opcode \<times> bytes) list \<Rightarrow> layer \<Rightarrow> bool" where
  "ring_link log l \<longleftrightarrow> (\<forall>i c. buffered (ring l) i = Some c \<longrightarrow> unat i < length log \<and> log ! unat i = c)"

definition got_link :: "(opcode \<times> bytes) list \<Rightarrow> message list \<Rightarrow> layer \<Rightarrow> bool" where
  "got_link log got l \<longleftrightarrow> length got \<le> length log \<and> nextID l = of_nat (length got) \<and>
     map content got = take (length got) log"

text \<open>What the receiver acknowledges, it has.\<close>

definition ack_link :: "layer \<Rightarrow> control_packet set \<Rightarrow> bool" where
  "ack_link l net \<longleftrightarrow> (\<forall>i \<in> set (acks l) \<union> set (recent l) \<union> (\<Union>p \<in> net. set (Acks p)). has l i)"

definition link :: "side \<Rightarrow> control_packet set \<Rightarrow> side \<Rightarrow> control_packet set \<Rightarrow> bool" where
  "link a nab b nba \<longleftrightarrow> queue_link (sentLog a) (lay a) (has (lay b)) \<and> net_link (sentLog a) nab \<and>
     ring_link (sentLog a) (lay b) \<and> got_link (sentLog a) (gotLog b) (lay b) \<and> ack_link (lay b) nba"

lemmas link_parts = queue_link_def net_link_def ring_link_def got_link_def ack_link_def

subsection \<open>The sender's steps\<close>

lemma queue_linkD:
  assumes "queue_link log l H" "i < length (out l)"
  shows "if acked (out l ! i) then H (base l + of_nat i)
     else log ! (unat (base l) + i) = (out_op (out l ! i), out_payload (out l ! i))"
  using assms unfolding queue_link_def by blast

lemma nth_snoc: "i < length xs \<Longrightarrow> (xs @ ys) ! i = xs ! i"
  by (simp add: nth_append)

lemma link_send:
  assumes "link a nab b nba"
  shows "link (sideSend a op pl) nab b nba"
proof -
  let ?log = "sentLog a @ [(op, pl)]" and ?l = "snd (Send (lay a) op pl)"
  have f: "out ?l = out (lay a) @ [\<lparr>out_op = op, out_payload = pl, acked = False, timeout = 0, due = 0\<rparr>]"
    "base ?l = base (lay a)" by (simp_all add: Send_def Let_def)
  have q: "queue_link (sentLog a) (lay a) (has (lay b))" using assms by (simp add: link_def)
  have "queue_link ?log ?l (has (lay b))"
    unfolding queue_link_def f
  proof (intro conjI allI impI)
    fix i
    assume "i < length (out (lay a) @ [\<lparr>out_op = op, out_payload = pl, acked = False, timeout = 0, due = 0\<rparr>])"
    then consider "i < length (out (lay a))" | "i = length (out (lay a))" by fastforce
    then show "if acked ((out (lay a) @ [\<lparr>out_op = op, out_payload = pl, acked = False, timeout = 0, due = 0\<rparr>]) ! i)
      then has (lay b) (base (lay a) + of_nat i)
      else ?log ! (unat (base (lay a)) + i) =
        (out_op ((out (lay a) @ [\<lparr>out_op = op, out_payload = pl, acked = False, timeout = 0, due = 0\<rparr>]) ! i),
         out_payload ((out (lay a) @ [\<lparr>out_op = op, out_payload = pl, acked = False, timeout = 0, due = 0\<rparr>]) ! i))"
    proof cases
      case 1
      with q have "unat (base (lay a)) + i < length (sentLog a)" by (simp add: queue_link_def)
      with 1 q show ?thesis by (simp add: queue_link_def nth_append)
    next
      case 2
      with q have "unat (base (lay a)) + i = length (sentLog a)" by (simp add: queue_link_def)
      with 2 show ?thesis by (simp add: nth_append)
    qed
  qed (use q in \<open>auto simp: queue_link_def\<close>)
  moreover have "ring_link ?log (lay b)"
    unfolding ring_link_def
  proof (intro allI impI)
    fix i c
    assume "buffered (ring (lay b)) i = Some c"
    then have "unat i < length (sentLog a)" "sentLog a ! unat i = c"
      using assms unfolding link_def ring_link_def by blast+
    then show "unat i < length ?log \<and> ?log ! unat i = c" by (simp add: nth_append)
  qed
  ultimately show ?thesis
    using assms by (auto simp: link_def sideSend_def net_link_def got_link_def nth_append)
qed

lemma unat_base_add:
  assumes "queue_link log l H" "length log < 2 ^ 32" "i < length (out l)"
  shows "unat (base l + of_nat i) = unat (base l) + i"
proof -
  have "unat (base l) + i < 2 ^ 32" using assms by (simp add: queue_link_def)
  then have "unat (of_nat (unat (base l) + i) :: u32) = unat (base l) + i"
    by (simp only: unat_of_nat len_of_numeral_defs) simp
  then show ?thesis by simp
qed

lemma fill_content: "p \<in> set (fill per ex ms pend) \<Longrightarrow> (Opcode p, PacketID p, Payload p) \<in> set ms"
  by (induction per ex ms pend rule: fill.induct) (auto simp: mkPacket_def)

lemma polled_eq: "layer_ok (lay a) \<Longrightarrow> polled a now = set (pollPackets (lay a) now)"
  by (auto simp: polled_def Poll_eq(1) layer_ok_poll map_filter_def comp_def)

lemma pollPackets_content:
  assumes "layer_ok l" "p \<in> set (pollPackets l now)" "HasMessageID p"
  obtains i where "i < limitOf l" "\<not> acked (out l ! i)" "PacketID p = base l + of_nat i"
    "Opcode p = out_op (out l ! i)" "Payload p = out_payload (out l ! i)"
proof -
  from assms(2) have "(Opcode p, PacketID p, Payload p) \<in> set (pollMsgs l now) \<union> {(AckV1, 0, [])}"
    using fill_content by (fastforce simp: pollPackets_def Let_def)
  then have "(Opcode p, PacketID p, Payload p) \<in> set (pollMsgs l now)"
    using assms(3) by (auto simp: HasMessageID_def)
  then have "(Opcode p, PacketID p, Payload p) \<in>
      msgOf l (out l) ` (set [nsent l..<limitOf l] \<union> set (dueIdx l now))"
    unfolding pollMsgs_def by (simp only: set_map set_append)
  then obtain i where i: "i \<in> set [nsent l..<limitOf l] \<union> set (dueIdx l now)"
      "(Opcode p, PacketID p, Payload p) = msgOf l (out l) i" by (rule imageE)
  have n: "nsent l \<le> limitOf l" "limitOf l \<le> length (out l)" "\<forall>m \<in> set (drop (nsent l) (out l)). \<not> acked m"
    using assms(1) by (auto simp: layer_ok_def send_ok_def limitOf_def)
  have "i < limitOf l \<and> \<not> acked (out l ! i)"
  proof (cases "i < nsent l")
    case True
    with i n show ?thesis by (auto simp: dueIdx_def isDue_def split: if_splits)
  next
    case False
    with i have lt: "i < limitOf l" by (auto simp: dueIdx_def split: if_splits)
    then have "drop (nsent l) (out l) ! (i - nsent l) \<in> set (drop (nsent l) (out l))"
      using False n by (intro nth_mem) simp
    with lt False n show ?thesis by auto
  qed
  with i that show ?thesis by (auto simp: msgOf_def)
qed

lemma link_pollA:
  assumes ok: "layer_ok (lay a)" and l: "link a nab b nba" and small: "length (sentLog a) < 2 ^ 32"
  shows "link (sidePoll a now) (nab \<union> polled a now) b nba"
proof -
  let ?l = "lay a" and ?l' = "snd (Poll (lay a) now)"
  note P = Poll_eq [OF layer_ok_poll [OF ok], of now]
  have q: "queue_link (sentLog a) ?l (has (lay b))" using l by (simp add: link_def)
  then have "queue_link (sentLog a) ?l' (has (lay b))"
    by (auto simp: queue_link_def P polledOut_same)
  moreover have "unat (PacketID p) < length (sentLog a) \<and> sentLog a ! unat (PacketID p) = (Opcode p, Payload p)"
    if "p \<in> set (pollPackets ?l now)" "HasMessageID p" for p
  proof -
    from pollPackets_content [OF ok that] obtain i where i: "i < limitOf ?l" "\<not> acked (out ?l ! i)"
      "PacketID p = base ?l + of_nat i" "Opcode p = out_op (out ?l ! i)" "Payload p = out_payload (out ?l ! i)"
      by blast
    then have lt: "i < length (out ?l)" by (simp add: limitOf_def)
    with unat_base_add [OF q small lt] q i show ?thesis by (auto simp: queue_link_def)
  qed
  ultimately show ?thesis
    using l by (auto simp: link_def sidePoll_def net_link_def polled_eq [OF ok])
qed

text \<open>Acks that arrive retire messages the peer has.\<close>

lemma queue_link_retire:
  assumes q: "queue_link log l H" and n: "nsent l \<le> length (out l)" and h: "H i"
  shows "queue_link log (retire l i) H"
proof (cases "nsent l \<le> unat (i - base l) \<or> acked (out l ! unat (i - base l))")
  case True
  then have "retire l i = l" by (auto simp: retire_def Let_def)
  with q show ?thesis by simp
next
  case False
  let ?k = "unat (i - base l)"
  have k: "?k < length (out l)" using False n by simp
  have hk: "H (base l + of_nat ?k)" using h by simp
  have r: "out (retire l i) = (out l)[?k := (out l ! ?k)\<lparr>acked := True, out_payload := []\<rparr>]"
    using False by (simp add: retire_def Let_def)
  show ?thesis
    unfolding queue_link_def r retire_frame
  proof (intro conjI allI impI)
    fix j
    assume "j < length ((out l)[?k := (out l ! ?k)\<lparr>acked := True, out_payload := []\<rparr>])"
    then show "if acked ((out l)[?k := (out l ! ?k)\<lparr>acked := True, out_payload := []\<rparr>] ! j)
        then H (base l + of_nat j)
        else log ! (unat (base l) + j) = (out_op ((out l)[?k := (out l ! ?k)\<lparr>acked := True, out_payload := []\<rparr>] ! j),
          out_payload ((out l)[?k := (out l ! ?k)\<lparr>acked := True, out_payload := []\<rparr>] ! j))"
      using q hk k by (cases "j = ?k") (auto simp: queue_link_def)
  qed (use q in \<open>auto simp: queue_link_def\<close>)
qed

lemma queue_link_retireAll:
  "queue_link log l H \<Longrightarrow> nsent l \<le> length (out l) \<Longrightarrow> \<forall>i \<in> set ids. H i \<Longrightarrow>
     queue_link log (retireAll l ids) H \<and> length (out (retireAll l ids)) = length (out l)"
proof (induction l ids rule: retireAll.induct)
  case (2 l i ids)
  have "length (out (retire l i)) = length (out l)" by (simp add: retire_def Let_def)
  with 2 queue_link_retire [of log l H i] show ?case by simp
qed simp

lemma queue_link_pop:
  assumes q: "queue_link log l H" and n: "nsent l \<le> length (out l)" and small: "length log < 2 ^ 32"
  shows "queue_link log (pop l) H"
proof -
  from pop_spec [OF n] obtain j where j: "j \<le> nsent l" "out (pop l) = drop j (out l)"
    "base (pop l) = base l + of_nat j" "\<forall>m \<in> set (take j (out l)). acked m" by metis
  have lt: "unat (base l) + j < 2 ^ 32" using q n j(1) small by (simp add: queue_link_def)
  have "unat (of_nat (unat (base l) + j) :: u32) = unat (base l) + j"
    using lt by (simp only: unat_of_nat len_of_numeral_defs) simp
  then have b: "unat (base (pop l)) = unat (base l) + j" by (simp add: j(3))
  have got: "H (of_nat k)" if "k < unat (base l) + j" for k
  proof (cases "k < unat (base l)")
    case True
    then show ?thesis using q by (simp add: queue_link_def)
  next
    case False
    define i where "i = k - unat (base l)"
    have i: "k = unat (base l) + i" "i < j" using False that by (simp_all add: i_def)
    then have "take j (out l) ! i \<in> set (take j (out l))" using j(1) n by (intro nth_mem) simp
    then have "acked (out l ! i)" using j(4) i by simp
    moreover have "(of_nat k :: u32) = base l + of_nat i" using i(1) by simp
    ultimately show ?thesis using q i j(1) n by (auto simp: queue_link_def)
  qed
  have rest: "if acked (drop j (out l) ! i) then H (base l + of_nat j + of_nat i)
      else log ! (unat (base l) + j + i) = (out_op (drop j (out l) ! i), out_payload (drop j (out l) ! i))"
    if "i < length (drop j (out l))" for i
  proof -
    have i: "j + i < length (out l)" and e: "drop j (out l) ! i = out l ! (j + i)" using that by simp_all
    have w: "base l + of_nat j + of_nat i = base l + (of_nat (j + i) :: u32)" by simp
    show ?thesis unfolding e w add.assoc [of "unat (base l)"] by (rule queue_linkD [OF q i])
  qed
  have len: "unat (base l) + j + length (drop j (out l)) = length log"
    using q j(1) n by (simp add: queue_link_def)
  show ?thesis
    unfolding queue_link_def b j(2) unfolding j(3) using len got rest by (intro conjI allI impI)
qed

lemma queue_link_absorb:
  assumes q: "queue_link log l H" and n: "nsent l \<le> length (out l)" and small: "length log < 2 ^ 32"
    and h: "\<forall>i \<in> set (Acks p). H i"
  shows "queue_link log (absorb l p now) H"
proof -
  have "queue_link log (observe l now) H" using q by (simp add: queue_link_def)
  with queue_link_retireAll [OF this _ h] n small show ?thesis
    by (auto simp: absorb_def Let_def intro!: queue_link_pop)
qed

lemma link_recvA:
  assumes ok: "layer_ok (lay a)" and l: "link a nab b nba" and small: "length (sentLog a) < 2 ^ 32"
    and p: "p \<in> nba"
  shows "link (sideRecv a p now) nab b nba"
proof -
  let ?l' = "snd (Receive (lay a) (Some p) now)"
  have q: "queue_link (sentLog a) (lay a) (has (lay b))" and h: "\<forall>i \<in> set (Acks p). has (lay b) i"
    using l p by (auto simp: link_def ack_link_def)
  have n: "nsent (lay a) \<le> length (out (lay a))" using ok by (simp add: layer_ok_def send_ok_def limitOf_def)
  from queue_link_absorb [OF q n small h] q Receive_shape [of "lay a" p now]
  have "queue_link (sentLog a) ?l' (has (lay b))" by (auto simp: queue_link_def)
  with l show ?thesis by (auto simp: link_def sideRecv_def split: prod.split)
qed

subsection \<open>The receiver's steps\<close>

lemma has_cong: "ring l' = ring l \<Longrightarrow> nextID l' = nextID l \<Longrightarrow> has l' = has l"
  by (simp add: has_def fun_eq_iff)

lemma link_sendB:
  assumes "link a nab b nba"
  shows "link a nab (sideSend b op pl) nba"
proof -
  let ?l = "snd (Send (lay b) op pl)"
  have f: "ring ?l = ring (lay b)" "nextID ?l = nextID (lay b)" "acks ?l = acks (lay b)" "recent ?l = recent (lay b)"
    by (simp_all add: Send_def Let_def)
  show ?thesis
    using assms has_cong [OF f(1,2)]
    by (simp add: link_def sideSend_def ring_link_def got_link_def ack_link_def f)
qed

lemma Poll_ack_sources:
  assumes ok: "layer_ok l" and p: "p \<in> set (pollPackets l now)" and i: "i \<in> set (Acks p)"
  shows "i \<in> set (acks l) \<union> set (recent l)"
proof -
  from p obtain k where k: "k < length (pollPackets l now)" "p = pollPackets l now ! k"
    by (auto simp: in_set_conv_nth)
  from pollPackets_acks [OF ok, of now] obtain cs where cs: "length cs = length (pollPackets l now)"
    "concat cs = acks l"
    "\<forall>k < length cs. \<exists>es. Acks (pollPackets l now ! k) = cs ! k @ es \<and> set es \<subseteq> set (recent l)"
    by blast
  then obtain es where es: "Acks p = cs ! k @ es" "set es \<subseteq> set (recent l)" using k by auto
  have "set (cs ! k) \<subseteq> set (concat cs)" using k cs(1) by fastforce
  with es i cs(2) show ?thesis by auto
qed

lemma Poll_recent:
  assumes "layer_ok l"
  shows "set (recent (snd (Poll l now))) \<subseteq> set (recent l) \<union> set (acks l)"
  using assms remember_ok [of l "acks l"] Poll_eq(7) [OF layer_ok_poll [OF assms], of now]
  by (auto simp: layer_ok_def)

lemma link_pollB:
  assumes ok: "layer_ok (lay b)" and l: "link a nab b nba"
  shows "link a nab (sidePoll b now) (nba \<union> polled b now)"
proof -
  let ?l' = "snd (Poll (lay b) now)"
  have h: "has ?l' = has (lay b)" by (simp add: has_def [abs_def])
  have "ack_link ?l' (nba \<union> polled b now)"
    unfolding ack_link_def h polled_eq [OF ok] Poll_eq(4) [OF layer_ok_poll [OF ok]]
    using l Poll_ack_sources [OF ok] Poll_recent [OF ok, of now] by (auto simp: link_def ack_link_def)
  with l show ?thesis
    by (simp add: link_def sidePoll_def h ring_link_def got_link_def)
qed

text \<open>What arrives was sent, so what is delivered is the next stretch of what was sent.\<close>

lemma delivered_run:
  assumes d: "delivers (of_nat g) B ms nx' B'"
    and B: "\<forall>i c. B i = Some c \<longrightarrow> unat i < length log \<and> log ! unat i = c"
    and g: "g \<le> length log" and small: "length log < 2 ^ 32"
  shows "k < length ms \<Longrightarrow> g + k < length log \<and> log ! (g + k) = content (ms ! k)"
proof (induction k)
  case 0
  then have "B (of_nat g) = Some (content (ms ! 0))" using d by (auto simp: delivers_def content_def)
  moreover have "unat (of_nat g :: u32) = g" using g small by (simp add: unat_of_nat)
  ultimately show ?case using B by fastforce
next
  case (Suc k)
  then have "g + Suc k \<le> length log" by simp
  then have u: "unat (of_nat (g + Suc k) :: u32) = g + Suc k"
    using small by (simp only: unat_of_nat len_of_numeral_defs) simp
  have "B (of_nat g + of_nat (Suc k)) = Some (content (ms ! Suc k))"
    using d Suc.prems unfolding delivers_def content_def by blast
  then have "B (of_nat (g + Suc k)) = Some (content (ms ! Suc k))" by (simp only: of_nat_add)
  with B u show ?case by metis
qed

lemma unat_delivered:
  assumes "g + n \<le> length log" "length log < 2 ^ 32"
  shows "unat (of_nat g + of_nat n :: u32) = g + n"
proof -
  have "unat (of_nat (g + n) :: u32) = g + n"
    using assms by (simp only: unat_of_nat len_of_numeral_defs) simp
  then show ?thesis by simp
qed

lemma offered_link:
  assumes "ring_link log l" "net_link log net" "p \<in> net"
  shows "\<forall>i c. offered l p i = Some c \<longrightarrow> unat i < length log \<and> log ! unat i = c"
  using assms by (auto simp: ring_link_def net_link_def offered_def)

lemma acks_Receive:
  assumes "recv_ok l"
  shows "set (acks (snd (Receive l (Some p) now))) \<subseteq> set (acks l) \<union>
     {i. i = PacketID p \<and> (i < nextID l \<or> offered l p i \<noteq> None)}"
proof -
  have new: "set (acks (ack (absorb l p now) (PacketID p) now)) \<subseteq> insert (PacketID p) (set (acks l))"
    by (auto simp: ack_def Let_def)
  note nx = recv_ok_next_None [OF assms]
  consider "\<not> IsControl (Opcode p)" | "IsControl (Opcode p)" "\<not> HasMessageID p"
    | "IsControl (Opcode p)" "HasMessageID p" "PacketID p < nextID l"
    | "IsControl (Opcode p)" "HasMessageID p" "PacketID p = nextID l"
    | "IsControl (Opcode p)" "HasMessageID p" "nextID l < PacketID p"
        "uint (PacketID p - nextID l) \<le> RecvWindow (opts l)"
    | "IsControl (Opcode p)" "HasMessageID p" "nextID l < PacketID p"
        "uint (PacketID p - nextID l) > RecvWindow (opts l)"
    by fastforce
  then show ?thesis
  proof cases
    case 4
    have "0 \<le> RecvWindow (opts l)" using assms by (simp add: recv_ok_def)
    then have "offered l p (PacketID p) \<noteq> None" using 4 nx by (simp add: offered_def)
    with new 4 show ?thesis by (auto simp: Receive_next drain_def split: prod.split)
  next
    case 5
    then have "offered l p (PacketID p) \<noteq> None" by (auto simp: offered_def)
    with new Receive_ahead [OF 5 refl, of now] show ?thesis by auto
  qed (use new in \<open>auto simp: Receive_ignored Receive_ack Receive_old Receive_far\<close>)
qed

lemma has_offered:
  assumes d: "delivers (of_nat g) (offered l p) ms (nextID l') (buffered (ring l'))"
    and u: "unat (nextID l') = g + length ms" "\<And>k. k \<le> length ms \<Longrightarrow> unat (of_nat g + of_nat k :: u32) = g + k"
    and i: "offered l p i \<noteq> None"
  shows "has l' i"
proof (cases "\<exists>k < length ms. i = of_nat g + of_nat k")
  case True
  then obtain k where "k < length ms" "i = of_nat g + of_nat k" by blast
  then show ?thesis using u by (simp add: has_def)
next
  case False
  have "buffered (ring l') i = (if \<exists>k < length ms. i = of_nat g + of_nat k then None else offered l p i)"
    using d unfolding delivers_def by blast
  then have "buffered (ring l') i = offered l p i" using False by (simp only: if_False)
  then have "buffered (ring l') i \<noteq> None" using i by metis
  then show ?thesis by (simp add: has_def)
qed

lemma link_recvB:
  assumes ok: "layer_ok (lay b)" and l: "link a nab b nba" and small: "length (sentLog a) < 2 ^ 32"
    and p: "p \<in> nab"
  shows "link a nab (sideRecv b p now) nba"
    and "IsControl (Opcode p) \<Longrightarrow> HasMessageID p \<Longrightarrow> unat (PacketID p) \<le> unat (nextID (lay b)) + nat (RecvWindow (opts (lay b))) \<Longrightarrow>
       has (lay (sideRecv b p now)) (PacketID p)"
proof -
  let ?log = "sentLog a" and ?l = "lay b" and ?g = "length (gotLog b)"
  obtain ms l' where R: "Receive ?l (Some p) now = (ms, l')" by fastforce
  have ro: "recv_ok ?l" using ok by (simp add: layer_ok_def)
  have g: "?g \<le> length ?log" "nextID ?l = of_nat ?g" "map content (gotLog b) = take ?g ?log"
    using l by (simp_all add: link_def got_link_def)
  have ol: "\<forall>i c. offered ?l p i = Some c \<longrightarrow> unat i < length ?log \<and> ?log ! unat i = c"
    by (rule offered_link [of _ _ nab]) (use l p in \<open>simp_all add: link_def\<close>)
  have d: "delivers (of_nat ?g) (offered ?l p) ms (nextID l') (buffered (ring l'))"
    using Receive_delivers [OF ro R] g(2) by simp
  note run = delivered_run [OF d ol g(1) small]
  have le: "?g + length ms \<le> length ?log"
    using run [of "length ms - 1"] g(1) by (cases "length ms") auto
  then have u: "unat (of_nat ?g + of_nat k :: u32) = ?g + k" if "k \<le> length ms" for k
    using that small by (intro unat_delivered [where log = ?log]) simp_all
  have nx: "nextID l' = of_nat ?g + of_nat (length ms)" using d by (simp add: delivers_def)
  have u': "unat (nextID l') = ?g + length ms" using u nx by simp
  have u0: "unat (nextID ?l) = ?g" using u [of 0] g(2) by simp
  note ho = has_offered [OF d u', rotated]
  have mono: "has l' i" if "has ?l i" for i
  proof (cases "unat i < ?g")
    case True
    then show ?thesis using u' by (simp add: has_def)
  next
    case False
    then have "offered ?l p i \<noteq> None" using that u0 by (auto simp: has_def offered_def)
    then show ?thesis by (rule ho) (rule u)
  qed
  have "queue_link ?log (lay a) (has l')" using l mono by (auto simp: link_def queue_link_def)
  moreover have "ring_link ?log l'" using ol d by (auto simp: ring_link_def delivers_def)
  moreover have "got_link ?log (gotLog b @ ms) l'"
  proof -
    have "map content ms = take (length ms) (drop ?g ?log)"
      by (rule nth_equalityI) (use run le in auto)
    then have "map content (gotLog b @ ms) = take (length (gotLog b @ ms)) ?log"
      using g(3) by (simp add: take_add)
    then show ?thesis using le nx by (simp add: got_link_def)
  qed
  moreover have "ack_link l' nba"
  proof -
    have ac: "i \<in> set (acks ?l) \<or> i < nextID ?l \<or> offered ?l p i \<noteq> None" if "i \<in> set (acks l')" for i
      using acks_Receive [OF ro, of p now] that unfolding R snd_conv by blast
    have old: "has l' i" if "i \<in> set (acks ?l) \<union> set (recent ?l) \<union> (\<Union>p \<in> nba. set (Acks p))" for i
      using l that unfolding link_def ack_link_def by (intro mono) blast
    have lt: "has l' i" if "i < nextID ?l" for i
      using that by (intro mono) (simp add: has_def word_less_nat_alt)
    have "has l' i" if "i \<in> set (acks l')" for i
      using ac [OF that] old lt ho [OF _ u] by blast
    moreover have "recent l' = recent ?l" using Receive_shape [of ?l p now] R by auto
    ultimately show ?thesis unfolding ack_link_def using old by auto
  qed
  ultimately show "link a nab (sideRecv b p now) nba" using l R by (simp add: link_def sideRecv_def)
  assume c: "IsControl (Opcode p)" "HasMessageID p" "unat (PacketID p) \<le> unat (nextID ?l) + nat (RecvWindow (opts ?l))"
  show "has (lay (sideRecv b p now)) (PacketID p)"
  proof (cases "PacketID p < nextID ?l")
    case True
    then have "has ?l (PacketID p)" by (simp add: has_def word_less_nat_alt)
    then show ?thesis using mono R by (simp add: sideRecv_def)
  next
    case False
    then have ge: "nextID ?l \<le> PacketID p" by simp
    have "int (unat (PacketID p)) \<le> int (unat (nextID ?l) + nat (RecvWindow (opts ?l)))" using c(3) by (simp only: of_nat_le_iff)
    then have "uint (PacketID p) - uint (nextID ?l) \<le> RecvWindow (opts ?l)" using ro by (simp add: recv_ok_def)
    with uint_minus_word [OF ge] c ge have "offered ?l p (PacketID p) \<noteq> None" by (auto simp: offered_def)
    then have "has l' (PacketID p)" by (rule ho) (rule u)
    then show ?thesis using R by (simp add: sideRecv_def)
  qed
qed

section \<open>What the session guarantees\<close>

lemma sideSend_ok: "layer_ok (lay a) \<Longrightarrow> layer_ok (lay (sideSend a op pl))"
  by (simp add: sideSend_def layer_ok_Send)

lemma sidePoll_ok: "layer_ok (lay a) \<Longrightarrow> layer_ok (lay (sidePoll a now))"
  by (simp add: sidePoll_def layer_ok_Poll)

lemma sideRecv_ok: "layer_ok (lay a) \<Longrightarrow> layer_ok (lay (sideRecv a p now))"
  using layer_ok_Receive [of "lay a" "Some p" now]
  by (cases "Receive (lay a) (Some p) now") (simp add: sideRecv_def)

lemma side_logs [simp]:
  "sentLog (sideRecv a p now) = sentLog a" "sentLog (sidePoll a now) = sentLog a"
  "sentLog (sideSend a op pl) = sentLog a @ [(op, pl)]"
  "gotLog (sidePoll a now) = gotLog a" "gotLog (sideSend a op pl) = gotLog a"
  by (simp_all add: sideRecv_def sidePoll_def sideSend_def split: prod.split)

definition session_ok :: "session \<Rightarrow> bool" where
  "session_ok s \<longleftrightarrow> layer_ok (lay (sideA s)) \<and> layer_ok (lay (sideB s)) \<and>
     (\<forall>x \<in> set (sentLog (sideA s)) \<union> set (sentLog (sideB s)). isMsgOp (fst x)) \<and>
     (length (sentLog (sideA s)) < 2 ^ 32 \<longrightarrow> link (sideA s) (netAB s) (sideB s) (netBA s)) \<and>
     (length (sentLog (sideB s)) < 2 ^ 32 \<longrightarrow> link (sideB s) (netBA s) (sideA s) (netAB s))"

lemma session_ok_step: "session_step s s' \<Longrightarrow> session_ok s \<Longrightarrow> session_ok s'"
proof (induction rule: session_step.induct)
  case (sendA op s pl)
  then show ?case
    using link_send [of "sideA s"] link_sendB [of _ _ "sideA s"] by (auto simp: session_ok_def sideSend_ok)
next
  case (sendB op s pl)
  then show ?case
    using link_send [of "sideB s"] link_sendB [of _ _ "sideB s"] by (auto simp: session_ok_def sideSend_ok)
next
  case (pollA s now)
  then show ?case
    using link_pollA [of "sideA s"] link_pollB [of "sideA s"] by (auto simp: session_ok_def sidePoll_ok)
next
  case (pollB s now)
  then show ?case
    using link_pollA [of "sideB s"] link_pollB [of "sideB s"] by (auto simp: session_ok_def sidePoll_ok)
next
  case (recvA p s now)
  then show ?case
    using link_recvA [of "sideA s"] link_recvB(1) [of "sideA s"] by (auto simp: session_ok_def sideRecv_ok)
next
  case (recvB p s now)
  then show ?case
    using link_recvA [of "sideB s"] link_recvB(1) [of "sideB s"] by (auto simp: session_ok_def sideRecv_ok)
qed

lemma session_ok_start: "session_ok (session_start oA oB)"
  by (simp add: session_ok_def session_start_def newSide_def layer_ok_New link_def link_parts)
     (simp add: New_def Let_def)

lemma session_reach_ok: "session_reach oA oB s \<Longrightarrow> session_ok s"
  by (induction rule: session_reach.induct) (auto intro: session_ok_start session_ok_step)

text \<open>A side whose messages are all acknowledged has nothing left on the way.\<close>

lemma link_all_acked:
  assumes ok: "layer_ok (lay a)" "layer_ok (lay b)" and l: "link a nab b nba" and small: "length (sentLog a) < 2 ^ 32"
    and u: "Unacked (lay a) = 0"
  shows "map content (gotLog b) = sentLog a"
proof -
  let ?g = "length (gotLog b)"
  have q: "queue_link (sentLog a) (lay a) (has (lay b))" and g: "got_link (sentLog a) (gotLog b) (lay b)"
    using l by (simp_all add: link_def)
  have "filter (\<lambda>m. \<not> acked m) (out (lay a)) = []"
    using u ok(1) by (simp add: layer_ok_def send_ok_def Unacked_def)
  then have ac: "acked (out (lay a) ! i)" if "i < length (out (lay a))" for i
    using that by (auto simp: filter_empty_conv)
  have "\<not> ?g < length (sentLog a)"
  proof
    assume lt: "?g < length (sentLog a)"
    have "has (lay b) (of_nat ?g)"
    proof (cases "?g < unat (base (lay a))")
      case True
      then show ?thesis using q by (simp add: queue_link_def)
    next
      case False
      define i where "i = ?g - unat (base (lay a))"
      have i: "i < length (out (lay a))" "?g = unat (base (lay a)) + i"
        using False lt q by (auto simp: i_def queue_link_def)
      then show ?thesis using queue_linkD [OF q i(1)] ac [OF i(1)] by simp
    qed
    moreover have "nextID (lay b) = of_nat ?g" using g by (simp add: got_link_def)
    ultimately show False using recv_ok_next_None [of "lay b"] ok(2) by (auto simp: has_def layer_ok_def)
  qed
  then show ?thesis using g by (simp add: got_link_def)
qed

text \<open>What the receiver expects next is never older than what the sender has dropped.\<close>

lemma link_base_le:
  assumes ok: "layer_ok (lay b)" and l: "link a nab b nba"
  shows "unat (base (lay a)) \<le> unat (nextID (lay b))"
proof (rule ccontr)
  assume "\<not> ?thesis"
  then have lt: "unat (nextID (lay b)) < unat (base (lay a))" by simp
  have "\<forall>k < unat (base (lay a)). has (lay b) (of_nat k)" using l by (simp add: link_def queue_link_def)
  from this [rule_format, OF lt] have "has (lay b) (nextID (lay b))" by simp
  then show False using recv_ok_next_None [of "lay b"] ok by (auto simp: has_def layer_ok_def)
qed

text \<open>
  Claim C1. Two layers with any options, joined by a network that may lose, repeat, delay and
  reorder packets: as long as a side has sent fewer than \<open>2^32\<close> messages, what its peer has
  delivered is a prefix of what it has sent, message for message (opcode and payload). When
  the side counts no message as unacknowledged, the peer has delivered all of them.
\<close>

theorem session_delivers_prefix:
  assumes "session_reach oA oB s" "length (sentLog (sideA s)) < 2 ^ 32"
  shows "map content (gotLog (sideB s)) = take (length (gotLog (sideB s))) (sentLog (sideA s)) \<and>
     (Unacked (lay (sideA s)) = 0 \<longrightarrow> map content (gotLog (sideB s)) = sentLog (sideA s))"
proof -
  have ok: "layer_ok (lay (sideA s))" "layer_ok (lay (sideB s))" "link (sideA s) (netAB s) (sideB s) (netBA s)"
    using session_reach_ok [OF assms(1)] assms(2) by (simp_all add: session_ok_def)
  then show ?thesis using link_all_acked [OF ok assms(2)] by (simp add: link_def got_link_def)
qed

text \<open>A run: one message is sent, polled and received.\<close>

definition demoTimed :: rel_options where
  "demoTimed = demoOptions\<lparr>InitialTimeout := 5, MaxTimeout := 40\<rparr>"

definition demoSession :: session where
  "demoSession = (session_start demoTimed demoTimed)\<lparr>sideA := sidePoll (sideSend (newSide demoTimed) ControlV1 [1]) 10,
     netAB := {} \<union> polled (sideSend (newSide demoTimed) ControlV1 [1]) 10\<rparr>"

definition demoDelivered :: session where
  "demoDelivered = demoSession\<lparr>sideB := sideRecv (newSide demoTimed) (demoPacket 0 [] [1]) 11\<rparr>"

lemma demo_reach:
  "session_reach demoTimed demoTimed demoSession" "session_reach demoTimed demoTimed demoDelivered"
proof -
  let ?s = "session_start demoTimed demoTimed"
  have "isMsgOp ControlV1" by code_simp
  then have "session_reach demoTimed demoTimed (?s\<lparr>sideA := sideSend (sideA ?s) ControlV1 [1]\<rparr>)"
    by (intro session_reach.step [OF session_reach.start] session_step.sendA)
  from session_reach.step [OF this session_step.pollA [of _ 10]]
  show r: "session_reach demoTimed demoTimed demoSession"
    by (simp add: demoSession_def session_start_def)
  have "demoPacket 0 [] [1] \<in> netAB demoSession" by code_simp
  from session_reach.step [OF r session_step.recvB [OF this, of 11]]
  show "session_reach demoTimed demoTimed demoDelivered"
    by (simp add: demoDelivered_def demoSession_def session_start_def)
qed

lemma demo_logs:
  "sentLog (sideA demoDelivered) = [(ControlV1, [1])]" "length (gotLog (sideB demoDelivered)) = 1"
  "sentLog (sideA demoSession) = [(ControlV1, [1])]" "length (gotLog (sideB demoSession)) = 0"
  "Unacked (lay (sideA demoDelivered)) = 1"
  by code_simp+

theorem session_delivers_prefix_witness:
  "map content (gotLog (sideB demoDelivered)) = [(ControlV1, [1])]"
  using session_delivers_prefix [OF demo_reach(2)] by (simp add: demo_logs)

end
