(* ===== verification/Reliable_Live.thy ===== *)
theory Reliable_Live
  imports Reliable_Session
begin

text \<open>
  The session never gets stuck: from any state a run has led to, however many packets were
  lost on the way, a few more steps (polls late enough and packets that get through) bring
  every message to the peer and every acknowledgement back. One round is shown to reduce the
  number of unacknowledged messages.
\<close>

section \<open>One round\<close>

text \<open>A late enough \<open>Poll\<close> sends the oldest message of the queue.\<close>

definition lateEnough :: "layer \<Rightarrow> time" where
  "lateEnough l = foldr (\<lambda>m t. max (due m) t) (out l) 0"

lemma lateEnough_le: "m \<in> set ms \<Longrightarrow> due m \<le> foldr (\<lambda>m t. max (due m) t) ms (0::nat)"
  by (induction ms) auto

lemma pollPackets_front:
  assumes ok: "layer_ok l" and re: "retransmit l" and ne: "out l \<noteq> []"
  shows "\<exists>p \<in> set (pollPackets l (lateEnough l)).
     PacketID p = base l \<and> Opcode p = out_op (out l ! 0) \<and> Payload p = out_payload (out l ! 0)"
proof -
  let ?now = "lateEnough l"
  have lim: "0 < limitOf l" "nsent l \<le> limitOf l" using ok ne by (auto simp: limitOf_def layer_ok_def opts_ok_def send_ok_def)
  have "0 \<in> set ([nsent l..<limitOf l] @ dueIdx l ?now)"
  proof (cases "nsent l = 0")
    case True
    then show ?thesis using lim by simp
  next
    case False
    then have "\<not> acked (out l ! 0)" using ok ne by (simp add: layer_ok_def send_ok_def hd_conv_nth)
    moreover have "due (out l ! 0) \<le> ?now" using ne by (auto simp: lateEnough_def intro!: lateEnough_le)
    ultimately show ?thesis using False re by (auto simp: dueIdx_def isDue_def)
  qed
  then have m: "(out_op (out l ! 0), base l, out_payload (out l ! 0)) \<in> set (pollMsgs l ?now)"
    unfolding pollMsgs_def set_map by (rule rev_image_eqI) (simp add: msgOf_def)
  have "\<exists>p \<in> set (fill per ex ms pend). PacketID p = i \<and> Opcode p = op \<and> Payload p = pl"
    if "(op, i, pl) \<in> set ms" for per ex ms pend and op :: opcode and i :: packet_id and pl :: bytes
    using that by (induction per ex ms pend rule: fill.induct) (auto simp: mkPacket_def)
  from this [of _ _ _ "pollMsgs l ?now @ _"] m show ?thesis by (simp add: pollPackets_def Let_def)
qed

text \<open>Received with no acks pending, a message within the window is acknowledged next.\<close>

lemma Receive_acks_it:
  assumes "layer_ok l" "acks l = []" "IsControl (Opcode p)" "HasMessageID p"
    and "PacketID p < nextID l \<or> PacketID p = nextID l"
  shows "acks (snd (Receive l (Some p) now)) = [PacketID p]"
proof -
  have "0 < maxPending l" using assms(1) by (simp add: layer_ok_def rel_consts)
  then have "acks (ack (absorb l p now) (PacketID p) now) = [PacketID p]"
    using assms(2) by (simp add: ack_def Let_def)
  with assms show ?thesis by (auto simp: Receive_old Receive_next drain_def split: prod.split)
qed

lemma Poll_carries_acks:
  assumes ok: "layer_ok l" and i: "i \<in> set (acks l)"
  shows "\<exists>p \<in> set (pollPackets l now). i \<in> set (Acks p)"
proof -
  from pollPackets_acks [OF ok, of now] obtain cs where cs: "length cs = length (pollPackets l now)"
    "concat cs = acks l" "\<forall>k < length cs. \<exists>es. Acks (pollPackets l now ! k) = cs ! k @ es" by blast
  from i cs(2) have "\<exists>c \<in> set cs. i \<in> set c" by (metis UN_E set_concat)
  then obtain k where k: "k < length cs" "i \<in> set (cs ! k)" by (metis in_set_conv_nth)
  with cs(3) have "i \<in> set (Acks (pollPackets l now ! k))" by fastforce
  then show ?thesis using k(1) cs(1) by auto
qed

text \<open>An ack for a message in flight reduces the count of those outstanding.\<close>

lemma unacked_retire: "unacked (retire l i) \<le> unacked l"
  by (simp add: retire_def Let_def)

lemma unacked_retireAll: "unacked (retireAll l ids) \<le> unacked l"
  by (induction l ids rule: retireAll.induct) (auto intro: order_trans unacked_retire)

lemma retireAll_reduces:
  assumes "i \<in> set ids" "unat (i - base l) < nsent l" "\<not> acked (out l ! unat (i - base l))"
  shows "unacked (retireAll l ids) < unacked l"
  using assms
proof (induction l ids rule: retireAll.induct)
  case (2 l j ids)
  let ?k = "unat (i - base l)"
  show ?case
  proof (cases "unat (j - base l) = ?k")
    case True
    then have "unacked (retire l j) < unacked l" using 2 by (simp add: retire_def Let_def)
    then show ?thesis using unacked_retireAll [of "retire l j" ids] by simp
  next
    case False
    then have "i \<in> set ids" using 2 by auto
    moreover have "out (retire l j) ! ?k = out l ! ?k" using False by (simp add: retire_def Let_def)
    ultimately show ?thesis using 2 unacked_retire [of l j] by fastforce
  qed
qed simp

lemma Receive_reduces:
  assumes ok: "layer_ok l" and p: "IsControl (Opcode p)" "base l \<in> set (Acks p)" and n: "0 < nsent l"
  shows "unacked (snd (Receive l (Some p) now)) < unacked l"
proof -
  have ne: "out l \<noteq> []" using ok n by (auto simp: layer_ok_def send_ok_def limitOf_def)
  then have "\<not> acked (out l ! 0)" using ok n by (simp add: layer_ok_def send_ok_def hd_conv_nth)
  then have "unacked (retireAll (observe l now) (Acks p)) < unacked (observe l now)"
    using p(2) n by (intro retireAll_reduces [where i = "base l"]) simp_all
  moreover have "length (Acks p) > 0" using p(2) by (cases "Acks p") auto
  ultimately have ab: "unacked (absorb l p now) < unacked l" by (simp add: absorb_def Let_def)
  have "unacked (snd (Receive l (Some p) now)) = unacked (absorb l p now)"
    using p(1) by (auto simp: Receive_def absorb_def Let_def drain_def split: prod.split)
  with ab show ?thesis by simp
qed

section \<open>Completion\<close>

definition unackedA :: "session \<Rightarrow> nat" where
  "unackedA s = nat (Unacked (lay (sideA s)))"

text \<open>What stays the same through a round: the logs of what was sent, and the options of side A.\<close>

definition sameLogs :: "session \<Rightarrow> session \<Rightarrow> bool" where
  "sameLogs s s' \<longleftrightarrow> sentLog (sideA s') = sentLog (sideA s) \<and> sentLog (sideB s') = sentLog (sideB s) \<and>
     retransmit (lay (sideA s')) = retransmit (lay (sideA s))"

lemma Receive_retransmit: "retransmit (snd (Receive l (Some p) now)) = retransmit l"
  using Receive_shape [of l p now] by auto

lemma sideRecv_lay: "lay (sideRecv a p now) = snd (Receive (lay a) (Some p) now)"
  by (simp add: sideRecv_def split: prod.split)

lemma session_ok_ops:
  "session_ok s \<Longrightarrow> x \<in> set (sentLog (sideA s)) \<or> x \<in> set (sentLog (sideB s)) \<Longrightarrow> isMsgOp (fst x)"
  unfolding session_ok_def by blast

lemma isControl_polled:
  assumes ok: "session_ok s" and small: "length (sentLog (sideB s)) < 2 ^ 32"
    and p: "p \<in> set (pollPackets (lay (sideB s)) now)"
  shows "IsControl (Opcode p)"
proof (cases "HasMessageID p")
  case False
  then have "Opcode p = AckV1" by (simp add: HasMessageID_def)
  then show ?thesis by (simp add: IsControl_def)
next
  case True
  let ?b = "sideB s"
  have lb: "layer_ok (lay ?b)" "queue_link (sentLog ?b) (lay ?b) (has (lay (sideA s)))"
    using ok small by (simp_all add: session_ok_def link_def)
  from pollPackets_content [OF lb(1) p True] obtain i where i: "i < limitOf (lay ?b)"
    "\<not> acked (out (lay ?b) ! i)" "Opcode p = out_op (out (lay ?b) ! i)" by blast
  then have lt: "i < length (out (lay ?b))" by (simp add: limitOf_def)
  then have "sentLog ?b ! (unat (base (lay ?b)) + i) = (Opcode p, out_payload (out (lay ?b) ! i))"
    using queue_linkD [OF lb(2) lt] i by simp
  moreover have "unat (base (lay ?b)) + i < length (sentLog ?b)" using lb(2) lt by (simp add: queue_link_def)
  ultimately have "(Opcode p, out_payload (out (lay ?b) ! i)) \<in> set (sentLog ?b)" by (metis nth_mem)
  from session_ok_ops [OF ok, of "(Opcode p, out_payload (out (lay ?b) ! i))"] this show ?thesis
    by (simp add: isMsgOp_def)
qed

text \<open>Side A polls late enough: its oldest message is on the network, and counted as sent.\<close>

lemma round_send:
  assumes ok: "session_ok s" and re: "retransmit (lay (sideA s))" and u: "0 < Unacked (lay (sideA s))"
    and small: "length (sentLog (sideA s)) < 2 ^ 32"
  obtains s' p where "session_step s s'" "sameLogs s s'" "unackedA s' = unackedA s" "p \<in> netAB s'"
    "PacketID p = base (lay (sideA s'))" "IsControl (Opcode p)" "HasMessageID p" "0 < nsent (lay (sideA s'))"
proof -
  let ?l = "lay (sideA s)" and ?now = "lateEnough (lay (sideA s))"
  let ?s = "s\<lparr>sideA := sidePoll (sideA s) ?now, netAB := netAB s \<union> polled (sideA s) ?now\<rparr>"
  have l: "layer_ok ?l" "queue_link (sentLog (sideA s)) ?l (has (lay (sideB s)))"
    using ok small by (simp_all add: session_ok_def link_def)
  have ne: "out ?l \<noteq> []" using u l(1) by (auto simp: Unacked_def layer_ok_def send_ok_def)
  from pollPackets_front [OF l(1) re ne] obtain p where p: "p \<in> set (pollPackets ?l ?now)" "PacketID p = base ?l"
    "Opcode p = out_op (out ?l ! 0)" by blast
  have nacked: "\<not> acked (out ?l ! 0)"
  proof (cases "nsent ?l")
    case 0
    then show ?thesis using l(1) ne by (cases "out ?l") (simp_all add: layer_ok_def send_ok_def)
  next
    case (Suc n)
    then show ?thesis using l(1) ne by (simp add: layer_ok_def send_ok_def hd_conv_nth)
  qed
  have "sentLog (sideA s) ! unat (base ?l) = (Opcode p, out_payload (out ?l ! 0))"
    using queue_linkD [OF l(2), of 0] nacked ne p(3) by simp
  moreover have "unat (base ?l) < length (sentLog (sideA s))" using l(2) ne by (cases "out ?l") (auto simp: queue_link_def)
  ultimately have "(Opcode p, out_payload (out ?l ! 0)) \<in> set (sentLog (sideA s))" by (metis nth_mem)
  from session_ok_ops [OF ok, of "(Opcode p, out_payload (out ?l ! 0))"] this
  have op: "isMsgOp (Opcode p)" by simp
  have "0 < limitOf ?l" using ne l(1) by (simp add: limitOf_def layer_ok_def opts_ok_def)
  then have n: "0 < nsent (lay (sideA ?s))" by (simp add: sidePoll_def Poll_eq(3) [OF layer_ok_poll [OF l(1)]])
  show thesis
    by (rule that [OF session_step.pollA [of s ?now], of p])
       (use p op n l(1) in \<open>simp_all add: sameLogs_def unackedA_def Unacked_def sidePoll_def polled_eq isMsgOp_def HasMessageID_def\<close>)
qed

text \<open>Side B empties its pending acks, receives the message, and sends its ack.\<close>

lemma round_ack:
  assumes ok: "session_ok s" and p: "p \<in> netAB s" "IsControl (Opcode p)" "HasMessageID p"
    and b: "PacketID p = base (lay (sideA s))" and small: "length (sentLog (sideA s)) < 2 ^ 32"
      "length (sentLog (sideB s)) < 2 ^ 32"
  obtains s' q where "rtranclp session_step s s'" "session_ok s'" "sideA s' = sideA s" "sentLog (sideB s') = sentLog (sideB s)"
    "q \<in> netBA s'" "IsControl (Opcode q)" "PacketID p \<in> set (Acks q)"
proof -
  define s1 where "s1 = s\<lparr>sideB := sidePoll (sideB s) 0, netBA := netBA s \<union> polled (sideB s) 0\<rparr>"
  have st1: "session_step s s1" unfolding s1_def by (rule session_step.pollB)
  have ok1: "session_ok s1" by (rule session_ok_step [OF st1 ok])
  have f1: "sideA s1 = sideA s" "netAB s1 = netAB s" "sentLog (sideB s1) = sentLog (sideB s)" by (simp_all add: s1_def)
  have a1: "acks (lay (sideB s1)) = []"
    using ok by (simp add: s1_def sidePoll_def Poll_eq(4) layer_ok_poll session_ok_def)
  define s2 where "s2 = s1\<lparr>sideB := sideRecv (sideB s1) p 0\<rparr>"
  have st2: "session_step s1 s2" unfolding s2_def by (rule session_step.recvB) (use p(1) f1 in simp)
  have ok2: "session_ok s2" by (rule session_ok_step [OF st2 ok1])
  have f2: "sideA s2 = sideA s" "sentLog (sideB s2) = sentLog (sideB s)" using f1 by (simp_all add: s2_def)
  have "unat (base (lay (sideA s))) \<le> unat (nextID (lay (sideB s1)))"
    using link_base_le ok1 small(1) f1 unfolding session_ok_def by metis
  then have "PacketID p < nextID (lay (sideB s1)) \<or> PacketID p = nextID (lay (sideB s1))"
    unfolding b using order_le_less word_le_nat_alt by blast
  then have a2: "acks (lay (sideB s2)) = [PacketID p]"
    using Receive_acks_it [OF _ a1 p(2,3)] ok1 by (simp add: s2_def sideRecv_lay session_ok_def)
  have lb2: "layer_ok (lay (sideB s2))" using ok2 by (simp add: session_ok_def)
  from Poll_carries_acks [OF lb2, of "PacketID p" 0] a2
  obtain q where q: "q \<in> set (pollPackets (lay (sideB s2)) 0)" "PacketID p \<in> set (Acks q)" by auto
  define s3 where "s3 = s2\<lparr>sideB := sidePoll (sideB s2) 0, netBA := netBA s2 \<union> polled (sideB s2) 0\<rparr>"
  have st3: "session_step s2 s3" unfolding s3_def by (rule session_step.pollB)
  have cq: "IsControl (Opcode q)" by (rule isControl_polled [OF ok2 _ q(1)]) (use small f2 in simp)
  have st: "rtranclp session_step s s3" 
    by (rule rtranclp.rtrancl_into_rtrancl [OF rtranclp.rtrancl_into_rtrancl [OF r_into_rtranclp [of session_step, OF st1] st2] st3])
  show thesis
    by (rule that [OF st session_ok_step [OF st3 ok2], of q])
       (use q cq f2 lb2 in \<open>simp_all add: s3_def polled_eq\<close>)
qed

lemma session_round:
  assumes ok: "session_ok s" and re: "retransmit (lay (sideA s))" and u: "0 < unackedA s"
    and small: "length (sentLog (sideA s)) < 2 ^ 32" "length (sentLog (sideB s)) < 2 ^ 32"
  obtains s' where "rtranclp session_step s s'" "session_ok s'" "sameLogs s s'" "unackedA s' < unackedA s"
proof -
  have "0 < Unacked (lay (sideA s))" using u by (simp add: unackedA_def)
  from round_send [OF ok re this small(1)] obtain s1 p where s1: "session_step s s1" "sameLogs s s1"
    "unackedA s1 = unackedA s" "p \<in> netAB s1" "PacketID p = base (lay (sideA s1))" "IsControl (Opcode p)"
    "HasMessageID p" "0 < nsent (lay (sideA s1))" by blast
  have ok1: "session_ok s1" by (rule session_ok_step [OF s1(1) ok])
  from round_ack [OF ok1 s1(4,6,7,5)] s1(2) small obtain s2 q where s2: "rtranclp session_step s1 s2" "session_ok s2"
    "sideA s2 = sideA s1" "sentLog (sideB s2) = sentLog (sideB s1)"
    "q \<in> netBA s2" "IsControl (Opcode q)" "PacketID p \<in> set (Acks q)" unfolding sameLogs_def by metis
  define s3 where "s3 = s2\<lparr>sideA := sideRecv (sideA s2) q 0\<rparr>"
  have st3: "session_step s2 s3" unfolding s3_def by (rule session_step.recvA [OF s2(5)])
  have ok3: "session_ok s3" by (rule session_ok_step [OF st3 s2(2)])
  have "layer_ok (lay (sideA s2))" using s2(2) by (simp add: session_ok_def)
  then have "unacked (lay (sideA s3)) < unacked (lay (sideA s2))"
    using Receive_reduces [OF _ s2(6)] s2(3,7) s1(5,8) by (simp add: s3_def sideRecv_lay)
  moreover have "0 \<le> unacked (lay (sideA s3))" using ok3 by (simp add: session_ok_def layer_ok_def send_ok_def)
  ultimately have "unackedA s3 < unackedA s1" using s2(3) by (simp add: unackedA_def Unacked_def)
  moreover have "sameLogs s s3"
    using s1(2) s2(3,4) by (simp add: sameLogs_def s3_def sideRecv_lay Receive_retransmit)
  moreover have "rtranclp session_step s s3"
    using s1(1) s2(1) st3 by (meson converse_rtranclp_into_rtranclp rtranclp.rtrancl_into_rtrancl)
  ultimately show thesis using that ok3 s1(3) by metis
qed

lemma session_finish:
  assumes "session_ok s" "retransmit (lay (sideA s))"
    and "length (sentLog (sideA s)) < 2 ^ 32" "length (sentLog (sideB s)) < 2 ^ 32"
  shows "\<exists>s'. rtranclp session_step s s' \<and> session_ok s' \<and> sameLogs s s' \<and> unackedA s' = 0"
  using assms
proof (induction "unackedA s" arbitrary: s rule: less_induct)
  case less
  show ?case
  proof (cases "unackedA s = 0")
    case True
    then show ?thesis using less.prems by (intro exI [of _ s]) (simp add: sameLogs_def)
  next
    case False
    then have "0 < unackedA s" by simp
    from session_round [OF less.prems(1,2) this less.prems(3,4)] obtain s1 where
      s1: "rtranclp session_step s s1" "session_ok s1" "sameLogs s s1" "unackedA s1 < unackedA s" by blast
    moreover have "retransmit (lay (sideA s1))" "length (sentLog (sideA s1)) < 2 ^ 32"
      "length (sentLog (sideB s1)) < 2 ^ 32" using s1(3) less.prems by (simp_all add: sameLogs_def)
    ultimately obtain s2 where "rtranclp session_step s1 s2" "session_ok s2" "sameLogs s1 s2" "unackedA s2 = 0"
      using less.hyps [of s1] by blast
    with s1 show ?thesis by (intro exI [of _ s2]) (auto simp: sameLogs_def intro: rtranclp_trans)
  qed
qed

lemma session_retransmit:
  "session_reach oA oB s \<Longrightarrow> retransmit (lay (sideA s)) = (0 < InitialTimeout (New_opts oA))"
proof (induction rule: session_reach.induct)
  case start
  then show ?case by (simp add: session_start_def newSide_def New_def Let_def)
next
  case (step s s')
  from step(2,3) show ?case
    by (induction rule: session_step.induct)
       (simp_all add: sideSend_def sidePoll_def Send_def Let_def sideRecv_lay Receive_retransmit)
qed

text \<open>
  Claim C10. However many packets the network has lost, repeated or delayed: if retransmission
  is on at side A (the default), then from any state a run has reached, further steps in which
  nothing new is sent lead to a state where every message of side A is acknowledged and side B
  has delivered exactly what side A has sent.
\<close>

theorem session_can_complete:
  assumes "session_reach oA oB s" "0 < InitialTimeout (New_opts oA)"
    and "length (sentLog (sideA s)) < 2 ^ 32" "length (sentLog (sideB s)) < 2 ^ 32"
  shows "\<exists>s'. rtranclp session_step s s' \<and> sentLog (sideA s') = sentLog (sideA s) \<and>
     sentLog (sideB s') = sentLog (sideB s) \<and> Unacked (lay (sideA s')) = 0 \<and>
     map content (gotLog (sideB s')) = sentLog (sideA s)"
proof -
  from session_finish [OF session_reach_ok [OF assms(1)] _ assms(3,4)] session_retransmit [OF assms(1)] assms(2)
  obtain s' where s': "rtranclp session_step s s'" "session_ok s'" "sameLogs s s'" "unackedA s' = 0" by auto
  have "0 \<le> Unacked (lay (sideA s'))"
    using s'(2) by (simp add: session_ok_def layer_ok_def send_ok_def Unacked_def)
  then have u: "Unacked (lay (sideA s')) = 0" using s'(4) by (simp add: unackedA_def)
  have logs: "sentLog (sideA s') = sentLog (sideA s)" "sentLog (sideB s') = sentLog (sideB s)"
    using s'(3) by (simp_all add: sameLogs_def)
  then have "map content (gotLog (sideB s')) = sentLog (sideA s')"
    using s'(2) assms(3) u by (intro link_all_acked [of _ _ "netAB s'" "netBA s'"]) (simp_all add: session_ok_def)
  with s'(1) u logs show ?thesis by auto
qed

theorem session_can_complete_witness:
  "length (gotLog (sideB demoSession)) = 0 \<and> (\<exists>s'. rtranclp session_step demoSession s' \<and>
     Unacked (lay (sideA s')) = 0 \<and> map content (gotLog (sideB s')) = [(ControlV1, [1])])"
proof -
  have "0 < InitialTimeout (New_opts demoTimed)" "length (sentLog (sideB demoSession)) = 0" by code_simp+
  then show ?thesis using session_can_complete [OF demo_reach(1)] by (auto simp: demo_logs)
qed

end
