(* ===== verification/Go_Strings.thy ===== *)
theory Go_Strings
  imports Prelude
begin

text \<open>
  The functions of Go's \<open>strings\<close> package the modelled code uses, on strings as lists of
  bytes (characters with codes below 256). \<open>TrimSpace\<close> knows Unicode's white space in its
  UTF-8 form. \<open>ToUpper\<close> changes the ASCII letters and the two other letters whose upper case
  is ASCII (dotless i and long s, in UTF-8); what it makes of further non-ASCII letters stays
  non-ASCII in Go as here, which is all that its uses (lookups in tables of ASCII names) see.
\<close>

definition hasPrefix :: "string \<Rightarrow> string \<Rightarrow> bool" where
  "hasPrefix s p \<longleftrightarrow> take (length p) s = p"

definition hasSuffix :: "string \<Rightarrow> string \<Rightarrow> bool" where
  "hasSuffix s p \<longleftrightarrow> length p \<le> length s \<and> drop (length s - length p) s = p"

definition trimPrefix :: "string \<Rightarrow> string \<Rightarrow> string" where
  "trimPrefix s p = (if hasPrefix s p then drop (length p) s else s)"

text \<open>White space: the ASCII six, and U+0085, U+00A0, U+1680, U+2000 to U+200A, U+2028, U+2029,
  U+202F, U+205F, U+3000.\<close>

definition spaces :: "string list" where
  "spaces =
    [[CHR 0x09], [CHR 0x0A], [CHR 0x0B], [CHR 0x0C], [CHR 0x0D], [CHR 0x20],
     [CHR 0xC2, CHR 0x85], [CHR 0xC2, CHR 0xA0], [CHR 0xE1, CHR 0x9A, CHR 0x80],
     [CHR 0xE2, CHR 0x80, CHR 0x80], [CHR 0xE2, CHR 0x80, CHR 0x81], [CHR 0xE2, CHR 0x80, CHR 0x82],
     [CHR 0xE2, CHR 0x80, CHR 0x83], [CHR 0xE2, CHR 0x80, CHR 0x84], [CHR 0xE2, CHR 0x80, CHR 0x85],
     [CHR 0xE2, CHR 0x80, CHR 0x86], [CHR 0xE2, CHR 0x80, CHR 0x87], [CHR 0xE2, CHR 0x80, CHR 0x88],
     [CHR 0xE2, CHR 0x80, CHR 0x89], [CHR 0xE2, CHR 0x80, CHR 0x8A], [CHR 0xE2, CHR 0x80, CHR 0xA8],
     [CHR 0xE2, CHR 0x80, CHR 0xA9], [CHR 0xE2, CHR 0x80, CHR 0xAF], [CHR 0xE2, CHR 0x81, CHR 0x9F],
     [CHR 0xE3, CHR 0x80, CHR 0x80]]"

definition leadingSpace :: "string \<Rightarrow> string option" where
  "leadingSpace s = find (hasPrefix s) spaces"

definition trailingSpace :: "string \<Rightarrow> string option" where
  "trailingSpace s = find (hasSuffix s) spaces"

lemma spaces_nonempty: "sp \<in> set spaces \<Longrightarrow> 0 < length sp"
  by (auto simp: spaces_def)

lemma shorter: "0 < length sp \<Longrightarrow> length sp \<le> length s \<Longrightarrow> length s - length sp < length s"
  by linarith

lemma leadingSpace_length:
  assumes "leadingSpace s = Some sp"
  shows "length s - length sp < length s"
proof -
  have "sp \<in> set spaces" "hasPrefix s sp" using assms by (auto simp: leadingSpace_def find_Some_iff)
  then have "0 < length sp" "length sp \<le> length s"
    using spaces_nonempty by (auto simp: hasPrefix_def) (metis length_take min.cobounded1)
  then show ?thesis by (rule shorter)
qed

lemma trailingSpace_length:
  assumes "trailingSpace s = Some sp"
  shows "length s - length sp < length s"
proof -
  have "sp \<in> set spaces" "hasSuffix s sp" using assms by (auto simp: trailingSpace_def find_Some_iff)
  then have "0 < length sp" "length sp \<le> length s" using spaces_nonempty by (auto simp: hasSuffix_def)
  then show ?thesis by (rule shorter)
qed

function trimLeft :: "string \<Rightarrow> string" where
  "trimLeft s = (case leadingSpace s of None \<Rightarrow> s | Some sp \<Rightarrow> trimLeft (drop (length sp) s))"
  by pat_completeness auto
termination
  by (relation "measure length") (auto simp: leadingSpace_length)

function trimRight :: "string \<Rightarrow> string" where
  "trimRight s = (case trailingSpace s of None \<Rightarrow> s | Some sp \<Rightarrow> trimRight (take (length s - length sp) s))"
  by pat_completeness auto
termination
  by (relation "measure length") (auto simp: trailingSpace_length)

declare trimLeft.simps [simp del] trimRight.simps [simp del]

definition trimSpace :: "string \<Rightarrow> string" where
  "trimSpace s = trimRight (trimLeft s)"

definition lowerLetters :: string where "lowerLetters = ''abcdefghijklmnopqrstuvwxyz''"
definition upperLetters :: string where "upperLetters = ''ABCDEFGHIJKLMNOPQRSTUVWXYZ''"

definition upperChar :: "char \<Rightarrow> char" where
  "upperChar c = (case map_of (zip lowerLetters upperLetters) c of Some d \<Rightarrow> d | None \<Rightarrow> c)"

definition lowerChar :: "char \<Rightarrow> char" where
  "lowerChar c = (case map_of (zip upperLetters lowerLetters) c of Some d \<Rightarrow> d | None \<Rightarrow> c)"

fun toUpper :: "string \<Rightarrow> string" where
  "toUpper [] = []"
| "toUpper [c] = [upperChar c]"
| "toUpper (c # d # s) =
    (if c = CHR 0xC4 \<and> d = CHR 0xB1 then CHR ''I'' # toUpper s
     else if c = CHR 0xC5 \<and> d = CHR 0xBF then CHR ''S'' # toUpper s
     else upperChar c # toUpper (d # s))"

text \<open>\<open>strings.ToLower\<close> in the same sense: the Kelvin sign and the dotted capital I are the
  non-ASCII letters whose lower case is ASCII.\<close>

fun toLower :: "string \<Rightarrow> string" where
  "toLower [] = []"
| "toLower (c # s) =
    (if c = CHR 0xE2 \<and> take 2 s = [CHR 0x84, CHR 0xAA] then CHR ''k'' # toLower (drop 2 s)
     else if c = CHR 0xC4 \<and> take 1 s = [CHR 0xB0] then CHR ''i'' # toLower (drop 1 s)
     else lowerChar c # toLower s)"

text \<open>A replacer that removes every occurrence of some single characters.\<close>

definition removeChars :: "char list \<Rightarrow> string \<Rightarrow> string" where
  "removeChars cs s = filter (\<lambda>c. c \<notin> set cs) s"

text \<open>A map literal of the source: the value of a key.\<close>

definition lookup :: "(string \<times> 'v) list \<Rightarrow> string \<Rightarrow> 'v option" where
  "lookup tbl k = map_of tbl k"

text \<open>\<open>strings.Split\<close> with a separator of one character, and \<open>strings.Join\<close>.\<close>

fun splitChar :: "char \<Rightarrow> string \<Rightarrow> string list" where
  "splitChar sep [] = [[]]"
| "splitChar sep (c # s) =
    (if c = sep then [] # splitChar sep s
     else case splitChar sep s of [] \<Rightarrow> [[c]] | w # ws \<Rightarrow> (c # w) # ws)"

fun joinWith :: "string \<Rightarrow> string list \<Rightarrow> string" where
  "joinWith sep [] = []"
| "joinWith sep [s] = s"
| "joinWith sep (s # ss) = s @ sep @ joinWith sep ss"

lemma splitChar_ne [simp]: "splitChar sep s \<noteq> []"
  by (induction s) (auto split: list.split)

lemma join_split: "joinWith [sep] (splitChar sep s) = s"
proof (induction s)
  case (Cons c s)
  obtain w ws where "splitChar sep s = w # ws" by (meson neq_Nil_conv splitChar_ne)
  with Cons show ?case by (cases ws) auto
qed simp

text \<open>\<open>strconv.Atoi\<close>: an optional sign and decimal digits, within 64 bits.\<close>

definition isDigit :: "char \<Rightarrow> bool" where
  "isDigit c \<longleftrightarrow> 48 \<le> (of_char c :: nat) \<and> (of_char c :: nat) \<le> 57"

definition digitVal :: "char \<Rightarrow> nat" where
  "digitVal c = of_char c - 48"

definition decVal :: "string \<Rightarrow> nat" where
  "decVal s = foldl (\<lambda>v c. v * 10 + digitVal c) 0 s"

definition parseDigits :: "string \<Rightarrow> nat option" where
  "parseDigits s = (if s = [] \<or> \<not> list_all isDigit s then None else Some (decVal s))"

definition atoi :: "string \<Rightarrow> int option" where
  "atoi s =
    (let (neg, ds) = (case s of [] \<Rightarrow> (False, []) | c # t \<Rightarrow>
           if c = CHR ''-'' then (True, t) else if c = CHR ''+'' then (False, t) else (False, s))
     in case parseDigits ds of None \<Rightarrow> None
        | Some n \<Rightarrow> let v = (if neg then - int n else int n)
                    in if - (2 ^ 63) \<le> v \<and> v < 2 ^ 63 then Some v else None)"

text \<open>Printing and reading a decimal number.\<close>

lemma digit_char: "n < 10 \<Longrightarrow> isDigit (char_of (48 + n)) \<and> digitVal (char_of (48 + n)) = n" for n :: nat
  by (simp add: isDigit_def digitVal_def)

lemma decVal_append: "decVal (s @ [c]) = decVal s * 10 + digitVal c"
  by (simp add: decVal_def)

lemma parseDigits_formatUint [simp]: "parseDigits (formatUint n) = Some n"
proof -
  have "formatUint n \<noteq> [] \<and> list_all isDigit (formatUint n) \<and> decVal (formatUint n) = n"
  proof (induction n rule: formatUint.induct)
    case (1 n)
    show ?case
    proof (cases "n < 10")
      case True
      then have eq: "formatUint n = [char_of (48 + n)]" by (subst formatUint.simps) simp
      show ?thesis unfolding eq using digit_char [OF True] by (simp add: decVal_def)
    next
      case False
      have d: "n mod 10 < 10" by simp
      have eq: "formatUint n = formatUint (n div 10) @ [char_of (48 + n mod 10)]"
        using False by (subst formatUint.simps) simp
      show ?thesis unfolding eq using 1 False digit_char [OF d] by (simp add: decVal_append)
    qed
  qed
  then show ?thesis by (simp add: parseDigits_def)
qed

end
