(* ===== verification/Handshake.thy ===== *)
theory Handshake
  imports Wire Go_Strings
begin

text \<open>
  The key-method 2 exchange (\<open>core/proxy/openvpn/ovpn/handshake/handshake.go\<close>): the two
  messages and their parsers, the expansion of the key block with the TLS 1.0 PRF, the peer
  info and the options string. A string of the source is a \<open>string\<close> here; \<open>bytes_of\<close> is its
  conversion to bytes.

  The keyed hashes of the standard library are a parameter \<open>hmac\<close>: digest name, key, message.
  The \<open>Format\<close> methods, which print placeholders for secrets, are not modelled.
\<close>

section \<open>Constants, errors, data\<close>

definition KeyMethod2 :: u8 where "KeyMethod2 = 2"
definition EKMLength :: int where "EKMLength = 256"
definition MaxStrings :: int where "MaxStrings = 65536"
definition keyMethodMask :: u8 where "keyMethodMask = 0x0f"
definition serverFixedLen :: int where "serverFixedLen = 4 + 1 + 32 + 32"
definition clientFixedLen :: int where "clientFixedLen = 4 + 1 + 48 + 32 + 32"
definition maxStringLen :: int where "maxStringLen = 0xffff - 1"
definition MaxMessageLen :: int where "MaxMessageLen = clientFixedLen + 4 * 2 + MaxStrings"

lemmas hs_consts = KeyMethod2_def EKMLength_def MaxStrings_def keyMethodMask_def serverFixedLen_def
  clientFixedLen_def maxStringLen_def MaxMessageLen_def

text \<open>The errors; all but the first wrap \<open>ErrBad\<close>.\<close>

datatype hs_err =
  HsShort
| BadKeyMethod u8
| StringsTooLong string int
| NotTerminated string
| ExporterLength int
| ReadingRandomness io_err

record clientKeySource =
  PreMaster :: bytes
  cRandom1 :: bytes
  cRandom2 :: bytes

record serverKeySource =
  sRandom1 :: bytes
  sRandom2 :: bytes

text \<open>\<open>NewClientKeySource\<close> reads the three arrays from a random source, here a stream of bytes.\<close>

definition NewClientKeySource :: "bytes \<Rightarrow> (hs_err, clientKeySource) res \<times> bytes" where
  "NewClientKeySource r =
    (case ReadFull r 48 of (Inl e, r) \<Rightarrow> (Inl (Err (ReadingRandomness e)), r) | (Inr pm, r) \<Rightarrow>
     case ReadFull r 32 of (Inl e, r) \<Rightarrow> (Inl (Err (ReadingRandomness e)), r) | (Inr r1, r) \<Rightarrow>
     case ReadFull r 32 of (Inl e, r) \<Rightarrow> (Inl (Err (ReadingRandomness e)), r) | (Inr r2, r) \<Rightarrow>
     (Inr \<lparr>PreMaster = pm, cRandom1 = r1, cRandom2 = r2\<rparr>, r))"

record clientMessage =
  cSource :: clientKeySource
  cOptions :: string
  cUsername :: string
  cPassword :: string
  cPeerInfo :: string

record serverMessage =
  sSource :: serverKeySource
  sOptions :: string
  sPeerInfo :: string

section \<open>Strings of a message\<close>

definition NUL :: char where "NUL = char_of (0::nat)"

definition cString :: "string \<Rightarrow> string" where
  "cString s = takeWhile (\<lambda>c. c \<noteq> NUL) s"

definition appendString :: "bytes \<Rightarrow> string \<Rightarrow> bytes" where
  "appendString b s =
    (let s = cString s;
         s = (if glen s > maxStringLen then take (nat maxStringLen) s else s)
     in if s = [] then b @ [0, 0]
        else b @ be16 (of_int (glen s + 1)) @ bytes_of s @ [0])"

record stringReader =
  sr_b :: bytes
  sr_off :: int
  sr_budget :: int

definition nextString :: "stringReader \<Rightarrow> string \<Rightarrow> (hs_err, string \<times> stringReader) res" where
  "nextString r name =
    (if glen (sr_b r) - sr_off r < 2 then Inl (Err HsShort)
     else rbind (gfrom (sr_b r) (sr_off r)) (\<lambda>rest. rbind (getU16 rest) (\<lambda>w.
     let n = uint w in
     if n = 0 then Inr ([], r\<lparr>sr_off := sr_off r + 2\<rparr>)
     else if n > sr_budget r then Inl (Err (StringsTooLong name n))
     else if glen (sr_b r) - sr_off r - 2 < n then Inl (Err HsShort)
     else rbind (gslice (sr_b r) (sr_off r + 2) (sr_off r + 2 + n)) (\<lambda>s.
     rbind (gidx s (n - 1)) (\<lambda>z.
     if z \<noteq> 0 then Inl (Err (NotTerminated name))
     else rbind (gslice s 0 (n - 1)) (\<lambda>t.
     Inr (cString (string_of t), r\<lparr>sr_budget := sr_budget r - n, sr_off := sr_off r + (2 + n)\<rparr>)))))))"

section \<open>Messages\<close>

definition ClientMessage_Marshal :: "clientMessage \<Rightarrow> bytes" where
  "ClientMessage_Marshal m =
    (let b = be32 0 @ [KeyMethod2] @ PreMaster (cSource m) @ cRandom1 (cSource m) @ cRandom2 (cSource m);
         b = appendString b (cOptions m);
         b = appendString b (cUsername m);
         b = appendString b (cPassword m)
     in appendString b (cPeerInfo m))"

definition ServerMessage_Marshal :: "serverMessage \<Rightarrow> bytes" where
  "ServerMessage_Marshal m =
    (let b = be32 0 @ [KeyMethod2] @ sRandom1 (sSource m) @ sRandom2 (sSource m);
         b = appendString b (sOptions m);
         b = appendString b [];
         b = appendString b []
     in appendString b (sPeerInfo m))"

definition checkFixed :: "bytes \<Rightarrow> int \<Rightarrow> (hs_err, unit) res" where
  "checkFixed b fixed =
    (if glen b < 5 then Inl (Err HsShort)
     else rbind (gidx b 4) (\<lambda>k.
     let km = k AND keyMethodMask in
     if km \<noteq> KeyMethod2 then Inl (Err (BadKeyMethod km))
     else if glen b < fixed then Inl (Err HsShort)
     else Inr ()))"

text \<open>\<open>copy(dst[:], b[off:])\<close> into an array of \<open>n\<close> bytes; the fixed part is known to be there.\<close>

definition copyArray :: "bytes \<Rightarrow> int \<Rightarrow> nat \<Rightarrow> ('e, bytes) res" where
  "copyArray b off n = rbind (gfrom b off) (\<lambda>rest. Inr (take n (rest @ replicate n 0)))"

definition ParseClientMessage :: "bytes \<Rightarrow> (hs_err, clientMessage \<times> int) res" where
  "ParseClientMessage b =
    rbind (checkFixed b clientFixedLen) (\<lambda>_.
    rbind (copyArray b 5 48) (\<lambda>pm. rbind (copyArray b 53 32) (\<lambda>r1. rbind (copyArray b 85 32) (\<lambda>r2.
    rbind (nextString \<lparr>sr_b = b, sr_off = 117, sr_budget = MaxStrings\<rparr> ''options'') (\<lambda>(opt, r).
    rbind (nextString r ''username'') (\<lambda>(user, r).
    rbind (nextString r ''password'') (\<lambda>(pass, r).
    rbind (nextString r ''peer info'') (\<lambda>(info, r).
    Inr (\<lparr>cSource = \<lparr>PreMaster = pm, cRandom1 = r1, cRandom2 = r2\<rparr>, cOptions = opt, cUsername = user,
           cPassword = pass, cPeerInfo = info\<rparr>, sr_off r)))))))))"

text \<open>The loop over the optional strings of a server's message; only the third is kept.\<close>

fun serverStrings :: "stringReader \<Rightarrow> string list \<Rightarrow> string \<Rightarrow> (hs_err, string \<times> stringReader) res" where
  "serverStrings r [] info = Inr (info, r)"
| "serverStrings r (name # names) info =
    (if sr_off r = glen (sr_b r) then Inr (info, r)
     else rbind (nextString r name) (\<lambda>(s, r). serverStrings r names (if names = [] then s else info)))"

definition ParseServerMessage :: "bytes \<Rightarrow> (hs_err, serverMessage \<times> int) res" where
  "ParseServerMessage b =
    rbind (checkFixed b serverFixedLen) (\<lambda>_.
    rbind (copyArray b 5 32) (\<lambda>r1. rbind (copyArray b 37 32) (\<lambda>r2.
    rbind (nextString \<lparr>sr_b = b, sr_off = 69, sr_budget = MaxStrings\<rparr> ''options'') (\<lambda>(opt, r).
    rbind (serverStrings r [''username'', ''password'', ''peer info''] []) (\<lambda>(info, r).
    Inr (\<lparr>sSource = \<lparr>sRandom1 = r1, sRandom2 = r2\<rparr>, sOptions = opt, sPeerInfo = info\<rparr>, sr_off r))))))"

section \<open>Keys\<close>

record key =
  Cipher :: bytes
  HMAC :: bytes

type_synonym key2 = "key \<times> key"

definition ClientSend :: "key2 \<Rightarrow> key" where "ClientSend k = fst k"
definition ClientRecv :: "key2 \<Rightarrow> key" where "ClientRecv k = snd k"
definition ServerSend :: "key2 \<Rightarrow> key" where "ServerSend k = snd k"
definition ServerRecv :: "key2 \<Rightarrow> key" where "ServerRecv k = fst k"

definition key2From :: "bytes \<Rightarrow> key2" where
  "key2From b =
    (\<lparr>Cipher = take 64 b, HMAC = take 64 (drop 64 b)\<rparr>,
     \<lparr>Cipher = take 64 (drop 128 b), HMAC = take 64 (drop 192 b)\<rparr>)"

definition Key2FromEKM :: "bytes \<Rightarrow> (hs_err, key2) res" where
  "Key2FromEKM ekm =
    (if glen ekm \<noteq> EKMLength then Inl (Err (ExporterLength (glen ekm))) else Inr (key2From ekm))"

text \<open>
  \<open>pHash\<close>: the loop over what is left of the output. \<open>pre\<close> is the output before it, \<open>out\<close>
  what was there and is overwritten or combined by exclusive or. An HMAC is never empty, so each round shortens
  \<open>out\<close>; for an empty block, which would make the loop spin, the equation stops.
\<close>

definition xorBytes :: "bytes \<Rightarrow> bytes \<Rightarrow> bytes" where
  "xorBytes xs ys = map2 (XOR) xs ys"

function pHashLoop :: "(bytes \<Rightarrow> bytes) \<Rightarrow> bytes \<Rightarrow> bytes \<Rightarrow> bool \<Rightarrow> bytes \<Rightarrow> bytes \<Rightarrow> bytes" where
  "pHashLoop mac a seed dx pre out =
    (let block = mac (a @ seed); n = min (length out) (length block) in
     if out = [] \<or> n = 0 then pre @ out
     else let w = (if dx then xorBytes (take n out) (take n block) else take n block)
          in pHashLoop mac (mac a) seed dx (pre @ w) (drop n out))"
  by pat_completeness auto
termination
  by (relation "measure (\<lambda>(mac, a, seed, dx, pre, out). length out)") (auto simp: Let_def)

declare pHashLoop.simps [simp del]

definition pHash :: "(bytes \<Rightarrow> bytes) \<Rightarrow> bytes \<Rightarrow> bytes \<Rightarrow> bool \<Rightarrow> bytes" where
  "pHash mac seed out dx = pHashLoop mac (mac seed) seed dx [] out"

type_synonym hmac_fn = "string \<Rightarrow> bytes \<Rightarrow> bytes \<Rightarrow> bytes"

definition TLS1PRF :: "hmac_fn \<Rightarrow> bytes \<Rightarrow> bytes \<Rightarrow> bytes \<Rightarrow> bytes" where
  "TLS1PRF hmac secret labelAndSeed out =
    (let half = (length secret + 1) div 2;
         out = pHash (hmac ''MD5'' (take half secret)) labelAndSeed out False
     in pHash (hmac ''SHA1'' (drop (length secret - half) secret)) labelAndSeed out True)"

definition masterLabel :: string where "masterLabel = ''OpenVPN master secret''"
definition expansionLabel :: string where "expansionLabel = ''OpenVPN key expansion''"

definition DeriveKey2PRF :: "hmac_fn \<Rightarrow> clientKeySource \<Rightarrow> serverKeySource \<Rightarrow> session_id \<Rightarrow> session_id \<Rightarrow> key2" where
  "DeriveKey2PRF hmac c s clientSID serverSID =
    (let seed = bytes_of masterLabel @ cRandom1 c @ sRandom1 s;
         master = TLS1PRF hmac (PreMaster c) seed (replicate 48 0);
         seed = bytes_of expansionLabel @ cRandom2 c @ sRandom2 s @ clientSID @ serverSID;
         block = TLS1PRF hmac master seed (replicate 256 0)
     in key2From block)"

section \<open>Peer info and options string\<close>

record peerInfo =
  Version :: string
  Platform :: string
  Proto :: u32
  Ciphers :: "string list"
  MTU :: int
  Stubs :: bool
  Decompress :: bool
  Extra :: "string list"

definition nl :: string where "nl = [char_of (10::nat)]"

definition infoLine :: "string \<Rightarrow> string \<Rightarrow> string" where
  "infoLine k v = k @ ''='' @ v @ nl"

definition PeerInfo_String :: "peerInfo \<Rightarrow> string" where
  "PeerInfo_String p =
    (if Version p \<noteq> [] then infoLine ''IV_VER'' (Version p) else []) @
    (if Platform p \<noteq> [] then infoLine ''IV_PLAT'' (Platform p) else []) @
    infoLine ''IV_PROTO'' (formatUint (unat (Proto p))) @
    (if Ciphers p \<noteq> [] then infoLine ''IV_NCP'' ''2'' @ infoLine ''IV_CIPHERS'' (joinWith '':'' (Ciphers p)) else []) @
    (if MTU p > 0 then infoLine ''IV_MTU'' (itoa (MTU p)) else []) @
    (if Stubs p then infoLine ''IV_LZO_STUB'' ''1'' @ infoLine ''IV_COMP_STUB'' ''1'' @ infoLine ''IV_COMP_STUBv2'' ''1'' else []) @
    (if Decompress p then infoLine ''IV_LZO'' ''1'' @ infoLine ''IV_LZ4'' ''1'' @ infoLine ''IV_LZ4v2'' ''1'' else []) @
    concat (map (\<lambda>e. if e \<noteq> [] then e @ nl else []) (Extra p))"

record occOptions =
  oTCP :: bool
  oIPv6 :: bool
  oTunMTU :: int
  oLinkMTU :: int
  oCipher :: string
  oAuth :: string
  oKeySize :: int
  oCompLZO :: bool
  oTLSAuth :: bool
  oKeyDir :: string

record occCipher =
  printed :: bool
  aead :: bool
  keyBits :: int
  packetIDLen :: int
  ivLen :: int
  block :: int
  tag :: int

definition zeroCipher :: occCipher where
  "zeroCipher = \<lparr>printed = False, aead = False, keyBits = 0, packetIDLen = 0, ivLen = 0, block = 0, tag = 0\<rparr>"

text \<open>The bits and the block size by the name's first parts, then the mode by its last.\<close>

definition occKeyBits :: "string list \<Rightarrow> int" where
  "occKeyBits parts =
    (if parts ! 0 = ''DES'' \<and> length parts > 1 \<and> parts ! 1 = ''EDE3'' then 192
     else if parts ! 0 = ''DES'' \<and> length parts > 1 \<and> parts ! 1 = ''EDE'' then 128
     else if parts ! 0 = ''DES'' then 64
     else if parts ! 0 = ''DESX'' then 192
     else if length parts > 1 then
       (case atoi (parts ! 1) of Some bits \<Rightarrow> if bits > 0 \<and> bits \<le> 512 then bits else 128 | None \<Rightarrow> 128)
     else 128)"

definition occMode :: "occCipher \<Rightarrow> string \<Rightarrow> occCipher" where
  "occMode c mode =
    (if mode = ''GCM'' \<or> mode = ''CCM'' then c\<lparr>aead := True, ivLen := 12, tag := 16\<rparr>
     else if hasPrefix mode ''CFB'' \<or> mode = ''OFB'' then c\<lparr>packetIDLen := 8, ivLen := block c\<rparr>
     else c\<lparr>ivLen := block c\<rparr>)"

definition cipherInfoFor :: "string \<Rightarrow> occCipher" where
  "cipherInfoFor name =
    (let n = toUpper name in
     if n = [] then zeroCipher\<lparr>keyBits := 128, packetIDLen := 4, ivLen := 8, block := 8\<rparr>
     else if n = ''NONE'' \<or> n = ''[NULL-CIPHER]'' then zeroCipher\<lparr>packetIDLen := 4\<rparr>
     else if n = ''CHACHA20-POLY1305''
     then zeroCipher\<lparr>printed := True, aead := True, keyBits := 256, packetIDLen := 4, ivLen := 12, block := 1, tag := 16\<rparr>
     else
     let parts = splitChar (CHR ''-'') n;
         blk = (if parts ! 0 \<in> set [''BF'', ''CAST5'', ''IDEA'', ''RC2'', ''DES'', ''DESX''] then 8 else 16)
     in occMode (zeroCipher\<lparr>printed := True, keyBits := occKeyBits parts, packetIDLen := 4, block := blk\<rparr>) (last parts))"

definition digestLen :: "string \<Rightarrow> int" where
  "digestLen name =
    (let n = removeChars [CHR ''-''] (toUpper name) in
     if n \<in> set [''[NULLDIGEST]'', ''NONE''] then 0
     else if n \<in> set [''MD5'', ''MD4''] then 16
     else if n \<in> set [''SHA224'', ''SHA512224'', ''SHA3224''] then 28
     else if n \<in> set [''SHA256'', ''SHA512256'', ''SHA3256'', ''BLAKE2S256'', ''SM3''] then 32
     else if n \<in> set [''SHA384'', ''SHA3384''] then 48
     else if n \<in> set [''SHA512'', ''SHA3512'', ''BLAKE2B512'', ''WHIRLPOOL''] then 64
     else 20)"

definition occAuth :: "occOptions \<Rightarrow> string" where
  "occAuth o' = (if aead (cipherInfoFor (oCipher o')) then ''[null-digest]''
     else if oAuth o' = [] then ''SHA1'' else oAuth o')"

definition occLink :: "occOptions \<Rightarrow> int \<Rightarrow> int" where
  "occLink o' tun =
    (let c = cipherInfoFor (oCipher o') in
     if oLinkMTU o' \<le> 0 then
       tun + 1 + packetIDLen c + ivLen c + block c + tag c + (if \<not> aead c then digestLen (occAuth o') else 0) +
         (if oTCP o' then 2 else 0) + (if oCompLZO o' then 1 else 0)
     else oLinkMTU o')"

definition OptionsString :: "occOptions \<Rightarrow> string" where
  "OptionsString o' =
    (let c = cipherInfoFor (oCipher o');
         tun = (if oTunMTU o' \<le> 0 then 1500 else oTunMTU o');
         keySize = (if oKeySize o' \<le> 0 then keyBits c else oKeySize o')
     in ''V4,dev-type tun,link-mtu '' @ itoa (occLink o' tun) @ '',tun-mtu '' @ itoa tun @
        (if oTCP o' then '',proto TCPv4_CLIENT'' else '',proto UDPv4'') @
        (if oCompLZO o' then '',comp-lzo'' else []) @
        (if oKeyDir o' \<noteq> [] then '',keydir '' @ oKeyDir o' else []) @
        (if printed c then '',cipher '' @ oCipher o' else []) @
        '',auth '' @ occAuth o' @ '',keysize '' @ itoa keySize @
        (if oTLSAuth o' then '',tls-auth'' else []) @ '',key-method 2,tls-client'')"

end
