(* ===== verification/Handshake_Codec.thy ===== *)
theory Handshake_Codec
  imports Handshake
begin

text \<open>
  The key-method 2 messages and keys: what \<open>Marshal\<close> writes is read back from a stream that
  may deliver it in parts, the parsers never panic and never wait for more than
  \<open>MaxMessageLen\<close> bytes, and the TLS 1.0 PRF is the one of RFC 2246.
\<close>

section \<open>One string\<close>

text \<open>What of a string goes on the wire, its bytes there, and what it takes of the budget.\<close>

definition wireCut :: "string \<Rightarrow> string" where
  "wireCut s = take 65534 (cString s)"

definition stringBytes :: "string \<Rightarrow> bytes" where
  "stringBytes s = (if wireCut s = [] then [0, 0] else be16 (of_nat (length (wireCut s) + 1)) @ bytes_of (wireCut s) @ [0])"

definition wireLen :: "string \<Rightarrow> int" where
  "wireLen s = (if wireCut s = [] then 0 else glen (wireCut s) + 1)"

lemma appendString_eq: "appendString b s = b @ stringBytes s"
proof -
  have "(if glen (cString s) > maxStringLen then take (nat maxStringLen) (cString s) else cString s) = wireCut s"
    by (simp add: wireCut_def maxStringLen_def glen_def)
  moreover have "of_int (glen xs + 1) = (of_nat (length xs + 1) :: u16)" for xs :: string by (simp add: glen_def)
  ultimately show ?thesis by (simp add: appendString_def stringBytes_def Let_def add.commute)
qed

lemma length_wireCut: "length (wireCut s) \<le> 65534"
  by (simp add: wireCut_def)

lemma cString_wireCut: "cString (wireCut s) = wireCut s"
proof -
  have "\<forall>c \<in> set (wireCut s). c \<noteq> NUL"
    unfolding wireCut_def cString_def by (metis in_set_takeD set_takeWhileD)
  then show ?thesis by (simp add: cString_def takeWhile_eq_all_conv)
qed

lemma glen_stringBytes: "glen (stringBytes s) = 2 + wireLen s"
  by (simp add: stringBytes_def wireLen_def glen_def)

lemma wireLen_bounds: "0 \<le> wireLen s" "wireLen s \<le> 65535"
  using length_wireCut [of s] by (auto simp: wireLen_def glen_def)

lemma uint_of_nat16: "n < 65536 \<Longrightarrow> uint (of_nat n :: u16) = int n"
  by (simp add: uint_nat unat_of_nat)

lemma getU16_len: "getU16 (be16 (of_nat n) @ xs) = Inr (of_nat n)"
  by simp

lemma take_past: "length xs = n \<Longrightarrow> n \<le> m \<Longrightarrow> take m (xs @ ys) = xs @ take (m - n) ys"
  by simp

lemma nextString_short:
  assumes "\<not> glen (sr_b r) - sr_off r < 2" "gfrom (sr_b r) (sr_off r) = (Inr d :: (hs_err, bytes) res)"
    "getU16 d = (Inr w :: (hs_err, u16) res)" "uint w = n" "n \<noteq> 0" "n \<le> sr_budget r"
    "glen (sr_b r) - sr_off r - 2 < n"
  shows "nextString r name = Inl (Err HsShort)"
  using assms by (simp add: nextString_def)

lemma nextString_ok:
  assumes "\<not> glen (sr_b r) - sr_off r < 2" "gfrom (sr_b r) (sr_off r) = (Inr d :: (hs_err, bytes) res)"
    "getU16 d = (Inr w :: (hs_err, u16) res)" "uint w = n" "n \<noteq> 0" "n \<le> sr_budget r"
    "\<not> glen (sr_b r) - sr_off r - 2 < n"
    "gslice (sr_b r) (sr_off r + 2) (sr_off r + 2 + n) = (Inr t :: (hs_err, bytes) res)"
    "gidx t (n - 1) = (Inr 0 :: (hs_err, u8) res)" "gslice t 0 (n - 1) = (Inr t' :: (hs_err, bytes) res)"
  shows "nextString r name = Inr (cString (string_of t'), r\<lparr>sr_budget := sr_budget r - n, sr_off := sr_off r + (2 + n)\<rparr>)"
  using assms by (simp add: nextString_def)

lemma nextString_unterminated:
  assumes "\<not> glen (sr_b r) - sr_off r < 2" "gfrom (sr_b r) (sr_off r) = (Inr d :: (hs_err, bytes) res)"
    "getU16 d = (Inr w :: (hs_err, u16) res)" "uint w = n" "n \<noteq> 0" "n \<le> sr_budget r"
    "\<not> glen (sr_b r) - sr_off r - 2 < n"
    "gslice (sr_b r) (sr_off r + 2) (sr_off r + 2 + n) = (Inr t :: (hs_err, bytes) res)"
    "gidx t (n - 1) = (Inr z :: (hs_err, u8) res)" "z \<noteq> 0"
  shows "nextString r name = Inl (Err (NotTerminated name))"
  using assms by (simp add: nextString_def)

text \<open>
  Reading a string from the first \<open>k\<close> bytes of a stream that has it at the reader's offset:
  while it is not all there the reader asks for more, and then it gives the string.
\<close>

lemma nextString_stream:
  assumes off: "sr_off r = glen pre" "glen pre \<le> int k" and b: "sr_b r = take k (pre @ stringBytes s @ post)"
    and bud: "wireLen s \<le> sr_budget r"
  shows "nextString r name =
    (if int k < glen pre + glen (stringBytes s) then Inl (Err HsShort)
     else Inr (wireCut s, r\<lparr>sr_budget := sr_budget r - wireLen s, sr_off := glen pre + glen (stringBytes s)\<rparr>))"
proof -
  let ?d = "take (k - length pre) (stringBytes s @ post)"
  have kp: "length pre \<le> k" using off(2) by (simp add: glen_def)
  then have b': "sr_b r = pre @ ?d" by (simp add: b)
  have from_off: "gfrom (sr_b r) (sr_off r) = (Inr ?d :: (hs_err, bytes) res)"
    unfolding b' off(1) by (simp add: gfrom_ok)
  have len: "glen (sr_b r) - sr_off r = glen ?d" by (simp add: b' off(1))
  show ?thesis
  proof (cases "k - length pre < 2")
    case True
    then have "glen ?d < 2" "int k < glen pre + glen (stringBytes s)"
      using kp wireLen_bounds(1) [of s] by (auto simp: glen_def glen_stringBytes [unfolded glen_def])
    then show ?thesis unfolding nextString_def len by simp
  next
    case False
    have "2 \<le> length (stringBytes s)" by (simp add: stringBytes_def)
    then have two: "\<not> glen ?d < 2" using False by (simp add: glen_def)
    show ?thesis
    proof (cases "wireCut s = []")
      case True
      then have sb: "stringBytes s = [0, 0]" "wireLen s = 0" by (simp_all add: stringBytes_def wireLen_def)
      have "?d = 0 # 0 # take (k - length pre - 2) post"
        using False by (simp add: sb take_Cons' numeral_2_eq_2)
      then show ?thesis
        unfolding nextString_def len from_off using two False kp off(1)
        by (simp add: sb True glen_def Let_def)
    next
      case ne: False
      let ?n = "length (wireCut s) + 1"
      have n: "?n < 65536" using length_wireCut [of s] by simp
      then have un: "uint (of_nat ?n :: u16) = int ?n" by (rule uint_of_nat16)
      have sb: "stringBytes s = be16 (of_nat ?n) @ bytes_of (wireCut s) @ [0]" "wireLen s = int ?n"
        using ne by (simp_all add: stringBytes_def wireLen_def glen_def)
      let ?e = "take (k - length pre - 2) ((bytes_of (wireCut s) @ [0]) @ post)"
      have d: "?d = be16 (of_nat ?n) @ ?e" using False by (simp add: sb)
      have g: "getU16 ?d = (Inr (of_nat ?n) :: (hs_err, u16) res)" unfolding d by (rule getU16_len)
      have ld: "glen ?d = 2 + glen ?e" unfolding d by (simp add: glen_def)
      show ?thesis
      proof (cases "int k < glen pre + glen (stringBytes s)")
        case True
        then have "glen ?e < int ?n" using False kp by (simp add: glen_def sb)
        then have "glen (sr_b r) - sr_off r - 2 < int ?n" unfolding len ld by simp
        then have "nextString r name = Inl (Err HsShort)"
          using two bud sb(2) by (intro nextString_short [OF _ from_off g un]) (simp_all only: len, simp_all)
        then show ?thesis using True by simp
      next
        case whole: False
        then have "?n \<le> k - length pre - 2" using False kp by (simp add: glen_def sb)
        then have e: "?e = (bytes_of (wireCut s) @ [0]) @ take (k - length pre - 2 - ?n) post"
          by (intro take_past) simp_all
        have le: "\<not> glen ?e < int ?n" unfolding e by (simp add: glen_def)
        have sl: "gslice (sr_b r) (sr_off r + 2) (sr_off r + 2 + int ?n) = (Inr (bytes_of (wireCut s) @ [0]) :: (hs_err, bytes) res)"
          unfolding b' off(1) d e by (simp add: gslice_def glen_def nat_add_distrib)
        have z: "gidx (bytes_of (wireCut s) @ [0]) (int ?n - 1) = (Inr 0 :: (hs_err, u8) res)"
          "gslice (bytes_of (wireCut s) @ [0]) 0 (int ?n - 1) = (Inr (bytes_of (wireCut s)) :: (hs_err, bytes) res)"
          by (simp_all add: gidx_def gslice_def glen_def nth_append)
        have "\<not> glen (sr_b r) - sr_off r - 2 < int ?n" unfolding len ld using le by simp
        then have "nextString r name = Inr (cString (string_of (bytes_of (wireCut s))),
            r\<lparr>sr_budget := sr_budget r - int ?n, sr_off := sr_off r + (2 + int ?n)\<rparr>)"
          using two bud sb(2)
          by (intro nextString_ok [OF _ from_off g un _ _ _ sl z]) (simp_all only: len, simp_all)
        then show ?thesis using whole by (simp add: cString_wireCut glen_stringBytes sb(2) off(1))
      qed
    qed
  qed
qed

section \<open>Whole messages\<close>

lemma nth_take_past: "i < k \<Longrightarrow> take k xs ! i = xs ! i"
  by simp

lemma be32_zero: "be32 0 = [0, 0, 0, 0]"
  by (simp add: be32_def)

lemma checkFixed_stream:
  assumes b: "b = take k (be32 0 @ [KeyMethod2] @ d)" and f: "5 \<le> fixed" "fixed \<le> 5 + glen d"
  shows "checkFixed b fixed = (if int k < fixed then Inl (Err HsShort) else Inr ())"
proof -
  have len: "glen b = min (int k) (5 + glen d)" by (simp add: b glen_def)
  show ?thesis
  proof (cases "k < 5")
    case True
    then show ?thesis using f by (simp add: checkFixed_def len)
  next
    case False
    then have "gidx b 4 = (Inr KeyMethod2 :: (hs_err, u8) res)"
      by (simp add: gidx_def b be32_zero nth_append glen_def)
    then show ?thesis
      using False f by (auto simp: checkFixed_def len KeyMethod2_def keyMethodMask_def)
  qed
qed

lemma copyArray_ok:
  assumes "0 \<le> off" "off + int n \<le> glen b"
  shows "copyArray b off n = Inr (take n (drop (nat off) b))"
proof -
  have "n \<le> length (drop (nat off) b)" using assms by (simp add: glen_def)
  then show ?thesis using assms by (simp add: copyArray_def gfrom_ok)
qed

text \<open>The first part of a client's message, of 117 bytes, and of a server's, of 69.\<close>

definition clientFixed :: "clientKeySource \<Rightarrow> bytes" where
  "clientFixed s = be32 0 @ [KeyMethod2] @ PreMaster s @ cRandom1 s @ cRandom2 s"

definition serverFixed :: "serverKeySource \<Rightarrow> bytes" where
  "serverFixed s = be32 0 @ [KeyMethod2] @ sRandom1 s @ sRandom2 s"

definition clientSourceOk :: "clientKeySource \<Rightarrow> bool" where
  "clientSourceOk s \<longleftrightarrow> length (PreMaster s) = 48 \<and> length (cRandom1 s) = 32 \<and> length (cRandom2 s) = 32"

definition serverSourceOk :: "serverKeySource \<Rightarrow> bool" where
  "serverSourceOk s \<longleftrightarrow> length (sRandom1 s) = 32 \<and> length (sRandom2 s) = 32"

lemma ClientMessage_Marshal_eq:
  "ClientMessage_Marshal m = clientFixed (cSource m) @ stringBytes (cOptions m) @ stringBytes (cUsername m) @
     stringBytes (cPassword m) @ stringBytes (cPeerInfo m)"
  by (simp add: ClientMessage_Marshal_def clientFixed_def appendString_eq Let_def)

lemma ServerMessage_Marshal_eq:
  "ServerMessage_Marshal m = serverFixed (sSource m) @ stringBytes (sOptions m) @ stringBytes [] @
     stringBytes [] @ stringBytes (sPeerInfo m)"
  by (simp add: ServerMessage_Marshal_def serverFixed_def appendString_eq Let_def)

lemma clientFixed_parts:
  assumes "clientSourceOk s" "117 \<le> k" and b: "b = take k (clientFixed s @ d)"
  shows "glen (clientFixed s) = 117" "117 \<le> glen b"
    "copyArray b 5 48 = Inr (PreMaster s)" "copyArray b 53 32 = Inr (cRandom1 s)" "copyArray b 85 32 = Inr (cRandom2 s)"
    "checkFixed b clientFixedLen = Inr ()"
proof -
  have l: "length (PreMaster s) = 48" "length (cRandom1 s) = 32" "length (cRandom2 s) = 32"
    using assms(1) by (simp_all add: clientSourceOk_def)
  then have len: "length (clientFixed s) = 117" by (simp add: clientFixed_def)
  then show "glen (clientFixed s) = 117" by (simp add: glen_def)
  have b': "b = clientFixed s @ take (k - 117) d" using assms(2) len by (simp add: b)
  then show ge: "117 \<le> glen b" by (simp add: glen_def len)
  show "copyArray b 5 48 = Inr (PreMaster s)" "copyArray b 53 32 = Inr (cRandom1 s)" "copyArray b 85 32 = Inr (cRandom2 s)"
    using ge by (subst copyArray_ok; simp add: b' clientFixed_def be32_zero l)+
  show "checkFixed b clientFixedLen = Inr ()"
    by (subst checkFixed_stream [where k = k and d = "PreMaster s @ cRandom1 s @ cRandom2 s @ d"])
      (use assms(2) l in \<open>simp_all add: b clientFixed_def hs_consts glen_def\<close>)
qed

lemma serverFixed_parts:
  assumes "serverSourceOk s" "69 \<le> k" and b: "b = take k (serverFixed s @ d)"
  shows "glen (serverFixed s) = 69" "69 \<le> glen b"
    "copyArray b 5 32 = Inr (sRandom1 s)" "copyArray b 37 32 = Inr (sRandom2 s)"
    "checkFixed b serverFixedLen = Inr ()"
proof -
  have l: "length (sRandom1 s) = 32" "length (sRandom2 s) = 32"
    using assms(1) by (simp_all add: serverSourceOk_def)
  then have len: "length (serverFixed s) = 69" by (simp add: serverFixed_def)
  then show "glen (serverFixed s) = 69" by (simp add: glen_def)
  have b': "b = serverFixed s @ take (k - 69) d" using assms(2) len by (simp add: b)
  then show ge: "69 \<le> glen b" by (simp add: glen_def len)
  show "copyArray b 5 32 = Inr (sRandom1 s)" "copyArray b 37 32 = Inr (sRandom2 s)"
    using ge by (subst copyArray_ok; simp add: b' serverFixed_def be32_zero l)+
  show "checkFixed b serverFixedLen = Inr ()"
    by (subst checkFixed_stream [where k = k and d = "sRandom1 s @ sRandom2 s @ d"])
      (use assms(2) l in \<open>simp_all add: b serverFixed_def hs_consts glen_def\<close>)
qed

lemma checkFixed_client_short:
  "clientSourceOk s \<Longrightarrow> k < 117 \<Longrightarrow> checkFixed (take k (clientFixed s @ d)) clientFixedLen = Inl (Err HsShort)"
  by (subst checkFixed_stream [where k = k and d = "PreMaster s @ cRandom1 s @ cRandom2 s @ d"])
    (simp_all add: clientFixed_def clientSourceOk_def hs_consts glen_def)

lemma checkFixed_server_short:
  "serverSourceOk s \<Longrightarrow> k < 69 \<Longrightarrow> checkFixed (take k (serverFixed s @ d)) serverFixedLen = Inl (Err HsShort)"
  by (subst checkFixed_stream [where k = k and d = "sRandom1 s @ sRandom2 s @ d"])
    (simp_all add: serverFixed_def serverSourceOk_def hs_consts glen_def)

text \<open>One string after another: the same as \<open>nextString_stream\<close>, for a reader in its explicit form.\<close>

lemma reader_step:
  assumes "off = glen pre" "glen pre \<le> int k" "b = take k (pre @ stringBytes s @ post)" "wireLen s \<le> bud"
  shows "nextString \<lparr>sr_b = b, sr_off = off, sr_budget = bud\<rparr> name =
    (if int k < glen (pre @ stringBytes s) then Inl (Err HsShort)
     else Inr (wireCut s, \<lparr>sr_b = b, sr_off = glen (pre @ stringBytes s), sr_budget = bud - wireLen s\<rparr>))"
  using assms by (subst nextString_stream [of _ pre k s post]) auto

definition cutClient :: "clientMessage \<Rightarrow> clientMessage" where
  "cutClient m = m\<lparr>cOptions := wireCut (cOptions m), cUsername := wireCut (cUsername m),
     cPassword := wireCut (cPassword m), cPeerInfo := wireCut (cPeerInfo m)\<rparr>"

definition cutServer :: "serverMessage \<Rightarrow> serverMessage" where
  "cutServer m = m\<lparr>sOptions := wireCut (sOptions m), sPeerInfo := wireCut (sPeerInfo m)\<rparr>"

text \<open>The parser of a client's message reads four strings in a row.\<close>

fun readAll :: "stringReader \<Rightarrow> string list \<Rightarrow> (hs_err, string list \<times> stringReader) res" where
  "readAll r [] = Inr ([], r)"
| "readAll r (name # names) =
    rbind (nextString r name) (\<lambda>(s, r). rbind (readAll r names) (\<lambda>(ss, r). Inr (s # ss, r)))"

lemma readAll_stream:
  assumes "off = glen pre" "glen pre \<le> int k" "b = take k (pre @ concat (map stringBytes ss) @ post)"
    "sum_list (map wireLen ss) \<le> bud" "length names = length ss"
  shows "readAll \<lparr>sr_b = b, sr_off = off, sr_budget = bud\<rparr> names =
    (if int k < glen (pre @ concat (map stringBytes ss)) then Inl (Err HsShort)
     else Inr (map wireCut ss, \<lparr>sr_b = b, sr_off = glen (pre @ concat (map stringBytes ss)),
            sr_budget = bud - sum_list (map wireLen ss)\<rparr>))"
  using assms
proof (induction ss arbitrary: off pre bud names)
  case (Cons s ss)
  obtain name names' where names: "names = name # names'" "length names' = length ss"
    using Cons.prems(5) by (metis length_Suc_conv)
  have nn: "0 \<le> sum_list (map wireLen ss)" by (induction ss) (auto simp: wireLen_bounds)
  have step: "nextString \<lparr>sr_b = b, sr_off = off, sr_budget = bud\<rparr> name =
    (if int k < glen (pre @ stringBytes s) then Inl (Err HsShort)
     else Inr (wireCut s, \<lparr>sr_b = b, sr_off = glen (pre @ stringBytes s), sr_budget = bud - wireLen s\<rparr>))"
    using Cons.prems nn by (intro reader_step [where post = "concat (map stringBytes ss) @ post"]) auto
  show ?case
  proof (cases "int k < glen (pre @ stringBytes s)")
    case True
    then have "int k < glen (pre @ concat (map stringBytes (s # ss)))" by (simp add: glen_def)
    then show ?thesis using True by (simp add: names(1) step)
  next
    case False
    then have "readAll \<lparr>sr_b = b, sr_off = glen (pre @ stringBytes s), sr_budget = bud - wireLen s\<rparr> names' =
      (if int k < glen ((pre @ stringBytes s) @ concat (map stringBytes ss)) then Inl (Err HsShort)
       else Inr (map wireCut ss, \<lparr>sr_b = b, sr_off = glen ((pre @ stringBytes s) @ concat (map stringBytes ss)),
            sr_budget = bud - wireLen s - sum_list (map wireLen ss)\<rparr>))"
      using Cons.prems names(2) by (intro Cons.IH) auto
    then show ?thesis using False by (simp add: names step add.assoc)
  qed
qed auto

lemma ParseClientMessage_readAll:
  "ParseClientMessage b =
    rbind (checkFixed b clientFixedLen) (\<lambda>_.
    rbind (copyArray b 5 48) (\<lambda>pm. rbind (copyArray b 53 32) (\<lambda>r1. rbind (copyArray b 85 32) (\<lambda>r2.
    rbind (readAll \<lparr>sr_b = b, sr_off = 117, sr_budget = MaxStrings\<rparr> [''options'', ''username'', ''password'', ''peer info''])
     (\<lambda>(ss, r). Inr (\<lparr>cSource = \<lparr>PreMaster = pm, cRandom1 = r1, cRandom2 = r2\<rparr>, cOptions = ss ! 0, cUsername = ss ! 1,
           cPassword = ss ! 2, cPeerInfo = ss ! 3\<rparr>, sr_off r))))))"
  by (simp add: ParseClientMessage_def rbind_def split: sum.split prod.split)

lemma ParseClientMessage_stream:
  assumes ok: "clientSourceOk (cSource m)"
    and bud: "wireLen (cOptions m) + wireLen (cUsername m) + wireLen (cPassword m) + wireLen (cPeerInfo m) \<le> MaxStrings"
  shows "ParseClientMessage (take k (ClientMessage_Marshal m @ rest)) =
    (if k < length (ClientMessage_Marshal m) then Inl (Err HsShort)
     else Inr (cutClient m, glen (ClientMessage_Marshal m)))"
proof -
  let ?F = "clientFixed (cSource m)" and ?ss = "[cOptions m, cUsername m, cPassword m, cPeerInfo m]"
  define d where "d = concat (map stringBytes ?ss)"
  define b where "b = take k (?F @ d @ rest)"
  have marshal: "ClientMessage_Marshal m = ?F @ d" by (simp add: ClientMessage_Marshal_eq d_def)
  have len: "length ?F = 117" using ok by (simp add: clientFixed_def clientSourceOk_def)
  have eq: "k < length (?F @ d) \<longleftrightarrow> int k < glen (?F @ d)" unfolding glen_def by linarith
  have "ParseClientMessage b = (if int k < glen (?F @ d) then Inl (Err HsShort) else Inr (cutClient m, glen (?F @ d)))"
  proof (cases "k < 117")
    case True
    then have "checkFixed b clientFixedLen = Inl (Err HsShort)"
      unfolding b_def by (intro checkFixed_client_short [OF ok])
    moreover have "int k < glen (?F @ d)" using True by (simp add: glen_def len)
    ultimately show ?thesis by (simp add: ParseClientMessage_def)
  next
    case False
    then have k: "117 \<le> k" by simp
    note parts = clientFixed_parts [OF ok k b_def]
    have "readAll \<lparr>sr_b = b, sr_off = 117, sr_budget = MaxStrings\<rparr> [''options'', ''username'', ''password'', ''peer info''] =
      (if int k < glen (?F @ d) then Inl (Err HsShort)
       else Inr (map wireCut ?ss, \<lparr>sr_b = b, sr_off = glen (?F @ d), sr_budget = MaxStrings - sum_list (map wireLen ?ss)\<rparr>))"
      unfolding d_def by (rule readAll_stream) (use k bud parts(1) in \<open>simp_all add: b_def d_def\<close>)
    then show ?thesis unfolding ParseClientMessage_readAll parts by (simp add: cutClient_def)
  qed
  then show ?thesis by (simp only: marshal b_def [symmetric] eq append_assoc)
qed

text \<open>
  Claim C16. A client's message is read back from a stream that delivers it byte by byte: from
  the first \<open>k\<close> bytes of the message and whatever follows it, the parser asks for more exactly as long as the
  message is not all there, and then gives the message (each string cut at its first NUL and at
  65534 bytes, as a C peer reads it) and its length, not touching what follows.
\<close>

theorem client_message_stream:
  assumes "clientSourceOk (cSource m)"
    and "wireLen (cOptions m) + wireLen (cUsername m) + wireLen (cPassword m) + wireLen (cPeerInfo m) \<le> MaxStrings"
  shows "ParseClientMessage (take k (ClientMessage_Marshal m @ rest)) =
    (if k < length (ClientMessage_Marshal m) then Inl (Err HsShort)
     else Inr (cutClient m, glen (ClientMessage_Marshal m)))"
  using assms by (rule ParseClientMessage_stream)

definition demoClient :: clientMessage where
  "demoClient = \<lparr>cSource = \<lparr>PreMaster = replicate 48 1, cRandom1 = replicate 32 2, cRandom2 = replicate 32 3\<rparr>,
     cOptions = ''V4'', cUsername = ''u'', cPassword = [], cPeerInfo = ''IV_PROTO=2''\<rparr>"

theorem client_message_stream_witness:
  "ParseClientMessage (take 4 (ClientMessage_Marshal demoClient @ [7])) = Inl (Err HsShort) \<and>
   ParseClientMessage (take 140 (ClientMessage_Marshal demoClient @ [7])) = Inl (Err HsShort) \<and>
   ParseClientMessage (take 142 (ClientMessage_Marshal demoClient @ [7])) = Inr (demoClient, 141)"
proof -
  have "clientSourceOk (cSource demoClient)" by code_simp
  moreover have "wireLen (cOptions demoClient) + wireLen (cUsername demoClient) + wireLen (cPassword demoClient) +
      wireLen (cPeerInfo demoClient) \<le> MaxStrings"
    by (simp add: demoClient_def wireLen_def wireCut_def cString_def NUL_def MaxStrings_def glen_def)
  ultimately have "ParseClientMessage (take k (ClientMessage_Marshal demoClient @ [7])) =
    (if k < length (ClientMessage_Marshal demoClient) then Inl (Err HsShort)
     else Inr (cutClient demoClient, glen (ClientMessage_Marshal demoClient)))" for k
    by (rule client_message_stream)
  moreover have "length (ClientMessage_Marshal demoClient) = 141" by code_simp
  moreover have "cutClient demoClient = demoClient"
    by (simp add: demoClient_def cutClient_def wireCut_def cString_def NUL_def char_of_def)
  ultimately show ?thesis by (simp add: glen_def del: take_append take_all)
qed

section \<open>The server's message\<close>

lemma stringBytes_Nil: "stringBytes [] = [0, 0]" "wireLen [] = 0" "wireCut [] = []"
  by (simp_all add: stringBytes_def wireLen_def wireCut_def cString_def)

text \<open>
  After the options a server's message may end at the boundary of each string: \<open>k\<close> bytes of the
  rest, which is two empty strings and the peer info.
\<close>

lemma serverStrings_stream:
  assumes pre: "glen pre \<le> int k" and b: "b = take k (pre @ stringBytes [] @ stringBytes [] @ stringBytes s @ post)"
    and bud: "wireLen s \<le> bud"
  shows "rbind (serverStrings \<lparr>sr_b = b, sr_off = glen pre, sr_budget = bud\<rparr> [n1, n2, n3] []) (\<lambda>(info, r). Inr (info, sr_off r)) =
    (if int k \<in> {glen pre, glen pre + 2, glen pre + 4} then Inr ([], int k)
     else if int k < glen pre + 4 + glen (stringBytes s) then Inl (Err HsShort)
     else Inr (wireCut s, glen pre + 4 + glen (stringBytes s)))"
proof -
  have nn: "0 \<le> bud" using bud wireLen_bounds(1) [of s] by linarith
  have len: "glen b = min (int k) (glen pre + 4 + glen (stringBytes s) + glen post)"
    by (simp add: b glen_def stringBytes_Nil)
  have ls: "2 \<le> glen (stringBytes s)" using wireLen_bounds(1) [of s] by (simp add: glen_stringBytes)
  have e1: "nextString \<lparr>sr_b = b, sr_off = glen pre, sr_budget = bud\<rparr> n1 =
      (if int k < glen pre + 2 then Inl (Err HsShort) else Inr ([], \<lparr>sr_b = b, sr_off = glen pre + 2, sr_budget = bud\<rparr>))"
    by (subst reader_step [OF refl pre, of _ "[]" "stringBytes [] @ stringBytes s @ post"])
      (use nn in \<open>simp_all add: b stringBytes_Nil\<close>)
  have e2: "glen pre + 2 \<le> int k \<Longrightarrow> nextString \<lparr>sr_b = b, sr_off = glen pre + 2, sr_budget = bud\<rparr> n2 =
      (if int k < glen pre + 4 then Inl (Err HsShort) else Inr ([], \<lparr>sr_b = b, sr_off = glen pre + 4, sr_budget = bud\<rparr>))"
    by (subst reader_step [of _ "pre @ stringBytes []" k _ "[]" "stringBytes s @ post"])
      (use nn in \<open>simp_all add: b stringBytes_Nil\<close>)
  have e3: "glen pre + 4 \<le> int k \<Longrightarrow> nextString \<lparr>sr_b = b, sr_off = glen pre + 4, sr_budget = bud\<rparr> n3 =
      (if int k < glen pre + 4 + glen (stringBytes s) then Inl (Err HsShort)
       else Inr (wireCut s, \<lparr>sr_b = b, sr_off = glen pre + 4 + glen (stringBytes s), sr_budget = bud - wireLen s\<rparr>))"
    by (subst reader_step [of _ "pre @ stringBytes [] @ stringBytes []" k _ s post])
      (use bud in \<open>simp_all add: b stringBytes_Nil\<close>)
  have "0 \<le> glen post" by simp
  then have ends: "glen pre = glen b \<longleftrightarrow> int k = glen pre" "glen pre + 2 = glen b \<longleftrightarrow> int k = glen pre + 2"
    "glen pre + 4 = glen b \<longleftrightarrow> int k = glen pre + 4"
    using len ls pre by (linarith | rule iffI)+
  consider "int k = glen pre" | "int k = glen pre + 1" | "int k = glen pre + 2" | "int k = glen pre + 3"
    | "int k = glen pre + 4" | "glen pre + 4 < int k"
    using pre by linarith
  then show ?thesis
    using ls by cases (simp_all add: ends e1 e2 e3)
qed

lemma rest_parsed:
  "rbind m (\<lambda>(info, r). Inr (f info, sr_off r)) =
     rbind (rbind m (\<lambda>(info, r). Inr (info, sr_off r))) (\<lambda>(info, n). Inr (f info, n))"
  by (cases m) auto

lemma cutServer_eq: "(cutServer m)\<lparr>sPeerInfo := info\<rparr> =
    \<lparr>sSource = \<lparr>sRandom1 = sRandom1 (sSource m), sRandom2 = sRandom2 (sSource m)\<rparr>,
     sOptions = wireCut (sOptions m), sPeerInfo = info\<rparr>"
  by (rule serverMessage.equality) (simp_all add: cutServer_def)

lemma ParseServerMessage_stream:
  assumes ok: "serverSourceOk (sSource m)" and bud: "wireLen (sOptions m) + wireLen (sPeerInfo m) \<le> MaxStrings"
    and a: "a = 71 + nat (wireLen (sOptions m))"
  shows "ParseServerMessage (take k (ServerMessage_Marshal m @ rest)) =
    (if k \<in> {a, a + 2, a + 4} then Inr ((cutServer m)\<lparr>sPeerInfo := []\<rparr>, int k)
     else if k < length (ServerMessage_Marshal m) then Inl (Err HsShort)
     else Inr (cutServer m, glen (ServerMessage_Marshal m)))"
proof -
  let ?F = "serverFixed (sSource m)" and ?o = "stringBytes (sOptions m)" and ?i = "stringBytes (sPeerInfo m)"
  let ?bud = "MaxStrings - wireLen (sOptions m)"
  define b where "b = take k (?F @ ?o @ stringBytes [] @ stringBytes [] @ ?i @ rest)"
  have nn: "0 \<le> wireLen (sOptions m)" "0 \<le> wireLen (sPeerInfo m)" by (rule wireLen_bounds)+
  have len: "length ?F = 69" using ok by (simp add: serverFixed_def serverSourceOk_def)
  have lo: "glen ?F + glen ?o = int a" using nn by (simp add: a glen_stringBytes) (simp add: glen_def len)
  have lm: "glen (ServerMessage_Marshal m) = int a + 4 + glen ?i"
    using lo by (simp add: ServerMessage_Marshal_eq stringBytes_Nil)
  have a69: "71 \<le> a" by (simp add: a)
  have "ParseServerMessage b = (if k \<in> {a, a + 2, a + 4} then Inr ((cutServer m)\<lparr>sPeerInfo := []\<rparr>, int k)
     else if int k < int a + 4 + glen ?i then Inl (Err HsShort) else Inr (cutServer m, int a + 4 + glen ?i))"
  proof (cases "k < 69")
    case True
    then have "checkFixed b serverFixedLen = Inl (Err HsShort)"
      unfolding b_def by (intro checkFixed_server_short [OF ok])
    moreover have "int k < int a + 4 + glen ?i" using True a69 by (simp add: glen_def)
    ultimately show ?thesis using True a69 by (simp add: ParseServerMessage_def)
  next
    case False
    then have k: "69 \<le> k" by simp
    note parts = serverFixed_parts [OF ok k b_def]
    have n: "nextString \<lparr>sr_b = b, sr_off = 69, sr_budget = MaxStrings\<rparr> nm =
        (if int k < int a then Inl (Err HsShort)
         else Inr (wireCut (sOptions m), \<lparr>sr_b = b, sr_off = glen (?F @ ?o), sr_budget = ?bud\<rparr>))" for nm
      using k bud nn parts(1) lo
      by (subst reader_step [of _ ?F k _ "sOptions m" "stringBytes [] @ stringBytes [] @ ?i @ rest"]) (auto simp: b_def)
    show ?thesis
    proof (cases "k < a")
      case True
      then have "int k < int a + 4 + glen ?i" by (simp add: glen_def)
      then show ?thesis using True by (simp add: ParseServerMessage_def parts n)
    next
      case False
      have s: "rbind (serverStrings \<lparr>sr_b = b, sr_off = glen (?F @ ?o), sr_budget = ?bud\<rparr> [n1, n2, n3] []) (\<lambda>(info, r). Inr (info, sr_off r)) =
        (if int k \<in> {glen (?F @ ?o), glen (?F @ ?o) + 2, glen (?F @ ?o) + 4} then Inr ([], int k)
         else if int k < glen (?F @ ?o) + 4 + glen ?i then Inl (Err HsShort)
         else Inr (wireCut (sPeerInfo m), glen (?F @ ?o) + 4 + glen ?i))" for n1 n2 n3
        by (rule serverStrings_stream) (use False lo bud in \<open>auto simp: b_def\<close>)
      let ?r = "\<lparr>sr_b = b, sr_off = glen (?F @ ?o), sr_budget = ?bud\<rparr>"
      have "ParseServerMessage b = rbind (serverStrings ?r [''username'', ''password'', ''peer info''] [])
          (\<lambda>(info, r). Inr ((cutServer m)\<lparr>sPeerInfo := info\<rparr>, sr_off r))"
        using False by (simp add: ParseServerMessage_def parts n cutServer_eq del: serverStrings.simps glen_simps)
      also note rest_parsed
      finally show ?thesis unfolding s using False lo by (simp add: cutServer_def)
    qed
  qed
  moreover have "take k (ServerMessage_Marshal m @ rest) = b" by (simp only: b_def ServerMessage_Marshal_eq append_assoc)
  moreover have "k < length (ServerMessage_Marshal m) \<longleftrightarrow> int k < int a + 4 + glen ?i"
    by (simp only: lm [symmetric]) (simp add: glen_def)
  ultimately show ?thesis by (simp only: lm)
qed

text \<open>
  Claim C17. A server's message is read back from the first \<open>k\<close> bytes of a stream: the parser
  asks for more while the message is not all there, except at the three boundaries after the
  options, where, as documented, the message may end and is taken without its peer info; from
  all of it the parser gives the message and its length, not touching what follows.
\<close>

theorem server_message_stream:
  assumes "serverSourceOk (sSource m)" and "wireLen (sOptions m) + wireLen (sPeerInfo m) \<le> MaxStrings"
    and "a = 71 + nat (wireLen (sOptions m))"
  shows "ParseServerMessage (take k (ServerMessage_Marshal m @ rest)) =
    (if k \<in> {a, a + 2, a + 4} then Inr ((cutServer m)\<lparr>sPeerInfo := []\<rparr>, int k)
     else if k < length (ServerMessage_Marshal m) then Inl (Err HsShort)
     else Inr (cutServer m, glen (ServerMessage_Marshal m)))"
  using assms by (rule ParseServerMessage_stream)

definition demoServer :: serverMessage where
  "demoServer = \<lparr>sSource = \<lparr>sRandom1 = replicate 32 2, sRandom2 = replicate 32 3\<rparr>, sOptions = ''V4'', sPeerInfo = ''I=1''\<rparr>"

theorem server_message_stream_witness:
  "ParseServerMessage (take 73 (ServerMessage_Marshal demoServer @ [7])) = Inl (Err HsShort) \<and>
   ParseServerMessage (take 74 (ServerMessage_Marshal demoServer @ [7])) = Inr (demoServer\<lparr>sPeerInfo := []\<rparr>, 74) \<and>
   ParseServerMessage (take 85 (ServerMessage_Marshal demoServer @ [7])) = Inr (demoServer, 84)"
proof -
  have "serverSourceOk (sSource demoServer)" by code_simp
  moreover have w: "wireLen (sOptions demoServer) = 3" "wireLen (sPeerInfo demoServer) = 4"
    by (simp_all add: demoServer_def wireLen_def wireCut_def cString_def NUL_def glen_def char_of_def)
  moreover have "wireLen (sOptions demoServer) + wireLen (sPeerInfo demoServer) \<le> MaxStrings"
    by (simp add: w MaxStrings_def)
  moreover have "74 = 71 + nat (wireLen (sOptions demoServer))" by (simp add: w)
  ultimately have "ParseServerMessage (take k (ServerMessage_Marshal demoServer @ [7])) =
    (if k \<in> {74, 74 + 2, 74 + 4} then Inr ((cutServer demoServer)\<lparr>sPeerInfo := []\<rparr>, int k)
     else if k < length (ServerMessage_Marshal demoServer) then Inl (Err HsShort)
     else Inr (cutServer demoServer, glen (ServerMessage_Marshal demoServer)))" for k
    by (intro server_message_stream) assumption+
  moreover have "length (ServerMessage_Marshal demoServer) = 84" by code_simp
  moreover have "cutServer demoServer = demoServer"
    by (simp add: demoServer_def cutServer_def wireCut_def cString_def NUL_def char_of_def)
  ultimately show ?thesis by (simp add: glen_def del: take_append take_all)
qed

section \<open>Arbitrary input\<close>

text \<open>
  The reader on any bytes: it does not panic, moves forward within the buffer, spends its
  budget as it goes, and asks for more only when the buffer is shorter than the budget allows.
\<close>

definition readerOk :: "int \<Rightarrow> stringReader \<Rightarrow> bool" where
  "readerOk lim r \<longleftrightarrow> 0 \<le> sr_off r \<and> sr_off r \<le> glen (sr_b r) \<and> 0 \<le> sr_budget r \<and> sr_off r + sr_budget r \<le> lim"

lemma nextString_cases:
  assumes r: "readerOk lim r"
  shows "(\<exists>s r'. nextString r name = Inr (s, r') \<and> readerOk (lim + 2) r' \<and> sr_b r' = sr_b r \<and> sr_off r + 2 \<le> sr_off r') \<or>
    (nextString r name = Inl (Err HsShort) \<and> glen (sr_b r) < lim + 2) \<or>
    (\<exists>e. nextString r name = Inl (Err e) \<and> e \<noteq> HsShort)"
proof (cases "glen (sr_b r) - sr_off r < 2")
  case True
  then show ?thesis using r by (simp add: nextString_def readerOk_def)
next
  case False
  have off: "0 \<le> sr_off r" "sr_off r \<le> glen (sr_b r)" using r by (simp_all add: readerOk_def)
  let ?d = "drop (nat (sr_off r)) (sr_b r)"
  have "2 \<le> length ?d" using False off by (simp add: glen_def)
  then obtain w where w: "getU16 ?d = (Inr w :: (hs_err, u16) res)" using getU16_total by blast
  have f: "gfrom (sr_b r) (sr_off r) = (Inr ?d :: (hs_err, bytes) res)" using off by (rule gfrom_ok)
  have n0: "0 \<le> uint w" by simp
  consider "w = 0" | "w \<noteq> 0" "uint w > sr_budget r" | "w \<noteq> 0" "uint w \<le> sr_budget r" "glen (sr_b r) - sr_off r - 2 < uint w"
    | "w \<noteq> 0" "uint w \<le> sr_budget r" "\<not> glen (sr_b r) - sr_off r - 2 < uint w"
    by linarith
  then show ?thesis
  proof cases
    case 1
    then show ?thesis using False r by (simp add: nextString_def f w readerOk_def)
  next
    case 2
    then show ?thesis using False by (simp add: nextString_def f w uint_0_iff)
  next
    case 3
    then show ?thesis using False r by (simp add: nextString_def f w uint_0_iff readerOk_def)
  next
    case 4
    have n: "0 < uint w" using 4(1) n0 by (simp add: less_le uint_0_iff)
    let ?s = "take (nat (uint w)) (drop (nat (sr_off r + 2)) (sr_b r))"
    have sl: "gslice (sr_b r) (sr_off r + 2) (sr_off r + 2 + uint w) = (Inr ?s :: (hs_err, bytes) res)"
      using off 4 n0 by (subst gslice_ok) auto
    have "nat (uint w) \<le> length (sr_b r) - nat (sr_off r + 2)" using off 4 n0 unfolding glen_def by linarith
    then have "length ?s = nat (uint w)" by simp
    then have len: "glen ?s = uint w" using n0 by (simp add: glen_def del: length_take)
    have z: "gidx ?s (uint w - 1) = (Inr (?s ! nat (uint w - 1)) :: (hs_err, u8) res)"
      using n by (intro gidx_ok) (unfold len, linarith+)
    have t: "gslice ?s 0 (uint w - 1) = (Inr (take (nat (uint w - 1)) ?s) :: (hs_err, bytes) res)"
      using n by (subst gslice_ok) (unfold len, simp_all)
    have nz: "uint w \<noteq> 0" using n by simp
    show ?thesis
    proof (cases "?s ! nat (uint w - 1) = 0")
      case True
      then have "nextString r name = Inr (cString (string_of (take (nat (uint w - 1)) ?s)),
          r\<lparr>sr_budget := sr_budget r - uint w, sr_off := sr_off r + (2 + uint w)\<rparr>)"
        using False 4 nz z by (intro nextString_ok [OF _ f w refl _ _ _ sl _ t]) simp_all
      then show ?thesis using r 4 n0 by (auto simp: readerOk_def)
    next
      case bad: False
      have "nextString r name = Inl (Err (NotTerminated name))"
        using False 4 nz by (intro nextString_unterminated [OF _ f w refl _ _ _ sl z bad]) simp_all
      then show ?thesis by simp
    qed
  qed
qed

definition reads :: "int \<Rightarrow> bytes \<Rightarrow> (hs_err, 'a \<times> stringReader) res \<Rightarrow> bool" where
  "reads lim b x \<longleftrightarrow> \<not> panics x \<and> (x = Inl (Err HsShort) \<longrightarrow> glen b < lim) \<and>
     (\<forall>a r. x = Inr (a, r) \<longrightarrow> readerOk lim r \<and> sr_b r = b)"

lemma reads_nextString: "readerOk lim r \<Longrightarrow> sr_b r = b \<Longrightarrow> reads (lim + 2) b (nextString r name)"
  using nextString_cases [of lim r name] unfolding reads_def by auto

lemma readerOk_mono: "readerOk lim r \<Longrightarrow> lim \<le> lim' \<Longrightarrow> readerOk lim' r"
  unfolding readerOk_def by auto

lemma reads_Inr: "readerOk lim r \<Longrightarrow> sr_b r = b \<Longrightarrow> reads lim b (Inr (a, r))"
  by (simp add: reads_def)

lemma reads_rbind:
  assumes "reads lim b m" "lim \<le> lim'" "\<And>a r. readerOk lim r \<Longrightarrow> sr_b r = b \<Longrightarrow> reads lim' b (f (a, r))"
  shows "reads lim' b (rbind m f)"
proof (cases m)
  case (Inl e)
  then show ?thesis using assms(1,2) by (auto simp: reads_def panics_def)
next
  case (Inr x)
  then show ?thesis using assms(1,3) by (cases x) (auto simp: reads_def)
qed

lemma reads_readAll: "readerOk lim r \<Longrightarrow> sr_b r = b \<Longrightarrow> reads (lim + 2 * int (length names)) b (readAll r names)"
proof (induction names arbitrary: r lim)
  case (Cons name names)
  have "reads (lim + 2 + 2 * int (length names)) b (rbind (readAll r' names) (\<lambda>(ss, r). Inr (s # ss, r)))"
    if "readerOk (lim + 2) r'" "sr_b r' = b" for s r'
    by (rule reads_rbind [OF Cons.IH [OF that]]) (auto intro: reads_Inr)
  then have "reads (lim + 2 + 2 * int (length names)) b (readAll r (name # names))"
    unfolding readAll.simps by (intro reads_rbind [OF reads_nextString [OF Cons.prems]]) auto
  then show ?case by (simp add: algebra_simps)
qed (simp add: reads_Inr)

lemma reads_serverStrings:
  "readerOk lim r \<Longrightarrow> sr_b r = b \<Longrightarrow> reads (lim + 2 * int (length names)) b (serverStrings r names info)"
proof (induction names arbitrary: r lim info)
  case (Cons name names)
  have stop: "reads (lim + 2 + 2 * int (length names)) b (Inr (info, r))"
    using Cons.prems by (intro reads_Inr) (auto elim: readerOk_mono)
  have "reads (lim + 2 + 2 * int (length names)) b (rbind (nextString r name)
      (\<lambda>(s, r). serverStrings r names (if names = [] then s else info)))"
    by (rule reads_rbind [OF reads_nextString [OF Cons.prems]]) (use Cons.IH in auto)
  then have "reads (lim + 2 + 2 * int (length names)) b (serverStrings r (name # names) info)"
    using stop by simp
  then show ?case by (simp add: algebra_simps)
qed (simp add: reads_Inr)

text \<open>The fixed part and the messages.\<close>

lemma checkFixed_cases:
  assumes "5 \<le> fixed"
  shows "(checkFixed b fixed = Inr () \<and> fixed \<le> glen b) \<or> (checkFixed b fixed = Inl (Err HsShort) \<and> glen b < fixed) \<or>
    (\<exists>km. checkFixed b fixed = Inl (Err (BadKeyMethod km)))"
proof (cases "glen b < 5")
  case True
  then show ?thesis using assms by (simp add: checkFixed_def)
next
  case False
  then show ?thesis by (simp add: checkFixed_def gidx_ok Let_def)
qed

definition consumes :: "int \<Rightarrow> bytes \<Rightarrow> (hs_err, 'a \<times> int) res \<Rightarrow> bool" where
  "consumes lim b x \<longleftrightarrow> \<not> panics x \<and> (x = Inl (Err HsShort) \<longrightarrow> glen b < lim) \<and>
     (\<forall>m n. x = Inr (m, n) \<longrightarrow> 0 \<le> n \<and> n \<le> glen b \<and> n \<le> lim)"

lemma consumes_rbind:
  assumes "reads lim b m"
  shows "consumes lim b (rbind m (\<lambda>(a, r). Inr (f a, sr_off r)))"
proof (cases m)
  case (Inl e)
  then show ?thesis using assms by (auto simp: reads_def consumes_def panics_def)
next
  case (Inr x)
  then show ?thesis using assms by (cases x) (auto simp: reads_def consumes_def readerOk_def)
qed

lemma consumes_client: "consumes MaxMessageLen b (ParseClientMessage b)"
proof -
  have "(5::int) \<le> clientFixedLen" by (simp add: hs_consts)
  from checkFixed_cases [OF this, of b] show ?thesis
  proof (elim disjE conjE exE)
    assume c: "checkFixed b clientFixedLen = Inr ()" "clientFixedLen \<le> glen b"
    obtain pm r1 r2 where a: "copyArray b 5 48 = (Inr pm :: (hs_err, bytes) res)"
        "copyArray b 53 32 = (Inr r1 :: (hs_err, bytes) res)" "copyArray b 85 32 = (Inr r2 :: (hs_err, bytes) res)"
      using c(2) by (simp add: copyArray_ok hs_consts)
    have "readerOk (117 + MaxStrings) \<lparr>sr_b = b, sr_off = 117, sr_budget = MaxStrings\<rparr>"
      using c(2) by (simp add: readerOk_def hs_consts)
    from reads_readAll [OF this, of b "[''options'', ''username'', ''password'', ''peer info'']"]
    have "reads MaxMessageLen b (readAll \<lparr>sr_b = b, sr_off = 117, sr_budget = MaxStrings\<rparr> [''options'', ''username'', ''password'', ''peer info''])"
      by (simp add: hs_consts del: readAll.simps)
    then show ?thesis unfolding ParseClientMessage_readAll c(1) a rbind_Inr by (rule consumes_rbind)
  next
    assume "checkFixed b clientFixedLen = Inl (Err HsShort)" "glen b < clientFixedLen"
    then show ?thesis by (simp add: ParseClientMessage_def consumes_def hs_consts)
  next
    fix km assume "checkFixed b clientFixedLen = Inl (Err (BadKeyMethod km))"
    then show ?thesis by (simp add: ParseClientMessage_def consumes_def)
  qed
qed

lemma rbind_pair:
  "rbind (rbind m (\<lambda>(a, r). rbind (f r) (\<lambda>(b, r). Inr ((a, b), r)))) (\<lambda>(x, r). Inr (g x, sr_off r)) =
     rbind m (\<lambda>(a, r). rbind (f r) (\<lambda>(b, r). Inr (g (a, b), sr_off r)))"
  by (simp add: rbind_def split: sum.split prod.split)

lemma consumes_server: "consumes MaxMessageLen b (ParseServerMessage b)"
proof -
  have "(5::int) \<le> serverFixedLen" by (simp add: hs_consts)
  from checkFixed_cases [OF this, of b] show ?thesis
  proof (elim disjE conjE exE)
    assume c: "checkFixed b serverFixedLen = Inr ()" "serverFixedLen \<le> glen b"
    obtain r1 r2 where a: "copyArray b 5 32 = (Inr r1 :: (hs_err, bytes) res)" "copyArray b 37 32 = (Inr r2 :: (hs_err, bytes) res)"
      using c(2) by (simp add: copyArray_ok hs_consts)
    define lim where "lim = 69 + MaxStrings + 8"
    have "readerOk (69 + MaxStrings) \<lparr>sr_b = b, sr_off = 69, sr_budget = MaxStrings\<rparr>"
      using c(2) by (simp add: readerOk_def hs_consts)
    from reads_nextString [OF this] have n:
      "reads (69 + MaxStrings + 2) b (nextString \<lparr>sr_b = b, sr_off = 69, sr_budget = MaxStrings\<rparr> ''options'')" by simp
    have "reads lim b (serverStrings r [''username'', ''password'', ''peer info''] [])"
      if "readerOk (69 + MaxStrings + 2) r" "sr_b r = b" for r
      using reads_serverStrings [OF that, of "[''username'', ''password'', ''peer info'']" "[]"] by (simp add: lim_def del: serverStrings.simps)
    then have "reads lim b (rbind (nextString \<lparr>sr_b = b, sr_off = 69, sr_budget = MaxStrings\<rparr> ''options'')
        (\<lambda>(opt, r). rbind (serverStrings r [''username'', ''password'', ''peer info''] []) (\<lambda>(info, r). Inr ((opt, info), r))))"
      by (intro reads_rbind [OF n]) (auto simp: lim_def intro!: reads_rbind [of lim] reads_Inr simp del: serverStrings.simps)
    from consumes_rbind [OF this, of "\<lambda>(opt, info). \<lparr>sSource = \<lparr>sRandom1 = r1, sRandom2 = r2\<rparr>, sOptions = opt, sPeerInfo = info\<rparr>"]
    have "consumes lim b (ParseServerMessage b)"
      unfolding ParseServerMessage_def c(1) a rbind_Inr by (simp add: rbind_pair del: serverStrings.simps)
    then show ?thesis by (auto simp: consumes_def lim_def hs_consts)
  next
    assume "checkFixed b serverFixedLen = Inl (Err HsShort)" "glen b < serverFixedLen"
    then show ?thesis by (simp add: ParseServerMessage_def consumes_def hs_consts)
  next
    fix km assume "checkFixed b serverFixedLen = Inl (Err (BadKeyMethod km))"
    then show ?thesis by (simp add: ParseServerMessage_def consumes_def)
  qed
qed

text \<open>
  Claim C18. On arbitrary input neither parser panics; a result consumes no more than the input
  and no more than \<open>MaxMessageLen\<close>; and, as the constant's comment promises, an input of at least
  \<open>MaxMessageLen\<close> bytes is never answered with \<open>ErrShort\<close>, so a reader that buffers that much is not
  kept waiting.
\<close>

theorem key_method_parsers_bounded:
  "consumes MaxMessageLen b (ParseClientMessage b) \<and> consumes MaxMessageLen b (ParseServerMessage b)"
  by (simp add: consumes_client consumes_server)

section \<open>The pseudo-random function\<close>

text \<open>
  RFC 2246, section 5: \<open>A(0) = seed\<close>, \<open>A(i) = HMAC(secret, A(i-1))\<close>, and \<open>P_hash\<close> is the
  concatenation of \<open>HMAC(secret, A(i) + seed)\<close> for \<open>i = 1, 2, ...\<close>, cut to the length wanted; the
  PRF is the exclusive or of \<open>P_MD5\<close> under the first and \<open>P_SHA1\<close> under the second half of the secret,
  halves that share the middle byte when the length is odd.
\<close>

primrec rfcA :: "(bytes \<Rightarrow> bytes) \<Rightarrow> bytes \<Rightarrow> nat \<Rightarrow> bytes" where
  "rfcA mac seed 0 = seed"
| "rfcA mac seed (Suc i) = mac (rfcA mac seed i)"

definition P_hash :: "(bytes \<Rightarrow> bytes) \<Rightarrow> bytes \<Rightarrow> nat \<Rightarrow> bytes" where
  "P_hash mac seed n = take n (concat (map (\<lambda>i. mac (rfcA mac seed i @ seed)) [1..<Suc n]))"

definition PRF :: "hmac_fn \<Rightarrow> bytes \<Rightarrow> bytes \<Rightarrow> nat \<Rightarrow> bytes" where
  "PRF hmac secret seed n =
    xorBytes (P_hash (hmac ''MD5'' (take ((length secret + 1) div 2) secret)) seed n)
      (P_hash (hmac ''SHA1'' (drop (length secret div 2) secret)) seed n)"

text \<open>The blocks from \<open>A(i) = a\<close> on.\<close>

primrec blocks :: "(bytes \<Rightarrow> bytes) \<Rightarrow> bytes \<Rightarrow> bytes \<Rightarrow> nat \<Rightarrow> bytes" where
  "blocks mac seed a 0 = []"
| "blocks mac seed a (Suc n) = mac (a @ seed) @ blocks mac seed (mac a) n"

lemma blocks_concat:
  "blocks mac seed (rfcA mac seed i) n = concat (map (\<lambda>i. mac (rfcA mac seed i @ seed)) [i..<i + n])"
proof (induction n arbitrary: i)
  case (Suc n)
  have "[i..<i + Suc n] = i # [Suc i..<Suc i + n]" by (simp add: upt_conv_Cons)
  then show ?case using Suc.IH [of "Suc i"] by simp
qed simp

lemma P_hash_blocks: "P_hash mac seed n = take n (blocks mac seed (mac seed) n)"
  using blocks_concat [of mac seed 1 n] by (simp add: P_hash_def)

lemma length_blocks: "(\<And>x. length (mac x) = L) \<Longrightarrow> length (blocks mac seed a n) = n * L"
  by (induction n arbitrary: a) auto

lemma blocks_longer:
  assumes L: "\<And>x. length (mac x) = L" "0 < L"
  shows "k \<le> n \<Longrightarrow> n \<le> m \<Longrightarrow> take k (blocks mac seed a m) = take k (blocks mac seed a n)"
proof (induction n arbitrary: a k m)
  case (Suc n)
  then obtain m' where m: "m = Suc m'" "n \<le> m'" by (cases m) auto
  have "k - L \<le> n" using Suc.prems(1) L(2) by linarith
  then show ?case using Suc.IH [of "k - L" m'] m by (simp add: L(1))
qed simp

definition combine :: "bool \<Rightarrow> bytes \<Rightarrow> bytes \<Rightarrow> bytes" where
  "combine dx old new = (if dx then xorBytes old new else new)"

lemma combine_append:
  assumes "length o1 = length w1"
  shows "combine dx (o1 @ o2) (w1 @ w2) = combine dx o1 w1 @ combine dx o2 w2"
  using assms by (simp add: combine_def xorBytes_def)

lemma pHashLoop_blocks:
  assumes L: "\<And>x. length (mac x) = L" "0 < L"
  shows "pHashLoop mac a seed dx pre out = pre @ combine dx out (take (length out) (blocks mac seed a (length out)))"
proof (induction "length out" arbitrary: a pre out rule: less_induct)
  case less
  let ?n = "min (length out) L"
  show ?case
  proof (cases "out = []")
    case True
    then show ?thesis by (subst pHashLoop.simps) (simp add: combine_def xorBytes_def)
  next
    case False
    then obtain k where k: "length out = Suc k" by (metis length_0_conv not0_implies_Suc)
    have n: "0 < ?n" using False L(2) by simp
    have "pHashLoop mac a seed dx pre out =
        pHashLoop mac (mac a) seed dx (pre @ combine dx (take ?n out) (take ?n (mac (a @ seed)))) (drop ?n out)"
      using False n by (subst pHashLoop.simps) (simp add: L(1) Let_def combine_def del: min_less_iff_conj)
    also have "\<dots> = pre @ combine dx (take ?n out) (take ?n (mac (a @ seed))) @
        combine dx (drop ?n out) (take (length out - ?n) (blocks mac seed (mac a) (length out - ?n)))"
      using less [of "drop ?n out"] n False by simp
    also have "take (length out - ?n) (blocks mac seed (mac a) (length out - ?n)) = take (length out - ?n) (blocks mac seed (mac a) k)"
      using n k by (intro blocks_longer [OF L, symmetric]) auto
    also have "combine dx (take ?n out) (take ?n (mac (a @ seed))) @ combine dx (drop ?n out) (take (length out - ?n) (blocks mac seed (mac a) k)) =
        combine dx out (take ?n (mac (a @ seed)) @ take (length out - ?n) (blocks mac seed (mac a) k))"
      using combine_append [of "take ?n out" "take ?n (mac (a @ seed))" dx "drop ?n out"] by (simp add: L(1))
    also have "take ?n (mac (a @ seed)) @ take (length out - ?n) (blocks mac seed (mac a) k) = take (length out) (blocks mac seed a (length out))"
      unfolding k by (simp add: L(1) min_def)
    finally show ?thesis .
  qed
qed

lemma length_P_hash: "(\<And>x. length (mac x) = L) \<Longrightarrow> 0 < L \<Longrightarrow> length (P_hash mac seed n) = n"
  by (simp add: P_hash_blocks length_blocks)

lemma pHash_eq:
  assumes "\<And>x. length (mac x) = L" "0 < L"
  shows "pHash mac seed out dx = combine dx out (P_hash mac seed (length out))"
  by (simp add: pHash_def pHashLoop_blocks [OF assms] P_hash_blocks)

lemma TLS1PRF_eq:
  assumes md5: "\<And>k x. length (hmac ''MD5'' k x) = 16" and sha1: "\<And>k x. length (hmac ''SHA1'' k x) = 20"
  shows "TLS1PRF hmac secret labelAndSeed out = PRF hmac secret labelAndSeed (length out)"
proof -
  have half: "length secret - (length secret + 1) div 2 = length secret div 2" by presburger
  have m: "pHash (hmac ''MD5'' k) s w dx = combine dx w (P_hash (hmac ''MD5'' k) s (length w))" for k s w dx
    by (rule pHash_eq [OF md5]) simp
  have h: "pHash (hmac ''SHA1'' k) s w dx = combine dx w (P_hash (hmac ''SHA1'' k) s (length w))" for k s w dx
    by (rule pHash_eq [OF sha1]) simp
  have l: "length (P_hash (hmac ''MD5'' k) s n) = n" for k s n
    by (rule length_P_hash [OF md5]) simp
  show ?thesis by (simp only: TLS1PRF_def Let_def m h half PRF_def) (simp add: combine_def l)
qed

lemma length_PRF:
  assumes md5: "\<And>k x. length (hmac ''MD5'' k x) = 16" and sha1: "\<And>k x. length (hmac ''SHA1'' k x) = 20"
  shows "length (PRF hmac secret seed n) = n"
  by (simp add: PRF_def xorBytes_def length_P_hash [OF md5] length_P_hash [OF sha1])

definition key2Parts :: "key2 \<Rightarrow> bytes list" where
  "key2Parts k = [Cipher (fst k), HMAC (fst k), Cipher (snd k), HMAC (snd k)]"

lemma key2Parts_key2From:
  assumes "length b = 256"
  shows "concat (key2Parts (key2From b)) = b" "map length (key2Parts (key2From b)) = [64, 64, 64, 64]"
  using assms by (simp_all add: key2Parts_def key2From_def list_eq_iff_nth_eq nth_append)

text \<open>
  Claim C19. \<open>TLS1PRF\<close> writes the PRF of RFC 2246 whatever the output buffer held, and the keys
  of a session are, in the order cipher, HMAC, cipher, HMAC and 64 bytes each, the 256 bytes
  that OpenVPN's two applications of it give. The keyed hashes need only have their lengths.
\<close>

theorem DeriveKey2PRF_rfc2246:
  assumes md5: "\<And>k x. length (hmac ''MD5'' k x) = 16" and sha1: "\<And>k x. length (hmac ''SHA1'' k x) = 20"
  shows "TLS1PRF hmac secret labelAndSeed out = PRF hmac secret labelAndSeed (length out) \<and>
    concat (key2Parts (DeriveKey2PRF hmac c s csid ssid)) =
        PRF hmac (PRF hmac (PreMaster c) (bytes_of ''OpenVPN master secret'' @ cRandom1 c @ sRandom1 s) 48)
          (bytes_of ''OpenVPN key expansion'' @ cRandom2 c @ sRandom2 s @ csid @ ssid) 256 \<and>
    map length (key2Parts (DeriveKey2PRF hmac c s csid ssid)) = [64, 64, 64, 64]"
proof -
  define blk where "blk = PRF hmac (PRF hmac (PreMaster c) (bytes_of ''OpenVPN master secret'' @ cRandom1 c @ sRandom1 s) 48)
          (bytes_of ''OpenVPN key expansion'' @ cRandom2 c @ sRandom2 s @ csid @ ssid) 256"
  have len: "length blk = 256" unfolding blk_def by (rule length_PRF [OF md5 sha1])
  have "DeriveKey2PRF hmac c s csid ssid = key2From blk"
    by (simp add: DeriveKey2PRF_def Let_def TLS1PRF_eq [OF md5 sha1] blk_def masterLabel_def expansionLabel_def)
  then show ?thesis
    using TLS1PRF_eq [OF md5 sha1] key2Parts_key2From [OF len] by (simp add: blk_def)
qed

definition demoHmac :: hmac_fn where
  "demoHmac name k x = replicate (if name = ''MD5'' then 16 else 20) (sum_list k + 2 * sum_list x + of_nat (length x))"

theorem DeriveKey2PRF_rfc2246_witness:
  "TLS1PRF demoHmac [1, 2, 3] [4, 5] (replicate 21 9) = PRF demoHmac [1, 2, 3] [4, 5] 21 \<and>
   TLS1PRF demoHmac [1, 2, 3] [4, 5] (replicate 21 9) = replicate 16 18 @ [146, 146, 146, 146, 210] \<and>
   map length (key2Parts (DeriveKey2PRF demoHmac (cSource demoClient) (sSource demoServer) (replicate 8 1) (replicate 8 2))) = [64, 64, 64, 64]"
proof -
  have "length (demoHmac ''MD5'' k x) = 16" "length (demoHmac ''SHA1'' k x) = 20" for k x
    by (simp_all add: demoHmac_def)
  note rfc = DeriveKey2PRF_rfc2246 [of demoHmac, OF this]
  have "length (replicate 21 (9 :: u8)) = 21" by simp
  moreover have "TLS1PRF demoHmac [1, 2, 3] [4, 5] (replicate 21 9) = replicate 16 18 @ [146, 146, 146, 146, 210]" by code_simp
  ultimately show ?thesis
    using rfc [of "[1, 2, 3]" "[4, 5]" "replicate 21 9" "cSource demoClient" "sSource demoServer" "replicate 8 1" "replicate 8 2"]
    by (simp only: simp_thms)
qed

end
