(* ===== verification/Replay.thy ===== *)
theory Replay
  imports Prelude
begin

text \<open>
  The replay window of the data channel (\<open>replayWindow\<close> in
  \<open>core/proxy/openvpn/ovpn/datachan/datachan.go\<close>): a ring of 64-bit words over the last
  \<open>size\<close> packet ids. It is shown to refine the set of the ids accepted so far: an id is
  accepted exactly when it is not 0, was not accepted before, and is not \<open>size\<close> or more behind
  the highest id accepted. The interface of a replay filter is a locale, which gives the
  property its users rely on: no id is accepted twice.
\<close>

section \<open>The window\<close>

record replayWindow =
  w_size :: int
  w_top :: u32
  w_bits :: "u64 list"

definition init_window :: "int \<Rightarrow> replayWindow" where
  "init_window n = \<lparr>w_size = n, w_top = 0, w_bits = replicate (nat ((n + 63) div 64)) 0\<rparr>"

definition slot :: "u64 list \<Rightarrow> u32 \<Rightarrow> nat \<times> u64" where
  "slot bits pid =
    (let i = unat (pid mod of_nat (length bits * 64)) in (i div 64, push_bit (i mod 64) 1))"

text \<open>\<open>check\<close>: whether a packet id would be accepted (the source returns \<open>ErrReplay\<close> or nil).\<close>

definition window_check :: "replayWindow \<Rightarrow> u32 \<Rightarrow> bool" where
  "window_check w pid =
    (if pid = 0 then False
     else if pid > w_top w then True
     else if uint (w_top w - pid) \<ge> w_size w then False
     else let (i, m) = slot (w_bits w) pid in (w_bits w ! i) AND m = 0)"

fun clearSlots :: "u64 list \<Rightarrow> u32 list \<Rightarrow> u64 list" where
  "clearSlots bits [] = bits"
| "clearSlots bits (p # ps) =
    (let (j, m) = slot bits p in clearSlots (bits[j := (bits ! j) AND NOT m]) ps)"

definition window_accept :: "replayWindow \<Rightarrow> u32 \<Rightarrow> bool \<times> replayWindow" where
  "window_accept w pid =
    (if \<not> window_check w pid then (False, w)
     else
     let w = (if pid > w_top w then
                let d = unat (pid - w_top w);
                    bits = (if d \<ge> length (w_bits w) * 64 then replicate (length (w_bits w)) 0
                            else clearSlots (w_bits w) (map (\<lambda>i. w_top w + of_nat i) [1..<Suc d]))
                in w\<lparr>w_bits := bits, w_top := pid\<rparr>
              else w);
         (i, m) = slot (w_bits w) pid
     in (True, w\<lparr>w_bits := (w_bits w)[i := (w_bits w ! i) OR m]\<rparr>))"

section \<open>The ring of words as a ring of bits\<close>

definition bitAt :: "u64 list \<Rightarrow> nat \<Rightarrow> bool" where
  "bitAt bits i \<longleftrightarrow> bit (bits ! (i div 64)) (i mod 64)"

definition idx :: "u64 list \<Rightarrow> u32 \<Rightarrow> nat" where
  "idx bits pid = unat pid mod (length bits * 64)"

lemma slot_eq:
  assumes "0 < length bits" "length bits \<le> 1024"
  shows "slot bits pid = (idx bits pid div 64, 2 ^ (idx bits pid mod 64))"
proof -
  have "length bits * 64 < 2 ^ 32" using assms by simp
  then have "unat (of_nat (length bits * 64) :: u32) = length bits * 64"
    by (simp only: unat_of_nat len_of_numeral_defs) simp
  then have "unat (pid mod of_nat (length bits * 64)) = idx bits pid"
    by (simp add: unat_mod idx_def)
  then show ?thesis by (simp add: slot_def Let_def)
qed

lemma idx_div:
  assumes "0 < length bits"
  shows "idx bits pid div 64 < length bits"
proof -
  have "idx bits pid < length bits * 64" using assms by (simp add: idx_def)
  then show ?thesis by (simp add: less_mult_imp_div_less)
qed

lemma bit_mask64: "n < 64 \<Longrightarrow> bit (2 ^ n :: u64) k \<longleftrightarrow> k = n"
  by (auto simp: bit_simps)

lemma and_mask64: "n < 64 \<Longrightarrow> (v :: u64) AND 2 ^ n = 0 \<longleftrightarrow> \<not> bit v n"
proof -
  assume n: "n < 64"
  show ?thesis
  proof
    assume "v AND 2 ^ n = 0"
    then have "\<not> bit (v AND 2 ^ n) n" by simp
    then show "\<not> bit v n" using n by (simp add: bit_and_iff bit_mask64)
  next
    assume "\<not> bit v n"
    then show "v AND 2 ^ n = 0" using n by (intro bit_word_eqI) (auto simp: bit_and_iff bit_mask64)
  qed
qed

text \<open>Reading, setting and clearing the bit of an id, seen as operations on \<open>bitAt\<close>.\<close>

lemma check_bit:
  assumes "0 < length bits" "length bits \<le> 1024"
  shows "(let (i, m) = slot bits pid in (bits ! i) AND m = 0) \<longleftrightarrow> \<not> bitAt bits (idx bits pid)"
  using assms by (simp add: slot_eq and_mask64 bitAt_def)

lemma div_mod_eq_iff: "(a::nat) div k = b div k \<and> a mod k = b mod k \<longleftrightarrow> a = b"
  by (metis div_mult_mod_eq)

lemma bitAt_set:
  assumes "0 < length bits" "length bits \<le> 1024" "i < length bits * 64"
  shows "bitAt (let (j, m) = slot bits pid in bits[j := (bits ! j) OR m]) i \<longleftrightarrow> i = idx bits pid \<or> bitAt bits i"
proof -
  let ?k = "idx bits pid"
  have k: "?k div 64 < length bits" using assms by (intro idx_div)
  show ?thesis
    using assms k div_mod_eq_iff [of i 64 ?k]
    by (cases "i div 64 = ?k div 64") (auto simp: slot_eq bitAt_def bit_or_iff bit_mask64)
qed

lemma bitAt_clear:
  assumes "0 < length bits" "length bits \<le> 1024" "i < length bits * 64"
  shows "bitAt (let (j, m) = slot bits pid in bits[j := (bits ! j) AND NOT m]) i \<longleftrightarrow> i \<noteq> idx bits pid \<and> bitAt bits i"
proof -
  let ?k = "idx bits pid"
  have k: "?k div 64 < length bits" using assms by (intro idx_div)
  show ?thesis
    using assms k div_mod_eq_iff [of i 64 ?k]
    by (cases "i div 64 = ?k div 64")
       (auto simp: slot_eq bitAt_def bit_and_iff bit_not_iff bit_mask64 dest: bit_imp_le_length)
qed

lemma clearSlots_spec:
  assumes "0 < length bits" "length bits \<le> 1024"
  shows "length (clearSlots bits ps) = length bits \<and>
     (\<forall>i < length bits * 64. bitAt (clearSlots bits ps) i \<longleftrightarrow> bitAt bits i \<and> (\<forall>p \<in> set ps. i \<noteq> idx bits p))"
  using assms
proof (induction bits ps rule: clearSlots.induct)
  case (2 bits p ps)
  let ?b = "let (j, m) = slot bits p in bits[j := (bits ! j) AND NOT m]"
  have eq: "clearSlots bits (p # ps) = clearSlots ?b ps" by (simp add: case_prod_unfold Let_def)
  have len: "length ?b = length bits" by (simp add: case_prod_unfold Let_def)
  have ix: "idx ?b q = idx bits q" for q unfolding idx_def len ..
  obtain j m where jm: "slot bits p = (j, m)" by fastforce
  have "length (clearSlots ?b ps) = length ?b \<and>
     (\<forall>i < length ?b * 64. bitAt (clearSlots ?b ps) i \<longleftrightarrow> bitAt ?b i \<and> (\<forall>p \<in> set ps. i \<noteq> idx ?b p))"
    using "2.IH" [OF refl jm [symmetric]] "2.prems" len by (simp add: jm)
  then show ?case unfolding eq len ix using bitAt_clear [OF "2.prems"] by auto
qed simp

section \<open>The window refines a set of ids\<close>

text \<open>
  A window that has accepted the ids \<open>S\<close>: its top is the highest of them, and the bit of an
  id that is at most a whole ring behind the top says whether it is in \<open>S\<close>.
\<close>

definition ring_size :: "replayWindow \<Rightarrow> nat" where
  "ring_size w = length (w_bits w) * 64"

definition window_of :: "u32 set \<Rightarrow> replayWindow \<Rightarrow> bool" where
  "window_of S w \<longleftrightarrow> 1 \<le> w_size w \<and> w_size w \<le> 65536 \<and>
     length (w_bits w) = nat ((w_size w + 63) div 64) \<and> 0 \<notin> S \<and>
     (\<forall>p \<in> S. p \<le> w_top w) \<and> (w_top w \<noteq> 0 \<longrightarrow> w_top w \<in> S) \<and>
     (\<forall>p. p \<noteq> 0 \<longrightarrow> p \<le> w_top w \<longrightarrow> unat (w_top w) < unat p + ring_size w \<longrightarrow>
        (bitAt (w_bits w) (idx (w_bits w) p) \<longleftrightarrow> p \<in> S))"

text \<open>The specification of the filter on the set: which ids are fresh.\<close>

definition fresh_id :: "int \<Rightarrow> u32 set \<Rightarrow> u32 \<Rightarrow> bool" where
  "fresh_id n S p \<longleftrightarrow> p \<noteq> 0 \<and> p \<notin> S \<and> (\<forall>q \<in> S. uint q - uint p < n)"

lemma window_of_init:
  assumes "1 \<le> n" "n \<le> 65536"
  shows "window_of {} (init_window n)"
proof -
  have "p = 0" if "p \<le> (0::u32)" for p using that by simp
  then show ?thesis using assms by (auto simp: window_of_def init_window_def)
qed

lemma window_ofD:
  assumes "window_of S w"
  shows "1 \<le> w_size w" "w_size w \<le> 65536" "length (w_bits w) = nat ((w_size w + 63) div 64)" "0 \<notin> S"
    "\<forall>p \<in> S. p \<le> w_top w" "w_top w \<noteq> 0 \<longrightarrow> w_top w \<in> S"
  using assms unfolding window_of_def by blast+

lemma window_ofI:
  assumes "window_of S w" "length bits = length (w_bits w)" "p \<noteq> 0" "p \<le> hi" "hi \<in> insert p S"
    and "\<And>q. q \<in> S \<Longrightarrow> q \<le> hi"
    and "\<And>q. q \<noteq> 0 \<Longrightarrow> q \<le> hi \<Longrightarrow> unat hi < unat q + ring_size w \<Longrightarrow> (bitAt bits (idx bits q) \<longleftrightarrow> q \<in> insert p S)"
  shows "window_of (insert p S) (w\<lparr>w_bits := bits, w_top := hi\<rparr>)"
  unfolding window_of_def ring_size_def
  using window_ofD(1-4) [OF assms(1)] assms(2-6) assms(7) [unfolded ring_size_def] by simp

lemma window_of_bounds:
  assumes "window_of S w"
  shows "0 < length (w_bits w)" "length (w_bits w) \<le> 1024" "w_size w \<le> int (ring_size w)" "0 < ring_size w"
proof -
  define k where "k = (w_size w + 63) div 64"
  have n: "1 \<le> w_size w" "w_size w \<le> 65536" and len: "length (w_bits w) = nat k"
    using assms by (auto simp: window_of_def k_def)
  have "k * 64 + (w_size w + 63) mod 64 = w_size w + 63" unfolding k_def by (rule div_mult_mod_eq)
  moreover have "0 \<le> (w_size w + 63) mod 64" "(w_size w + 63) mod 64 < 64" by simp_all
  ultimately have "1 \<le> k" "k \<le> 1024" "w_size w \<le> k * 64" using n by linarith+
  with len show "0 < length (w_bits w)" "length (w_bits w) \<le> 1024" "w_size w \<le> int (ring_size w)" "0 < ring_size w"
    by (auto simp: ring_size_def)
qed

lemma uint_diff: "(b::u32) \<le> a \<Longrightarrow> uint (a - b) = uint a - uint b"
  by (rule iffD1 [OF uint_minus_simple_alt])

lemma fresh_above:
  assumes "window_of S w" "p > w_top w"
  shows "fresh_id (w_size w) S p"
proof -
  have "p \<noteq> 0" using assms(2) by (metis word_not_simps(1))
  moreover have "p \<notin> S" using assms by (auto simp: window_of_def)
  moreover have "uint q - uint p < w_size w" if "q \<in> S" for q
  proof -
    have "q \<le> w_top w" using assms that by (auto simp: window_of_def)
    then have "uint q < uint p" using assms(2) by (metis le_less_trans word_less_def)
    then show ?thesis using assms(1) by (auto simp: window_of_def)
  qed
  ultimately show ?thesis by (simp add: fresh_id_def)
qed

lemma window_check_eq:
  assumes w: "window_of S w"
  shows "window_check w p \<longleftrightarrow> fresh_id (w_size w) S p"
proof (cases "p = 0 \<or> p > w_top w")
  case True
  then show ?thesis using fresh_above [OF w] by (auto simp: window_check_def fresh_id_def)
next
  case False
  then have p: "p \<noteq> 0" "p \<le> w_top w" by auto
  then have "w_top w \<noteq> 0" by auto
  then have top: "w_top w \<in> S" using w by (auto simp: window_of_def)
  have d: "uint (w_top w - p) = uint (w_top w) - uint p" by (rule uint_diff [OF p(2)])
  have old: "(\<forall>q \<in> S. uint q - uint p < w_size w) \<longleftrightarrow> uint (w_top w) - uint p < w_size w"
  proof -
    have "uint q \<le> uint (w_top w)" if "q \<in> S" for q using w that by (auto simp: window_of_def word_le_def)
    then show ?thesis using top by fastforce
  qed
  show ?thesis
  proof (cases "uint (w_top w - p) \<ge> w_size w")
    case True
    then show ?thesis using p old d by (auto simp: window_check_def fresh_id_def)
  next
    case False
    then have "int (unat (w_top w)) < int (unat p) + int (ring_size w)"
      using d window_of_bounds(3) [OF w] by simp
    then have "unat (w_top w) < unat p + ring_size w" by linarith
    then have "bitAt (w_bits w) (idx (w_bits w) p) \<longleftrightarrow> p \<in> S"
      using w p by (auto simp: window_of_def)
    then show ?thesis using p old d False check_bit [OF window_of_bounds(1,2) [OF w]]
      by (auto simp: window_check_def fresh_id_def)
  qed
qed

text \<open>Moving the top up: the slots of the ids that come into the ring are cleared.\<close>

definition raised :: "replayWindow \<Rightarrow> u32 \<Rightarrow> u64 list" where
  "raised w pid =
    (let d = unat (pid - w_top w)
     in if d \<ge> length (w_bits w) * 64 then replicate (length (w_bits w)) 0
        else clearSlots (w_bits w) (map (\<lambda>i. w_top w + of_nat i) [1..<Suc d]))"

lemma bitAt_zero: "i < n * 64 \<Longrightarrow> \<not> bitAt (replicate n 0) i"
  by (simp add: bitAt_def less_mult_imp_div_less)

lemma unat_diff: "(b::u32) \<le> a \<Longrightarrow> unat (a - b) = unat a - unat b"
  by (rule unat_sub)

lemma idx_inj:
  assumes "idx bits p = idx bits q" "unat p < unat q + length bits * 64" "q \<le> p"
  shows "p = q"
proof -
  have le: "unat q \<le> unat p" using assms(3) by (simp add: word_le_nat_alt)
  have "length bits * 64 dvd unat p - unat q"
    using assms(1) mod_eq_dvd_iff_nat [OF le, of "length bits * 64"] by (simp add: idx_def)
  moreover have "unat p - unat q < length bits * 64" using assms(2) le by simp
  ultimately have "unat p - unat q = 0" by (meson nat_dvd_not_less neq0_conv)
  with le have "unat p = unat q" by simp
  then show ?thesis by (simp add: word_unat_eq_iff)
qed

lemma raised_spec:
  assumes w: "window_of S w" and p: "p > w_top w"
  shows "length (raised w p) = length (w_bits w) \<and>
     (\<forall>q. q \<noteq> 0 \<longrightarrow> q \<le> p \<longrightarrow> unat p < unat q + ring_size w \<longrightarrow>
        (bitAt (raised w p) (idx (w_bits w) q) \<longleftrightarrow> q \<in> S))"
proof -
  let ?d = "unat (p - w_top w)" and ?n = "length (w_bits w)"
  note b = window_of_bounds [OF w]
  have d: "?d = unat p - unat (w_top w)" using p by (intro unat_diff) simp
  have lt: "unat (w_top w) < unat p" using p by (simp add: word_less_nat_alt)
  have above: "q \<notin> S" if "q > w_top w" for q using w that by (auto simp: window_of_def)
  have idx_lt: "idx (w_bits w) q < ?n * 64" for q using b(1) by (simp add: idx_def)
  show ?thesis
  proof (cases "?d \<ge> ?n * 64")
    case True
    then have eq: "raised w p = replicate ?n 0" by (simp add: raised_def Let_def)
    have "q \<notin> S" if "unat p < unat q + ring_size w" for q
      using that True d lt by (intro above) (simp add: ring_size_def word_less_nat_alt)
    then show ?thesis unfolding eq using bitAt_zero [OF idx_lt] by auto
  next
    case False
    let ?ps = "map (\<lambda>i. w_top w + of_nat i) [1..<Suc ?d]"
    have eq: "raised w p = clearSlots (w_bits w) ?ps" using False by (simp add: raised_def Let_def)
    have ps: "q \<in> set ?ps \<longleftrightarrow> w_top w < q \<and> q \<le> p" for q
    proof
      assume "q \<in> set ?ps"
      then obtain i where i: "1 \<le> i" "i \<le> ?d" "q = w_top w + of_nat i" by auto
      have "unat p < 2 ^ 32" using unsigned_less [of p] by simp
      then have "unat (w_top w) + i < 2 ^ 32" using i d lt by linarith
      then have "unat (of_nat (unat (w_top w) + i) :: u32) = unat (w_top w) + i"
        by (simp only: unat_of_nat len_of_numeral_defs) simp
      then have "unat q = unat (w_top w) + i" by (simp add: i(3))
      then show "w_top w < q \<and> q \<le> p" using i d lt by (simp add: word_less_nat_alt word_le_nat_alt)
    next
      assume q: "w_top w < q \<and> q \<le> p"
      then have "w_top w \<le> q" by (simp add: order_less_imp_le)
      then have "unat (q - w_top w) = unat q - unat (w_top w)" by (rule unat_diff)
      then have "unat (q - w_top w) \<in> set [1..<Suc ?d]"
        using q d by (auto simp: word_less_nat_alt word_le_nat_alt)
      moreover have "q = w_top w + of_nat (unat (q - w_top w))" by simp
      ultimately show "q \<in> set ?ps" unfolding set_map by blast
    qed
    note cs = clearSlots_spec [OF b(1,2), of ?ps]
    have "bitAt (raised w p) (idx (w_bits w) q) \<longleftrightarrow> q \<in> S"
      if q: "q \<noteq> 0" "q \<le> p" "unat p < unat q + ring_size w" for q
    proof (cases "q > w_top w")
      case True
      then have "q \<in> set ?ps" using ps q(2) by blast
      then show ?thesis using cs above [OF True] idx_lt unfolding eq by blast
    next
      case False
      then have le: "q \<le> w_top w" by simp
      have "idx (w_bits w) q \<noteq> idx (w_bits w) r" if "r \<in> set ?ps" for r
      proof
        assume e: "idx (w_bits w) q = idx (w_bits w) r"
        have r: "w_top w < r" "r \<le> p" using ps that by blast+
        then have "unat r < unat q + ?n * 64" "q \<le> r"
          using q(3) le by (simp_all add: ring_size_def word_le_nat_alt word_less_nat_alt)
        from idx_inj [OF e [symmetric] this] r(1) False show False by simp
      qed
      moreover have "bitAt (w_bits w) (idx (w_bits w) q) \<longleftrightarrow> q \<in> S"
        using w q le lt by (auto simp: window_of_def)
      ultimately show ?thesis using cs idx_lt unfolding eq by blast
    qed
    then show ?thesis using cs eq by auto
  qed
qed

lemma window_accept_unfold:
  "window_accept w p =
    (if \<not> window_check w p then (False, w)
     else if p > w_top w
     then (True, w\<lparr>w_bits := (let (i, m) = slot (raised w p) p in (raised w p)[i := (raised w p ! i) OR m]), w_top := p\<rparr>)
     else (True, w\<lparr>w_bits := (let (i, m) = slot (w_bits w) p in (w_bits w)[i := (w_bits w ! i) OR m])\<rparr>))"
  by (simp add: window_accept_def raised_def Let_def case_prod_unfold)

lemma length_set_slot [simp]: "length (case slot bs p of (i, m) \<Rightarrow> xs[i := f i m]) = length xs"
  by (simp add: case_prod_unfold)

text \<open>
  Accepting records the id: the bits now stand for the set with it, and nothing else changes
  but the top.
\<close>

lemma window_set:
  assumes n: "0 < length bits" "length bits \<le> 1024"
    and bits: "\<And>q. q \<noteq> 0 \<Longrightarrow> q \<le> hi \<Longrightarrow> unat hi < unat q + length bits * 64 \<Longrightarrow>
       (bitAt bits (idx bits q) \<longleftrightarrow> q \<in> S)"
    and p: "p \<le> hi" "unat hi < unat p + length bits * 64"
    and q: "q \<noteq> 0" "q \<le> hi" "unat hi < unat q + length bits * 64"
  defines "bits' \<equiv> (let (i, m) = slot bits p in bits[i := (bits ! i) OR m])"
  shows "bitAt bits' (idx bits' q) \<longleftrightarrow> q \<in> insert p S"
proof -
  have len: "length bits' = length bits" unfolding bits'_def by (simp add: case_prod_unfold Let_def)
  have ix: "idx bits' q = idx bits q" by (simp add: idx_def len)
  have lt: "idx bits q < length bits * 64" using n by (simp add: idx_def)
  have same: "q = p" if "idx bits q = idx bits p"
  proof (cases "p \<le> q")
    case True
    then show ?thesis using that q p idx_inj [of bits q p] by (simp add: word_le_nat_alt)
  next
    case False
    then have "q \<le> p" by simp
    then show ?thesis using that q p idx_inj [of bits p q] by (simp add: word_le_nat_alt)
  qed
  show ?thesis
    unfolding ix unfolding bits'_def bitAt_set [OF n lt] using bits [OF q] same by auto
qed

lemma window_accept_step:
  assumes w: "window_of S w"
  shows "fst (window_accept w p) \<longleftrightarrow> fresh_id (w_size w) S p"
    and "\<not> fresh_id (w_size w) S p \<Longrightarrow> window_accept w p = (False, w)"
    and "fresh_id (w_size w) S p \<Longrightarrow> window_of (insert p S) (snd (window_accept w p))"
    and "w_size (snd (window_accept w p)) = w_size w"
proof -
  note c = window_check_eq [OF w, of p] and b = window_of_bounds [OF w]
  show "fst (window_accept w p) \<longleftrightarrow> fresh_id (w_size w) S p" using c by (simp add: window_accept_unfold)
  show "\<not> fresh_id (w_size w) S p \<Longrightarrow> window_accept w p = (False, w)" using c by (simp add: window_accept_unfold)
  show "w_size (snd (window_accept w p)) = w_size w" by (simp add: window_accept_unfold)
  assume f: "fresh_id (w_size w) S p"
  then have p0: "p \<noteq> 0" by (simp add: fresh_id_def)
  show "window_of (insert p S) (snd (window_accept w p))"
  proof (cases "p > w_top w")
    case True
    let ?bits = "let (i, m) = slot (raised w p) p in (raised w p)[i := (raised w p ! i) OR m]"
    have acc: "snd (window_accept w p) = w\<lparr>w_bits := ?bits, w_top := p\<rparr>"
      using True f c by (simp add: window_accept_unfold)
    note r = raised_spec [OF w True]
    have len: "length (raised w p) = length (w_bits w)" using r by blast
    have ix: "idx (raised w p) q = idx (w_bits w) q" for q by (simp add: idx_def len)
    have "bitAt ?bits (idx ?bits q) \<longleftrightarrow> q \<in> insert p S" if "q \<noteq> 0" "q \<le> p" "unat p < unat q + ring_size w" for q
      by (rule window_set [where hi = p]) (use r b len ix that in \<open>auto simp: ring_size_def\<close>)
    moreover have "q \<le> p" if "q \<in> S" for q
    proof -
      have "q \<le> w_top w" using window_ofD(5) [OF w] that by blast
      then show ?thesis by (rule order.trans) (rule order_less_imp_le [OF True])
    qed
    moreover have "length ?bits = length (w_bits w)" by (simp add: len)
    ultimately show ?thesis unfolding acc using p0 by (intro window_ofI [OF w]) blast+
  next
    case False
    let ?bits = "let (i, m) = slot (w_bits w) p in (w_bits w)[i := (w_bits w ! i) OR m]"
    have le: "p \<le> w_top w" using False by simp
    have acc: "snd (window_accept w p) = w\<lparr>w_bits := ?bits\<rparr>"
      using False f c by (simp add: window_accept_unfold)
    have top: "w_top w \<noteq> 0" using le p0 by auto
    then have "uint (w_top w) - uint p < w_size w" using w f by (auto simp: window_of_def fresh_id_def)
    then have "int (unat (w_top w)) < int (unat p) + int (ring_size w)" using b(3) by simp
    then have near: "unat (w_top w) < unat p + ring_size w" by linarith
    have "bitAt ?bits (idx ?bits q) \<longleftrightarrow> q \<in> insert p S"
      if "q \<noteq> 0" "q \<le> w_top w" "unat (w_top w) < unat q + ring_size w" for q
      by (rule window_set [where hi = "w_top w"])
         (use w b le near that in \<open>auto simp: ring_size_def window_of_def\<close>)
    moreover have "length ?bits = length (w_bits w)" by simp
    moreover have "w_top w \<in> insert p S" "\<And>q. q \<in> S \<Longrightarrow> q \<le> w_top w" using window_ofD(5,6) [OF w] top by blast+
    ultimately have "window_of (insert p S) (w\<lparr>w_bits := ?bits, w_top := w_top w\<rparr>)"
      using p0 le by (intro window_ofI [OF w]) blast+
    moreover have "w\<lparr>w_bits := bs, w_top := w_top w\<rparr> = w\<lparr>w_bits := bs\<rparr>" for bs by simp
    ultimately show ?thesis unfolding acc by (simp only:)
  qed
qed

section \<open>Replay filters\<close>

text \<open>
  The interface: a filter stands for the set of what it has accepted; refusing changes
  nothing, and what it accepts is new.
\<close>

fun runFilter :: "('s \<Rightarrow> 'i \<Rightarrow> bool \<times> 's) \<Rightarrow> 's \<Rightarrow> 'i list \<Rightarrow> 'i list \<times> 's" where
  "runFilter acc s [] = ([], s)"
| "runFilter acc s (i # is) =
    (let (ok, s) = acc s i; (out, s) = runFilter acc s is in (if ok then i # out else out, s))"

locale replay_filter =
  fixes stands_for :: "'i set \<Rightarrow> 's \<Rightarrow> bool"
    and acc :: "'s \<Rightarrow> 'i \<Rightarrow> bool \<times> 's"
  assumes refused: "stands_for S s \<Longrightarrow> acc s i = (False, s') \<Longrightarrow> s' = s"
    and accepted: "stands_for S s \<Longrightarrow> acc s i = (True, s') \<Longrightarrow> i \<notin> S \<and> stands_for (insert i S) s'"
begin

lemma run_distinct:
  assumes "stands_for S s" "runFilter acc s is = (out, s')"
  shows "distinct out \<and> set out \<subseteq> set is - S \<and> stands_for (S \<union> set out) s'"
  using assms
proof (induction "is" arbitrary: S s out s')
  case Nil
  then show ?case by simp
next
  case (Cons i "is")
  obtain ok s1 where a: "acc s i = (ok, s1)" by fastforce
  obtain out1 s2 where r: "runFilter acc s1 is = (out1, s2)" by fastforce
  from Cons.prems(2) a r have eq: "out = (if ok then i # out1 else out1)" "s' = s2" by auto
  show ?case
  proof (cases ok)
    case True
    with accepted [OF Cons.prems(1)] a have i: "i \<notin> S" "stands_for (insert i S) s1" by auto
    from Cons.IH [OF i(2) r] i(1) eq True show ?thesis by auto
  next
    case False
    with refused [OF Cons.prems(1)] a have "s1 = s" by auto
    with Cons.IH [OF Cons.prems(1)] r eq False show ?thesis by auto
  qed
qed

end

interpretation data_window: replay_filter window_of window_accept
proof
  fix S s i s'
  assume w: "window_of S s"
  show "s' = s" if "window_accept s i = (False, s')"
    using that window_accept_step(1,2) [OF w, of i] by (cases "fresh_id (w_size s) S i") auto
  show "i \<notin> S \<and> window_of (insert i S) s'" if "window_accept s i = (True, s')"
  proof -
    have f: "fresh_id (w_size s) S i" using that window_accept_step(1) [OF w, of i] by simp
    then show ?thesis using window_accept_step(3) [OF w f] that by (auto simp: fresh_id_def)
  qed
qed

text \<open>
  Claim C15. The replay window of a data-channel key accepts no packet id twice, whatever
  ids arrive in whatever order, and it is exact: with the ids accepted so far, the next id is
  accepted if and only if it is not 0, has not been accepted before and is less than the
  window size behind the highest accepted id.
\<close>

theorem replay_window_exact:
  assumes "1 \<le> n" "n \<le> 65536" "runFilter window_accept (init_window n) ids = (out, w)"
  shows "distinct out \<and> set out \<subseteq> set ids \<and>
     (fst (window_accept w p) \<longleftrightarrow> p \<noteq> 0 \<and> p \<notin> set out \<and> (\<forall>q \<in> set out. uint q - uint p < n))"
proof -
  from data_window.run_distinct [OF window_of_init [OF assms(1,2)] assms(3)]
  have r: "distinct out" "set out \<subseteq> set ids" "window_of (set out) w" by auto
  have "w_size (snd (runFilter window_accept v ids)) = w_size v" for v
  proof (induction ids arbitrary: v)
    case (Cons i ids)
    have "w_size (snd (window_accept v i)) = w_size v" by (simp add: window_accept_unfold)
    with Cons [of "snd (window_accept v i)"] show ?case by (simp add: case_prod_unfold Let_def)
  qed simp
  from this [of "init_window n"] assms(3) have "w_size w = n" by (simp add: init_window_def)
  moreover have "fst (window_accept w p) \<longleftrightarrow> fresh_id (w_size w) (set out) p"
    by (rule window_accept_step(1) [OF r(3)])
  ultimately show ?thesis using r by (simp add: fresh_id_def)
qed

theorem replay_window_exact_witness:
  "fst (runFilter window_accept (init_window 64) [5, 3, 5, 70, 6, 5]) = [5, 3, 70] \<and>
   \<not> fst (window_accept (snd (runFilter window_accept (init_window 64) [5, 3, 5, 70, 6, 5])) 6)"
proof -
  have run: "runFilter window_accept (init_window 64) [5, 3, 5, 70, 6, 5] =
      ([5, 3, 70], snd (runFilter window_accept (init_window 64) [5, 3, 5, 70, 6, 5]))" by code_simp
  from replay_window_exact [OF _ _ this, of 6] show ?thesis by (subst run) simp
qed

end
