(* ===== verification/Compress.thy ===== *)
theory Compress
  imports Prelude
begin

text \<open>
  The data-channel compression framing (\<open>core/proxy/openvpn/ovpn/compress/compress.go\<close>):
  the framings (\<open>Frame\<close>, \<open>Unframe\<close>), the output buffer of the decompressors (\<open>sink\<close>), and
  the decompressors of LZ4 blocks and LZO1X streams, which read untrusted input. The model
  keeps the index arithmetic of the source: every index and slice expression is checked, so
  that an access out of range would be the value \<open>Panic\<close>.

  \<open>Frame\<close> and the decompressors append to \<open>dst\<close>; slices are values here, so the in-place use
  of \<open>Frame\<close> (a payload that lies in the spare capacity of \<open>dst\<close>) is outside the model.
\<close>

section \<open>Modes and errors\<close>

text \<open>\<open>Mode\<close> is an integer type in the source, and values without a name are handled.\<close>

type_synonym mode = int

definition ModeNone :: mode where "ModeNone = 0"
definition LZO :: mode where "LZO = 1"
definition Swap :: mode where "Swap = 2"
definition V2 :: mode where "V2 = 3"

lemmas mode_defs = ModeNone_def LZO_def Swap_def V2_def

datatype comp_err =
  UnknownCompLZO string
| UnknownCompress string
| UnknownMode int
| BadLZOFlag u8
| BadSwapFlag u8
| V2Alone
| BadV2Algorithm u8
| LZ4Empty
| LZ4Truncated
| LZ4ZeroOffset
| LZ4Distance
| LZOEmpty
| LZOTruncated
| LZODistance
| LZOTrailing
| LZOLength
| TooBig

text \<open>The sentinel an error wraps (\<open>errors.Is\<close>).\<close>

datatype comp_sentinel = ErrFraming | ErrCorrupt | ErrTooBig

fun wraps :: "comp_err \<Rightarrow> comp_sentinel option" where
  "wraps (UnknownCompLZO _) = None"
| "wraps (UnknownCompress _) = None"
| "wraps (UnknownMode _) = Some ErrFraming"
| "wraps (BadLZOFlag _) = Some ErrFraming"
| "wraps (BadSwapFlag _) = Some ErrFraming"
| "wraps V2Alone = Some ErrFraming"
| "wraps (BadV2Algorithm _) = Some ErrFraming"
| "wraps TooBig = Some ErrTooBig"
| "wraps _ = Some ErrCorrupt"

definition lzoPlain :: u8 where "lzoPlain = 0xFA"
definition lzoCompressed :: u8 where "lzoCompressed = 0x66"
definition swapPlain :: u8 where "swapPlain = 0xFB"
definition swapLZ4 :: u8 where "swapLZ4 = 0x69"
definition v2Indicator :: u8 where "v2Indicator = 0x50"
definition v2Uncompressed :: u8 where "v2Uncompressed = 0x00"
definition v2LZ4 :: u8 where "v2LZ4 = 0x01"

lemmas flag_defs = lzoPlain_def lzoCompressed_def swapPlain_def swapLZ4_def v2Indicator_def
  v2Uncompressed_def v2LZ4_def

definition ParseCompLZO :: "string \<Rightarrow> (comp_err, mode) res" where
  "ParseCompLZO arg =
    (if arg \<in> set ['''', ''yes'', ''no'', ''adaptive''] then Inr LZO
     else Inl (Err (UnknownCompLZO arg)))"

definition ParseCompress :: "string \<Rightarrow> (comp_err, mode) res" where
  "ParseCompress arg =
    (if arg \<in> set ['''', ''stub'', ''lz4''] then Inr Swap
     else if arg \<in> set [''stub-v2'', ''lz4-v2''] then Inr V2
     else if arg = ''lzo'' then Inr LZO
     else if arg = ''migrate'' then Inr ModeNone
     else Inl (Err (UnknownCompress arg)))"

definition Mode_String :: "mode \<Rightarrow> string" where
  "Mode_String m =
    (if m = ModeNone then ''none''
     else if m = LZO then ''lzo''
     else if m = Swap then ''swap''
     else if m = V2 then ''v2''
     else ''Mode('' @ itoa m @ '')'')"

section \<open>Framing what is sent\<close>

text \<open>
  \<open>extend\<close> grows a slice by \<open>n\<close> bytes that are then all written; here each case lists
  the bytes written. \<open>payload[0]\<close> is read only when the payload is not empty.
\<close>

definition Frame :: "mode \<Rightarrow> bytes \<Rightarrow> bytes \<Rightarrow> bytes" where
  "Frame m dst payload =
    (case payload of [] \<Rightarrow> dst
     | first # rest \<Rightarrow>
       if m = LZO then dst @ [lzoPlain] @ payload
       else if m = Swap then dst @ [swapPlain] @ rest @ [first]
       else if m = V2 then
         (if first \<noteq> v2Indicator then dst @ payload
          else dst @ [v2Indicator, v2Uncompressed] @ payload)
       else dst @ payload)"

section \<open>The output buffer of the decompressors\<close>

definition maxRun :: int where "maxRun = 2 ^ 30"

record sink =
  s_out :: bytes
  s_base :: int
  s_room :: int

definition newSink :: "bytes \<Rightarrow> int \<Rightarrow> sink" where
  "newSink dst maxOut = \<lparr>s_out = dst, s_base = glen dst, s_room = max maxOut 0\<rparr>"

text \<open>\<open>literals\<close> returns the index after the literals and the changed buffer.\<close>

definition literals :: "sink \<Rightarrow> bytes \<Rightarrow> int \<Rightarrow> int \<Rightarrow> comp_err \<Rightarrow> (comp_err, int \<times> sink) res" where
  "literals s src i n truncated =
    (if n > glen src - i then Inl (Err truncated)
     else if n > s_room s then Inl (Err TooBig)
     else rbind (gslice src i (i + n)) (\<lambda>lits.
       Inr (i + n, s\<lparr>s_out := s_out s @ lits, s_room := s_room s - n\<rparr>)))"

text \<open>
  The loop of \<open>match\<close>: \<open>copy(out[pos+done:pos+n], out[start:pos+done])\<close> writes as many bytes
  as fit, from what is there already. It is called with \<open>start < pos\<close>, so each round copies
  at least one byte; where it would copy none (and never end) the equation stops.
\<close>

definition copyInto :: "bytes \<Rightarrow> nat \<Rightarrow> bytes \<Rightarrow> bytes" where
  "copyInto out at bs = take at out @ bs @ drop (at + length bs) out"

function matchLoop :: "bytes \<Rightarrow> nat \<Rightarrow> nat \<Rightarrow> nat \<Rightarrow> nat \<Rightarrow> bytes" where
  "matchLoop out start pos n done =
    (if n \<le> done \<or> pos + done \<le> start then out
     else let c = min (n - done) (pos + done - start)
          in matchLoop (copyInto out (pos + done) (take c (drop start out))) start pos n (done + c))"
  by pat_completeness auto
termination
  by (relation "measure (\<lambda>(out, start, pos, n, done). n - done)") auto

declare matchLoop.simps [simp del]

definition sink_match :: "sink \<Rightarrow> int \<Rightarrow> int \<Rightarrow> comp_err \<Rightarrow> (comp_err, sink) res" where
  "sink_match s dist n behind =
    (if dist > glen (s_out s) - s_base s \<or> dist < 1 then Inl (Err behind)
     else if n > s_room s then Inl (Err TooBig)
     else
     let s = s\<lparr>s_room := s_room s - n\<rparr>;
         start = glen (s_out s) - dist
     in
     if dist \<ge> n then rbind (gslice (s_out s) start (start + n)) (\<lambda>bs. Inr (s\<lparr>s_out := s_out s @ bs\<rparr>))
     else if start < 0 then Inl Panic
     else
     let pos = length (s_out s);
         grown = s_out s @ replicate (nat n) 0
     in Inr (s\<lparr>s_out := matchLoop grown (nat start) pos (nat n) 0\<rparr>))"

section \<open>LZ4 blocks\<close>

function lz4Length :: "bytes \<Rightarrow> int \<Rightarrow> int \<Rightarrow> int \<Rightarrow> comp_err \<Rightarrow> (comp_err, int \<times> int) res" where
  "lz4Length src i n limit tooLong =
    (if i \<ge> glen src then Inl (Err LZ4Truncated)
     else case gidx src i of Inl e \<Rightarrow> Inl e | Inr b' \<Rightarrow>
     let b = uint b'; i = i + 1 in
     if b > limit - n then Inl (Err tooLong)
     else let n = n + b in
     if b \<noteq> 255 then Inr (n, i) else lz4Length src i n limit tooLong)"
  by pat_completeness auto
termination
  by (relation "measure (\<lambda>(src, i, n, limit, tooLong). nat (glen src - i))") auto

declare lz4Length.simps [simp del]

text \<open>
  One sequence of a block: the result is the finished output (a last sequence, which stops
  after its literals) or the index and the buffer to go on with.
\<close>

definition lz4Literals :: "bytes \<Rightarrow> int \<Rightarrow> u8 \<Rightarrow> sink \<Rightarrow> (comp_err, int \<times> sink) res" where
  "lz4Literals src i token s =
    (let lit = uint (drop_bit 4 token) in
     rbind (if lit = 15 then lz4Length src i lit (glen src) LZ4Truncated else Inr (lit, i)) (\<lambda>(lit, i).
     literals s src i lit LZ4Truncated))"

definition lz4MatchArgs :: "bytes \<Rightarrow> int \<Rightarrow> u8 \<Rightarrow> int \<Rightarrow> (comp_err, (int \<times> int) \<times> int) res" where
  "lz4MatchArgs src i token room =
    (if glen src - i < 2 then Inl (Err LZ4Truncated)
     else rbind (gidx src i) (\<lambda>lo. rbind (gidx src (i + 1)) (\<lambda>hi.
     let off = uint lo OR push_bit 8 (uint hi); i = i + 2 in
     if off = 0 then Inl (Err LZ4ZeroOffset)
     else let ml = uint (token AND 15) in
     rbind (if ml = 15 then lz4Length src i ml room TooBig else Inr (ml, i)) (\<lambda>(ml, i).
     if ml > room - 4 then Inl (Err TooBig) else Inr ((off, ml), i)))))"

definition lz4Match :: "bytes \<Rightarrow> int \<Rightarrow> u8 \<Rightarrow> sink \<Rightarrow> (comp_err, int \<times> sink) res" where
  "lz4Match src i token s =
    rbind (lz4MatchArgs src i token (s_room s)) (\<lambda>((off, ml), i).
    rbind (sink_match s off (ml + 4) LZ4Distance) (\<lambda>s. Inr (i, s)))"

definition lz4Sequence :: "bytes \<Rightarrow> int \<Rightarrow> sink \<Rightarrow> (comp_err, bytes + int \<times> sink) res" where
  "lz4Sequence src i s =
    (if i \<ge> glen src then Inl (Err LZ4Truncated)
     else rbind (gidx src i) (\<lambda>token.
     rbind (lz4Literals src (i + 1) token s) (\<lambda>(i, s).
     if i = glen src then Inr (Inl (s_out s))
     else rbind (lz4Match src i token s) (\<lambda>r. Inr (Inr r)))))"

lemma lz4Length_mono:
  "lz4Length src i n limit e = Inr (n', i') \<Longrightarrow> i < i' \<and> n \<le> n'"
proof (induction src i n limit e rule: lz4Length.induct)
  case (1 src i n limit e)
  from "1.prems" obtain b where b: "gidx src i = (Inr b :: (comp_err, u8) res)" "\<not> glen src \<le> i" "\<not> uint b > limit - n"
    by (subst (asm) lz4Length.simps) (auto simp: Let_def split: if_splits sum.splits)
  show ?case
  proof (cases "uint b = 255")
    case False
    with b "1.prems" show ?thesis by (subst (asm) lz4Length.simps) (auto simp: Let_def)
  next
    case True
    with b "1.prems" have "lz4Length src (i + 1) (n + 255) limit e = Inr (n', i')"
      by (subst (asm) lz4Length.simps) (auto simp: Let_def)
    with "1.IH" [OF b(2) b(1) refl refl _ refl] b True show ?thesis by auto
  qed
qed

lemma literals_index: "literals s src i n e = Inr (i', s') \<Longrightarrow> i' = i + n"
  by (auto simp: literals_def rbind_eq_Inr split: if_splits)

lemma lz4Literals_mono: "lz4Literals src i token s = Inr (i', s') \<Longrightarrow> i \<le> i'"
proof -
  assume "lz4Literals src i token s = Inr (i', s')"
  then obtain lit j where l: "literals s src j lit LZ4Truncated = Inr (i', s')"
      and c: "(lit = uint (drop_bit 4 token) \<and> j = i) \<or>
        lz4Length src i (uint (drop_bit 4 token)) (glen src) LZ4Truncated = Inr (lit, j)"
    by (auto simp: lz4Literals_def Let_def rbind_eq_Inr split: if_splits)
  then have "0 \<le> lit" "i \<le> j"
    using lz4Length_mono [of src i "uint (drop_bit 4 token)" "glen src" LZ4Truncated lit j] by (smt (verit) uint_ge_0)+
  with literals_index [OF l] show ?thesis by simp
qed

lemma lz4MatchArgs_mono: "lz4MatchArgs src i token room = Inr ((off, ml), i') \<Longrightarrow> i < i' \<and> 0 \<le> ml"
proof -
  assume "lz4MatchArgs src i token room = Inr ((off, ml), i')"
  then have "(ml = uint (token AND 15) \<and> i' = i + 2) \<or>
      lz4Length src (i + 2) (uint (token AND 15)) room TooBig = Inr (ml, i')"
    by (auto simp: lz4MatchArgs_def Let_def rbind_eq_Inr split: if_splits)
  then show ?thesis
    using lz4Length_mono [of src "i + 2" "uint (token AND 15)" room TooBig ml i'] uint_ge_0 [of "token AND 15"]
    by linarith
qed

lemma lz4Match_mono: "lz4Match src i token s = Inr (i', s') \<Longrightarrow> i < i'"
  by (auto simp: lz4Match_def rbind_eq_Inr dest!: lz4MatchArgs_mono)

lemma lz4Sequence_mono: "lz4Sequence src i s = Inr (Inr (i', s')) \<Longrightarrow> i < i' \<and> i < glen src"
  by (auto simp: lz4Sequence_def rbind_eq_Inr split: if_splits dest!: lz4Literals_mono lz4Match_mono)

function lz4Loop :: "bytes \<Rightarrow> int \<Rightarrow> sink \<Rightarrow> (comp_err, bytes) res" where
  "lz4Loop src i s =
    (case lz4Sequence src i s of
       Inl e \<Rightarrow> Inl e
     | Inr (Inl out) \<Rightarrow> Inr out
     | Inr (Inr (i, s)) \<Rightarrow> lz4Loop src i s)"
  by pat_completeness auto
termination
  by (relation "measure (\<lambda>(src, i, s). nat (glen src - i))") (auto dest!: lz4Sequence_mono)

declare lz4Loop.simps [simp del]

text \<open>
  On an error the source also returns \<open>dst\<close> as it was; the callers drop it, and so does the
  model.
\<close>

definition DecompressLZ4Block :: "bytes \<Rightarrow> bytes \<Rightarrow> int \<Rightarrow> (comp_err, bytes) res" where
  "DecompressLZ4Block dst src maxOut =
    (if glen src = 0 then Inl (Err LZ4Empty) else lz4Loop src 0 (newSink dst maxOut))"

section \<open>LZO1X streams\<close>

function lzoLength :: "bytes \<Rightarrow> int \<Rightarrow> int \<Rightarrow> (comp_err, int \<times> int) res" where
  "lzoLength src i n =
    (if i \<ge> glen src then Inl (Err LZOTruncated)
     else case gidx src i of Inl e \<Rightarrow> Inl e | Inr b' \<Rightarrow>
     let b = uint b'; i = i + 1 in
     if b \<noteq> 0 then Inr (n + b, i)
     else let n = n + 255 in
     if n > maxRun then Inl (Err LZOLength) else lzoLength src i n)"
  by pat_completeness auto
termination
  by (relation "measure (\<lambda>(src, i, n). nat (glen src - i))") auto

declare lzoLength.simps [simp del]

text \<open>
  One instruction. Reading it gives a match to copy with the literals that trail it
  (distance, length, trailing), a run of literals, or the end of the stream; each carries the
  index after the instruction.
\<close>

datatype lzoInsn =
  InsnMatch int int int int
| InsnRun int int
| InsnEnd int

text \<open>The case of M2, of M3 and M4, of a literal run, and of M1 and the 3-byte copy.\<close>

definition lzoM2 :: "bytes \<Rightarrow> int \<Rightarrow> int \<Rightarrow> (comp_err, lzoInsn) res" where
  "lzoM2 src i t =
    (if i \<ge> glen src then Inl (Err LZOTruncated)
     else rbind (gidx src i) (\<lambda>b.
     Inr (InsnMatch (1 + (drop_bit 2 t AND 7) + push_bit 3 (uint b)) (drop_bit 5 t + 1) (t AND 3) (i + 1))))"

definition lzoM34 :: "bytes \<Rightarrow> int \<Rightarrow> int \<Rightarrow> (comp_err, lzoInsn) res" where
  "lzoM34 src i t =
    (let (mask, extBase) = (if t \<ge> 32 then (31, 33) else (7, 9)) in
     rbind (if t AND mask = 0 then lzoLength src i extBase else Inr (2 + (t AND mask), i)) (\<lambda>(len, i).
     if glen src - i < 2 then Inl (Err LZOTruncated)
     else rbind (gidx src i) (\<lambda>lo. rbind (gidx src (i + 1)) (\<lambda>hi.
     let d = drop_bit 2 (uint lo OR push_bit 8 (uint hi));
         trailing = uint lo AND 3;
         i = i + 2
     in
     if t \<ge> 32 then Inr (InsnMatch (1 + d) len trailing i)
     else
     let dist = push_bit 11 (t AND 8) + d in
     if dist = 0 then (if i \<noteq> glen src then Inl (Err LZOTrailing) else Inr (InsnEnd i))
     else Inr (InsnMatch (dist + 16384) len trailing i)))))"

definition lzoRun :: "bytes \<Rightarrow> int \<Rightarrow> int \<Rightarrow> (comp_err, lzoInsn) res" where
  "lzoRun src i t =
    rbind (if t = 0 then lzoLength src i 18 else Inr (3 + t, i)) (\<lambda>(n, i). Inr (InsnRun n i))"

definition lzoM1 :: "bytes \<Rightarrow> int \<Rightarrow> int \<Rightarrow> int \<Rightarrow> (comp_err, lzoInsn) res" where
  "lzoM1 src i state t =
    (if i \<ge> glen src then Inl (Err LZOTruncated)
     else let (len, dist) = (if state = 4 then (3, 2049) else (2, 1)) in
     rbind (gidx src i) (\<lambda>b.
     Inr (InsnMatch (dist + (drop_bit 2 t + push_bit 2 (uint b))) len (t AND 3) (i + 1))))"

definition lzoInsnAt :: "bytes \<Rightarrow> int \<Rightarrow> int \<Rightarrow> (comp_err, lzoInsn) res" where
  "lzoInsnAt src i state =
    (if i \<ge> glen src then Inl (Err LZOTruncated)
     else rbind (gidx src i) (\<lambda>b.
     let t = uint b; i = i + 1 in
     if t \<ge> 64 then lzoM2 src i t
     else if t \<ge> 16 then lzoM34 src i t
     else if state = 0 then lzoRun src i t
     else lzoM1 src i state t))"

text \<open>One round of the loop: the finished output, or index, state and buffer to go on with.\<close>

definition lzoStep :: "bytes \<Rightarrow> int \<Rightarrow> int \<Rightarrow> sink \<Rightarrow> (comp_err, bytes + int \<times> int \<times> sink) res" where
  "lzoStep src i state s =
    rbind (lzoInsnAt src i state) (\<lambda>insn. case insn of
      InsnEnd _ \<Rightarrow> Inr (Inl (s_out s))
    | InsnRun n i \<Rightarrow>
        rbind (literals s src i n LZOTruncated) (\<lambda>(i, s). Inr (Inr (i, 4, s)))
    | InsnMatch dist len trailing i \<Rightarrow>
        rbind (sink_match s dist len LZODistance) (\<lambda>s.
        rbind (if trailing > 0 then literals s src i trailing LZOTruncated else Inr (i, s)) (\<lambda>(i, s).
        Inr (Inr (i, trailing, s)))))"

lemma lzoLength_mono: "lzoLength src i n = Inr (n', i') \<Longrightarrow> i < i' \<and> n \<le> n'"
proof (induction src i n rule: lzoLength.induct)
  case (1 src i n)
  from "1.prems" obtain b where b: "gidx src i = (Inr b :: (comp_err, u8) res)" "\<not> glen src \<le> i"
    by (subst (asm) lzoLength.simps) (auto split: if_splits sum.splits)
  show ?case
  proof (cases "uint b = 0")
    case False
    with b "1.prems" show ?thesis by (subst (asm) lzoLength.simps) (auto simp: Let_def)
  next
    case True
    with b "1.prems" have "lzoLength src (i + 1) (n + 255) = Inr (n', i')" "\<not> n + 255 > maxRun"
      by (subst (asm) lzoLength.simps; auto simp: Let_def split: if_splits)+
    with "1.IH" [OF b(2) b(1) refl refl _ refl] True show ?thesis by auto
  qed
qed

fun insnIndex :: "lzoInsn \<Rightarrow> int" where
  "insnIndex (InsnMatch _ _ _ i) = i"
| "insnIndex (InsnRun _ i) = i"
| "insnIndex (InsnEnd i) = i"

lemma lzoInsnAt_mono:
  assumes "lzoInsnAt src i state = Inr insn"
  shows "i < insnIndex insn \<and> i < glen src \<and> (\<forall>n j. insn = InsnRun n j \<longrightarrow> 3 \<le> n)"
proof -
  from assms obtain b where b: "i < glen src" "gidx src i = (Inr b :: (comp_err, u8) res)"
    and r: "lzoM2 src (i + 1) (uint b) = Inr insn \<or> lzoM34 src (i + 1) (uint b) = Inr insn \<or>
      lzoRun src (i + 1) (uint b) = Inr insn \<or> lzoM1 src (i + 1) state (uint b) = Inr insn"
    by (auto simp: lzoInsnAt_def rbind_eq_Inr Let_def split: if_splits)
  from r show ?thesis
  proof (elim disjE)
    assume "lzoM2 src (i + 1) (uint b) = Inr insn"
    with b show ?thesis by (auto simp: lzoM2_def rbind_eq_Inr split: if_splits)
  next
    assume "lzoM34 src (i + 1) (uint b) = Inr insn"
    with b show ?thesis
      by (auto simp: lzoM34_def rbind_eq_Inr Let_def split: if_splits dest!: lzoLength_mono)
  next
    assume "lzoRun src (i + 1) (uint b) = Inr insn"
    with b show ?thesis
      by (auto simp: lzoRun_def rbind_eq_Inr Let_def split: if_splits dest!: lzoLength_mono)
  next
    assume "lzoM1 src (i + 1) state (uint b) = Inr insn"
    with b show ?thesis by (auto simp: lzoM1_def rbind_eq_Inr Let_def split: if_splits)
  qed
qed

lemma lzoStep_mono:
  assumes "lzoStep src i state s = Inr (Inr (i', state', s'))"
  shows "i < i' \<and> i < glen src"
proof -
  from assms obtain insn where insn: "lzoInsnAt src i state = Inr insn"
    by (auto simp: lzoStep_def rbind_eq_Inr)
  note m = lzoInsnAt_mono [OF insn]
  show ?thesis
  proof (cases insn)
    case (InsnMatch dist len trailing j)
    with assms insn m show ?thesis
      by (auto simp: lzoStep_def rbind_eq_Inr split: if_splits dest!: literals_index)
  next
    case (InsnRun n j)
    with assms insn m show ?thesis by (auto simp: lzoStep_def rbind_eq_Inr dest!: literals_index)
  next
    case (InsnEnd j)
    with assms insn show ?thesis by (simp add: lzoStep_def)
  qed
qed

function lzoLoop :: "bytes \<Rightarrow> int \<Rightarrow> int \<Rightarrow> sink \<Rightarrow> (comp_err, bytes) res" where
  "lzoLoop src i state s =
    (case lzoStep src i state s of
       Inl e \<Rightarrow> Inl e
     | Inr (Inl out) \<Rightarrow> Inr out
     | Inr (Inr (i, state, s)) \<Rightarrow> lzoLoop src i state s)"
  by pat_completeness auto
termination
  by (relation "measure (\<lambda>(src, i, state, s). nat (glen src - i))") (auto dest!: lzoStep_mono)

declare lzoLoop.simps [simp del]

definition DecompressLZO1X :: "bytes \<Rightarrow> bytes \<Rightarrow> int \<Rightarrow> (comp_err, bytes) res" where
  "DecompressLZO1X dst src maxOut =
    (if glen src = 0 then Inl (Err LZOEmpty)
     else
     let s = newSink dst maxOut in
     rbind (gidx src 0) (\<lambda>b.
     if b > 17 then
       (let n = uint b - 17 in
        rbind (literals s src 1 n LZOTruncated) (\<lambda>(i, s). lzoLoop src i (min n 4) s))
     else lzoLoop src 0 0 s))"

section \<open>Undoing the framing\<close>

definition decompress :: "(bytes \<Rightarrow> bytes \<Rightarrow> int \<Rightarrow> (comp_err, bytes) res) \<Rightarrow> bytes \<Rightarrow> bytes \<Rightarrow> int \<Rightarrow>
    (comp_err, bytes) res" where
  "decompress fn dst src maxOut =
    (let base = glen dst in rbind (fn dst src maxOut) (\<lambda>out. gfrom out base))"

text \<open>
  \<open>Unframe\<close> undoes the swap in place, so it returns the payload as it leaves it besides the
  result.
\<close>

definition unframeLZO :: "bytes \<Rightarrow> bytes \<Rightarrow> int \<Rightarrow> (comp_err, bytes) res" where
  "unframeLZO dst payload maxOut =
    rbind (gidx payload 0) (\<lambda>flag.
    if flag = lzoPlain then gfrom payload 1
    else if flag = lzoCompressed then rbind (gfrom payload 1) (\<lambda>src. decompress DecompressLZO1X dst src maxOut)
    else Inl (Err (BadLZOFlag flag)))"

definition unframeSwap :: "bytes \<Rightarrow> bytes \<Rightarrow> int \<Rightarrow> (comp_err, bytes) res \<times> bytes" where
  "unframeSwap dst payload maxOut =
    (case gidx payload 0 of Inl e \<Rightarrow> (Inl e, payload) | Inr flag \<Rightarrow>
     if flag \<noteq> swapPlain \<and> flag \<noteq> swapLZ4 then (Inl (Err (BadSwapFlag flag)), payload)
     else let last = glen payload - 1 in
     case gidx payload last of Inl e \<Rightarrow> (Inl e, payload) | Inr b \<Rightarrow>
     let payload = payload[0 := b] in
     (rbind (gslice payload 0 last) (\<lambda>body.
       if flag = swapPlain then Inr body else decompress DecompressLZ4Block dst body maxOut), payload))"

definition unframeV2 :: "bytes \<Rightarrow> bytes \<Rightarrow> int \<Rightarrow> (comp_err, bytes) res" where
  "unframeV2 dst payload maxOut =
    rbind (gidx payload 0) (\<lambda>flag.
    if flag \<noteq> v2Indicator then Inr payload
    else if glen payload < 2 then Inl (Err V2Alone)
    else rbind (gidx payload 1) (\<lambda>alg.
    if alg = v2Uncompressed then gfrom payload 2
    else if alg = v2LZ4 then rbind (gfrom payload 2) (\<lambda>src. decompress DecompressLZ4Block dst src maxOut)
    else Inl (Err (BadV2Algorithm alg))))"

definition Unframe :: "mode \<Rightarrow> bytes \<Rightarrow> bytes \<Rightarrow> int \<Rightarrow> (comp_err, bytes) res \<times> bytes" where
  "Unframe m dst payload maxOut =
    (if m = ModeNone then (Inr payload, payload)
     else if m \<noteq> LZO \<and> m \<noteq> Swap \<and> m \<noteq> V2 then (Inl (Err (UnknownMode m)), payload)
     else if glen payload = 0 then (Inr payload, payload)
     else if m = LZO then (unframeLZO dst payload maxOut, payload)
     else if m = Swap then unframeSwap dst payload maxOut
     else (unframeV2 dst payload maxOut, payload))"

end
