(* ===== verification/Compress_Safe.thy ===== *)
theory Compress_Safe
  imports Compress
begin

text \<open>
  The decompressors on untrusted input: the chunked copy of \<open>match\<close> equals the byte-by-byte
  copy that defines a match, no input makes a decompressor or \<open>Unframe\<close> panic, the output
  stays within the limit and after \<open>dst\<close>, and nothing of \<open>dst\<close> is ever read.
\<close>

section \<open>Matches\<close>

text \<open>The meaning of a match: append \<open>n\<close> bytes, each the one \<open>dist\<close> bytes back.\<close>

fun lzCopy :: "nat \<Rightarrow> nat \<Rightarrow> bytes \<Rightarrow> bytes" where
  "lzCopy dist 0 out = out"
| "lzCopy dist (Suc n) out = lzCopy dist n (out @ [out ! (length out - dist)])"

lemma length_lzCopy [simp]: "length (lzCopy dist n out) = length out + n"
  by (induction dist n out rule: lzCopy.induct) auto

lemma lzCopy_prefix: "\<exists>d. lzCopy dist n out = out @ d \<and> length d = n"
proof (induction dist n out rule: lzCopy.induct)
  case (2 dist n out)
  then obtain d where "lzCopy dist n (out @ [out ! (length out - dist)]) = (out @ [out ! (length out - dist)]) @ d" "length d = n"
    by blast
  then show ?case by (intro exI [of _ "[out ! (length out - dist)] @ d"]) simp
qed simp

lemma lzCopy_old: "k < length out \<Longrightarrow> lzCopy dist n out ! k = out ! k"
  using lzCopy_prefix [of dist n out] by (auto simp: nth_append)

lemma lzCopy_back:
  assumes "1 \<le> dist" "dist \<le> length out" "length out \<le> k" "k < length out + n"
  shows "lzCopy dist n out ! k = lzCopy dist n out ! (k - dist)"
  using assms
proof (induction dist n out rule: lzCopy.induct)
  case (2 dist n out)
  let ?o = "out @ [out ! (length out - dist)]"
  show ?case
  proof (cases "k = length out")
    case True
    with 2 lzCopy_old [of "length out" ?o dist n] lzCopy_old [of "length out - dist" ?o dist n]
    show ?thesis by (simp add: nth_append)
  next
    case False
    with 2 show ?thesis by simp
  qed
qed simp

lemma lzCopy_shift:
  assumes "1 \<le> dist" "dist \<le> length out"
  shows "lzCopy dist n (dst @ out) = dst @ lzCopy dist n out"
  using assms
proof (induction dist n out rule: lzCopy.induct)
  case (2 dist n out)
  then have "length (dst @ out) - dist = length dst + (length out - dist)" by simp
  then have "(dst @ out) ! (length (dst @ out) - dist) = out ! (length out - dist)" by (simp only: nth_append_length_plus)
  with 2 show ?case by simp
qed simp

text \<open>From \<open>start\<close> on the output repeats with period \<open>dist\<close>.\<close>

lemma lzCopy_periodic:
  assumes "1 \<le> dist" "dist \<le> length out" and "length out - dist + a + m * dist < length out + n"
  shows "lzCopy dist n out ! (length out - dist + a + m * dist) = lzCopy dist n out ! (length out - dist + a)"
  using assms(3)
proof (induction m)
  case (Suc m)
  let ?k = "length out - dist + a + Suc m * dist"
  have "length out \<le> ?k" "?k - dist = length out - dist + a + m * dist" using assms(1,2) by simp_all
  with lzCopy_back [of dist out ?k n] Suc assms show ?case by simp
qed simp

lemma length_copyInto [simp]:
  "at + length bs \<le> length out \<Longrightarrow> length (copyInto out at bs) = length out"
  by (simp add: copyInto_def)

lemma copyInto_nth:
  assumes "at + length bs \<le> length out" "k < at + length bs"
  shows "copyInto out at bs ! k = (if k < at then out ! k else bs ! (k - at))"
  using assms by (auto simp: copyInto_def nth_append)

text \<open>
  The chunked copy: when the first \<open>pos + done\<close> bytes are right and \<open>done\<close> is a multiple of
  the distance, the loop completes the output, whatever bytes the buffer held before.
\<close>

lemma matchLoop_spec:
  assumes dist: "1 \<le> dist" "dist \<le> length out"
    and buf: "length buf = length out + n" "done \<le> n"
    and pre: "\<And>k. k < length out + done \<Longrightarrow> buf ! k = lzCopy dist n out ! k"
    and mult: "done = n \<or> dist dvd done"
  shows "matchLoop buf (length out - dist) (length out) n done = lzCopy dist n out"
  using buf pre mult
proof (induction "n - done" arbitrary: buf "done" rule: less_induct)
  case less
  let ?X = "lzCopy dist n out" and ?pos = "length out" and ?start = "length out - dist"
  show ?case
  proof (cases "n \<le> done")
    case True
    have "buf = ?X" by (rule nth_equalityI) (use less.prems True in auto)
    moreover have "matchLoop buf ?start ?pos n done = buf" using True by (subst matchLoop.simps) simp
    ultimately show ?thesis by simp
  next
    case False
    define c where "c = min (n - done) (?pos + done - ?start)"
    define chunk where "chunk = take c (drop ?start buf)"
    define buf' where "buf' = copyInto buf (?pos + done) chunk"
    have c: "0 < c" "done + c \<le> n" "c \<le> dist + done" using False dist by (auto simp: c_def)
    have lenc: "length chunk = c" using c dist less.prems(1) by (simp add: chunk_def)
    obtain m where m: "done = m * dist" using less.prems(4) False by (metis dvd_def mult.commute order_refl)
    have fit: "?pos + done + length chunk \<le> length buf" using c less.prems(1) by (simp add: lenc)
    have "buf' ! k = ?X ! k" if k: "k < ?pos + (done + c)" for k
    proof (cases "k < ?pos + done")
      case True
      with k fit less.prems(3) show ?thesis by (simp add: buf'_def copyInto_nth lenc)
    next
      case ge: False
      define t where "t = k - (?pos + done)"
      have t: "t < c" "k = ?pos + done + t" using ge k by (auto simp: t_def)
      have "buf' ! k = chunk ! t" using ge k fit by (simp add: buf'_def copyInto_nth lenc t_def)
      also have "\<dots> = buf ! (?start + t)" using t less.prems(1) dist c by (simp add: chunk_def)
      also have "\<dots> = ?X ! (?start + t)" using t c dist by (intro less.prems(3)) simp
      also have "\<dots> = ?X ! (?start + t + Suc m * dist)"
        by (rule lzCopy_periodic [symmetric]) (use dist t c m in auto)
      also have "?start + t + Suc m * dist = k" using t m dist by simp
      finally show ?thesis .
    qed
    moreover have "done + c = n \<or> dist dvd done + c"
    proof (cases "c = n - done")
      case False
      then have "c = dist + done" using dist by (auto simp: c_def)
      then show ?thesis using less.prems(4) \<open>\<not> n \<le> done\<close> by auto
    qed (use False in simp)
    ultimately have "matchLoop buf' ?start ?pos n (done + c) = ?X"
      using c False fit less.prems(1) by (intro less.hyps) (auto simp: buf'_def)
    moreover have "matchLoop buf ?start ?pos n done = matchLoop buf' ?start ?pos n (done + c)"
      using False dist by (subst matchLoop.simps) (auto simp: Let_def c_def buf'_def chunk_def)
    ultimately show ?thesis by simp
  qed
qed

lemma lzCopy_slice:
  assumes "1 \<le> dist" "dist \<le> length out" "n \<le> dist"
  shows "lzCopy dist n out = out @ take n (drop (length out - dist) out)"
proof (rule nth_equalityI)
  fix k
  assume k: "k < length (lzCopy dist n out)"
  show "lzCopy dist n out ! k = (out @ take n (drop (length out - dist) out)) ! k"
  proof (cases "k < length out")
    case True
    then show ?thesis by (simp add: lzCopy_old nth_append)
  next
    case False
    with k assms have "lzCopy dist n out ! k = out ! (k - dist)"
      by (simp add: lzCopy_back lzCopy_old)
    moreover have "length out - dist + (k - length out) = k - dist" using False assms by simp
    ultimately show ?thesis using False k assms by (simp add: nth_append)
  qed
qed (use assms in simp)

definition sink_wf :: "sink \<Rightarrow> bool" where
  "sink_wf s \<longleftrightarrow> 0 \<le> s_base s \<and> s_base s \<le> glen (s_out s) \<and> 0 \<le> s_room s"

text \<open>\<open>match\<close> refuses what it must and otherwise does the byte-by-byte copy; it never panics.\<close>

lemma sink_match_eq:
  assumes wf: "sink_wf s" and n: "0 \<le> n"
  shows "sink_match s dist n behind =
    (if dist > glen (s_out s) - s_base s \<or> dist < 1 then Inl (Err behind)
     else if n > s_room s then Inl (Err TooBig)
     else Inr (s\<lparr>s_out := lzCopy (nat dist) (nat n) (s_out s), s_room := s_room s - n\<rparr>))"
proof (cases "dist > glen (s_out s) - s_base s \<or> dist < 1 \<or> n > s_room s")
  case True
  then show ?thesis by (auto simp: sink_match_def)
next
  case False
  let ?o = "s_out s" and ?d = "nat dist" and ?n = "nat n"
  have d: "1 \<le> ?d" "?d \<le> length ?o" "int ?d = dist" "dist \<le> glen ?o"
    using False wf by (auto simp: sink_wf_def glen_def)
  have st: "nat (glen ?o - dist) = length ?o - ?d" using d by (simp add: glen_def nat_diff_distrib)
  show ?thesis
  proof (cases "n \<le> dist")
    case True
    then have "gslice ?o (glen ?o - dist) (glen ?o - dist + n)
        = (Inr (take ?n (drop (length ?o - ?d) ?o)) :: (comp_err, bytes) res)"
      using d n by (simp add: gslice_ok st)
    moreover have "lzCopy ?d ?n ?o = ?o @ take ?n (drop (length ?o - ?d) ?o)"
      using True d by (intro lzCopy_slice) auto
    ultimately show ?thesis using False True by (auto simp: sink_match_def Let_def)
  next
    case gt: False
    have "matchLoop (?o @ replicate ?n 0) (length ?o - ?d) (length ?o) ?n 0 = lzCopy ?d ?n ?o"
      using d by (intro matchLoop_spec) (auto simp: nth_append lzCopy_old)
    with False gt d show ?thesis by (auto simp: sink_match_def Let_def st)
  qed
qed

lemma literals_eq:
  assumes "0 \<le> i" "0 \<le> n"
  shows "literals s src i n truncated =
    (if n > glen src - i then Inl (Err truncated)
     else if n > s_room s then Inl (Err TooBig)
     else Inr (i + n, s\<lparr>s_out := s_out s @ take (nat n) (drop (nat i) src), s_room := s_room s - n\<rparr>))"
  using assms by (simp add: literals_def gslice_ok)

section \<open>A decompressor extends its buffer and reads nothing before it\<close>

text \<open>
  \<open>onTop dst s\<close> is the buffer \<open>s\<close> moved behind the bytes \<open>dst\<close>. An operation that commutes
  with it, for every \<open>dst\<close>, depends on nothing in \<open>dst\<close>.
\<close>

definition onTop :: "bytes \<Rightarrow> sink \<Rightarrow> sink" where
  "onTop dst s = s\<lparr>s_out := dst @ s_out s, s_base := s_base s + glen dst\<rparr>"

definition rmap :: "('a \<Rightarrow> 'b) \<Rightarrow> ('e, 'a) res \<Rightarrow> ('e, 'b) res" where
  "rmap f r = (case r of Inl e \<Rightarrow> Inl e | Inr a \<Rightarrow> Inr (f a))"

lemma rmap_simps [simp]: "rmap f (Inl e) = Inl e" "rmap f (Inr a) = Inr (f a)"
  by (simp_all add: rmap_def)

lemma onTop_simps [simp]:
  "s_out (onTop dst s) = dst @ s_out s" "s_base (onTop dst s) = s_base s + glen dst" "s_room (onTop dst s) = s_room s"
  by (simp_all add: onTop_def)

lemma onTop_update:
  "(onTop dst s)\<lparr>s_out := dst @ x, s_room := r\<rparr> = onTop dst (s\<lparr>s_out := x, s_room := r\<rparr>)"
  by (simp add: onTop_def)

lemma sink_wf_onTop [simp]: "sink_wf s \<Longrightarrow> sink_wf (onTop dst s)"
  by (auto simp: sink_wf_def)

definition extends :: "sink \<Rightarrow> sink \<Rightarrow> bool" where
  "extends s s' \<longleftrightarrow> (\<exists>d. s_out s' = s_out s @ d \<and> s_room s' = s_room s - glen d) \<and>
     s_base s' = s_base s \<and> 0 \<le> s_room s'"

lemma extends_wf: "sink_wf s \<Longrightarrow> extends s s' \<Longrightarrow> sink_wf s'"
  by (auto simp: extends_def sink_wf_def) (metis add_increasing2 glen_nonneg)

lemma extends_refl: "sink_wf s \<Longrightarrow> extends s s"
  by (auto simp: extends_def sink_wf_def intro!: exI [of _ "[]"])

lemma extends_trans: "extends s s' \<Longrightarrow> extends s' s'' \<Longrightarrow> extends s s''"
  by (fastforce simp: extends_def)

text \<open>
  What a piece of a decompressor that reads from index \<open>i\<close> promises: on a sound buffer and an
  index that is not negative it does not panic, it extends the buffer, its result does not
  depend on bytes below the buffer, and it never goes back.
\<close>

definition piece :: "(int \<Rightarrow> sink \<Rightarrow> ('e, int \<times> sink) res) \<Rightarrow> bool" where
  "piece f \<longleftrightarrow> (\<forall>i s. 0 \<le> i \<and> sink_wf s \<longrightarrow> f i s \<noteq> Inl Panic \<and>
     (\<forall>i' s'. f i s = Inr (i', s') \<longrightarrow> i \<le> i' \<and> extends s s') \<and>
     (\<forall>dst. f i (onTop dst s) = rmap (\<lambda>(i, s). (i, onTop dst s)) (f i s)))"

lemma pieceD:
  assumes "piece f" "0 \<le> i" "sink_wf s"
  shows "f i s \<noteq> Inl Panic" "f i s = Inr (i', s') \<Longrightarrow> i \<le> i' \<and> extends s s' \<and> sink_wf s'"
    "f i (onTop dst s) = rmap (\<lambda>(i, s). (i, onTop dst s)) (f i s)"
  using assms extends_wf unfolding piece_def by blast+

lemma piece_literals:
  assumes "0 \<le> n"
  shows "piece (\<lambda>i s. literals s src i n e)"
  using assms unfolding piece_def
  by (auto simp: literals_eq extends_def glen_def onTop_update split: if_splits intro!: exI [of _ "take (nat n) (drop (nat i) src)" for i])

lemma piece_match:
  assumes "0 \<le> n"
  shows "piece (\<lambda>i s. rmap (Pair i) (sink_match s dist n e))"
  unfolding piece_def
proof (intro allI impI, elim conjE)
  fix i :: int and s
  assume wf: "sink_wf s"
  have c: "nat dist \<le> length (s_out s)" if "\<not> dist > glen (s_out s) - s_base s"
    using that wf by (auto simp: sink_wf_def glen_def)
  from lzCopy_prefix [of "nat dist" "nat n" "s_out s"] assms
  obtain d where d: "lzCopy (nat dist) (nat n) (s_out s) = s_out s @ d" "glen d = n" by (auto simp: glen_def)
  show "rmap (Pair i) (sink_match s dist n e) \<noteq> Inl Panic \<and>
     (\<forall>i' s'. rmap (Pair i) (sink_match s dist n e) = Inr (i', s') \<longrightarrow> i \<le> i' \<and> extends s s') \<and>
     (\<forall>dst. rmap (Pair i) (sink_match (onTop dst s) dist n e) =
        rmap (\<lambda>(i, s). (i, onTop dst s)) (rmap (Pair i) (sink_match s dist n e)))"
    using wf assms d c
    by (auto simp: sink_match_eq extends_def lzCopy_shift onTop_update)
qed

text \<open>Reading the arguments of a piece first, from the input and the room left, gives a piece.\<close>

lemma piece_args:
  assumes args: "\<And>i room. 0 \<le> i \<Longrightarrow> args i room \<noteq> Inl Panic"
      "\<And>i room x j. 0 \<le> i \<Longrightarrow> args i room = Inr (x, j) \<Longrightarrow> i \<le> j \<and> P x"
    and f: "\<And>x. P x \<Longrightarrow> piece (f x)"
  shows "piece (\<lambda>i s. rbind (args i (s_room s)) (\<lambda>(x, j). f x j s))"
  unfolding piece_def
proof (intro allI impI, elim conjE)
  fix i :: int and s :: sink
  assume i: "0 \<le> i" and wf: "sink_wf s"
  let ?g = "\<lambda>i s. rbind (args i (s_room s)) (\<lambda>(x, j). f x j s)"
  show "?g i s \<noteq> Inl Panic \<and> (\<forall>i' s'. ?g i s = Inr (i', s') \<longrightarrow> i \<le> i' \<and> extends s s') \<and>
     (\<forall>dst. ?g i (onTop dst s) = rmap (\<lambda>(i, s). (i, onTop dst s)) (?g i s))"
  proof (cases "args i (s_room s)")
    case (Inl e)
    then show ?thesis using args(1) [OF i, of "s_room s"] by auto
  next
    case (Inr xj)
    then obtain x j where xj: "args i (s_room s) = Inr (x, j)" by (cases xj) auto
    from args(2) [OF i xj] have j: "i \<le> j" "0 \<le> j" "piece (f x)" using i f by auto
    from pieceD [OF j(3,2) wf] j(1) show ?thesis by (fastforce simp: xj)
  qed
qed

lemma lz4Length_no_panic: "0 \<le> i \<Longrightarrow> lz4Length src i n limit e \<noteq> Inl Panic"
proof (induction src i n limit e rule: lz4Length.induct)
  case (1 src i n limit e)
  show ?case
  proof (cases "glen src \<le> i")
    case False
    then obtain b where b: "gidx src i = (Inr b :: (comp_err, u8) res)" using "1.prems" by (simp add: gidx_def)
    with "1.IH" [OF False b refl refl _ refl] "1.prems" False show ?thesis
      by (subst lz4Length.simps) (auto simp: Let_def)
  qed (simp add: lz4Length.simps)
qed

lemma piece_lz4Literals: "piece (\<lambda>i s. lz4Literals src i token s)"
proof -
  let ?n = "uint (drop_bit 4 token)"
  let ?args = "\<lambda>i (room::int). if ?n = 15 then lz4Length src i ?n (glen src) LZ4Truncated else Inr (?n, i)"
  have "piece (\<lambda>i s. rbind (?args i (s_room s)) (\<lambda>(lit, j). literals s src j lit LZ4Truncated))"
  proof (rule piece_args [where P = "\<lambda>n. 0 \<le> n"])
    fix i room x j
    assume "?args i room = Inr (x, j)"
    then show "i \<le> j \<and> 0 \<le> x"
      using lz4Length_mono [of src i ?n "glen src" LZ4Truncated x j] uint_ge_0 [of "drop_bit 4 token"]
      by (auto split: if_splits)
  qed (auto simp: lz4Length_no_panic piece_literals)
  then show ?thesis by (simp add: lz4Literals_def Let_def)
qed

lemma rbind_Pair: "rbind m (\<lambda>s. Inr (i, s)) = rmap (Pair i) m"
  by (cases m) simp_all

lemma lz4MatchArgs_no_panic: "0 \<le> i \<Longrightarrow> lz4MatchArgs src i token room \<noteq> Inl Panic"
proof (cases "glen src - i < 2")
  case False
  assume i: "0 \<le> i"
  with False obtain lo hi where "gidx src i = (Inr lo :: (comp_err, u8) res)" "gidx src (i + 1) = (Inr hi :: (comp_err, u8) res)"
    by (simp add: gidx_def)
  with i False lz4Length_no_panic [of "i + 2" src "uint (token AND 15)" room TooBig] show ?thesis
    by (auto simp: lz4MatchArgs_def Let_def rbind_eq_Inl split: if_splits)
qed (simp add: lz4MatchArgs_def)

lemma piece_lz4Match: "piece (\<lambda>i s. lz4Match src i token s)"
proof -
  have "piece (\<lambda>i s. rbind (lz4MatchArgs src i token (s_room s))
      (\<lambda>(x, j). rmap (Pair j) (sink_match s (fst x) (snd x + 4) LZ4Distance)))"
    by (rule piece_args [where P = "\<lambda>x. 0 \<le> snd x"])
       (auto simp: lz4MatchArgs_no_panic piece_match dest!: lz4MatchArgs_mono)
  then show ?thesis by (simp add: lz4Match_def rbind_Pair case_prod_unfold)
qed

section \<open>Decoders\<close>

text \<open>
  A decoder is a loop over a step that either finishes with the output or goes on from a
  later index with a state of its own and an extended buffer. Both decompressors are of this
  form; what their steps promise carries over to the loop.
\<close>

fun moveResult :: "bytes \<Rightarrow> bytes + int \<times> 'st \<times> sink \<Rightarrow> bytes + int \<times> 'st \<times> sink" where
  "moveResult dst (Inl out) = Inl (dst @ out)"
| "moveResult dst (Inr (i, st, s)) = Inr (i, st, onTop dst s)"

locale decoder =
  fixes len :: int
    and step :: "int \<Rightarrow> 'st \<Rightarrow> sink \<Rightarrow> (comp_err, bytes + int \<times> 'st \<times> sink) res"
    and loop :: "int \<Rightarrow> 'st \<Rightarrow> sink \<Rightarrow> (comp_err, bytes) res"
  assumes loop_step: "loop i st s = (case step i st s of Inl e \<Rightarrow> Inl e | Inr (Inl out) \<Rightarrow> Inr out
      | Inr (Inr (i, st, s)) \<Rightarrow> loop i st s)"
    and step_total: "0 \<le> i \<Longrightarrow> sink_wf s \<Longrightarrow> step i st s \<noteq> Inl Panic"
    and step_later: "step i st s = Inr (Inr (i', st', s')) \<Longrightarrow> i < i' \<and> i < len"
    and step_extends: "0 \<le> i \<Longrightarrow> sink_wf s \<Longrightarrow> step i st s = Inr (Inr (i', st', s')) \<Longrightarrow> extends s s'"
    and step_ends: "0 \<le> i \<Longrightarrow> sink_wf s \<Longrightarrow> step i st s = Inr (Inl out) \<Longrightarrow> \<exists>s'. extends s s' \<and> out = s_out s'"
    and step_onTop: "0 \<le> i \<Longrightarrow> sink_wf s \<Longrightarrow> step i st (onTop dst s) = rmap (moveResult dst) (step i st s)"
begin

lemma loop_safe:
  assumes "0 \<le> i" "sink_wf s"
  shows "loop i st s \<noteq> Inl Panic \<and> (\<forall>out. loop i st s = Inr out \<longrightarrow> (\<exists>s'. extends s s' \<and> out = s_out s')) \<and>
     loop i st (onTop dst s) = rmap (\<lambda>out. dst @ out) (loop i st s)"
  using assms
proof (induction "nat (len - i)" arbitrary: i st s rule: less_induct)
  case less
  note total = step_total [OF less.prems, of st] and top = step_onTop [OF less.prems, of st dst]
  consider e where "step i st s = Inl (Err e)" | out where "step i st s = Inr (Inl out)"
    | i' st' s' where "step i st s = Inr (Inr (i', st', s'))"
    using total by (metis fault.exhaust old.sum.exhaust surj_pair)
  then show ?case
  proof cases
    case 1
    then show ?thesis using top by (simp add: loop_step [of i])
  next
    case 2
    then show ?thesis using top step_ends [OF less.prems 2] by (auto simp: loop_step [of i])
  next
    case 3
    from step_later [OF 3] step_extends [OF less.prems 3] less.prems
    have n: "nat (len - i') < nat (len - i)" "0 \<le> i'" "sink_wf s'" "extends s s'" using extends_wf by auto
    have eq: "loop i st s = loop i' st' s'" "loop i st (onTop dst s) = loop i' st' (onTop dst s')"
      using 3 top by (simp_all add: loop_step [of i])
    show ?thesis using less.hyps [OF n(1-3), of st'] n(4) unfolding eq by (meson extends_trans)
  qed
qed

end

text \<open>LZ4: a sequence per step, no further state.\<close>

definition lz4Step :: "bytes \<Rightarrow> int \<Rightarrow> unit \<Rightarrow> sink \<Rightarrow> (comp_err, bytes + int \<times> unit \<times> sink) res" where
  "lz4Step src i st s = rmap (map_sum id (\<lambda>(i, s). (i, (), s))) (lz4Sequence src i s)"

lemma lz4Sequence_cases:
  assumes i: "0 \<le> i" and wf: "sink_wf s"
  shows "lz4Sequence src i s \<noteq> Inl Panic \<and>
     (\<forall>out. lz4Sequence src i s = Inr (Inl out) \<longrightarrow> (\<exists>s'. extends s s' \<and> out = s_out s')) \<and>
     (\<forall>i' s'. lz4Sequence src i s = Inr (Inr (i', s')) \<longrightarrow> extends s s') \<and>
     lz4Sequence src i (onTop dst s) = rmap (map_sum (\<lambda>out. dst @ out) (\<lambda>(i, s). (i, onTop dst s))) (lz4Sequence src i s)"
proof (cases "glen src \<le> i")
  case True
  then show ?thesis by (simp add: lz4Sequence_def)
next
  case False
  then obtain token where t: "gidx src i = (Inr token :: (comp_err, u8) res)" using i by (simp add: gidx_def)
  have i1: "0 \<le> i + 1" using i by simp
  note L = pieceD [OF piece_lz4Literals [of src token] i1 wf]
  show ?thesis
  proof (cases "lz4Literals src (i + 1) token s")
    case (Inl e)
    then show ?thesis using False t L(1) L(3) [of dst] by (auto simp: lz4Sequence_def)
  next
    case (Inr r)
    then obtain j s1 where l: "lz4Literals src (i + 1) token s = Inr (j, s1)" by (cases r) auto
    from L(2) [OF l] have s1: "0 \<le> j" "extends s s1" "sink_wf s1" using i1 by auto
    note M = pieceD [OF piece_lz4Match [of src token] s1(1,3)]
    show ?thesis
    proof (cases "j = glen src")
      case True
      then show ?thesis using False t l L(3) [of dst] s1(2) by (auto simp: lz4Sequence_def)
    next
      case ne: False
      show ?thesis
      proof (cases "lz4Match src j token s1")
        case (Inl e)
        then show ?thesis using False ne t l L(3) [of dst] M(1) M(3) [of dst] by (auto simp: lz4Sequence_def)
      next
        case (Inr r)
        then obtain k s2 where m: "lz4Match src j token s1 = Inr (k, s2)" by (cases r) auto
        then show ?thesis using False ne t l L(3) [of dst] M(2) [OF m] M(3) [of dst] s1(2)
          by (auto simp: lz4Sequence_def intro: extends_trans)
      qed
    qed
  qed
qed

lemma rmap_eq: "rmap f r = Inr b \<longleftrightarrow> (\<exists>a. r = Inr a \<and> b = f a)" "rmap f r = Inl e \<longleftrightarrow> r = Inl e"
  by (cases r; auto)+

lemma lz4Step_eq:
  "lz4Step src i st s = Inr (Inr (i', st', s')) \<longleftrightarrow> lz4Sequence src i s = Inr (Inr (i', s'))"
  "lz4Step src i st s = Inr (Inl out) \<longleftrightarrow> lz4Sequence src i s = Inr (Inl out)"
proof -
  have "map_sum id (\<lambda>(i, s). (i, (), s)) a = Inr (i', st', s') \<longleftrightarrow> a = Inr (i', s')"
    "map_sum id (\<lambda>(i, s). (i, (), s)) a = (Inl out :: bytes + int \<times> unit \<times> sink) \<longleftrightarrow> a = Inl out" for a :: "bytes + int \<times> sink"
    by (cases a; auto)+
  then show "lz4Step src i st s = Inr (Inr (i', st', s')) \<longleftrightarrow> lz4Sequence src i s = Inr (Inr (i', s'))"
    "lz4Step src i st s = Inr (Inl out) \<longleftrightarrow> lz4Sequence src i s = Inr (Inl out)"
    by (cases "lz4Sequence src i s"; auto simp: lz4Step_def)+
qed

interpretation lz4: decoder "glen src" "lz4Step src" "\<lambda>i st s. lz4Loop src i s" for src
proof
  fix i i' :: int and s s' :: sink and st st' :: unit and out dst
  show "lz4Loop src i s = (case lz4Step src i st s of Inl e \<Rightarrow> Inl e | Inr (Inl out) \<Rightarrow> Inr out
      | Inr (Inr (i, st, s)) \<Rightarrow> lz4Loop src i s)"
    by (subst lz4Loop.simps) (auto simp: lz4Step_def split: sum.split)
  show "lz4Step src i st s = Inr (Inr (i', st', s')) \<Longrightarrow> i < i' \<and> i < glen src"
    using lz4Sequence_mono [of src i s] by (simp add: lz4Step_eq)
  assume a: "0 \<le> i" "sink_wf s"
  note c = lz4Sequence_cases [OF a, of src]
  show "lz4Step src i st s \<noteq> Inl Panic" using c by (simp add: lz4Step_def rmap_eq)
  show "extends s s'" if "lz4Step src i st s = Inr (Inr (i', st', s'))"
    using that c by (simp add: lz4Step_eq)
  show "\<exists>s'. extends s s' \<and> out = s_out s'" if "lz4Step src i st s = Inr (Inl out)"
    using that c by (simp add: lz4Step_eq)
  show "lz4Step src i st (onTop dst s) = rmap (moveResult dst) (lz4Step src i st s)"
    using c [of dst] by (cases "lz4Sequence src i s") (auto simp: lz4Step_def map_sum_def split: sum.splits)
qed

text \<open>LZO: an instruction per step; the state is what the previous one copied.\<close>

lemma lzoLength_no_panic: "0 \<le> i \<Longrightarrow> lzoLength src i n \<noteq> Inl Panic"
proof (induction src i n rule: lzoLength.induct)
  case (1 src i n)
  show ?case
  proof (cases "glen src \<le> i")
    case False
    then obtain b where b: "gidx src i = (Inr b :: (comp_err, u8) res)" using "1.prems" by (simp add: gidx_def)
    with "1.IH" [OF False b refl refl _ refl] "1.prems" False show ?thesis
      by (subst lzoLength.simps) (auto simp: Let_def)
  qed (simp add: lzoLength.simps)
qed

lemma lzoM34_no_panic: "0 \<le> i \<Longrightarrow> lzoM34 src i t \<noteq> Inl Panic"
  using lzoLength_no_panic [of i src]
  by (auto simp: lzoM34_def rbind_eq_Inl Let_def gidx_def split: if_splits dest!: lzoLength_mono)

lemma lzoInsnAt_no_panic: "0 \<le> i \<Longrightarrow> lzoInsnAt src i state \<noteq> Inl Panic"
  using lzoLength_no_panic [of "i + 1" src] lzoM34_no_panic [of "i + 1" src]
  by (auto simp: lzoInsnAt_def rbind_eq_Inl Let_def lzoM2_def lzoRun_def lzoM1_def gidx_def split: if_splits)

lemma and_nonneg_int: "0 \<le> m \<Longrightarrow> 0 \<le> t AND (m::int)"
  by simp

lemma lzoM34_len: "lzoM34 src i t = Inr (InsnMatch dist len trailing j) \<Longrightarrow> 0 \<le> len"
  by (auto simp: lzoM34_def rbind_eq_Inr Let_def split: if_splits dest!: lzoLength_mono)

lemma lzoInsnAt_len:
  assumes "lzoInsnAt src i state = Inr (InsnMatch dist len trailing j)"
  shows "0 \<le> len"
  using assms
  by (auto simp: lzoInsnAt_def rbind_eq_Inr Let_def lzoM2_def lzoRun_def lzoM1_def lzoM34_len split: if_splits)

lemma piece_id: "piece (\<lambda>i s. Inr (i, s))"
  by (simp add: piece_def extends_refl)

lemma piece_then:
  assumes "piece f" "piece g" "0 \<le> i" "sink_wf s"
  shows "rbind (f i s) (\<lambda>(i, s). g i s) \<noteq> Inl Panic" "rbind (f i s) (\<lambda>(i, s). g i s) = Inr (i', s') \<Longrightarrow> extends s s'"
    "rbind (f i (onTop dst s)) (\<lambda>(i, s). g i s) = rmap (\<lambda>(i, s). (i, onTop dst s)) (rbind (f i s) (\<lambda>(i, s). g i s))"
proof -
  note F = pieceD [OF assms(1,3,4)]
  have "rbind (f i s) (\<lambda>(i, s). g i s) \<noteq> Inl Panic \<and>
    (rbind (f i s) (\<lambda>(i, s). g i s) = Inr (i', s') \<longrightarrow> extends s s') \<and>
    rbind (f i (onTop dst s)) (\<lambda>(i, s). g i s) = rmap (\<lambda>(i, s). (i, onTop dst s)) (rbind (f i s) (\<lambda>(i, s). g i s))"
  proof (cases "f i s")
    case (Inl e)
    then show ?thesis using F(1) F(3) [of dst] by simp
  next
    case (Inr r)
    then obtain j s1 where f: "f i s = Inr (j, s1)" by (cases r) auto
    from F(2) [OF f] have s1: "0 \<le> j" "extends s s1" "sink_wf s1" using assms(3) by auto
    note G = pieceD [OF assms(2) s1(1,3)]
    show ?thesis using F(3) [of dst] f G(1) G(2) [of i' s'] G(3) [of dst] s1(2) by (auto intro: extends_trans)
  qed
  then show "rbind (f i s) (\<lambda>(i, s). g i s) \<noteq> Inl Panic" "rbind (f i s) (\<lambda>(i, s). g i s) = Inr (i', s') \<Longrightarrow> extends s s'"
    "rbind (f i (onTop dst s)) (\<lambda>(i, s). g i s) = rmap (\<lambda>(i, s). (i, onTop dst s)) (rbind (f i s) (\<lambda>(i, s). g i s))"
    by blast+
qed

text \<open>What an instruction does to the buffer, as a piece that goes on in a given state.\<close>

definition lzoCopyStep :: "bytes \<Rightarrow> int \<Rightarrow> int \<Rightarrow> int \<Rightarrow> int \<Rightarrow> sink \<Rightarrow> (comp_err, int \<times> sink) res" where
  "lzoCopyStep src dist len trailing i s =
    rbind (rmap (Pair i) (sink_match s dist len LZODistance)) (\<lambda>(i, s).
      if trailing > 0 then literals s src i trailing LZOTruncated else Inr (i, s))"

lemma lzoStep_match:
  "lzoInsnAt src i state = Inr (InsnMatch dist len trailing j) \<Longrightarrow>
     lzoStep src i state s = rmap (\<lambda>(i, s). Inr (i, trailing, s)) (lzoCopyStep src dist len trailing j s)"
  by (cases "sink_match s dist len LZODistance") (auto simp: lzoStep_def lzoCopyStep_def rmap_def rbind_def split: sum.split)

lemma piece_trailing: "piece (\<lambda>i s. if trailing > 0 then literals s src i trailing LZOTruncated else Inr (i, s))"
  by (cases "trailing > 0") (simp_all add: piece_literals piece_id)

lemma lzoStep_cases:
  assumes i: "0 \<le> i" and wf: "sink_wf s"
  shows "lzoStep src i state s \<noteq> Inl Panic \<and>
     (\<forall>out. lzoStep src i state s = Inr (Inl out) \<longrightarrow> (\<exists>s'. extends s s' \<and> out = s_out s')) \<and>
     (\<forall>i' st' s'. lzoStep src i state s = Inr (Inr (i', st', s')) \<longrightarrow> extends s s') \<and>
     lzoStep src i state (onTop dst s) = rmap (moveResult dst) (lzoStep src i state s)"
proof (cases "lzoInsnAt src i state")
  case (Inl e)
  then show ?thesis using lzoInsnAt_no_panic [OF i] by (auto simp: lzoStep_def)
next
  case insn: (Inr insn)
  show ?thesis
  proof (cases insn)
    case (InsnMatch dist len trailing j)
    with insn have m: "lzoInsnAt src i state = Inr (InsnMatch dist len trailing j)" by simp
    have j: "0 \<le> j" using lzoInsnAt_mono [OF m] i by simp
    note C = piece_then [OF piece_match [OF lzoInsnAt_len [OF m], of dist LZODistance] piece_trailing [of trailing src] j wf]
    show ?thesis using C(1) C(2) C(3) [of dst]
      unfolding lzoStep_match [OF m] lzoCopyStep_def [symmetric]
      by (cases "lzoCopyStep src dist len trailing j s") (auto simp: rmap_eq)
  next
    case (InsnRun n j)
    with insn lzoInsnAt_mono [of src i state insn] i have n: "0 \<le> n" "0 \<le> j" by auto
    note L = pieceD [OF piece_literals [OF n(1), of src LZOTruncated] n(2) wf]
    show ?thesis using insn InsnRun L(1) L(2) L(3) [of dst]
      by (cases "literals s src j n LZOTruncated") (auto simp: lzoStep_def)
  next
    case (InsnEnd j)
    then show ?thesis using insn extends_refl [OF wf] by (auto simp: lzoStep_def)
  qed
qed

interpretation lzo: decoder "glen src" "lzoStep src" "lzoLoop src" for src
proof
  fix i i' :: int and s s' :: sink and st st' :: int and out dst
  show "lzoLoop src i st s = (case lzoStep src i st s of Inl e \<Rightarrow> Inl e | Inr (Inl out) \<Rightarrow> Inr out
      | Inr (Inr (i, st, s)) \<Rightarrow> lzoLoop src i st s)"
    by (rule lzoLoop.simps)
  show "lzoStep src i st s = Inr (Inr (i', st', s')) \<Longrightarrow> i < i' \<and> i < glen src"
    by (rule lzoStep_mono)
  assume a: "0 \<le> i" "sink_wf s"
  note c = lzoStep_cases [OF a, of src st]
  show "lzoStep src i st s \<noteq> Inl Panic" using c by blast
  show "extends s s'" if "lzoStep src i st s = Inr (Inr (i', st', s'))" using that c by blast
  show "\<exists>s'. extends s s' \<and> out = s_out s'" if "lzoStep src i st s = Inr (Inl out)" using that c by blast
  show "lzoStep src i st (onTop dst s) = rmap (moveResult dst) (lzoStep src i st s)" using c [of dst] by blast
qed

section \<open>The decompressors\<close>

lemma newSink_onTop: "newSink dst maxOut = onTop dst (newSink [] maxOut)"
  by (simp add: newSink_def onTop_def)

lemma newSink_wf: "sink_wf (newSink dst maxOut)"
  by (simp add: sink_wf_def newSink_def)

text \<open>What both decompressors promise.\<close>

definition safe_decompressor :: "(bytes \<Rightarrow> bytes \<Rightarrow> int \<Rightarrow> (comp_err, bytes) res) \<Rightarrow> bool" where
  "safe_decompressor fn \<longleftrightarrow> (\<forall>dst src maxOut. fn dst src maxOut \<noteq> Inl Panic \<and>
     (\<forall>out. fn [] src maxOut = Inr out \<longrightarrow> glen out \<le> max maxOut 0) \<and>
     fn dst src maxOut = rmap (\<lambda>out. dst @ out) (fn [] src maxOut))"

lemma extends_newSink: "extends (newSink [] maxOut) s \<Longrightarrow> glen (s_out s) \<le> max maxOut 0"
  by (auto simp: extends_def newSink_def)

lemma LZ4_safe: "safe_decompressor DecompressLZ4Block"
  unfolding safe_decompressor_def
proof (intro allI)
  fix dst src :: bytes and maxOut :: int
  note L = lz4.loop_safe [of 0 "newSink [] maxOut" src dst, OF _ newSink_wf]
  show "DecompressLZ4Block dst src maxOut \<noteq> Inl Panic \<and>
     (\<forall>out. DecompressLZ4Block [] src maxOut = Inr out \<longrightarrow> glen out \<le> max maxOut 0) \<and>
     DecompressLZ4Block dst src maxOut = rmap (\<lambda>out. dst @ out) (DecompressLZ4Block [] src maxOut)"
    using L extends_newSink unfolding DecompressLZ4Block_def newSink_onTop [of dst]
    by (auto simp: rmap_eq)
qed

lemma lzoFirst_safe:
  assumes b: "b > (17::u8)"
  defines "n \<equiv> uint b - 17"
  shows "rbind (literals (newSink dst maxOut) src 1 n LZOTruncated) (\<lambda>(i, s). lzoLoop src i (min n 4) s) \<noteq> Inl Panic \<and>
     (\<forall>out. rbind (literals (newSink [] maxOut) src 1 n LZOTruncated) (\<lambda>(i, s). lzoLoop src i (min n 4) s) = Inr out
        \<longrightarrow> glen out \<le> max maxOut 0) \<and>
     rbind (literals (newSink dst maxOut) src 1 n LZOTruncated) (\<lambda>(i, s). lzoLoop src i (min n 4) s) =
       rmap (\<lambda>out. dst @ out) (rbind (literals (newSink [] maxOut) src 1 n LZOTruncated) (\<lambda>(i, s). lzoLoop src i (min n 4) s))"
proof -
  have "uint (17::u8) < uint b" using b by (simp add: word_less_def)
  then have n: "0 \<le> n" by (simp add: n_def)
  have one: "0 \<le> (1::int)" by simp
  note P = pieceD [OF piece_literals [OF n, of src LZOTruncated] one newSink_wf]
  show ?thesis
  proof (cases "literals (newSink [] maxOut) src 1 n LZOTruncated")
    case (Inl e)
    then show ?thesis using P(1) [of "[]" maxOut] P(3) [of dst "[]" maxOut] by (auto simp: newSink_onTop [of dst])
  next
    case (Inr r)
    then obtain j s where l: "literals (newSink [] maxOut) src 1 n LZOTruncated = Inr (j, s)" by (cases r) auto
    from P(2) [OF l] have s: "0 \<le> j" "extends (newSink [] maxOut) s" "sink_wf s" by auto
    note L = lzo.loop_safe [OF s(1,3), of src "min n 4" dst]
    have t: "literals (newSink dst maxOut) src 1 n LZOTruncated = Inr (j, onTop dst s)"
      using P(3) [of dst "[]" maxOut] l by (simp add: newSink_onTop [of dst])
    show ?thesis using L extends_trans [OF s(2)] extends_newSink by (auto simp: l t rmap_eq)
  qed
qed

lemma LZO1X_safe: "safe_decompressor DecompressLZO1X"
  unfolding safe_decompressor_def
proof (intro allI)
  fix dst src :: bytes and maxOut :: int
  let ?ok = "\<lambda>f. f dst \<noteq> Inl Panic \<and> (\<forall>out. f [] = Inr out \<longrightarrow> glen out \<le> max maxOut 0) \<and>
     f dst = rmap (\<lambda>out. dst @ out) (f [])"
  have "?ok (\<lambda>dst. DecompressLZO1X dst src maxOut)"
  proof (cases src)
    case Nil
    then show ?thesis by (simp add: DecompressLZO1X_def)
  next
    case (Cons b rest)
    then have ne: "glen src \<noteq> 0" and b: "gidx src 0 = (Inr b :: (comp_err, u8) res)"
      using glen_nonneg [of rest] by (auto simp: gidx_def)
    note L = lzo.loop_safe [of 0 "newSink [] maxOut" src 0 dst, OF _ newSink_wf]
    show ?thesis
    proof (cases "b > 17")
      case True
      then have D: "\<And>dst. DecompressLZO1X dst src maxOut =
          rbind (literals (newSink dst maxOut) src 1 (uint b - 17) LZOTruncated) (\<lambda>(i, s). lzoLoop src i (min (uint b - 17) 4) s)"
        using ne b by (simp add: DecompressLZO1X_def Let_def)
      show ?thesis unfolding D by (rule lzoFirst_safe [OF True])
    next
      case False
      have "\<And>dst. DecompressLZO1X dst src maxOut = lzoLoop src 0 0 (newSink dst maxOut)"
        using False ne b by (simp add: DecompressLZO1X_def Let_def)
      then show ?thesis using L extends_newSink by (auto simp: newSink_onTop [of dst] rmap_eq)
    qed
  qed
  then show "DecompressLZO1X dst src maxOut \<noteq> Inl Panic \<and>
     (\<forall>out. DecompressLZO1X [] src maxOut = Inr out \<longrightarrow> glen out \<le> max maxOut 0) \<and>
     DecompressLZO1X dst src maxOut = rmap (\<lambda>out. dst @ out) (DecompressLZO1X [] src maxOut)" .
qed

lemma safe_decompressorD:
  assumes "safe_decompressor fn"
  shows "fn dst src maxOut \<noteq> Inl Panic" "fn dst src maxOut = rmap (\<lambda>out. dst @ out) (fn [] src maxOut)"
    "case fn [] src maxOut of Inl _ \<Rightarrow> True | Inr out \<Rightarrow> glen out \<le> max maxOut 0"
proof -
  have s: "fn dst src maxOut \<noteq> Inl Panic" "fn dst src maxOut = rmap (\<lambda>out. dst @ out) (fn [] src maxOut)"
    "\<forall>out. fn [] src maxOut = Inr out \<longrightarrow> glen out \<le> max maxOut 0"
    using assms unfolding safe_decompressor_def by blast+
  show "fn dst src maxOut \<noteq> Inl Panic" "fn dst src maxOut = rmap (\<lambda>out. dst @ out) (fn [] src maxOut)"
    by (fact s)+
  show "case fn [] src maxOut of Inl _ \<Rightarrow> True | Inr out \<Rightarrow> glen out \<le> max maxOut 0"
    using s(3) by (simp split: sum.split)
qed

lemma decompress_safe:
  assumes "safe_decompressor fn"
  shows "decompress fn dst src maxOut = fn [] src maxOut" "fn [] src maxOut \<noteq> Inl Panic"
    "fn [] src maxOut = Inr out \<Longrightarrow> glen out \<le> max k (max maxOut 0)"
proof -
  have s: "fn dst src maxOut = rmap (\<lambda>out. dst @ out) (fn [] src maxOut)" "fn [] src maxOut \<noteq> Inl Panic"
    "\<And>out. fn [] src maxOut = Inr out \<Longrightarrow> glen out \<le> max maxOut 0"
    using assms unfolding safe_decompressor_def by blast+
  show "decompress fn dst src maxOut = fn [] src maxOut"
    unfolding decompress_def s(1) by (cases "fn [] src maxOut") (simp_all add: gfrom_ok glen_def)
  show "fn [] src maxOut \<noteq> Inl Panic" using s by blast
  show "fn [] src maxOut = Inr out \<Longrightarrow> glen out \<le> max k (max maxOut 0)"
    using s(3) by (metis max.coboundedI2)
qed

text \<open>
  Claim C11. Both decompressors are safe on any input: they never panic, append at most
  \<open>maxOut\<close> bytes to \<open>dst\<close>, and what they append is what they would produce on an empty \<open>dst\<close>,
  so no match reads the caller's bytes.
\<close>

theorem decompressors_safe:
  "DecompressLZ4Block dst src maxOut \<noteq> Inl Panic \<and> DecompressLZO1X dst src maxOut \<noteq> Inl Panic \<and>
   DecompressLZ4Block dst src maxOut = rmap (\<lambda>out. dst @ out) (DecompressLZ4Block [] src maxOut) \<and>
   DecompressLZO1X dst src maxOut = rmap (\<lambda>out. dst @ out) (DecompressLZO1X [] src maxOut) \<and>
   (case DecompressLZ4Block [] src maxOut of Inl _ \<Rightarrow> True | Inr out \<Rightarrow> glen out \<le> max maxOut 0) \<and>
   (case DecompressLZO1X [] src maxOut of Inl _ \<Rightarrow> True | Inr out \<Rightarrow> glen out \<le> max maxOut 0)"
  by (intro conjI safe_decompressorD LZ4_safe LZO1X_safe)

section \<open>Framing\<close>

lemma Unframe_bounded:
  "fst (Unframe m dst payload maxOut) \<noteq> Inl Panic \<and>
   fst (Unframe m dst payload maxOut) = fst (Unframe m [] payload maxOut) \<and>
   (case fst (Unframe m dst payload maxOut) of Inl _ \<Rightarrow> True
    | Inr out \<Rightarrow> glen out \<le> max (glen payload) (max maxOut 0))"
proof -
  note L4 = decompress_safe [OF LZ4_safe] and LO = decompress_safe [OF LZO1X_safe]
  show ?thesis
  proof (cases payload)
    case Nil
    then show ?thesis by (simp add: Unframe_def)
  next
    case (Cons b rest)
    have lzo: "unframeLZO dst payload maxOut \<noteq> Inl Panic \<and> unframeLZO dst payload maxOut = unframeLZO [] payload maxOut \<and>
      (case unframeLZO dst payload maxOut of Inl _ \<Rightarrow> True | Inr out \<Rightarrow> glen out \<le> max (glen payload) (max maxOut 0))"
      using LO(2,3) [of rest maxOut] by (auto simp: Cons unframeLZO_def LO(1) split: sum.split)
    have v2: "unframeV2 dst payload maxOut \<noteq> Inl Panic \<and> unframeV2 dst payload maxOut = unframeV2 [] payload maxOut \<and>
      (case unframeV2 dst payload maxOut of Inl _ \<Rightarrow> True | Inr out \<Rightarrow> glen out \<le> max (glen payload) (max maxOut 0))"
    proof (cases rest)
      case Nil
      then show ?thesis by (simp add: Cons unframeV2_def)
    next
      case r: (Cons alg rest')
      then show ?thesis using L4(2,3) [of rest' maxOut] by (auto simp: Cons unframeV2_def L4(1) split: sum.split)
    qed
    define body where "body = take (length rest) (payload[0 := payload ! length rest])"
    have sl: "gidx payload (glen payload - 1) = (Inr (payload ! length rest) :: (comp_err, u8) res)"
      "gslice (payload[0 := payload ! length rest]) 0 (glen payload - 1) = (Inr body :: (comp_err, bytes) res)"
      by (simp_all add: Cons body_def gidx_def gslice_def glen_def)
    have z: "gidx payload 0 = (Inr b :: (comp_err, u8) res)" by (simp add: Cons)
    have "glen body \<le> glen payload" by (simp add: body_def glen_def)
    then have sw: "fst (unframeSwap dst payload maxOut) \<noteq> Inl Panic \<and>
      fst (unframeSwap dst payload maxOut) = fst (unframeSwap [] payload maxOut) \<and>
      (case fst (unframeSwap dst payload maxOut) of Inl _ \<Rightarrow> True | Inr out \<Rightarrow> glen out \<le> max (glen payload) (max maxOut 0))"
      using L4(2,3) [of body maxOut]
      by (auto simp: unframeSwap_def Let_def sl L4(1) z split: sum.split)
    show ?thesis using lzo v2 sw by (auto simp: Unframe_def)
  qed
qed

text \<open>
  Claim C12. \<open>Unframe\<close> never panics, whatever the mode, the payload and the limit; its result
  does not depend on the contents of the scratch buffer \<open>dst\<close>; and what it returns is no
  longer than the payload or the limit.
\<close>

theorem Unframe_safe:
  "fst (Unframe m dst payload maxOut) \<noteq> Inl Panic \<and>
   fst (Unframe m dst payload maxOut) = fst (Unframe m [] payload maxOut) \<and>
   (case fst (Unframe m dst payload maxOut) of Inl _ \<Rightarrow> True
    | Inr out \<Rightarrow> glen out \<le> max (glen payload) (max maxOut 0))"
  by (rule Unframe_bounded)

end
