(* ===== verification/Compress_Format.thy ===== *)
theory Compress_Format
  imports Compress_Safe
begin

text \<open>
  Functional correctness of the compression package: \<open>Unframe\<close> undoes \<open>Frame\<close> in every mode,
  and \<open>DecompressLZ4Block\<close> gives every well-formed LZ4 block its meaning. The LZ4 block
  format is stated independently of the decoder: a list of sequences (literals, offset, match
  length) with final literals, how such a block is written as bytes, and what it stands for.
\<close>

section \<open>Framing round trip\<close>

lemma Unframe_inverts:
  "Frame m dst payload = dst @ Frame m [] payload \<and>
   fst (Unframe m scratch (Frame m [] payload) maxOut) =
     (if m \<in> {ModeNone, LZO, Swap, V2} then Inr payload else Inl (Err (UnknownMode m)))"
proof (cases payload)
  case Nil
  then show ?thesis by (simp add: Frame_def Unframe_def)
next
  case (Cons first rest)
  have sw: "fst (unframeSwap scratch (swapPlain # rest @ [first]) maxOut) = Inr (first # rest)"
  proof -
    have "gidx (swapPlain # rest @ [first]) (1 + glen rest) = (Inr first :: (comp_err, u8) res)"
      by (simp add: gidx_def nat_add_distrib nth_append)
    then show ?thesis by (simp add: unframeSwap_def Let_def gslice_def nat_add_distrib)
  qed
  consider "m = ModeNone" | "m = LZO" | "m = Swap" | "m = V2" | "m \<notin> {ModeNone, LZO, Swap, V2}" by blast
  then show ?thesis
  proof cases
    case 3
    with Cons sw show ?thesis by (simp add: Frame_def Unframe_def mode_defs glen_def)
  next
    case 4
    with Cons show ?thesis by (simp add: Frame_def Unframe_def mode_defs unframeV2_def flag_defs glen_def)
  qed (use Cons in \<open>simp_all add: Frame_def Unframe_def mode_defs unframeLZO_def glen_def\<close>)
qed

text \<open>
  Claim C13. A framed payload is appended to \<open>dst\<close>, and \<open>Unframe\<close> in the same mode gives the
  payload back, whatever its first byte and also when it is empty; a mode without a name is
  refused. Unframing needs no decompression, so it works with any limit.
\<close>

theorem Unframe_Frame:
  "Frame m dst payload = dst @ Frame m [] payload \<and>
   fst (Unframe m scratch (Frame m [] payload) maxOut) =
     (if m \<in> {ModeNone, LZO, Swap, V2} then Inr payload else Inl (Err (UnknownMode m)))"
  by (rule Unframe_inverts)

section \<open>The LZ4 block format\<close>

record lz4Seq =
  lits :: bytes
  off :: nat
  mlen :: nat

text \<open>Extension bytes of a length, the token of two lengths, a sequence, the final literals.\<close>

fun lz4Ext :: "nat \<Rightarrow> bytes" where
  "lz4Ext k = (if k < 255 then [of_nat k] else 255 # lz4Ext (k - 255))"

declare lz4Ext.simps [simp del]

definition lz4LenBytes :: "nat \<Rightarrow> bytes" where
  "lz4LenBytes n = (if n < 15 then [] else lz4Ext (n - 15))"

definition lz4Token :: "nat \<Rightarrow> nat \<Rightarrow> u8" where
  "lz4Token a b = of_nat (16 * min a 15 + min b 15)"

definition lz4SeqBytes :: "lz4Seq \<Rightarrow> bytes" where
  "lz4SeqBytes q = lz4Token (length (lits q)) (mlen q - 4) # lz4LenBytes (length (lits q)) @ lits q @
     [of_nat (off q mod 256), of_nat (off q div 256)] @ lz4LenBytes (mlen q - 4)"

definition lz4LastBytes :: "bytes \<Rightarrow> bytes" where
  "lz4LastBytes l = lz4Token (length l) 0 # lz4LenBytes (length l) @ l"

definition lz4Block :: "lz4Seq list \<Rightarrow> bytes \<Rightarrow> bytes" where
  "lz4Block qs l = concat (map lz4SeqBytes qs) @ lz4LastBytes l"

text \<open>What a block stands for, and when its sequences are legal after the output \<open>out\<close>.\<close>

fun lz4Apply :: "bytes \<Rightarrow> lz4Seq list \<Rightarrow> bytes" where
  "lz4Apply out [] = out"
| "lz4Apply out (q # qs) = lz4Apply (lzCopy (off q) (mlen q) (out @ lits q)) qs"

fun lz4Legal :: "bytes \<Rightarrow> lz4Seq list \<Rightarrow> bool" where
  "lz4Legal out [] = True"
| "lz4Legal out (q # qs) =
     (1 \<le> off q \<and> off q < 65536 \<and> off q \<le> length out + length (lits q) \<and> 4 \<le> mlen q \<and>
      lz4Legal (lzCopy (off q) (mlen q) (out @ lits q)) qs)"

section \<open>Reading what was written\<close>

lemma uint_of_nat_byte: "k < 256 \<Longrightarrow> uint (of_nat k :: u8) = int k"
  by (simp add: uint_nat unat_of_nat)

lemma lz4Token_high: "uint (drop_bit 4 (lz4Token a b)) = int (min a 15)"
proof -
  let ?x = "16 * min a 15 + min b 15"
  have "?x < 256" by simp
  then have "uint (lz4Token a b) = int ?x" unfolding lz4Token_def by (rule uint_of_nat_byte)
  then have "uint (drop_bit 4 (lz4Token a b)) = int ?x div 16" 
    unfolding unsigned_drop_bit_eq by (simp add: drop_bit_eq_div take_bit_int_eq_self)
  also have "int ?x div 16 = int (?x div 16)" by (simp add: zdiv_int)
  also have "?x div 16 = min a 15" by (simp add: div_add1_eq)
  finally show ?thesis .
qed

lemma lz4Token_low: "uint (lz4Token a b AND 15) = int (min b 15)"
proof -
  let ?x = "16 * min a 15 + min b 15"
  have "?x < 256" by simp
  then have u: "uint (lz4Token a b) = int ?x" unfolding lz4Token_def by (rule uint_of_nat_byte)
  have "lz4Token a b AND 15 = take_bit 4 (lz4Token a b)" by (simp add: take_bit_eq_mask mask_eq_exp_minus_1)
  then have "uint (lz4Token a b AND 15) = take_bit 4 (uint (lz4Token a b))" by (simp add: unsigned_take_bit_eq)
  also have "\<dots> = int ?x mod 16" by (simp add: u take_bit_eq_mod)
  also have "\<dots> = int (?x mod 16)" by (simp add: zmod_int)
  also have "?x mod 16 = min b 15" by simp
  finally show ?thesis .
qed

lemma lz4Offset:
  assumes "n < 65536"
  shows "uint (of_nat (n mod 256) :: u8) OR push_bit 8 (uint (of_nat (n div 256) :: u8)) = int n"
proof -
  have "n div 256 < 256" using assms by (simp add: less_mult_imp_div_less)
  then have u: "uint (of_nat (n mod 256) :: u8) = int (n mod 256)" "uint (of_nat (n div 256) :: u8) = int (n div 256)"
    by (simp_all add: uint_of_nat_byte)
  have "int (n mod 256) OR push_bit 8 (int (n div 256)) = int (n mod 256) + push_bit 8 (int (n div 256))"
  proof (rule disjunctive_add [symmetric])
    fix k
    have "\<not> bit (int (n mod 256)) k" if "8 \<le> k"
    proof -
      have "int (n mod 256) = take_bit 8 (int n)" by (simp add: take_bit_eq_mod zmod_int)
      then show ?thesis using that by (simp add: bit_simps)
    qed
    then show "\<not> bit (int (n mod 256)) k \<or> \<not> bit (push_bit 8 (int (n div 256))) k"
      by (cases "8 \<le> k") (auto simp: bit_simps)
  qed
  also have "\<dots> = int n" by (simp add: push_bit_eq_mult zmod_int zdiv_int)
  finally show ?thesis unfolding u .
qed

lemma gidx_at: "gidx (pre @ x # post) (glen pre) = Inr x"
  by (simp add: gidx_def glen_def)

lemma lz4Length_ext:
  assumes "n + int k \<le> limit"
  shows "lz4Length (pre @ lz4Ext k @ post) (glen pre) n limit e = Inr (n + int k, glen pre + glen (lz4Ext k))"
  using assms
proof (induction k arbitrary: pre n rule: less_induct)
  case (less k)
  have i: "\<not> glen (pre @ b # xs) \<le> glen pre" for b xs by (simp add: glen_def)
  show ?case
  proof (cases "k < 255")
    case True
    then have e: "lz4Ext k = [of_nat k]" by (simp add: lz4Ext.simps)
    have u: "uint (of_nat k :: u8) = int k" using True by (intro uint_of_nat_byte) simp
    show ?thesis using less.prems True i
      by (subst lz4Length.simps) (simp add: e gidx_at u Let_def)
  next
    case False
    then have e: "lz4Ext k = 255 # lz4Ext (k - 255)" by (simp add: lz4Ext.simps [of k])
    have IH: "lz4Length ((pre @ [255]) @ lz4Ext (k - 255) @ post) (glen (pre @ [255])) (n + 255) limit e
        = Inr (n + 255 + int (k - 255), glen (pre @ [255]) + glen (lz4Ext (k - 255)))"
      using False less.prems by (intro less.IH) auto
    have u: "uint (255 :: u8) = 255" by simp
    have ne: "\<not> glen (pre @ (255 # lz4Ext (k - 255)) @ post) \<le> glen pre" by (simp add: glen_def)
    show ?thesis unfolding e using IH less.prems False
      by (subst lz4Length.simps, subst if_not_P [OF ne]) (simp add: gidx_at u Let_def)
  qed
qed

lemma lz4Len_read:
  assumes "int n \<le> limit"
  shows "(if int (min n 15) = 15 then lz4Length (pre @ lz4LenBytes n @ post) (glen pre) (int (min n 15)) limit e
     else Inr (int (min n 15), glen pre)) = Inr (int n, glen pre + glen (lz4LenBytes n))"
proof (cases "n < 15")
  case True
  then show ?thesis by (simp add: lz4LenBytes_def)
next
  case False
  then show ?thesis using lz4Length_ext [of 15 "n - 15" limit pre post e] assms by (simp add: lz4LenBytes_def)
qed

lemma lz4Literals_read:
  assumes "glen l \<le> s_room s"
  shows "lz4Literals (pre @ lz4LenBytes (length l) @ l @ post) (glen pre) (lz4Token (length l) b) s =
     Inr (glen pre + glen (lz4LenBytes (length l)) + glen l, s\<lparr>s_out := s_out s @ l, s_room := s_room s - glen l\<rparr>)"
proof -
  let ?src = "pre @ lz4LenBytes (length l) @ l @ post" and ?i = "glen pre + glen (lz4LenBytes (length l))"
  have "int (length l) \<le> glen ?src" by (simp add: glen_def)
  note len = lz4Len_read [OF this, of pre "l @ post" LZ4Truncated]
  have "0 \<le> ?i" "0 \<le> glen l" "\<not> glen l > glen ?src - ?i" by (simp_all add: glen_def)
  moreover have "take (nat (glen l)) (drop (nat ?i) ?src) = l" by (simp add: glen_def nat_add_distrib)
  ultimately have "literals s ?src ?i (glen l) LZ4Truncated =
      Inr (?i + glen l, s\<lparr>s_out := s_out s @ l, s_room := s_room s - glen l\<rparr>)"
    using assms by (simp only: literals_eq if_False) simp
  then show ?thesis unfolding lz4Literals_def Let_def lz4Token_high len by (simp add: glen_def)
qed

lemma lz4Match_read:
  assumes o: "1 \<le> n" "n < 65536" "int n \<le> glen (s_out s) - s_base s" and m: "4 \<le> m" "int m \<le> s_room s" and wf: "sink_wf s"
  shows "lz4Match (pre @ [of_nat (n mod 256), of_nat (n div 256)] @ lz4LenBytes (m - 4) @ post) (glen pre) (lz4Token a (m - 4)) s =
     Inr (glen pre + 2 + glen (lz4LenBytes (m - 4)), s\<lparr>s_out := lzCopy n m (s_out s), s_room := s_room s - int m\<rparr>)"
proof -
  let ?lo = "of_nat (n mod 256) :: u8" and ?hi = "of_nat (n div 256) :: u8"
  let ?src = "pre @ [?lo, ?hi] @ lz4LenBytes (m - 4) @ post"
  have idx: "gidx ?src (glen pre) = (Inr ?lo :: (comp_err, u8) res)" "gidx ?src (glen pre + 1) = (Inr ?hi :: (comp_err, u8) res)"
    using gidx_at [of pre ?lo] gidx_at [of "pre @ [?lo]" ?hi] by simp_all
  have two: "\<not> glen ?src - glen pre < 2" by (simp add: glen_def)
  have "int (m - 4) \<le> s_room s" using m by simp
  note len = lz4Len_read [OF this, of "pre @ [?lo, ?hi]" post TooBig]
  have len': "(if int (min (m - 4) 15) = 15 then lz4Length ?src (glen pre + 2) (int (min (m - 4) 15)) (s_room s) TooBig
     else Inr (int (min (m - 4) 15), glen pre + 2)) = Inr (int (m - 4), glen pre + 2 + glen (lz4LenBytes (m - 4)))"
  proof -
    have "glen (pre @ [?lo, ?hi]) = glen pre + 2" "(pre @ [?lo, ?hi]) @ lz4LenBytes (m - 4) @ post = ?src" by simp_all
    with len show ?thesis by (simp only:)
  qed
  have "lz4MatchArgs ?src (glen pre) (lz4Token a (m - 4)) (s_room s) =
      Inr ((int n, int (m - 4)), glen pre + 2 + glen (lz4LenBytes (m - 4)))"
    unfolding lz4MatchArgs_def Let_def idx lz4Token_low rbind_Inr lz4Offset [OF o(2)] len'
    using two o(1) m by simp
  moreover have "sink_match s (int n) (int (m - 4) + 4) LZ4Distance =
      Inr (s\<lparr>s_out := lzCopy n m (s_out s), s_room := s_room s - int m\<rparr>)"
    using wf o m by (simp add: sink_match_eq)
  ultimately show ?thesis by (simp add: lz4Match_def)
qed

section \<open>The decoder gives a block its meaning\<close>

lemma lz4Sequence_read:
  assumes "1 \<le> off q" "off q < 65536" "4 \<le> mlen q" and wf: "sink_wf s"
    and o: "int (off q) \<le> glen (s_out s) + glen (lits q) - s_base s" and r: "glen (lits q) + int (mlen q) \<le> s_room s"
    and post: "post \<noteq> []"
  shows "lz4Sequence (pre @ lz4SeqBytes q @ post) (glen pre) s = Inr (Inr (glen (pre @ lz4SeqBytes q),
     s\<lparr>s_out := lzCopy (off q) (mlen q) (s_out s @ lits q), s_room := s_room s - glen (lits q) - int (mlen q)\<rparr>))"
proof -
  let ?l = "lits q" and ?tok = "lz4Token (length (lits q)) (mlen q - 4)"
  let ?offs = "[of_nat (off q mod 256), of_nat (off q div 256)] :: bytes"
  let ?rest = "?offs @ lz4LenBytes (mlen q - 4) @ post"
  let ?src = "pre @ ?tok # lz4LenBytes (length ?l) @ ?l @ ?rest"
  have src: "pre @ lz4SeqBytes q @ post = ?src" by (simp add: lz4SeqBytes_def)
  have tok: "gidx ?src (glen pre) = (Inr ?tok :: (comp_err, u8) res)" by (rule gidx_at)
  have lt: "\<not> glen ?src \<le> glen pre" by (simp add: glen_def)
  let ?s1 = "s\<lparr>s_out := s_out s @ ?l, s_room := s_room s - glen ?l\<rparr>"
  let ?pre2 = "pre @ ?tok # lz4LenBytes (length ?l) @ ?l"
  have "glen ?l \<le> s_room s" using r by simp
  from lz4Literals_read [OF this, of "pre @ [?tok]" ?rest "mlen q - 4"]
  have L: "lz4Literals ?src (glen pre + 1) ?tok s = Inr (glen ?pre2, ?s1)"
    by (simp add: algebra_simps)
  have wf1: "sink_wf ?s1" using wf r by (simp add: sink_wf_def glen_def)
  have "lz4Match (?pre2 @ ?rest) (glen ?pre2) ?tok ?s1 =
      Inr (glen ?pre2 + 2 + glen (lz4LenBytes (mlen q - 4)),
        ?s1\<lparr>s_out := lzCopy (off q) (mlen q) (s_out ?s1), s_room := s_room ?s1 - int (mlen q)\<rparr>)"
    by (rule lz4Match_read) (use assms wf1 in simp_all)
  moreover have "?pre2 @ ?rest = ?src" by simp
  ultimately have M: "lz4Match ?src (glen ?pre2) ?tok ?s1 =
      Inr (glen ?pre2 + 2 + glen (lz4LenBytes (mlen q - 4)),
        ?s1\<lparr>s_out := lzCopy (off q) (mlen q) (s_out ?s1), s_room := s_room ?s1 - int (mlen q)\<rparr>)" by (simp only:)
  have ne: "glen ?pre2 \<noteq> glen ?src" by (simp add: glen_def)
  have idx: "glen ?pre2 + 2 + glen (lz4LenBytes (mlen q - 4)) = glen (pre @ lz4SeqBytes q)"
    by (simp add: lz4SeqBytes_def)
  show ?thesis
    unfolding src lz4Sequence_def tok rbind_Inr L using lt ne M
    by (simp only: if_False prod.case rbind_Inr idx) simp
qed

lemma lz4Sequence_last:
  assumes "glen l \<le> s_room s"
  shows "lz4Sequence (pre @ lz4LastBytes l) (glen pre) s = Inr (Inl (s_out s @ l))"
proof -
  let ?tok = "lz4Token (length l) 0"
  let ?src = "pre @ ?tok # lz4LenBytes (length l) @ l"
  have src: "pre @ lz4LastBytes l = ?src" by (simp add: lz4LastBytes_def)
  have tok: "gidx ?src (glen pre) = (Inr ?tok :: (comp_err, u8) res)" by (rule gidx_at)
  have lt: "\<not> glen ?src \<le> glen pre" by (simp add: glen_def)
  from lz4Literals_read [OF assms, of "pre @ [?tok]" "[]" 0]
  have L: "lz4Literals ?src (glen pre + 1) ?tok s =
      Inr (glen ?src, s\<lparr>s_out := s_out s @ l, s_room := s_room s - glen l\<rparr>)" by (simp add: algebra_simps)
  show ?thesis unfolding src lz4Sequence_def tok rbind_Inr L using lt by (simp only: if_False prod.case) simp
qed

lemma lz4Apply_grows: "length out \<le> length (lz4Apply out qs)"
  by (induction out qs rule: lz4Apply.induct) auto

lemma lz4Loop_read:
  assumes "lz4Legal (s_out s) qs" "s_base s = 0" "0 \<le> s_room s"
    and "glen (lz4Apply (s_out s) qs @ l) \<le> glen (s_out s) + s_room s"
  shows "lz4Loop (pre @ lz4Block qs l) (glen pre) s = Inr (lz4Apply (s_out s) qs @ l)"
  using assms
proof (induction qs arbitrary: pre s)
  case Nil
  then show ?case by (subst lz4Loop.simps) (simp add: lz4Block_def lz4Sequence_last)
next
  case (Cons q qs)
  let ?out = "lzCopy (off q) (mlen q) (s_out s @ lits q)"
  let ?s = "s\<lparr>s_out := ?out, s_room := s_room s - glen (lits q) - int (mlen q)\<rparr>"
  have grow: "glen (s_out s) + glen (lits q) + int (mlen q) + glen l \<le> glen (lz4Apply ?out qs @ l)"
    using lz4Apply_grows [of ?out qs] by (simp add: glen_def)
  then have r: "glen (lits q) + int (mlen q) \<le> s_room s" using Cons.prems(4) by (simp add: glen_def)
  have seq: "lz4Sequence (pre @ lz4SeqBytes q @ lz4Block qs l) (glen pre) s =
      Inr (Inr (glen (pre @ lz4SeqBytes q), ?s))"
    by (rule lz4Sequence_read)
       (use Cons.prems r in \<open>auto simp: sink_wf_def glen_def lz4Block_def lz4LastBytes_def\<close>)
  have blk: "pre @ lz4Block (q # qs) l = pre @ lz4SeqBytes q @ lz4Block qs l" by (simp add: lz4Block_def)
  have "lz4Loop ((pre @ lz4SeqBytes q) @ lz4Block qs l) (glen (pre @ lz4SeqBytes q)) ?s =
      Inr (lz4Apply (s_out ?s) qs @ l)"
    using Cons.prems r by (intro Cons.IH) (auto simp: glen_def)
  then show ?case unfolding blk by (subst lz4Loop.simps) (simp add: seq)
qed

text \<open>
  Claim C14. \<open>DecompressLZ4Block\<close> decodes every well-formed LZ4 block: for any list of
  sequences whose offsets lie in 1..65535 and reach no further back than the output so far,
  whose matches have at least 4 bytes, and any final literals, the bytes of that block
  decompress to what the sequences stand for, as long as that is within the limit.
\<close>

theorem LZ4_decodes_blocks:
  assumes "lz4Legal [] qs" "glen (lz4Apply [] qs @ l) \<le> maxOut"
  shows "DecompressLZ4Block dst (lz4Block qs l) maxOut = Inr (dst @ lz4Apply [] qs @ l)"
proof -
  let ?s = "newSink [] maxOut"
  have "0 \<le> maxOut" using assms(2) glen_nonneg [of "lz4Apply [] qs @ l"] by linarith
  then have "lz4Loop ([] @ lz4Block qs l) (glen ([] :: bytes)) ?s = Inr (lz4Apply (s_out ?s) qs @ l)"
    using assms by (intro lz4Loop_read) (simp_all add: newSink_def)
  moreover have "lz4Block qs l \<noteq> []" by (simp add: lz4Block_def lz4LastBytes_def)
  ultimately have "DecompressLZ4Block [] (lz4Block qs l) maxOut = Inr (lz4Apply [] qs @ l)"
    by (simp add: DecompressLZ4Block_def newSink_def)
  then show ?thesis using safe_decompressorD(2) [OF LZ4_safe, of dst "lz4Block qs l" maxOut] by simp
qed

theorem LZ4_decodes_blocks_witness:
  "DecompressLZ4Block [9] (lz4Block [\<lparr>lits = [1, 2], off = 2, mlen = 20\<rparr>] [7]) 30 =
     Inr (9 # concat (replicate 11 [1, 2]) @ [7])"
proof -
  have "lz4Legal [] [\<lparr>lits = [1, 2], off = 2, mlen = 20\<rparr>]" by simp
  moreover have "lz4Apply [] [\<lparr>lits = [1, 2], off = 2, mlen = 20\<rparr>] = concat (replicate 11 [1, 2])"
    by (simp add: eval_nat_numeral)
  moreover have "glen (concat (replicate 11 [1, 2]) @ [7 :: u8]) \<le> 30"
    by (simp add: glen_def eval_nat_numeral)
  ultimately show ?thesis
    using LZ4_decodes_blocks [of "[\<lparr>lits = [1, 2], off = 2, mlen = 20\<rparr>]" "[7]" 30 "[9]"] by simp
qed

end
