(* ===== verification/Datachan.thy ===== *)
theory Datachan
  imports Handshake Replay Compress_Format
begin

text \<open>
  The data channel (\<open>core/proxy/openvpn/ovpn/datachan/datachan.go\<close>): the tables of ciphers and
  digests, the state of one key (packet ids, replay window, the batch of random bytes for
  IVs), sealing and opening with AEAD and with CBC and HMAC, and the \<open>Channel\<close> that holds the
  keys of a session.

  The ciphers and keyed hashes are parameters: a record of what the interfaces of
  \<open>crypto/cipher\<close> and \<open>crypto/hmac\<close> give for a key. Random bytes come from a stream. Key states
  are shared by pointer between the slots of a channel (and between channels), so they live
  in a store from addresses to key states. Each method runs to its end before the next one: the
  locks of the source and its atomic counter make its methods atomic in this sense. Pools only recycle
  buffers and are not modelled, nor is a \<open>dst\<close> that shares the storage of \<open>packet\<close>.
\<close>

section \<open>Constants and errors\<close>

definition PingPayload :: bytes where
  "PingPayload = [0x2a, 0x18, 0x7b, 0xf3, 0x64, 0x1e, 0xb4, 0xcb, 0x07, 0xed, 0x2d, 0x0a, 0x98, 0x1f, 0xc7, 0x48]"

definition OCCPrefix :: bytes where
  "OCCPrefix = [0x28, 0x7f, 0x34, 0x6b, 0xd4, 0xef, 0x7a, 0x81, 0x2d, 0x56, 0xb8, 0xd3, 0xaf, 0xc5, 0x45, 0x9c]"

definition OCCExit :: u8 where "OCCExit = 6"
definition pidSize :: int where "pidSize = 4"
definition aeadTagSize :: int where "aeadTagSize = 16"
definition aeadNonceSize :: int where "aeadNonceSize = 12"
definition implicitIVSize :: int where "implicitIVSize = aeadNonceSize - pidSize"
definition lastPID :: u64 where "lastPID = 0xFFFFFFFF"
definition renegotiateAbove :: u64 where "renegotiateAbove = 0xFF000000"
definition defaultReplayWindow :: int where "defaultReplayWindow = 64"
definition maxReplayWindow :: int where "maxReplayWindow = 65536"
definition defaultMaxPayload :: int where "defaultMaxPayload = 65535"
definition maxBlockSize :: int where "maxBlockSize = 16"
definition ivBatch :: nat where "ivBatch = 4096"

lemmas dc_consts = pidSize_def aeadTagSize_def aeadNonceSize_def implicitIVSize_def
  defaultReplayWindow_def maxReplayWindow_def defaultMaxPayload_def maxBlockSize_def ivBatch_def

text \<open>The errors; \<open>dc_sentinel\<close> is the exported error a value wraps.\<close>

datatype dc_err =
  MissingKeyMaterial
| UnsupportedCipher string
| UnsupportedDigest string string
| UnexpectedNonceOrTag string
| UnsupportedBlockSize string
| SendKey string
| ReceiveKey string
| AuthFailed
| NotWholeBlocks
| BadPadding
| NoPacketID
| Replayed
| NoPrimary
| NoKeyFor u8
| PacketIDExhausted
| DataShort
| NotDataPacket wire_err
| ReadingIV io_err
| Unframing comp_err

datatype dc_sentinel = ErrUnsupported | ErrAuth | ErrReplay | ErrNoKey | ErrPacketIDExhausted | ErrShortPacket

fun dc_wraps :: "dc_err \<Rightarrow> dc_sentinel option" where
  "dc_wraps (UnsupportedCipher _) = Some ErrUnsupported"
| "dc_wraps (UnsupportedDigest _ _) = Some ErrUnsupported"
| "dc_wraps (UnexpectedNonceOrTag _) = Some ErrUnsupported"
| "dc_wraps (UnsupportedBlockSize _) = Some ErrUnsupported"
| "dc_wraps AuthFailed = Some ErrAuth"
| "dc_wraps NotWholeBlocks = Some ErrAuth"
| "dc_wraps BadPadding = Some ErrAuth"
| "dc_wraps NoPacketID = Some ErrAuth"
| "dc_wraps Replayed = Some ErrReplay"
| "dc_wraps NoPrimary = Some ErrNoKey"
| "dc_wraps (NoKeyFor _) = Some ErrNoKey"
| "dc_wraps PacketIDExhausted = Some ErrPacketIDExhausted"
| "dc_wraps DataShort = Some ErrShortPacket"
| "dc_wraps _ = None"

section \<open>Ciphers and digests\<close>

text \<open>What a cipher object does: \<open>cipher.AEAD\<close>, and a \<open>cipher.Block\<close> run in CBC mode.\<close>

record aead_fn =
  a_seal :: "bytes \<Rightarrow> bytes \<Rightarrow> bytes \<Rightarrow> bytes"
  a_open :: "bytes \<Rightarrow> bytes \<Rightarrow> bytes \<Rightarrow> bytes option"
  a_nonceSize :: int
  a_overhead :: int

record block_fn =
  b_size :: int
  cbc_encrypt :: "bytes \<Rightarrow> bytes \<Rightarrow> bytes"
  cbc_decrypt :: "bytes \<Rightarrow> bytes \<Rightarrow> bytes"

datatype aead_ctor = NewGCM | NewChaCha20Poly1305
datatype block_ctor = AESNewCipher | NewBlowfish

record crypto =
  cr_aead :: "aead_ctor \<Rightarrow> bytes \<Rightarrow> aead_fn option"
  cr_block :: "block_ctor \<Rightarrow> bytes \<Rightarrow> block_fn option"
  cr_hmac :: hmac_fn

record dc_cipherInfo =
  keyLen :: nat
  dc_keyBits :: int
  newAEAD :: "aead_ctor option"
  newBlock :: "block_ctor option"

definition ciphers :: "(string \<times> dc_cipherInfo) list" where
  "ciphers =
    [(''AES-128-GCM'', \<lparr>keyLen = 16, dc_keyBits = 128, newAEAD = Some NewGCM, newBlock = None\<rparr>),
     (''AES-192-GCM'', \<lparr>keyLen = 24, dc_keyBits = 192, newAEAD = Some NewGCM, newBlock = None\<rparr>),
     (''AES-256-GCM'', \<lparr>keyLen = 32, dc_keyBits = 256, newAEAD = Some NewGCM, newBlock = None\<rparr>),
     (''CHACHA20-POLY1305'', \<lparr>keyLen = 32, dc_keyBits = 256, newAEAD = Some NewChaCha20Poly1305, newBlock = None\<rparr>),
     (''AES-128-CBC'', \<lparr>keyLen = 16, dc_keyBits = 128, newAEAD = None, newBlock = Some AESNewCipher\<rparr>),
     (''AES-192-CBC'', \<lparr>keyLen = 24, dc_keyBits = 192, newAEAD = None, newBlock = Some AESNewCipher\<rparr>),
     (''AES-256-CBC'', \<lparr>keyLen = 32, dc_keyBits = 256, newAEAD = None, newBlock = Some AESNewCipher\<rparr>),
     (''BF-CBC'', \<lparr>keyLen = 16, dc_keyBits = 128, newAEAD = None, newBlock = Some NewBlowfish\<rparr>)]"

definition cipherAliases :: "(string \<times> string) list" where
  "cipherAliases =
    [(''AES-128-GCM'', ''AES-128-GCM''), (''ID-AES128-GCM'', ''AES-128-GCM''),
     (''AES-192-GCM'', ''AES-192-GCM''), (''ID-AES192-GCM'', ''AES-192-GCM''),
     (''AES-256-GCM'', ''AES-256-GCM''), (''ID-AES256-GCM'', ''AES-256-GCM''),
     (''CHACHA20-POLY1305'', ''CHACHA20-POLY1305''),
     (''AES-128-CBC'', ''AES-128-CBC''), (''AES128'', ''AES-128-CBC''),
     (''AES-192-CBC'', ''AES-192-CBC''), (''AES192'', ''AES-192-CBC''),
     (''AES-256-CBC'', ''AES-256-CBC''), (''AES256'', ''AES-256-CBC''),
     (''BF-CBC'', ''BF-CBC''), (''BF'', ''BF-CBC''), (''BLOWFISH'', ''BF-CBC'')]"

definition digests :: "(string \<times> int) list" where
  "digests = [(''MD5'', 16), (''SHA1'', 20), (''SHA224'', 28), (''SHA256'', 32), (''SHA384'', 48), (''SHA512'', 64)]"

definition digestAliases :: "(string \<times> string) list" where
  "digestAliases =
    [(''MD5'', ''MD5''), (''SSL3MD5'', ''MD5''), (''SHA1'', ''SHA1''), (''SSL3SHA1'', ''SHA1''),
     (''SHA224'', ''SHA224''), (''SHA2224'', ''SHA224''), (''SHA256'', ''SHA256''), (''SHA2256'', ''SHA256''),
     (''SHA384'', ''SHA384''), (''SHA2384'', ''SHA384''), (''SHA512'', ''SHA512''), (''SHA2512'', ''SHA512'')]"

definition CanonicalCipher :: "string \<Rightarrow> string option" where
  "CanonicalCipher name = lookup cipherAliases (toUpper (trimSpace name))"

text \<open>A missing key of a map gives the zero value.\<close>

definition zeroCipherInfo :: dc_cipherInfo where
  "zeroCipherInfo = \<lparr>keyLen = 0, dc_keyBits = 0, newAEAD = None, newBlock = None\<rparr>"

definition cipherEntry :: "string \<Rightarrow> dc_cipherInfo" where
  "cipherEntry c = (case lookup ciphers c of Some i \<Rightarrow> i | None \<Rightarrow> zeroCipherInfo)"

definition lookupCipher :: "string \<Rightarrow> dc_cipherInfo \<times> bool" where
  "lookupCipher name =
    (case CanonicalCipher name of None \<Rightarrow> (zeroCipherInfo, False) | Some c \<Rightarrow> (cipherEntry c, True))"

definition IsAEAD :: "string \<Rightarrow> bool" where
  "IsAEAD cipher = (let (info, ok) = lookupCipher cipher in ok \<and> newAEAD info \<noteq> None)"

definition KeyBits :: "string \<Rightarrow> int" where
  "KeyBits cipher = dc_keyBits (fst (lookupCipher cipher))"

definition CanonicalDigest :: "string \<Rightarrow> string option" where
  "CanonicalDigest name =
    (let s = toUpper (trimSpace name);
         s = trimPrefix s ''RSA-'';
         s = removeChars [CHR ''-'', CHR ''_''] s
     in lookup digestAliases s)"

definition digestEntry :: "string \<Rightarrow> int" where
  "digestEntry c = (case lookup digests c of Some n \<Rightarrow> n | None \<Rightarrow> 0)"

definition DigestSize :: "string \<Rightarrow> int" where
  "DigestSize digest = (case CanonicalDigest digest of Some c \<Rightarrow> digestEntry c | None \<Rightarrow> 0)"

section \<open>The state of one key\<close>

record aeadKeys =
  ae_send :: aead_fn
  ae_recv :: aead_fn
  sendIV :: bytes
  recvIV :: bytes

record cbcKeys =
  cb_send :: block_fn
  cb_recv :: block_fn
  blockSize :: int
  macSize :: int
  sendMAC :: "bytes \<Rightarrow> bytes"
  recvMAC :: "bytes \<Rightarrow> bytes"
  ivBuf :: bytes
  ivOff :: nat

record keyState =
  ks_KeyID :: u8
  ks_cipher :: string
  ks_aead :: "aeadKeys option"
  ks_cbc :: "cbcKeys option"
  ks_rand :: bytes
  sendPID :: u64
  replay :: replayWindow

text \<open>\<open>nextIV\<close>: the IV of \<open>n\<close> bytes, the changed keys, what is left of the random source.\<close>

definition takeIV :: "cbcKeys \<Rightarrow> nat \<Rightarrow> bytes \<times> cbcKeys" where
  "takeIV k n =
    (let iv = take n (drop (ivOff k) (ivBuf k))
     in (iv, k\<lparr>ivBuf := copyInto (ivBuf k) (ivOff k) (replicate (length iv) 0), ivOff := ivOff k + length iv\<rparr>))"

definition nextIV :: "cbcKeys \<Rightarrow> nat \<Rightarrow> bytes \<Rightarrow> (dc_err, bytes) res \<times> cbcKeys \<times> bytes" where
  "nextIV k n rnd =
    (if ivOff k + n > length (ivBuf k) then
       (case ReadFull rnd (length (ivBuf k)) of
          (Inl e, rnd) \<Rightarrow> (Inl (Err (ReadingIV e)), k\<lparr>ivOff := length (ivBuf k)\<rparr>, rnd)
        | (Inr buf, rnd) \<Rightarrow> let (iv, k) = takeIV (k\<lparr>ivBuf := buf, ivOff := 0\<rparr>) n in (Inr iv, k, rnd))
     else let (iv, k) = takeIV k n in (Inr iv, k, rnd))"

definition setRand :: "keyState \<Rightarrow> bytes \<Rightarrow> keyState" where
  "setRand ks r =
    (case ks_cbc ks of None \<Rightarrow> ks\<lparr>ks_rand := r\<rparr>
     | Some k \<Rightarrow> ks\<lparr>ks_rand := r, ks_cbc := Some (k\<lparr>ivOff := length (ivBuf k)\<rparr>)\<rparr>)"

text \<open>
  \<open>NewKeyState\<close>; a nil key is \<open>None\<close>. The arrays of a \<open>handshake.Key\<close> have 64 bytes, so their
  slices are in range.
\<close>

definition emptyKeyState :: "u8 \<Rightarrow> string \<Rightarrow> bytes \<Rightarrow> keyState" where
  "emptyKeyState keyID name rnd =
    \<lparr>ks_KeyID = keyID AND KeyIDMask, ks_cipher = name, ks_aead = None, ks_cbc = None, ks_rand = rnd,
     sendPID = 0, replay = init_window defaultReplayWindow\<rparr>"

definition newAEADState :: "crypto \<Rightarrow> keyState \<Rightarrow> aead_ctor \<Rightarrow> nat \<Rightarrow> key \<Rightarrow> key \<Rightarrow> (dc_err, keyState) res" where
  "newAEADState cr ks ctor n send recv =
    (case cr_aead cr ctor (take n (Cipher send)) of None \<Rightarrow> Inl (Err (SendKey (ks_cipher ks))) | Some s \<Rightarrow>
     case cr_aead cr ctor (take n (Cipher recv)) of None \<Rightarrow> Inl (Err (ReceiveKey (ks_cipher ks))) | Some r \<Rightarrow>
     if a_nonceSize s \<noteq> aeadNonceSize \<or> a_overhead s \<noteq> aeadTagSize then Inl (Err (UnexpectedNonceOrTag (ks_cipher ks)))
     else Inr (ks\<lparr>ks_aead := Some \<lparr>ae_send = s, ae_recv = r,
            sendIV = take (nat implicitIVSize) (HMAC send), recvIV = take (nat implicitIVSize) (HMAC recv)\<rparr>\<rparr>))"

definition newCBCState :: "crypto \<Rightarrow> keyState \<Rightarrow> block_ctor option \<Rightarrow> nat \<Rightarrow> string \<Rightarrow> key \<Rightarrow> key \<Rightarrow> (dc_err, keyState) res" where
  "newCBCState cr ks ctor n digest send recv =
    (case CanonicalDigest digest of None \<Rightarrow> Inl (Err (UnsupportedDigest digest (ks_cipher ks))) | Some dname \<Rightarrow>
     case ctor of None \<Rightarrow> Inl Panic | Some ctor \<Rightarrow>
     case cr_block cr ctor (take n (Cipher send)) of None \<Rightarrow> Inl (Err (SendKey (ks_cipher ks))) | Some s \<Rightarrow>
     case cr_block cr ctor (take n (Cipher recv)) of None \<Rightarrow> Inl (Err (ReceiveKey (ks_cipher ks))) | Some r \<Rightarrow>
     if b_size s > maxBlockSize \<or> b_size s < 8 then Inl (Err (UnsupportedBlockSize (ks_cipher ks)))
     else Inr (ks\<lparr>ks_cbc := Some \<lparr>cb_send = s, cb_recv = r, blockSize = b_size s, macSize = digestEntry dname,
            sendMAC = cr_hmac cr dname (take (nat (digestEntry dname)) (HMAC send)),
            recvMAC = cr_hmac cr dname (take (nat (digestEntry dname)) (HMAC recv)),
            ivBuf = replicate ivBatch 0, ivOff = ivBatch\<rparr>\<rparr>))"

definition NewKeyState :: "crypto \<Rightarrow> bytes \<Rightarrow> u8 \<Rightarrow> string \<Rightarrow> string \<Rightarrow> key option \<Rightarrow> key option \<Rightarrow> (dc_err, keyState) res" where
  "NewKeyState cr rnd keyID cipher digest send recv =
    (case (send, recv) of (Some send, Some recv) \<Rightarrow>
       (case CanonicalCipher cipher of None \<Rightarrow> Inl (Err (UnsupportedCipher cipher)) | Some name \<Rightarrow>
        let info = cipherEntry name; ks = emptyKeyState keyID name rnd
        in case newAEAD info of Some ctor \<Rightarrow> newAEADState cr ks ctor (keyLen info) send recv
           | None \<Rightarrow> newCBCState cr ks (newBlock info) (keyLen info) digest send recv)
     | _ \<Rightarrow> Inl (Err MissingKeyMaterial))"

definition nextPID :: "keyState \<Rightarrow> (dc_err, u32) res \<times> keyState" where
  "nextPID ks =
    (let n = sendPID ks + 1; ks = ks\<lparr>sendPID := n\<rparr>
     in if n \<ge> lastPID then (Inl (Err PacketIDExhausted), ks) else (Inr (ucast n), ks))"

definition setReplayWindow :: "keyState \<Rightarrow> int \<Rightarrow> keyState" where
  "setReplayWindow ks n =
    (if w_top (replay ks) = 0 \<and> w_size (replay ks) \<noteq> n then ks\<lparr>replay := init_window n\<rparr> else ks)"

definition checkReplay :: "keyState \<Rightarrow> u32 \<Rightarrow> (dc_err, unit) res" where
  "checkReplay ks pid = (if window_check (replay ks) pid then Inr () else Inl (Err Replayed))"

definition acceptReplay :: "keyState \<Rightarrow> u32 \<Rightarrow> (dc_err, unit) res \<times> keyState" where
  "acceptReplay ks pid =
    (case window_accept (replay ks) pid of
       (True, w) \<Rightarrow> (Inr (), ks\<lparr>replay := w\<rparr>) | (False, w) \<Rightarrow> (Inl (Err Replayed), ks\<lparr>replay := w\<rparr>))"

definition frame :: "mode \<Rightarrow> bytes \<Rightarrow> bytes \<Rightarrow> bytes" where
  "frame m dst payload = (if m = ModeNone then dst @ payload else Frame m dst payload)"

section \<open>Sealing\<close>

text \<open>
  The AEAD seals in place, ciphertext and then tag; the tag is then moved before the
  ciphertext. A result shorter than the plaintext would put the last slice out of range.
\<close>

definition aead_seal :: "aeadKeys \<Rightarrow> bytes \<Rightarrow> nat \<Rightarrow> u32 \<Rightarrow> mode \<Rightarrow> bytes \<Rightarrow> (dc_err, bytes) res" where
  "aead_seal a out start pid m payload =
    (let hdrEnd = length out;
         adStart = (if hdrEnd - start = 4 then start else hdrEnd);
         out = out @ be32 pid;
         tagPos = length out;
         out = out @ replicate (nat aeadTagSize) 0;
         ptPos = length out;
         out = frame m out payload;
         ptLen = length out - ptPos;
         nonce = be32 pid @ sendIV a;
         sealed = a_seal (ae_send a) nonce (drop ptPos out) (take (tagPos - adStart) (drop adStart out));
         out = take ptPos out @ sealed
     in rbind (gfrom out (int (ptPos + ptLen))) (\<lambda>tail.
        let out = copyInto out tagPos (take (ptPos - tagPos) tail)
        in Inr (take (ptPos + ptLen) out)))"

definition cbc_seal :: "cbcKeys \<Rightarrow> bytes \<Rightarrow> u32 \<Rightarrow> mode \<Rightarrow> bytes \<Rightarrow> bytes \<Rightarrow> (dc_err, bytes) res \<times> cbcKeys \<times> bytes" where
  "cbc_seal k out pid m payload rnd =
    (let bs = nat (blockSize k);
         macPos = length out;
         out = out @ replicate (nat (macSize k)) 0;
         ivPos = length out;
         out = out @ replicate bs 0
     in case nextIV k bs rnd of (Inl e, k, rnd) \<Rightarrow> (Inl e, k, rnd) | (Inr iv, k, rnd) \<Rightarrow>
     let out = copyInto out ivPos iv;
         ctPos = length out;
         out = out @ be32 pid;
         out = frame m out payload;
         pad = bs - (length out - ctPos) mod bs;
         out = out @ replicate pad (of_nat pad);
         out = take ctPos out @ cbc_encrypt (cb_send k) (take (ctPos - ivPos) (drop ivPos out)) (drop ctPos out);
         mac = sendMAC k (drop ivPos out)
     in (Inr (copyInto out macPos (take (ivPos - macPos) mac)), k, rnd))"

definition ks_seal :: "keyState \<Rightarrow> bytes \<Rightarrow> u32 \<Rightarrow> mode \<Rightarrow> bytes \<Rightarrow> (dc_err, bytes) res \<times> keyState" where
  "ks_seal ks dst peerID m payload =
    (case nextPID ks of (Inl e, ks) \<Rightarrow> (Inl e, ks) | (Inr pid, ks) \<Rightarrow>
     let start = length dst; out = AppendDataHeader dst (ks_KeyID ks) peerID
     in case ks_aead ks of Some a \<Rightarrow> (aead_seal a out start pid m payload, ks)
        | None \<Rightarrow> (case ks_cbc ks of None \<Rightarrow> (Inl Panic, ks)
           | Some k \<Rightarrow> (case cbc_seal k out pid m payload (ks_rand ks) of (r, k, rnd) \<Rightarrow>
               (r, ks\<lparr>ks_cbc := Some k, ks_rand := rnd\<rparr>))))"

section \<open>Opening\<close>

text \<open>An error returns \<open>dst\<close> as it was, so an error result carries no bytes.\<close>

definition openAEAD :: "keyState \<Rightarrow> aeadKeys \<Rightarrow> bytes \<Rightarrow> bytes \<Rightarrow> int \<Rightarrow> (dc_err, bytes) res \<times> keyState" where
  "openAEAD ks a dst packet hl =
    (case gfrom packet hl of Inl e \<Rightarrow> (Inl e, ks) | Inr body \<Rightarrow>
     if glen body < pidSize + aeadTagSize then (Inl (Err DataShort), ks)
     else case getU32 body of Inl e \<Rightarrow> (Inl e, ks) | Inr pid \<Rightarrow>
     case checkReplay ks pid of Inl e \<Rightarrow> (Inl e, ks) | Inr _ \<Rightarrow>
     let nonce = take 4 body @ recvIV a;
         adStart = (if hl = 4 then 0 else hl)
     in case gslice packet adStart (hl + pidSize) of Inl e \<Rightarrow> (Inl e, ks) | Inr ad \<Rightarrow>
     let tag' = take 16 (drop 4 body);
         out = drop 20 body @ tag'
     in case a_open (ae_recv a) nonce out ad of None \<Rightarrow> (Inl (Err AuthFailed), ks) | Some pt \<Rightarrow>
     case acceptReplay ks pid of (Inl e, ks) \<Rightarrow> (Inl e, ks) | (Inr _, ks) \<Rightarrow>
     (Inr (dst @ pt), ks))"

text \<open>The padding of a decrypted text and what is before it.\<close>

definition stripPadding :: "bytes \<Rightarrow> int \<Rightarrow> (dc_err, bytes) res" where
  "stripPadding pt bs =
    rbind (gidx pt (glen pt - 1)) (\<lambda>lst.
    let pad = uint lst in
    if pad = 0 \<or> pad > bs then Inl (Err BadPadding)
    else rbind (gfrom pt (glen pt - pad)) (\<lambda>tl.
    if \<not> list_all (\<lambda>b. uint b = pad) tl then Inl (Err BadPadding)
    else gslice pt 0 (glen pt - pad)))"

definition openCBC :: "keyState \<Rightarrow> cbcKeys \<Rightarrow> bytes \<Rightarrow> bytes \<Rightarrow> int \<Rightarrow> (dc_err, bytes) res \<times> keyState" where
  "openCBC ks k dst packet hl =
    (let bs = blockSize k in
     case gfrom packet hl of Inl e \<Rightarrow> (Inl e, ks) | Inr body \<Rightarrow>
     if glen body < macSize k + bs + bs then (Inl (Err DataShort), ks)
     else if (glen body - macSize k - bs) mod bs \<noteq> 0 then (Inl (Err NotWholeBlocks), ks)
     else case gfrom body (macSize k) of Inl e \<Rightarrow> (Inl e, ks) | Inr covered \<Rightarrow>
     if recvMAC k covered \<noteq> take (nat (macSize k)) body then (Inl (Err AuthFailed), ks)
     else
     let iv = take (nat bs) covered;
         pt = cbc_decrypt (cb_recv k) iv (drop (nat bs) covered)
     in case stripPadding pt bs of Inl e \<Rightarrow> (Inl e, ks) | Inr pt \<Rightarrow>
     if glen pt < pidSize then (Inl (Err NoPacketID), ks)
     else case getU32 pt of Inl e \<Rightarrow> (Inl e, ks) | Inr pid \<Rightarrow>
     case acceptReplay ks pid of (Inl e, ks) \<Rightarrow> (Inl e, ks) | (Inr _, ks) \<Rightarrow>
     (Inr (dst @ drop 4 pt), ks))"

definition ks_open :: "keyState \<Rightarrow> bytes \<Rightarrow> bytes \<Rightarrow> int \<Rightarrow> (dc_err, bytes) res \<times> keyState" where
  "ks_open ks dst packet hl =
    (case ks_aead ks of Some a \<Rightarrow> openAEAD ks a dst packet hl
     | None \<Rightarrow> (case ks_cbc ks of Some k \<Rightarrow> openCBC ks k dst packet hl | None \<Rightarrow> (Inl Panic, ks)))"

section \<open>The channel\<close>

record options =
  o_PeerID :: u32
  o_Compression :: mode
  o_ReplayWindow :: int
  o_MaxPayload :: int

type_synonym kind = int

definition KindPacket :: kind where "KindPacket = 0"
definition KindPing :: kind where "KindPing = 1"
definition KindOCC :: kind where "KindOCC = 2"

lemmas kind_defs = KindPacket_def KindPing_def KindOCC_def

definition Kind_String :: "kind \<Rightarrow> string" where
  "Kind_String k =
    (if k = KindPacket then ''packet'' else if k = KindPing then ''ping'' else if k = KindOCC then ''occ''
     else ''kind('' @ itoa k @ '')'')"

type_synonym addr = nat

type_synonym store = "addr \<Rightarrow> keyState option"

record chanState =
  cs_keys :: "addr option list"
  cs_primary :: "addr option"
  cs_peerID :: u32
  cs_mode :: mode

record channel =
  c_opts :: options
  c_state :: chanState

definition NewChannel :: "options \<Rightarrow> channel" where
  "NewChannel opts =
    (let opts = (if o_ReplayWindow opts \<le> 0 then opts\<lparr>o_ReplayWindow := defaultReplayWindow\<rparr> else opts);
         opts = (if o_ReplayWindow opts > maxReplayWindow then opts\<lparr>o_ReplayWindow := maxReplayWindow\<rparr> else opts);
         opts = (if o_MaxPayload opts \<le> 0 then opts\<lparr>o_MaxPayload := defaultMaxPayload\<rparr> else opts);
         opts = opts\<lparr>o_PeerID := o_PeerID opts AND NoPeerID\<rparr>
     in \<lparr>c_opts = opts, c_state = \<lparr>cs_keys = replicate 8 None, cs_primary = None,
          cs_peerID = o_PeerID opts, cs_mode = o_Compression opts\<rparr>\<rparr>)"

definition update :: "channel \<Rightarrow> (chanState \<Rightarrow> chanState) \<Rightarrow> channel" where
  "update c f = c\<lparr>c_state := f (c_state c)\<rparr>"

text \<open>A nil \<open>*KeyState\<close> is \<open>None\<close>; a pointer that the store does not know is not modelled further.\<close>

definition SetPrimary :: "store \<Rightarrow> channel \<Rightarrow> addr option \<Rightarrow> store \<times> channel" where
  "SetPrimary st c p =
    (case p of None \<Rightarrow> (st, c) | Some a \<Rightarrow>
     case st a of None \<Rightarrow> (st, c) | Some ks \<Rightarrow>
       (st(a \<mapsto> setReplayWindow ks (o_ReplayWindow (c_opts c))),
        update c (\<lambda>s. s\<lparr>cs_keys := (cs_keys s)[unat (ks_KeyID ks AND KeyIDMask) := Some a], cs_primary := Some a\<rparr>)))"

definition DropKey :: "channel \<Rightarrow> u8 \<Rightarrow> channel" where
  "DropKey c keyID =
    update c (\<lambda>s.
      let i = unat (keyID AND KeyIDMask);
          s = (if cs_primary s \<noteq> None \<and> cs_primary s = cs_keys s ! i then s\<lparr>cs_primary := None\<rparr> else s)
      in s\<lparr>cs_keys := (cs_keys s)[i := None]\<rparr>)"

definition SetPeerID :: "channel \<Rightarrow> u32 \<Rightarrow> channel" where
  "SetPeerID c peerID = update c (\<lambda>s. s\<lparr>cs_peerID := peerID AND NoPeerID\<rparr>)"

definition SetCompression :: "channel \<Rightarrow> mode \<Rightarrow> channel" where
  "SetCompression c m = update c (\<lambda>s. s\<lparr>cs_mode := m\<rparr>)"

definition Seal :: "store \<Rightarrow> channel \<Rightarrow> bytes \<Rightarrow> bytes \<Rightarrow> (dc_err, bytes) res \<times> store" where
  "Seal st c dst payload =
    (let s = c_state c in
     case cs_primary s of None \<Rightarrow> (Inl (Err NoPrimary), st) | Some a \<Rightarrow>
     case st a of None \<Rightarrow> (Inl Panic, st) | Some ks \<Rightarrow>
     case ks_seal ks dst (cs_peerID s) (cs_mode s) payload of (r, ks) \<Rightarrow> (r, st(a \<mapsto> ks)))"

definition SealPing :: "store \<Rightarrow> channel \<Rightarrow> bytes \<Rightarrow> (dc_err, bytes) res \<times> store" where
  "SealPing st c dst = Seal st c dst PingPayload"

definition SealOCC :: "store \<Rightarrow> channel \<Rightarrow> bytes \<Rightarrow> u8 \<Rightarrow> (dc_err, bytes) res \<times> store" where
  "SealOCC st c dst opcode = Seal st c dst (OCCPrefix @ [opcode])"

definition classify :: "bytes \<Rightarrow> kind" where
  "classify p =
    (if glen p = glen PingPayload \<and> p = PingPayload then KindPing
     else if glen p \<ge> glen OCCPrefix \<and> take 16 p = OCCPrefix then KindOCC
     else KindPacket)"

definition finish :: "bytes \<Rightarrow> nat \<Rightarrow> kind \<Rightarrow> bytes \<times> kind" where
  "finish out start k =
    (if k = KindPing then (take start out, k)
     else if k = KindOCC then (take start out @ drop (start + length OCCPrefix) out, k)
     else (out, k))"

definition unframeRest :: "channel \<Rightarrow> bytes \<Rightarrow> nat \<Rightarrow> (dc_err, bytes \<times> kind) res" where
  "unframeRest c out start =
    (case fst (Unframe (cs_mode (c_state c)) [] (drop start out) (o_MaxPayload (c_opts c))) of
       Inl Panic \<Rightarrow> Inl Panic
     | Inl (Err e) \<Rightarrow> Inl (Err (Unframing e))
     | Inr payload \<Rightarrow> let out = take start out @ payload in Inr (finish out start (classify (drop start out))))"

definition Open :: "store \<Rightarrow> channel \<Rightarrow> bytes \<Rightarrow> bytes \<Rightarrow> (dc_err, bytes \<times> kind) res \<times> store" where
  "Open st c dst packet =
    (case ParseDataHeader packet of
       Inl Panic \<Rightarrow> (Inl Panic, st)
     | Inl (Err e) \<Rightarrow> (Inl (Err (if e = ErrShort then DataShort else NotDataPacket e)), st)
     | Inr (_, keyID, _, hl) \<Rightarrow>
     let s = c_state c in
     case gidx (cs_keys s) (uint keyID) of Inl e \<Rightarrow> (Inl e, st) | Inr None \<Rightarrow> (Inl (Err (NoKeyFor keyID)), st)
     | Inr (Some a) \<Rightarrow>
     case st a of None \<Rightarrow> (Inl Panic, st) | Some ks \<Rightarrow>
     case ks_open ks dst packet hl of (Inl e, ks) \<Rightarrow> (Inl e, st(a \<mapsto> ks)) | (Inr out, ks) \<Rightarrow>
     let k = classify (drop (length dst) out) in
     ((if k \<noteq> KindPacket \<or> cs_mode s = ModeNone then Inr (finish out (length dst) k)
       else unframeRest c out (length dst)), st(a \<mapsto> ks)))"

definition primaryState :: "store \<Rightarrow> channel \<Rightarrow> keyState option" where
  "primaryState st c = (case cs_primary (c_state c) of None \<Rightarrow> None | Some a \<Rightarrow> st a)"

definition NeedsRenegotiation :: "store \<Rightarrow> channel \<Rightarrow> bool" where
  "NeedsRenegotiation st c = (case primaryState st c of None \<Rightarrow> False | Some ks \<Rightarrow> sendPID ks > renegotiateAbove)"

definition HasPrimary :: "channel \<Rightarrow> bool" where
  "HasPrimary c \<longleftrightarrow> cs_primary (c_state c) \<noteq> None"

end
