(* ===== verification/Datachan_Packet.thy ===== *)
theory Datachan_Packet
  imports Datachan
begin

text \<open>
  The packets of the data channel: what sealing writes, in closed form, and that opening
  with the matching key gives the payload back. What the ciphers must do for it is stated as
  predicates on the cipher parameters: opening undoes sealing, in CBC mode decryption undoes
  encryption and keeps the length, and both sides have the same keyed hash.
\<close>

section \<open>Packet ids\<close>

lemma frame_append: "frame m dst payload = dst @ frame m [] payload"
  using Unframe_inverts [of m dst payload] by (simp add: frame_def)

lemma nextPID_cases:
  "nextPID ks = (if sendPID ks + 1 \<ge> lastPID then Inl (Err PacketIDExhausted) else Inr (ucast (sendPID ks + 1)),
     ks\<lparr>sendPID := sendPID ks + 1\<rparr>)"
  by (simp add: nextPID_def Let_def)

lemma nextPID_iter:
  assumes "sendPID ks = 0"
  shows "((\<lambda>k. snd (nextPID k)) ^^ n) ks = ks\<lparr>sendPID := of_nat n\<rparr>"
  using assms by (induction n) (simp_all add: nextPID_cases add.commute)

lemma unat_of_nat_u64: "n < 2 ^ 64 \<Longrightarrow> unat (of_nat n :: u64) = n"
  by (simp only: unat_of_nat len_of_numeral_defs) simp

lemma unat_of_nat_u32: "n < 2 ^ 32 \<Longrightarrow> unat (of_nat n :: u32) = n"
  by (simp only: unat_of_nat len_of_numeral_defs) simp

text \<open>
  Claim C20. The packet ids of a key: its \<open>n\<close>-th call for an id, counted from 1, gets the id
  \<open>n\<close> as long as \<open>n\<close> is below \<open>0xFFFFFFFF\<close>, and every later one is refused, for as many calls as a
  64-bit counter can count. So the id never is 0, never wraps and never repeats.
\<close>

theorem packet_ids_never_repeat:
  assumes "sendPID ks = 0" "0 < n" "n < 2 ^ 64"
  shows "fst (nextPID (((\<lambda>k. snd (nextPID k)) ^^ (n - 1)) ks)) =
      (if n < 0xFFFFFFFF then Inr (of_nat n) else Inl (Err PacketIDExhausted)) \<and>
    (n < 0xFFFFFFFF \<longrightarrow> unat (of_nat n :: u32) = n)"
proof -
  have "of_nat (n - 1) + 1 = (of_nat n :: u64)" using assms(2) by (metis Suc_diff_1 add.commute of_nat_Suc)
  moreover have "(of_nat n :: u64) \<ge> lastPID \<longleftrightarrow> \<not> n < 0xFFFFFFFF"
    using assms(3) by (simp add: word_le_nat_alt unat_of_nat_u64 lastPID_def not_less del: unat_of_nat)
  moreover have "ucast (of_nat n :: u64) = (of_nat n :: u32)" if "n < 0xFFFFFFFF"
    using that by (intro word_unat_eq_iff [THEN iffD2]) (simp add: unsigned_ucast_eq unat_of_nat take_bit_eq_mod)
  ultimately show ?thesis
    unfolding nextPID_iter [OF assms(1)] by (simp add: nextPID_cases unat_of_nat_u32)
qed

theorem packet_ids_never_repeat_witness:
  "fst (nextPID (((\<lambda>k. snd (nextPID k)) ^^ 2) (emptyKeyState 1 ''BF-CBC'' []))) = Inr 3"
  using packet_ids_never_repeat [of "emptyKeyState 1 ''BF-CBC'' []" 3] by (simp add: emptyKeyState_def)

section \<open>AEAD packets\<close>

definition aead_match :: "aead_fn \<Rightarrow> aead_fn \<Rightarrow> bool" where
  "aead_match s r \<longleftrightarrow>
    (\<forall>nonce pt ad. length (a_seal s nonce pt ad) = length pt + 16 \<and> a_open r nonce (a_seal s nonce pt ad) ad = Some pt)"

definition ad_of :: "bytes \<Rightarrow> u32 \<Rightarrow> bytes" where
  "ad_of hdr pid = (if length hdr = 4 then hdr else []) @ be32 pid"

lemma copyInto_at: "length pre = n \<Longrightarrow> length old = length new \<Longrightarrow> copyInto (pre @ old @ post) n new = pre @ new @ post"
  by (simp add: copyInto_def)

lemma aead_seal_eq:
  assumes len: "\<And>nonce pt ad. length (a_seal (ae_send a) nonce pt ad) = length pt + 16"
    and hdr: "length hdr = 1 \<or> length hdr = 4"
    and F: "F = frame m [] payload" and ct: "ct = a_seal (ae_send a) (be32 pid @ sendIV a) F (ad_of hdr pid)"
  shows "aead_seal a (dst @ hdr) (length dst) pid m payload =
    Inr (dst @ hdr @ be32 pid @ drop (length F) ct @ take (length F) ct)"
proof -
  let ?pre = "dst @ hdr @ be32 pid" and ?z = "replicate 16 0 :: bytes"
  have fr: "frame m (?pre @ ?z) payload = ?pre @ ?z @ F" using frame_append [of m "?pre @ ?z"] by (simp add: F)
  have ad: "take (length ?pre - (if length hdr = 4 then length dst else length (dst @ hdr)))
      (drop (if length hdr = 4 then length dst else length (dst @ hdr)) (?pre @ ?z @ F)) = ad_of hdr pid"
    by (simp add: ad_of_def)
  have lct: "length ct = length F + 16" by (simp add: ct len)
  have tail: "gfrom (?pre @ ?z @ ct) (int (length (?pre @ ?z) + length F)) = (Inr (drop (length F) ct) :: (dc_err, bytes) res)"
    using lct by (subst gfrom_nat) simp_all
  have mv: "copyInto (?pre @ ?z @ ct) (length ?pre) (drop (length F) ct) = ?pre @ drop (length F) ct @ ct"
    using lct by (intro copyInto_at) simp_all
  have fin: "take (length (?pre @ ?z) + length F) (?pre @ drop (length F) ct @ ct) = ?pre @ drop (length F) ct @ take (length F) ct"
    using lct by simp
  have "aead_seal a (dst @ hdr) (length dst) pid m payload =
    rbind (gfrom (take (length (?pre @ ?z)) (frame m (?pre @ ?z) payload) @ ct) (int (length (?pre @ ?z) + length F)))
      (\<lambda>tail. Inr (take (length (?pre @ ?z) + length F)
        (copyInto (take (length (?pre @ ?z)) (frame m (?pre @ ?z) payload) @ ct) (length ?pre) (take 16 tail))))"
    unfolding aead_seal_def Let_def ct using ad fr by (simp add: dc_consts)
  also have "take (length (?pre @ ?z)) (frame m (?pre @ ?z) payload) @ ct = ?pre @ ?z @ ct" unfolding fr by simp
  also have "rbind (gfrom (?pre @ ?z @ ct) (int (length (?pre @ ?z) + length F)))
      (\<lambda>tail. Inr (take (length (?pre @ ?z) + length F) (copyInto (?pre @ ?z @ ct) (length ?pre) (take 16 tail)))) =
    (Inr (?pre @ drop (length F) ct @ take (length F) ct) :: (dc_err, bytes) res)"
  proof -
    have "take 16 (drop (length F) ct) = drop (length F) ct" using lct by simp
    then show ?thesis by (simp only: tail rbind_Inr mv fin)
  qed
  finally show ?thesis by simp
qed

text \<open>
  What \<open>openAEAD\<close> makes of the bytes of a packet, apart from the replay window: the packet id
  and the plaintext, if they authenticate.
\<close>

lemma openAEAD_sealed:
  assumes hl: "length hdr = 1 \<or> length hdr = 4" "hl = int (length hdr)" and tag: "length tg = 16"
    and ok: "a_open (ae_recv a) (be32 pid @ recvIV a) (ct @ tg) (ad_of hdr pid) = Some pt"
  shows "openAEAD ks a dst (hdr @ be32 pid @ tg @ ct) hl =
    (if fst (window_accept (replay ks) pid) then (Inr (dst @ pt), ks\<lparr>replay := snd (window_accept (replay ks) pid)\<rparr>)
     else (Inl (Err Replayed), ks))"
proof -
  let ?p = "hdr @ be32 pid @ tg @ ct"
  have body: "gfrom ?p hl = (Inr (be32 pid @ tg @ ct) :: (dc_err, bytes) res)"
    unfolding hl(2) by (subst gfrom_nat) simp_all
  have pid: "getU32 (be32 pid @ tg @ ct) = (Inr pid :: (dc_err, u32) res)" by simp
  have ad: "gslice ?p (if hl = 4 then 0 else hl) (hl + pidSize) = (Inr (ad_of hdr pid) :: (dc_err, bytes) res)"
  proof (cases "length hdr = 4")
    case True
    have "gslice ?p (int 0) (int 8) = (Inr (ad_of hdr pid) :: (dc_err, bytes) res)"
      using True by (subst gslice_nat) (simp_all add: ad_of_def)
    then show ?thesis using True hl(2) by (simp add: dc_consts)
  next
    case False
    then have "length hdr = 1" using hl(1) by simp
    moreover then have "gslice ?p (int 1) (int 5) = (Inr (ad_of hdr pid) :: (dc_err, bytes) res)"
      by (subst gslice_nat) (simp_all add: ad_of_def)
    ultimately show ?thesis using hl(2) by (simp add: dc_consts)
  qed
  have parts: "take 4 (be32 pid @ tg @ ct) = be32 pid" "drop 20 (be32 pid @ tg @ ct) @ take 16 (drop 4 (be32 pid @ tg @ ct)) = ct @ tg"
    using tag by simp_all
  have lb: "\<not> glen (be32 pid @ tg @ ct) < pidSize + aeadTagSize" using tag by (simp add: glen_def dc_consts)
  have chk: "checkReplay ks pid = (if fst (window_accept (replay ks) pid) then Inr () else Inl (Err Replayed))"
    by (simp add: checkReplay_def window_accept_unfold)
  show ?thesis
    unfolding openAEAD_def body sum.case if_not_P [OF lb] pid chk Let_def parts ad ok
    by (cases "window_accept (replay ks) pid") (simp add: parts ad ok acceptReplay_def)
qed

section \<open>CBC packets\<close>

definition cbc_match :: "cbcKeys \<Rightarrow> cbcKeys \<Rightarrow> bool" where
  "cbc_match s r \<longleftrightarrow> 8 \<le> blockSize s \<and> blockSize s \<le> 16 \<and> blockSize r = blockSize s \<and> 0 \<le> macSize s \<and> macSize r = macSize s \<and>
     recvMAC r = sendMAC s \<and> (\<forall>x. glen (sendMAC s x) = macSize s) \<and>
     (\<forall>iv x. length x mod nat (blockSize s) = 0 \<longrightarrow>
        length (cbc_encrypt (cb_send s) iv x) = length x \<and> cbc_decrypt (cb_recv r) iv (cbc_encrypt (cb_send s) iv x) = x)"

definition padded :: "nat \<Rightarrow> bytes \<Rightarrow> bytes" where
  "padded bs x = x @ replicate (bs - length x mod bs) (of_nat (bs - length x mod bs))"

lemma padded_blocks:
  assumes "0 < bs"
  shows "length (padded bs x) mod bs = 0" "length x < length (padded bs x)" "length (padded bs x) \<le> length x + bs"
proof -
  have "length x mod bs < bs" using assms by simp
  moreover from this have "length x + (bs - length x mod bs) = bs * (length x div bs + 1)"
    using mult_div_mod_eq [of bs "length x"] unfolding distrib_left by linarith
  then have "(length x + (bs - length x mod bs)) mod bs = 0" by simp
  ultimately show "length (padded bs x) mod bs = 0" "length x < length (padded bs x)" "length (padded bs x) \<le> length x + bs"
    by (simp_all add: padded_def)
qed

lemma gidx_last: "xs \<noteq> [] \<Longrightarrow> gidx xs (glen xs - 1) = Inr (last xs)"
  by (cases xs) (simp_all add: gidx_def glen_def last_conv_nth)

lemma uint_of_nat8: "n < 256 \<Longrightarrow> uint (of_nat n :: u8) = int n"
  by (simp add: uint_nat unat_of_nat)

lemma stripPadding_padded:
  assumes "0 < bs" "bs \<le> 16"
  shows "stripPadding (padded bs x) (int bs) = Inr x"
proof -
  let ?n = "bs - length x mod bs"
  have n: "0 < ?n" "?n \<le> 16" "?n \<le> bs" using assms by simp_all
  have u: "uint (of_nat ?n :: u8) = int ?n" by (rule uint_of_nat8) (use n in linarith)
  have last: "gidx (padded bs x) (glen (padded bs x) - 1) = (Inr (of_nat ?n) :: (dc_err, u8) res)"
  proof -
    have "padded bs x \<noteq> []" "last (padded bs x) = of_nat ?n" using n(1) by (simp_all add: padded_def last_append last_replicate)
    then show ?thesis using gidx_last [of "padded bs x"] by metis
  qed
  have len: "glen (padded bs x) - int ?n = int (length x)" by (simp add: padded_def glen_def)
  have "gfrom (padded bs x) (int (length x)) = (Inr (replicate ?n (of_nat ?n)) :: (dc_err, bytes) res)"
    by (subst gfrom_nat) (simp_all add: padded_def)
  moreover have "gslice (padded bs x) (int 0) (int (length x)) = (Inr x :: (dc_err, bytes) res)"
    by (subst gslice_nat) (simp_all add: padded_def)
  ultimately show ?thesis
    unfolding stripPadding_def last rbind_Inr Let_def u len using n u by (simp add: list_all_length)
qed

text \<open>The IVs: a key that keeps its batch in order gives IVs of the length asked for.\<close>

definition ivOk :: "cbcKeys \<Rightarrow> bool" where
  "ivOk k \<longleftrightarrow> length (ivBuf k) = ivBatch \<and> ivOff k \<le> ivBatch"

lemma nextIV_ok:
  assumes "ivOk k" "n \<le> 16" "nextIV k n rnd = (r, k', rnd')"
  shows "ivOk k'" "r \<noteq> Inl Panic" "\<And>iv. r = Inr iv \<Longrightarrow> length iv = n" "k' = k\<lparr>ivBuf := ivBuf k', ivOff := ivOff k'\<rparr>"
proof -
  have take: "ivOk (snd (takeIV k n)) \<and> length (fst (takeIV k n)) = n \<and>
      snd (takeIV k n) = k\<lparr>ivBuf := ivBuf (snd (takeIV k n)), ivOff := ivOff (snd (takeIV k n))\<rparr>"
    if "ivOk k" "ivOff k + n \<le> ivBatch" for k
    using that by (simp add: takeIV_def Let_def ivOk_def length_copyInto)
  have fresh: "ivOk (k\<lparr>ivBuf := buf, ivOff := 0\<rparr>)" if "length buf = ivBatch" for buf
    using that by (simp add: ivOk_def)
  have "ivOk k' \<and> r \<noteq> Inl Panic \<and> (\<forall>iv. r = Inr iv \<longrightarrow> length iv = n) \<and> k' = k\<lparr>ivBuf := ivBuf k', ivOff := ivOff k'\<rparr>"
  proof (cases "ivOff k + n > length (ivBuf k)")
    case False
    then show ?thesis using assms take [of k] by (auto simp: nextIV_def ivOk_def split: prod.splits)
  next
    case True
    show ?thesis
    proof (cases "ReadFull rnd (length (ivBuf k))")
      case (Pair rd rnd2)
      show ?thesis
      proof (cases rd)
        case (Inl e)
        then show ?thesis using Pair True assms by (auto simp: nextIV_def ivOk_def)
      next
        case (Inr buf)
        then have "length buf = ivBatch"
          using Pair assms(1) by (auto simp: ReadFull_def ivOk_def ivBatch_def split: if_splits)
        from take [OF fresh [OF this]] Inr Pair True assms show ?thesis
          by (auto simp: nextIV_def ivBatch_def split: prod.splits)
      qed
    qed
  qed
  then show "ivOk k'" "r \<noteq> Inl Panic" "\<And>iv. r = Inr iv \<Longrightarrow> length iv = n" "k' = k\<lparr>ivBuf := ivBuf k', ivOff := ivOff k'\<rparr>"
    by blast+
qed

lemma cbc_seal_eq:
  assumes k: "8 \<le> blockSize k" "blockSize k \<le> 16" "\<And>x. glen (sendMAC k x) = macSize k" "ivOk k"
    and iv: "nextIV k (nat (blockSize k)) rnd = (Inr iv, k', rnd')"
    and ct: "ct = cbc_encrypt (cb_send k) iv (padded (nat (blockSize k)) (be32 pid @ frame m [] payload))"
  shows "cbc_seal k out pid m payload rnd = (Inr (out @ sendMAC k (iv @ ct) @ iv @ ct), k', rnd')"
proof -
  let ?bs = "nat (blockSize k)" and ?z = "replicate (nat (macSize k)) 0 :: bytes"
  have "?bs \<le> 16" using k(2) by simp
  note I = nextIV_ok [OF k(4) this iv]
  have liv: "length iv = ?bs" using I(3) by simp
  have ksame: "sendMAC k' = sendMAC k" "cb_send k' = cb_send k" by (subst I(4), simp)+
  have m1: "copyInto (out @ ?z @ replicate ?bs 0) (length (out @ ?z)) iv = out @ ?z @ iv"
    using copyInto_at [of "out @ ?z" "length (out @ ?z)" "replicate ?bs 0" iv "[]"] liv by simp
  have fr: "frame m (out @ ?z @ iv @ be32 pid) payload = out @ ?z @ iv @ be32 pid @ frame m [] payload"
    using frame_append [of m "out @ ?z @ iv @ be32 pid"] by simp
  have lm: "length (sendMAC k x) = nat (macSize k)" for x using k(3) [of x] by (simp add: glen_def)
  have m2: "copyInto (out @ ?z @ iv @ ct) (length out) (take (nat (macSize k)) (sendMAC k (iv @ ct))) = out @ sendMAC k (iv @ ct) @ iv @ ct"
    using copyInto_at [of out "length out" ?z "sendMAC k (iv @ ct)" "iv @ ct"] by (simp add: lm)
  define P where "P = padded ?bs (be32 pid @ frame m [] payload)"
  have pad: "be32 pid @ frame m [] payload @ replicate (?bs - length (be32 pid @ frame m [] payload) mod ?bs)
      (of_nat (?bs - length (be32 pid @ frame m [] payload) mod ?bs)) = P"
    by (simp add: P_def padded_def)
  have cut: "take (length (out @ ?z @ iv)) (out @ ?z @ iv @ P) = out @ ?z @ iv" "drop (length (out @ ?z @ iv)) (out @ ?z @ iv @ P) = P"
    "take (length (out @ ?z @ iv) - length (out @ ?z)) (drop (length (out @ ?z)) (out @ ?z @ iv @ P)) = iv"
    "drop (length (out @ ?z)) (out @ ?z @ iv @ ct) = iv @ ct" "length (out @ ?z) - length out = nat (macSize k)"
    by simp_all
  have l1: "length (out @ ?z @ iv @ be32 pid @ frame m [] payload) - length (out @ ?z @ iv) = length (be32 pid @ frame m [] payload)"
    by simp
  show ?thesis
    unfolding cbc_seal_def Let_def append_assoc iv prod.case sum.case
    unfolding m1 append_assoc fr l1 ksame
    unfolding pad cut P_def [symmetric] append_assoc
    unfolding ct [folded P_def, symmetric] cut m2 ..
qed

lemma cbc_seal_no_iv:
  "nextIV k (nat (blockSize k)) rnd = (Inl e, k', rnd') \<Longrightarrow> cbc_seal k out pid m payload rnd = (Inl e, k', rnd')"
  unfolding cbc_seal_def Let_def by simp

lemma openCBC_sealed:
  assumes mt: "cbc_match s r" and hl: "hl = int (length hdr)" and iv: "length iv = nat (blockSize s)"
    and ct: "ct = cbc_encrypt (cb_send s) iv (padded (nat (blockSize s)) (be32 pid @ pt))"
  shows "openCBC ks r dst (hdr @ sendMAC s (iv @ ct) @ iv @ ct) hl =
    (if fst (window_accept (replay ks) pid) then (Inr (dst @ pt), ks\<lparr>replay := snd (window_accept (replay ks) pid)\<rparr>)
     else (Inl (Err Replayed), ks))"
proof -
  let ?bs = "nat (blockSize s)" and ?mac = "sendMAC s (iv @ ct)" and ?P = "padded (nat (blockSize s)) (be32 pid @ pt)"
  have m: "8 \<le> blockSize s" "blockSize s \<le> 16" "blockSize r = blockSize s" "0 \<le> macSize s" "macSize r = macSize s"
      "recvMAC r = sendMAC s" "glen ?mac = macSize s"
    using mt by (simp_all add: cbc_match_def)
  have bs: "0 < ?bs" "int ?bs = blockSize s" using m(1) by simp_all
  note P = padded_blocks [OF bs(1), of "be32 pid @ pt"]
  have lct: "length ct = length ?P" and dec: "cbc_decrypt (cb_recv r) iv ct = ?P"
    using mt P(1) unfolding ct cbc_match_def by simp_all
  have gm: "length ?mac = nat (macSize s)" using m(7) by (simp add: glen_def)
  have body: "gfrom (hdr @ ?mac @ iv @ ct) hl = (Inr (?mac @ iv @ ct) :: (dc_err, bytes) res)"
    unfolding hl by (subst gfrom_nat) simp_all
  have cov: "gfrom (?mac @ iv @ ct) (macSize s) = (Inr (iv @ ct) :: (dc_err, bytes) res)"
    using gfrom_nat [of "nat (macSize s)" "?mac @ iv @ ct"] gm m(4) by simp
  have "?bs \<le> length ?P" using P(1,2) by (metis less_nat_zero_code mod_less not_less)
  then have len: "\<not> glen (?mac @ iv @ ct) < macSize s + blockSize s + blockSize s"
    using iv lct m(7) bs(2) by (simp add: glen_def)
  have "int (length ?P) mod int ?bs = 0" unfolding zmod_int [symmetric] P(1) by simp
  moreover have "glen (?mac @ iv @ ct) - macSize s - blockSize s = int (length ?P)"
    using iv lct m(7) bs(2) by (simp add: glen_def)
  ultimately have whole: "\<not> (glen (?mac @ iv @ ct) - macSize s - blockSize s) mod blockSize s \<noteq> 0"
    using bs(2) by simp
  have mac: "\<not> sendMAC s (iv @ ct) \<noteq> take (nat (macSize s)) (?mac @ iv @ ct)" using gm by simp
  have cut: "take ?bs (iv @ ct) = iv" "drop ?bs (iv @ ct) = ct" using iv by simp_all
  have strip: "stripPadding ?P (blockSize s) = Inr (be32 pid @ pt)"
    using stripPadding_padded [of ?bs "be32 pid @ pt"] bs m(2) by simp
  have n4: "\<not> glen (be32 pid @ pt) < pidSize" by (simp add: glen_def dc_consts)
  show ?thesis
    unfolding openCBC_def Let_def m(3,5,6) body sum.case if_not_P [OF len] if_not_P [OF whole] cov if_not_P [OF mac] cut dec strip
      if_not_P [OF n4] getU32_be32
    by (cases "window_accept (replay ks) pid") (simp add: acceptReplay_def window_accept_unfold split: if_splits)
qed

section \<open>From one end to the other\<close>

text \<open>
  A key of the sender and one of the receiver match when they have the same id and their
  ciphers match in this direction. \<open>delivered\<close> is what \<open>Open\<close> gives for a payload that arrived.
\<close>

definition keys_match :: "keyState \<Rightarrow> keyState \<Rightarrow> bool" where
  "keys_match s r \<longleftrightarrow> ks_KeyID s = ks_KeyID r \<and> ks_KeyID r AND KeyIDMask = ks_KeyID r \<and>
    (case (ks_aead s, ks_aead r) of (Some a, Some b) \<Rightarrow> aead_match (ae_send a) (ae_recv b) \<and> recvIV b = sendIV a
     | (None, None) \<Rightarrow> (case (ks_cbc s, ks_cbc r) of (Some j, Some k) \<Rightarrow> cbc_match j k \<and> ivOk j | _ \<Rightarrow> False)
     | _ \<Rightarrow> False)"

definition delivered :: "bytes \<Rightarrow> bytes \<Rightarrow> bytes \<times> kind" where
  "delivered dst payload = finish (dst @ payload) (length dst) (classify payload)"

lemma header_len: "length (AppendDataHeader [] keyID peerID) = 1 \<or> length (AppendDataHeader [] keyID peerID) = 4"
  by (simp add: AppendDataHeader_def)

lemma header_append: "AppendDataHeader dst keyID peerID = dst @ AppendDataHeader [] keyID peerID"
  by (simp add: AppendDataHeader_def)

lemma ks_seal_open:
  assumes mt: "keys_match s r" and sealed: "ks_seal s dst peerID m payload = (Inr packet, s')"
  shows "\<exists>body. packet = dst @ AppendDataHeader [] (ks_KeyID s) peerID @ body \<and>
    ks_open r dst' (AppendDataHeader [] (ks_KeyID s) peerID @ body) (int (length (AppendDataHeader [] (ks_KeyID s) peerID))) =
     (if fst (window_accept (replay r) (ucast (sendPID s')))
      then (Inr (dst' @ frame m [] payload), r\<lparr>replay := snd (window_accept (replay r) (ucast (sendPID s')))\<rparr>)
      else (Inl (Err Replayed), r)) \<and>
    sendPID s' = sendPID s + 1 \<and> sendPID s' < lastPID \<and> keys_match s' r"
proof -
  let ?h = "AppendDataHeader [] (ks_KeyID s) peerID" and ?pid = "ucast (sendPID s + 1) :: u32" and ?F = "frame m [] payload"
  let ?s = "s\<lparr>sendPID := sendPID s + 1\<rparr>"
  have lt: "\<not> sendPID s + 1 \<ge> lastPID" using sealed by (auto simp: ks_seal_def nextPID_cases split: if_splits)
  have seal: "ks_seal s dst peerID m payload =
     (case ks_aead s of Some a \<Rightarrow> (aead_seal a (dst @ ?h) (length dst) ?pid m payload, ?s)
        | None \<Rightarrow> (case ks_cbc s of None \<Rightarrow> (Inl Panic, ?s)
           | Some k \<Rightarrow> (case cbc_seal k (dst @ ?h) ?pid m payload (ks_rand s) of (r, k, rnd) \<Rightarrow>
               (r, ?s\<lparr>ks_cbc := Some k, ks_rand := rnd\<rparr>))))"
    using lt header_append [of dst "ks_KeyID s" peerID] by (simp add: ks_seal_def nextPID_cases Let_def split: option.split)
  show ?thesis
  proof (cases "ks_aead s")
    case (Some a)
    then obtain b where b: "ks_aead r = Some b" "aead_match (ae_send a) (ae_recv b)" "recvIV b = sendIV a"
      using mt by (auto simp: keys_match_def split: option.splits)
    define ct where "ct = a_seal (ae_send a) (be32 ?pid @ sendIV a) ?F (ad_of ?h ?pid)"
    have law: "length (a_seal (ae_send a) nonce pt ad) = length pt + 16"
        "a_open (ae_recv b) nonce (a_seal (ae_send a) nonce pt ad) ad = Some pt" for nonce pt ad
      using b(2) by (simp_all add: aead_match_def)
    have eq: "aead_seal a (dst @ ?h) (length dst) ?pid m payload = Inr (dst @ ?h @ be32 ?pid @ drop (length ?F) ct @ take (length ?F) ct)"
      using law(1) header_len refl ct_def by (rule aead_seal_eq)
    have tg: "length (drop (length ?F) ct) = 16" by (simp add: ct_def law)
    have "a_open (ae_recv b) (be32 ?pid @ recvIV b) (take (length ?F) ct @ drop (length ?F) ct) (ad_of ?h ?pid) = Some ?F"
      by (simp add: b(3) ct_def law)
    from openAEAD_sealed [OF header_len refl tg this, of r dst'] show ?thesis
      using sealed seal eq lt Some b mt by (auto simp: ks_open_def keys_match_def)
  next
    case None
    then obtain j k where jk: "ks_aead r = None" "ks_cbc s = Some j" "ks_cbc r = Some k" "cbc_match j k" "ivOk j"
      using mt by (auto simp: keys_match_def split: option.splits)
    have jb: "8 \<le> blockSize j" "blockSize j \<le> 16" "\<And>x. glen (sendMAC j x) = macSize j" using jk(4) by (simp_all add: cbc_match_def)
    obtain ir j' rnd' where niv: "nextIV j (nat (blockSize j)) (ks_rand s) = (ir, j', rnd')" by (metis prod_cases3)
    have n16: "nat (blockSize j) \<le> 16" using jb(2) by simp
    note I = nextIV_ok [OF jk(5) n16 niv]
    obtain iv where ir: "ir = Inr iv"
    proof (cases ir)
      case (Inl e)
      then have "ks_seal s dst peerID m payload = (Inl e, ?s\<lparr>ks_cbc := Some j', ks_rand := rnd'\<rparr>)"
        unfolding seal None jk(2) option.case using cbc_seal_no_iv [OF niv [unfolded Inl]] by simp
      then show ?thesis using sealed by simp
    qed blast
    define ct where "ct = cbc_encrypt (cb_send j) iv (padded (nat (blockSize j)) (be32 ?pid @ ?F))"
    note eq = cbc_seal_eq [OF jb jk(5) niv [unfolded ir] ct_def, of "dst @ ?h"]
    have mt': "cbc_match j' k" using jk(4) by (subst I(4)) (simp add: cbc_match_def)
    have "packet = dst @ ?h @ sendMAC j (iv @ ct) @ iv @ ct" and s': "s' = ?s\<lparr>ks_cbc := Some j', ks_rand := rnd'\<rparr>"
      using sealed unfolding seal None jk(2) option.case eq prod.case by simp_all
    moreover have "sendPID s' = sendPID s + 1" "sendPID s' < lastPID" "keys_match s' r"
      using lt None jk(1,3) mt mt' I(1) unfolding s' by (simp_all add: keys_match_def)
    moreover have "ks_open r dst' p hl = openCBC r k dst' p hl" for p hl using jk(1,3) by (simp add: ks_open_def)
    ultimately show ?thesis
      using openCBC_sealed [OF jk(4) refl I(3) [OF ir] ct_def, of r dst' ?h] by auto
  qed
qed

end
