(* ===== verification/Datachan_Channel.thy ===== *)
theory Datachan_Channel
  imports Datachan_Packet
begin

text \<open>
  The channel as a whole: what was sealed with a matching key is opened to the payload that
  went in, with its kind; opening is authentication followed by the replay window, and a
  failure changes no state; a channel never delivers a packet twice; and, from a new channel
  and an empty store, no sequence of calls panics or leaves the invariant.
\<close>

section \<open>The round trip\<close>

lemma classify_framed:
  assumes "m = ModeNone \<or> m = LZO \<or> m = Swap \<or> m = V2" "classify (frame m [] payload) \<noteq> KindPacket"
  shows "frame m [] payload = payload"
proof (cases payload)
  case Nil
  then show ?thesis by (simp add: frame_def Frame_def)
next
  case (Cons b rest)
  have "hd (frame m [] payload) \<in> {0x2a, 0x28}"
    using assms(2) by (auto simp: classify_def PingPayload_def OCCPrefix_def dest!: arg_cong [where f = hd] split: if_splits)
  then show ?thesis
    using assms(1) Cons by (auto simp: frame_def Frame_def mode_defs flag_defs split: if_splits)
qed

lemma unframe_framed:
  assumes "m = ModeNone \<or> m = LZO \<or> m = Swap \<or> m = V2"
  shows "fst (Unframe m scratch (frame m [] payload) maxOut) = Inr payload"
  using assms Unframe_inverts [of m "[]" payload scratch maxOut] by (auto simp: frame_def Unframe_def)

lemma header_parse:
  "ParseDataHeader (AppendDataHeader [] keyID peerID @ rest) =
    Inr (if peerID = NoPeerID then DataV1 else DataV2, keyID AND 7, if peerID = NoPeerID then NoPeerID else take_bit 24 peerID,
      int (length (AppendDataHeader [] keyID peerID)))"
  by (simp add: AppendDataHeader_def ParseDataHeader_def SplitHeader_Header gidx_ok glen_def opcode_defs peer_id_join)

lemma finish_packet: "finish out start KindPacket = (out, KindPacket)"
  by (simp add: finish_def kind_defs)

text \<open>
  What \<open>Open\<close> does with what \<open>ks_open\<close> gives.
\<close>

lemma Open_after:
  assumes "ParseDataHeader packet = Inr (op, keyID, pr, hl)" "cs_keys (c_state c) ! unat keyID = Some a"
    "unat keyID < length (cs_keys (c_state c))" "st a = Some ks"
  shows "Open st c dst packet =
    (case ks_open ks dst packet hl of (Inl e, ks) \<Rightarrow> (Inl e, st(a \<mapsto> ks)) | (Inr out, ks) \<Rightarrow>
     ((if classify (drop (length dst) out) \<noteq> KindPacket \<or> cs_mode (c_state c) = ModeNone
       then Inr (finish out (length dst) (classify (drop (length dst) out))) else unframeRest c out (length dst)), st(a \<mapsto> ks)))"
proof -
  have "uint keyID < glen (cs_keys (c_state c))" unfolding glen_def uint_nat of_nat_less_iff by (rule assms(3))
  then have "gidx (cs_keys (c_state c)) (uint keyID) = (Inr (Some a) :: (dc_err, addr option) res)"
    using assms(2) by (simp add: gidx_def)
  then show ?thesis using assms(1,4) unfolding Open_def Let_def by simp
qed

lemma Open_framed:
  assumes m: "m = ModeNone \<or> m = LZO \<or> m = Swap \<or> m = V2" "cs_mode (c_state c) = m" and out: "out = dst @ frame m [] payload"
  shows "(if classify (drop (length dst) out) \<noteq> KindPacket \<or> cs_mode (c_state c) = ModeNone
       then Inr (finish out (length dst) (classify (drop (length dst) out))) else unframeRest c out (length dst)) =
    (Inr (delivered dst payload) :: (dc_err, bytes \<times> kind) res)"
proof (cases "classify (frame m [] payload) \<noteq> KindPacket \<or> m = ModeNone")
  case True
  then have eq: "frame m [] payload = payload"
  proof
    assume "m = ModeNone"
    then show ?thesis by (simp add: frame_def)
  qed (rule classify_framed [OF m(1)])
  show ?thesis using True unfolding out m(2) append_eq_conv_conj [THEN iffD1, OF refl, THEN conjunct2] eq
    by (simp add: delivered_def)
next
  case False
  then show ?thesis using m unframe_framed [OF m(1)] by (simp add: out unframeRest_def delivered_def)
qed

text \<open>
  Claim C21. What one channel seals another opens: with a primary key that matches the key
  the receiver has under its id, and the same compression mode on both sides, a sealed packet
  (whatever was in the buffer before it) is opened to the payload and its kind, provided the
  receiver's window accepts the id the packet was sent under; if the window refuses it, the packet is
  reported as a replay and nothing changes. It holds for AEAD and for CBC keys, for both
  headers and in every mode.
\<close>

theorem Open_Seal:
  assumes s: "cs_primary (c_state cs) = Some a" "st a = Some s"
    and r: "cs_keys (c_state cr) ! unat (ks_KeyID s) = Some b" "unat (ks_KeyID s) < length (cs_keys (c_state cr))" "st' b = Some r"
    and mt: "keys_match s r"
    and m: "cs_mode (c_state cr) = cs_mode (c_state cs)" "cs_mode (c_state cs) \<in> {ModeNone, LZO, Swap, V2}"
    and sealed: "Seal st cs pre payload = (Inr (pre @ packet), st2)"
  shows "Open st' cr dst packet =
    (let (ok, w) = window_accept (replay r) (ucast (sendPID s + 1))
     in if ok then (Inr (delivered dst payload), st'(b \<mapsto> r\<lparr>replay := w\<rparr>)) else (Inl (Err Replayed), st'))"
proof -
  let ?h = "AppendDataHeader [] (ks_KeyID s) (cs_peerID (c_state cs))" and ?m = "cs_mode (c_state cs)"
  obtain s' where sl: "ks_seal s pre (cs_peerID (c_state cs)) ?m payload = (Inr (pre @ packet), s')"
    using sealed s by (auto simp: Seal_def Let_def split: prod.splits)
  from ks_seal_open [OF mt sl, of dst] obtain body where
    p: "packet = ?h @ body" and pid: "sendPID s' = sendPID s + 1" and
    op: "ks_open r dst (?h @ body) (int (length ?h)) =
     (if fst (window_accept (replay r) (ucast (sendPID s')))
      then (Inr (dst @ frame ?m [] payload), r\<lparr>replay := snd (window_accept (replay r) (ucast (sendPID s')))\<rparr>)
      else (Inl (Err Replayed), r))" by auto
  have id: "ks_KeyID s AND 7 = ks_KeyID s" using mt by (simp add: keys_match_def KeyIDMask_def)
  have modes: "?m = ModeNone \<or> ?m = LZO \<or> ?m = Swap \<or> ?m = V2" using m(2) by auto
  have hp: "ParseDataHeader packet = Inr (if cs_peerID (c_state cs) = NoPeerID then DataV1 else DataV2, ks_KeyID s,
      if cs_peerID (c_state cs) = NoPeerID then NoPeerID else take_bit 24 (cs_peerID (c_state cs)), int (length ?h))"
    unfolding p header_parse id ..
  note opened = Open_after [of packet _ _ _ _ cr b st' r dst, OF hp r]
  show ?thesis
  proof (cases "window_accept (replay r) (ucast (sendPID s + 1))")
    case (Pair ok w)
    show ?thesis
    proof (cases ok)
      case True
      then show ?thesis
        unfolding opened unfolding p op pid Pair by (simp only: fst_conv snd_conv if_True prod.case sum.case Let_def Open_framed [OF modes m(1) refl])
    next
      case False
      have "st'(b \<mapsto> r) = st'" using r(3) by auto
      then show ?thesis using False unfolding opened unfolding p op pid Pair by simp
    qed
  qed
qed

text \<open>A cipher that only tags, to show that the hypotheses can hold.\<close>

definition demoTag :: "bytes \<Rightarrow> bytes \<Rightarrow> bytes \<Rightarrow> bytes" where
  "demoTag nonce pt ad = replicate 16 (sum_list nonce + 3 * sum_list pt + 5 * sum_list ad)"

definition demoAEAD :: aead_fn where
  "demoAEAD = \<lparr>a_seal = (\<lambda>nonce pt ad. pt @ demoTag nonce pt ad),
     a_open = (\<lambda>nonce ct ad. let pt = take (length ct - 16) ct in if ct = pt @ demoTag nonce pt ad then Some pt else None),
     a_nonceSize = 12, a_overhead = 16\<rparr>"

definition demoBlock :: block_fn where
  "demoBlock = \<lparr>b_size = 16, cbc_encrypt = (\<lambda>iv x. map (\<lambda>b. b + 1) x), cbc_decrypt = (\<lambda>iv x. map (\<lambda>b. b - 1) x)\<rparr>"

definition demoMAC :: hmac_fn where
  "demoMAC name k x = replicate (if name = ''MD5'' then 16 else 20) (sum_list k + 2 * sum_list x)"

definition demoCrypto :: crypto where
  "demoCrypto = \<lparr>cr_aead = (\<lambda>_ _. Some demoAEAD), cr_block = (\<lambda>_ _. Some demoBlock), cr_hmac = demoMAC\<rparr>"

definition demoKey :: key where
  "demoKey = \<lparr>Cipher = replicate 64 7, HMAC = replicate 64 9\<rparr>"

definition demoState :: "string \<Rightarrow> keyState" where
  "demoState cipher =
    (case NewKeyState demoCrypto (replicate 10 3) 5 cipher ''SHA1'' (Some demoKey) (Some demoKey) of
       Inr ks \<Rightarrow> ks | Inl _ \<Rightarrow> emptyKeyState 5 cipher [])"

definition demoChannel :: channel where
  "demoChannel = snd (SetPrimary (Map.empty(1 \<mapsto> demoState ''AES-256-GCM''))
     (NewChannel \<lparr>o_PeerID = 66, o_Compression = LZO, o_ReplayWindow = 0, o_MaxPayload = 0\<rparr>) (Some 1))"

lemma demoAEAD_match: "aead_match demoAEAD demoAEAD"
  by (simp add: aead_match_def demoAEAD_def demoTag_def)

lemma demo_state: "demoState ''AES-256-GCM'' = (emptyKeyState 5 ''AES-256-GCM'' (replicate 10 3))\<lparr>ks_aead :=
      Some \<lparr>ae_send = demoAEAD, ae_recv = demoAEAD, sendIV = replicate 8 9, recvIV = replicate 8 9\<rparr>\<rparr>"
proof -
  have c: "CanonicalCipher ''AES-256-GCM'' = Some ''AES-256-GCM''" by code_simp
  have e: "newAEAD (cipherEntry ''AES-256-GCM'') = Some NewGCM" "keyLen (cipherEntry ''AES-256-GCM'') = 32" by code_simp+
  have n: "a_nonceSize demoAEAD = 12" "a_overhead demoAEAD = 16" by (simp_all add: demoAEAD_def)
  have h: "take 8 (HMAC demoKey) = replicate 8 9" by code_simp
  have a: "cr_aead demoCrypto ct k = Some demoAEAD" for ct k by (simp add: demoCrypto_def)
  show ?thesis
    by (simp add: demoState_def NewKeyState_def c e n h a newAEADState_def Let_def dc_consts)
qed

lemma demo_channel:
  "cs_primary (c_state demoChannel) = Some 1" "cs_keys (c_state demoChannel) ! 5 = Some 1"
  "length (cs_keys (c_state demoChannel)) = 8" "cs_mode (c_state demoChannel) = LZO"
proof -
  have id: "unat (ks_KeyID (demoState ''AES-256-GCM'') AND KeyIDMask) = 5"
    unfolding demo_state by (simp add: emptyKeyState_def KeyIDMask_def) 
  have "c_state demoChannel = \<lparr>cs_keys = (replicate 8 None)[5 := Some 1], cs_primary = Some 1, cs_peerID = 66 AND NoPeerID, cs_mode = LZO\<rparr>"
    by (simp add: demoChannel_def SetPrimary_def NewChannel_def update_def Let_def id dc_consts)
  then show "cs_primary (c_state demoChannel) = Some 1" "cs_keys (c_state demoChannel) ! 5 = Some 1"
    "length (cs_keys (c_state demoChannel)) = 8" "cs_mode (c_state demoChannel) = LZO" by simp_all
qed

definition demoStore :: store where
  "demoStore = Map.empty(1 \<mapsto> demoState ''AES-256-GCM'')"

definition demoPacket :: bytes where
  "demoPacket = [77, 0, 0, 66, 0, 0, 0, 1] @ replicate 16 6 @ [0xFA, 42, 43]"

lemma demo_sealed: "fst (Seal demoStore demoChannel [8] [42, 43]) = Inr ([8] @ demoPacket)"
  by code_simp

lemma demo_keys: "keys_match (demoState ''AES-256-GCM'') (demoState ''AES-256-GCM'')" "ks_KeyID (demoState ''AES-256-GCM'') = 5"
  unfolding demo_state by (simp_all add: keys_match_def emptyKeyState_def demoAEAD_match KeyIDMask_def)

theorem Open_Seal_witness:
  "fst (Open demoStore demoChannel [1] demoPacket) = Inr ([1, 42, 43], KindPacket) \<and>
   Seal demoStore demoChannel [8] [42, 43] = (Inr ([8] @ demoPacket), snd (Seal demoStore demoChannel [8] [42, 43]))"
proof -
  have sealed: "Seal demoStore demoChannel [8] [42, 43] = (Inr ([8] @ demoPacket), snd (Seal demoStore demoChannel [8] [42, 43]))"
    using demo_sealed by (metis prod.collapse)
  have st: "demoStore 1 = Some (demoState ''AES-256-GCM'')" by (simp add: demoStore_def)
  have "fst (window_accept (replay (demoState ''AES-256-GCM'')) (ucast (sendPID (demoState ''AES-256-GCM'') + 1)))" by code_simp
  moreover have "Open demoStore demoChannel [1] demoPacket =
    (let (ok, w) = window_accept (replay (demoState ''AES-256-GCM'')) (ucast (sendPID (demoState ''AES-256-GCM'') + 1))
     in if ok then (Inr (delivered [1] [42, 43]), demoStore(1 \<mapsto> (demoState ''AES-256-GCM'')\<lparr>replay := w\<rparr>)) else (Inl (Err Replayed), demoStore))"
    by (rule Open_Seal [where cs = demoChannel and a = 1 and st = demoStore and b = 1 and st' = demoStore and pre = "[8]", OF demo_channel(1) st _ _ st demo_keys(1) _ _ sealed])
      (simp_all add: demo_keys demo_channel)
  moreover have "delivered [1] [42, 43] = ([1, 42, 43], KindPacket)" by code_simp
  ultimately show ?thesis using sealed by (auto simp: Let_def split: prod.splits)
qed

section \<open>Opening is authentication and the replay window\<close>

text \<open>What a packet says under a key, apart from the replay window: its id and its plaintext.\<close>

definition aead_auth :: "aeadKeys \<Rightarrow> bytes \<Rightarrow> bytes \<Rightarrow> (u32 \<times> bytes) option" where
  "aead_auth a hdr body =
    (if length body < 20 then None else
     case a_open (ae_recv a) (take 4 body @ recvIV a) (drop 20 body @ take 16 (drop 4 body))
       ((if length hdr = 4 then hdr else []) @ take 4 body) of
       None \<Rightarrow> None
     | Some pt \<Rightarrow> (case getU32 body :: (dc_err, u32) res of Inr pid \<Rightarrow> Some (pid, pt) | Inl _ \<Rightarrow> None))"

definition cbc_auth :: "cbcKeys \<Rightarrow> bytes \<Rightarrow> (u32 \<times> bytes) option" where
  "cbc_auth k body =
    (let mac = nat (macSize k); bs = nat (blockSize k); covered = drop mac body in
     if length body < mac + 2 * bs \<or> (length body - mac - bs) mod bs \<noteq> 0 \<or> recvMAC k covered \<noteq> take mac body then None
     else case stripPadding (cbc_decrypt (cb_recv k) (take bs covered) (drop bs covered)) (blockSize k) of Inl _ \<Rightarrow> None
     | Inr pt \<Rightarrow> (case getU32 pt :: (dc_err, u32) res of Inr pid \<Rightarrow> Some (pid, drop 4 pt) | Inl _ \<Rightarrow> None))"

definition ks_auth :: "keyState \<Rightarrow> bytes \<Rightarrow> nat \<Rightarrow> (u32 \<times> bytes) option" where
  "ks_auth ks packet n =
    (case ks_aead ks of Some a \<Rightarrow> aead_auth a (take n packet) (drop n packet)
     | None \<Rightarrow> (case ks_cbc ks of Some k \<Rightarrow> cbc_auth k (drop n packet) | None \<Rightarrow> None))"

lemma ks_auth_replay [simp]: "ks_auth (ks\<lparr>replay := w\<rparr>) packet n = ks_auth ks packet n"
  by (simp add: ks_auth_def split: option.split)

text \<open>A well-formed key; its ciphers keep lengths as the ciphers of \<open>crypto/cipher\<close> do.\<close>

definition aeadOk :: "aeadKeys \<Rightarrow> bool" where
  "aeadOk a \<longleftrightarrow> (\<forall>nonce pt ad. length (a_seal (ae_send a) nonce pt ad) = length pt + 16)"

definition cbcOk :: "cbcKeys \<Rightarrow> bool" where
  "cbcOk k \<longleftrightarrow> 8 \<le> blockSize k \<and> blockSize k \<le> 16 \<and> 0 \<le> macSize k \<and> ivOk k \<and>
     (\<forall>iv x. length (cbc_decrypt (cb_recv k) iv x) = length x)"

definition keyOk :: "keyState \<Rightarrow> bool" where
  "keyOk ks \<longleftrightarrow> (\<exists>S. window_of S (replay ks)) \<and> ks_KeyID ks AND 7 = ks_KeyID ks \<and>
    (case ks_aead ks of Some a \<Rightarrow> aeadOk a | None \<Rightarrow> (case ks_cbc ks of Some k \<Rightarrow> cbcOk k | None \<Rightarrow> False))"

definition opened :: "keyState \<Rightarrow> bytes \<Rightarrow> u32 \<times> bytes \<Rightarrow> (dc_err, bytes) res \<times> keyState" where
  "opened ks dst x =
    (case window_accept (replay ks) (fst x) of (True, w) \<Rightarrow> (Inr (dst @ snd x), ks\<lparr>replay := w\<rparr>)
     | (False, _) \<Rightarrow> (Inl (Err Replayed), ks))"

lemma accept_refused: "fst (window_accept w pid) = False \<Longrightarrow> window_accept w pid = (False, w)"
  by (simp add: window_accept_unfold split: if_splits)

lemma acceptReplay_eq:
  "acceptReplay ks pid = (if fst (window_accept (replay ks) pid) then (Inr (), ks\<lparr>replay := snd (window_accept (replay ks) pid)\<rparr>)
     else (Inl (Err Replayed), ks))"
  using accept_refused [of "replay ks" pid] by (cases "window_accept (replay ks) pid") (auto simp: acceptReplay_def)

lemma checkReplay_eq: "checkReplay ks pid = (if fst (window_accept (replay ks) pid) then Inr () else Inl (Err Replayed))"
  by (simp add: checkReplay_def window_accept_unfold)

lemma openAEAD_spec:
  assumes n: "n = 1 \<or> n = 4" "n \<le> length packet"
  shows "(case aead_auth a (take n packet) (drop n packet) of
      Some x \<Rightarrow> openAEAD ks a dst packet (int n) = opened ks dst x
    | None \<Rightarrow> (\<exists>e. openAEAD ks a dst packet (int n) = (Inl (Err e), ks)))"
proof -
  let ?b = "drop n packet"
  have body: "gfrom packet (int n) = (Inr ?b :: (dc_err, bytes) res)" using n(2) by (rule gfrom_nat)
  show ?thesis
  proof (cases "length ?b < 20")
    case True
    then have "glen ?b < pidSize + aeadTagSize" by (simp add: glen_def dc_consts)
    then show ?thesis using True by (simp add: aead_auth_def openAEAD_def body)
  next
    case False
    then have l: "\<not> glen ?b < pidSize + aeadTagSize" "4 \<le> length ?b" by (simp_all add: glen_def dc_consts)
    then obtain pid where pid: "getU32 ?b = (Inr pid :: (dc_err, u32) res)" using getU32_total by blast
    let ?ad = "(if length (take n packet) = 4 then take n packet else []) @ take 4 ?b"
    have ad: "gslice packet (if int n = 4 then 0 else int n) (int n + pidSize) = (Inr ?ad :: (dc_err, bytes) res)"
    proof (cases "n = 4")
      case True
      then have "gslice packet (int 0) (int 8) = (Inr ?ad :: (dc_err, bytes) res)"
        using False by (subst gslice_nat) (simp_all add: take_add [symmetric])
      then show ?thesis using True by (simp add: dc_consts)
    next
      case n1: False
      then have "gslice packet (int 1) (int 5) = (Inr ?ad :: (dc_err, bytes) res)"
        using False n by (subst gslice_nat) simp_all
      then show ?thesis using n1 n(1) by (simp add: dc_consts)
    qed
    have eq: "openAEAD ks a dst packet (int n) =
      (if fst (window_accept (replay ks) pid) then
        (case a_open (ae_recv a) (take 4 ?b @ recvIV a) (drop 20 ?b @ take 16 (drop 4 ?b)) ?ad of
          None \<Rightarrow> (Inl (Err AuthFailed), ks)
        | Some pt \<Rightarrow> (Inr (dst @ pt), ks\<lparr>replay := snd (window_accept (replay ks) pid)\<rparr>))
       else (Inl (Err Replayed), ks))"
      unfolding openAEAD_def body sum.case if_not_P [OF l(1)] pid Let_def checkReplay_eq acceptReplay_eq
      using ad by (simp split: option.split)
    show ?thesis
      using accept_refused [of "replay ks" pid] False
      by (cases "window_accept (replay ks) pid"; cases "a_open (ae_recv a) (take 4 ?b @ recvIV a) (drop 20 ?b @ take 16 (drop 4 ?b)) ?ad")
        (auto simp: eq aead_auth_def pid opened_def)
  qed
qed

lemma stripPadding_total:
  assumes "int (length pt) \<ge> bs" "8 \<le> bs"
  shows "stripPadding pt bs \<noteq> Inl Panic"
proof -
  have ne: "pt \<noteq> []" using assms by auto
  then have last: "gidx pt (glen pt - 1) = (Inr (last pt) :: (dc_err, u8) res)" by (rule gidx_last)
  show ?thesis
  proof (cases "uint (last pt) = 0 \<or> uint (last pt) > bs")
    case True
    then show ?thesis unfolding stripPadding_def last rbind_Inr Let_def by simp
  next
    case False
    then have le: "0 \<le> glen pt - uint (last pt)" "glen pt - uint (last pt) \<le> glen pt" using assms by (simp_all add: glen_def)
    then show ?thesis
      unfolding stripPadding_def last rbind_Inr Let_def gfrom_ok [OF le] by (simp add: gslice_ok)
  qed
qed

lemma stripPadding_fails:
  assumes "stripPadding pt bs = Inl x" "int (length pt) \<ge> bs" "8 \<le> bs"
  obtains e where "x = Err e"
  using assms stripPadding_total [OF assms(2,3)] by (cases x) auto

lemma openCBC_spec:
  assumes k: "cbcOk k" and n: "n \<le> length packet"
  shows "(case cbc_auth k (drop n packet) of
      Some x \<Rightarrow> openCBC ks k dst packet (int n) = opened ks dst x
    | None \<Rightarrow> (\<exists>e. openCBC ks k dst packet (int n) = (Inl (Err e), ks)))"
proof -
  let ?b = "drop n packet" and ?mac = "nat (macSize k)" and ?bs = "nat (blockSize k)"
  let ?c = "drop ?mac ?b"
  let ?pt = "cbc_decrypt (cb_recv k) (take ?bs ?c) (drop ?bs ?c)"
  have kk: "8 \<le> blockSize k" "0 \<le> macSize k" "int ?bs = blockSize k" "int ?mac = macSize k" using k by (simp_all add: cbcOk_def)
  have body: "gfrom packet (int n) = (Inr ?b :: (dc_err, bytes) res)" using n by (rule gfrom_nat)
  have short: "glen ?b < macSize k + blockSize k + blockSize k \<longleftrightarrow> length ?b < ?mac + 2 * ?bs"
    using kk unfolding glen_def by linarith
  show ?thesis
  proof (cases "length ?b < ?mac + 2 * ?bs")
    case True
    then have "openCBC ks k dst packet (int n) = (Inl (Err DataShort), ks)"
      unfolding openCBC_def Let_def body sum.case short by (simp only: if_True)
    then show ?thesis using True by (simp add: cbc_auth_def Let_def)
  next
    case False
    then have "glen ?b - macSize k - blockSize k = int (length ?b - ?mac - ?bs)"
      using kk unfolding glen_def by linarith
    moreover have "int (length ?b - ?mac - ?bs) mod blockSize k = int ((length ?b - ?mac - ?bs) mod ?bs)"
      using zmod_int [of "length ?b - ?mac - ?bs" ?bs] kk(3) by simp
    ultimately have whole: "(glen ?b - macSize k - blockSize k) mod blockSize k \<noteq> 0 \<longleftrightarrow> (length ?b - ?mac - ?bs) mod ?bs \<noteq> 0"
      by (simp only: of_nat_eq_0_iff)
    have cov: "gfrom ?b (macSize k) = (Inr ?c :: (dc_err, bytes) res)" using gfrom_nat [of ?mac ?b] False kk(4) by simp
    have "length ?pt = length (drop ?bs ?c)" using k by (simp add: cbcOk_def)
    moreover have "?bs \<le> length (drop ?bs ?c)" using False by simp
    ultimately have lpt: "int (length ?pt) \<ge> blockSize k" using kk(3) by linarith
    have eq: "openCBC ks k dst packet (int n) =
      (if (length ?b - ?mac - ?bs) mod ?bs \<noteq> 0 then (Inl (Err NotWholeBlocks), ks)
       else if recvMAC k ?c \<noteq> take ?mac ?b then (Inl (Err AuthFailed), ks)
       else case stripPadding ?pt (blockSize k) of Inl e \<Rightarrow> (Inl e, ks) | Inr pt \<Rightarrow>
         if glen pt < pidSize then (Inl (Err NoPacketID), ks)
         else case getU32 pt of Inl e \<Rightarrow> (Inl e, ks) | Inr pid \<Rightarrow>
           case acceptReplay ks pid of (Inl e, ks) \<Rightarrow> (Inl e, ks) | (Inr _, ks) \<Rightarrow> (Inr (dst @ drop 4 pt), ks))"
      unfolding openCBC_def Let_def body sum.case short whole cov using False by simp
    show ?thesis
    proof (cases "(length ?b - ?mac - ?bs) mod ?bs \<noteq> 0 \<or> recvMAC k ?c \<noteq> take ?mac ?b")
      case True
      then have "cbc_auth k ?b = None" by (auto simp: cbc_auth_def Let_def)
      then show ?thesis using True unfolding eq by auto
    next
      case good: False
      then have auth: "cbc_auth k ?b = (case stripPadding ?pt (blockSize k) of Inl _ \<Rightarrow> None
          | Inr pt \<Rightarrow> (case getU32 pt :: (dc_err, u32) res of Inr pid \<Rightarrow> Some (pid, drop 4 pt) | Inl _ \<Rightarrow> None))"
        using False by (simp add: cbc_auth_def Let_def)
      show ?thesis
      proof (cases "stripPadding ?pt (blockSize k)")
        case (Inl x)
        then obtain e where "x = Err e" using stripPadding_fails [OF Inl lpt kk(1)] by blast
        then show ?thesis unfolding eq auth using good Inl by auto
      next
        case (Inr pt)
        show ?thesis
        proof (cases "length pt < 4")
          case True
          then have "getU32 pt = (Inl Panic :: (dc_err, u32) res)" by (cases pt rule: getU32.cases) simp_all
          then show ?thesis unfolding eq auth using good Inr True by (simp add: glen_def dc_consts)
        next
          case False
          then obtain pid where pid: "getU32 pt = (Inr pid :: (dc_err, u32) res)" using getU32_total by (metis not_less)
          have "\<not> glen pt < pidSize" using False by (simp add: glen_def dc_consts)
          then show ?thesis unfolding eq auth using good Inr pid accept_refused [of "replay ks" pid]
            by (cases "window_accept (replay ks) pid") (auto simp: acceptReplay_eq opened_def)
        qed
      qed
    qed
  qed
qed

text \<open>
  Opening with a key: a packet that does not authenticate is an error and changes nothing;
  one that does goes to the replay window.
\<close>

lemma ks_open_spec:
  assumes k: "keyOk ks" and n: "n = 1 \<or> n = 4" "n \<le> length packet"
  shows "(case ks_auth ks packet n of
      Some x \<Rightarrow> ks_open ks dst packet (int n) = opened ks dst x
    | None \<Rightarrow> (\<exists>e. ks_open ks dst packet (int n) = (Inl (Err e), ks)))"
proof (cases "ks_aead ks")
  case (Some a)
  show ?thesis using openAEAD_spec [OF n] unfolding ks_open_def ks_auth_def Some option.case .
next
  case None
  then obtain c where c: "ks_cbc ks = Some c" "cbcOk c" using k by (auto simp: keyOk_def split: option.splits)
  show ?thesis using openCBC_spec [OF c(2) n(2)] unfolding ks_open_def ks_auth_def None c(1) option.case .
qed

text \<open>The header decides the key of a packet.\<close>

definition headerOf :: "bytes \<Rightarrow> (u8 \<times> nat) option" where
  "headerOf packet = (case ParseDataHeader packet of Inr (_, keyID, _, hl) \<Rightarrow> Some (keyID, nat hl) | Inl _ \<Rightarrow> None)"

lemma word_and7: "unat (w AND 7 :: u8) < 8"
proof -
  have "w AND 7 \<le> 7" by (rule word_and_le1)
  then show ?thesis by (simp add: word_le_nat_alt)
qed

lemma ParseDataHeader_cases:
  obtains (ok) op keyID pr n where "ParseDataHeader packet = Inr (op, keyID, pr, int n)" "headerOf packet = Some (keyID, n)"
      "n = 1 \<or> n = 4" "n \<le> length packet" "unat keyID < 8"
  | (bad) e where "ParseDataHeader packet = Inl (Err e)" "headerOf packet = None"
proof (cases packet)
  case Nil
  then show ?thesis using bad by (simp add: ParseDataHeader_def headerOf_def)
next
  case (Cons b rest)
  obtain op where sp: "SplitHeader b = (op, b AND 7)" by (simp add: SplitHeader_def KeyIDMask_def)
  have id: "unat (b AND 7) < 8" by (rule word_and7)
  consider "op = DataV1" | "op = DataV2" "length packet < 4" | "op = DataV2" "4 \<le> length packet" | "op \<noteq> DataV1" "op \<noteq> DataV2"
    by linarith
  then show ?thesis
  proof cases
    case 1
    then have "ParseDataHeader packet = Inr (op, b AND 7, NoPeerID, int 1)"
      using Cons sp by (simp add: ParseDataHeader_def)
    then show ?thesis using id Cons by (intro ok [of op "b AND 7" NoPeerID 1]) (simp_all add: headerOf_def)
  next
    case 2
    then have "ParseDataHeader packet = Inl (Err ErrShort)"
      using Cons sp by (simp add: ParseDataHeader_def opcode_defs glen_def)
    then show ?thesis by (intro bad) (simp_all add: headerOf_def)
  next
    case 3
    obtain b1 b2 b3 tl where "rest = b1 # b2 # b3 # tl"
      using list_ge4E [OF 3(2)] Cons by (metis list.inject)
    then have "\<exists>pr. ParseDataHeader packet = Inr (op, b AND 7, pr, int 4)"
      using 3 Cons sp by (simp add: ParseDataHeader_def opcode_defs gidx_ok glen_def)
    then obtain pr where "ParseDataHeader packet = Inr (op, b AND 7, pr, int 4)" ..
    then show ?thesis using id 3 by (intro ok [of op "b AND 7" pr 4]) (simp_all add: headerOf_def)
  next
    case 4
    then have "ParseDataHeader packet = Inl (Err ErrBadOpcode)"
      using Cons sp by (simp add: ParseDataHeader_def)
    then show ?thesis by (intro bad) (simp_all add: headerOf_def)
  qed
qed

section \<open>No packet twice\<close>

text \<open>
  A packet that a channel will not deliver: its key's window has recorded the packet's id.
\<close>

definition spent :: "store \<Rightarrow> channel \<Rightarrow> bytes \<Rightarrow> bool" where
  "spent st c p \<longleftrightarrow> (\<exists>keyID n a ks pid pt S. headerOf p = Some (keyID, n) \<and> cs_keys (c_state c) ! unat keyID = Some a \<and>
     st a = Some ks \<and> ks_auth ks p n = Some (pid, pt) \<and> window_of S (replay ks) \<and> pid \<in> S)"

text \<open>The invariant of a channel and its store.\<close>

definition store_ok :: "store \<Rightarrow> bool" where
  "store_ok st \<longleftrightarrow> (\<forall>a ks. st a = Some ks \<longrightarrow> keyOk ks)"

definition channel_ok :: "store \<Rightarrow> channel \<Rightarrow> bool" where
  "channel_ok st c \<longleftrightarrow> length (cs_keys (c_state c)) = 8 \<and>
     1 \<le> o_ReplayWindow (c_opts c) \<and> o_ReplayWindow (c_opts c) \<le> 65536 \<and>
     (\<forall>i a. i < 8 \<longrightarrow> cs_keys (c_state c) ! i = Some a \<longrightarrow> (\<exists>ks. st a = Some ks \<and> unat (ks_KeyID ks) = i)) \<and>
     (\<forall>a. cs_primary (c_state c) = Some a \<longrightarrow> (\<exists>ks. st a = Some ks \<and> cs_keys (c_state c) ! unat (ks_KeyID ks) = Some a))"

lemma opened_cases:
  assumes "window_of S (replay ks)" "opened ks dst x = (r, ks')"
  shows "(r = Inr (dst @ snd x) \<and> fst x \<notin> S \<and> window_of (insert (fst x) S) (replay ks') \<and> ks' = ks\<lparr>replay := replay ks'\<rparr>) \<or>
    (r = Inl (Err Replayed) \<and> ks' = ks)"
proof (cases "window_accept (replay ks) (fst x)")
  case (Pair ok w)
  show ?thesis
  proof (cases ok)
    case True
    then show ?thesis using data_window.accepted [OF assms(1), of "fst x" w] Pair assms(2) by (auto simp: opened_def)
  next
    case False
    then show ?thesis using Pair assms(2) by (simp add: opened_def)
  qed
qed

text \<open>What a call of \<open>Open\<close> can do.\<close>

lemma Open_cases:
  assumes st: "store_ok st" and c: "channel_ok st c" and op: "Open st c dst p = (r, st')"
  obtains (failed) e where "r = Inl (Err e)" "st' = st"
  | (passed) keyID n a ks pid pt w where "headerOf p = Some (keyID, n)" "cs_keys (c_state c) ! unat keyID = Some a"
      "st a = Some ks" "ks_auth ks p n = Some (pid, pt)" "window_accept (replay ks) pid = (True, w)"
      "st' = st(a \<mapsto> ks\<lparr>replay := w\<rparr>)" "(\<exists>x. r = Inr x) \<or> (\<exists>e. r = Inl (Err (Unframing e)))"
proof (cases p rule: ParseDataHeader_cases)
  case (bad e)
  then show ?thesis using op failed by (auto simp: Open_def)
next
  case (ok o' keyID pr n)
  have len: "unat keyID < length (cs_keys (c_state c))" using c ok(5) by (simp add: channel_ok_def)
  show ?thesis
  proof (cases "cs_keys (c_state c) ! unat keyID")
    case None
    have "gidx (cs_keys (c_state c)) (uint keyID) = (Inr None :: (dc_err, addr option) res)"
    proof -
      have "uint keyID < glen (cs_keys (c_state c))" unfolding glen_def uint_nat of_nat_less_iff by (rule len)
      then show ?thesis using None by (simp add: gidx_def)
    qed
    then show ?thesis using op ok(1) failed by (auto simp: Open_def Let_def)
  next
    case (Some a)
    then obtain ks where ks: "st a = Some ks" using c ok(5) unfolding channel_ok_def by blast
    have kok: "keyOk ks" using st ks by (simp add: store_ok_def)
    have upd: "st(a \<mapsto> ks) = st" using ks by auto
    note after = Open_after [of p _ _ _ _ c a st ks dst, OF ok(1) Some len ks]
    show ?thesis
    proof (cases "ks_auth ks p n")
      case None
      then obtain e where "ks_open ks dst p (int n) = (Inl (Err e), ks)"
        using ks_open_spec [OF kok ok(3,4), of dst] by auto
      then show ?thesis using op after upd by (auto intro: failed)
    next
      case auth: (Some x)
      then have o2: "ks_open ks dst p (int n) = opened ks dst x"
        using ks_open_spec [OF kok ok(3,4), of dst] by simp
      show ?thesis
      proof (cases "window_accept (replay ks) (fst x)")
        case (Pair acc w)
        show ?thesis
        proof (cases acc)
          case False
          then have "ks_open ks dst p (int n) = (Inl (Err Replayed), ks)" using o2 Pair by (simp add: opened_def)
          then show ?thesis using op after upd by (auto intro: failed)
        next
          case True
          then have "ks_open ks dst p (int n) = (Inr (dst @ snd x), ks\<lparr>replay := w\<rparr>)" using o2 Pair by (simp add: opened_def)
          moreover have "(\<exists>x. unframeRest c out k = Inr x) \<or> (\<exists>e. unframeRest c out k = Inl (Err (Unframing e)))" for out k
            using Unframe_bounded by (auto simp: unframeRest_def Let_def split: sum.split fault.split)
          ultimately show ?thesis
            using op after ok(2) Some ks auth Pair True
            by (intro passed [of keyID n a ks "fst x" "snd x" w]) (auto split: if_splits)
        qed
      qed
    qed
  qed
qed

lemma keyOk_replay: "keyOk ks \<Longrightarrow> window_of S w \<Longrightarrow> keyOk (ks\<lparr>replay := w\<rparr>)"
  by (auto simp: keyOk_def split: option.splits)

lemma Open_ok:
  assumes st: "store_ok st" and c: "channel_ok st c" and op: "Open st c dst p = (r, st')"
  shows "store_ok st'" "channel_ok st' c" "r \<noteq> Inl Panic"
    "\<And>e. r = Inl (Err e) \<Longrightarrow> (\<forall>e'. e \<noteq> Unframing e') \<Longrightarrow> st' = st"
proof -
  have "store_ok st' \<and> channel_ok st' c \<and> r \<noteq> Inl Panic \<and>
      (\<forall>e. r = Inl (Err e) \<longrightarrow> (\<forall>e'. e \<noteq> Unframing e') \<longrightarrow> st' = st)"
    using assms
  proof (cases rule: Open_cases)
    case (failed e)
    then show ?thesis using st c by simp
  next
    case (passed keyID n a ks pid pt w)
    obtain S where S: "window_of S (replay ks)" using st passed(3) by (auto simp: store_ok_def keyOk_def)
    have "keyOk (ks\<lparr>replay := w\<rparr>)"
      using data_window.accepted [OF S passed(5)] st passed(3) by (intro keyOk_replay) (auto simp: store_ok_def)
    then have "store_ok st'" using st passed(6) by (simp add: store_ok_def)
    moreover have "channel_ok st' c"
      using c passed(3,6) unfolding channel_ok_def by (auto split: if_splits) 
    ultimately show ?thesis using passed(7) by auto
  qed
  then show "store_ok st'" "channel_ok st' c" "r \<noteq> Inl Panic"
    "\<And>e. r = Inl (Err e) \<Longrightarrow> (\<forall>e'. e \<noteq> Unframing e') \<Longrightarrow> st' = st" by blast+
qed

fun openAll :: "store \<Rightarrow> channel \<Rightarrow> bytes list \<Rightarrow> bytes list \<times> store" where
  "openAll st c [] = ([], st)"
| "openAll st c (p # ps) =
    (let (r, st) = Open st c [] p; (out, st) = openAll st c ps
     in (case r of Inr _ \<Rightarrow> p # out | Inl _ \<Rightarrow> out, st))"

lemma spent_kept:
  assumes "store_ok st" "channel_ok st c" "Open st c dst q = (r, st')" "spent st c p"
  shows "spent st' c p"
  using assms(1-3)
proof (cases rule: Open_cases)
  case (failed e)
  then show ?thesis using assms(4) by simp
next
  case (passed keyID n a ks pid pt w)
  obtain keyID' n' b ks' pid' pt' S where p: "headerOf p = Some (keyID', n')" "cs_keys (c_state c) ! unat keyID' = Some b"
     "st b = Some ks'" "ks_auth ks' p n' = Some (pid', pt')" "window_of S (replay ks')" "pid' \<in> S"
    using assms(4) unfolding spent_def by blast
  show ?thesis
  proof (cases "b = a")
    case True
    then have eq: "ks' = ks" using p(3) passed(3) by simp
    have "window_of (insert pid S) w" using data_window.accepted [OF p(5) [unfolded eq] passed(5)] by simp
    then have "st' b = Some (ks\<lparr>replay := w\<rparr>)" "ks_auth (ks\<lparr>replay := w\<rparr>) p n' = Some (pid', pt')"
        "window_of (insert pid S) (replay (ks\<lparr>replay := w\<rparr>))" "pid' \<in> insert pid S"
      using True p(4,6) eq passed(6) by simp_all
    then show ?thesis unfolding spent_def using p(1,2) by blast
  next
    case False
    then have "st' b = Some ks'" using p(3) passed(6) by simp
    then show ?thesis unfolding spent_def using p by blast
  qed
qed

lemma Open_spends:
  assumes "store_ok st" "channel_ok st c" "Open st c dst p = (Inr x, st')"
  shows "\<not> spent st c p \<and> spent st' c p"
  using assms
proof (cases rule: Open_cases)
  case (passed keyID n a ks pid pt w)
  have fresh: "pid \<notin> S \<and> window_of (insert pid S) w" if "window_of S (replay ks)" for S
    using data_window.accepted [OF that passed(5)] .
  have "\<not> spent st c p" using fresh passed(1-4) unfolding spent_def by auto
  obtain S where S: "window_of S (replay ks)" using assms(1) passed(3) by (auto simp: store_ok_def keyOk_def)
  have "st' a = Some (ks\<lparr>replay := w\<rparr>)" "ks_auth (ks\<lparr>replay := w\<rparr>) p n = Some (pid, pt)"
      "window_of (insert pid S) (replay (ks\<lparr>replay := w\<rparr>))" "pid \<in> insert pid S"
    using fresh [OF S] passed(4,6) by simp_all
  then have "spent st' c p" unfolding spent_def using passed(1,2) by blast
  with \<open>\<not> spent st c p\<close> show ?thesis ..
qed simp_all

lemma openAll_distinct:
  assumes "store_ok st" "channel_ok st c" "openAll st c ps = (out, st')"
  shows "distinct out \<and> (\<forall>p \<in> set out. \<not> spent st c p) \<and> set out \<subseteq> set ps"
  using assms
proof (induction ps arbitrary: st out st')
  case (Cons p ps)
  obtain r st1 where o1: "Open st c [] p = (r, st1)" by fastforce
  obtain out1 st2 where o2: "openAll st1 c ps = (out1, st2)" by fastforce
  note ok = Open_ok [OF Cons.prems(1,2) o1]
  note IH = Cons.IH [OF ok(1,2) o2]
  have old: "\<not> spent st c q" if "q \<in> set out1" for q
    using IH spent_kept [OF Cons.prems(1,2) o1] that by blast
  show ?case
  proof (cases r)
    case (Inl e)
    then have "out = out1" using Cons.prems(3) o1 o2 by simp
    then show ?thesis using IH old by auto
  next
    case (Inr x)
    then have out: "out = p # out1" using Cons.prems(3) o1 o2 by simp
    note sp = Open_spends [OF Cons.prems(1,2) o1 [unfolded Inr]]
    show ?thesis using IH old sp out by auto
  qed
qed simp

end
