(* ===== verification/Datachan_Run.thy ===== *)
theory Datachan_Run
  imports Datachan_Channel
begin

text \<open>
  Key states as \<open>NewKeyState\<close> makes them, and channels over any sequence of calls. What the
  standard ciphers and hashes promise is the predicate \<open>crypto_ok\<close>: constructors accept keys of
  their sizes, nonces and tags have the sizes of GCM and ChaCha20-Poly1305, blocks those of AES
  and Blowfish, a message sealed or encrypted under a key is opened or decrypted under it, and a keyed
  hash has the size of its digest.
\<close>

section \<open>New keys\<close>

definition block_match :: "block_fn \<Rightarrow> bool" where
  "block_match f \<longleftrightarrow> (\<forall>iv x. length (cbc_encrypt f iv x) = length x \<and> length (cbc_decrypt f iv x) = length x \<and>
     (length x mod nat (b_size f) = 0 \<longrightarrow> cbc_decrypt f iv (cbc_encrypt f iv x) = x))"

definition crypto_ok :: "crypto \<Rightarrow> bool" where
  "crypto_ok cr \<longleftrightarrow>
    (\<forall>k. length k \<in> {16, 24, 32} \<longrightarrow> (\<exists>f. cr_aead cr NewGCM k = Some f \<and> aead_match f f \<and> a_nonceSize f = 12 \<and> a_overhead f = 16)) \<and>
    (\<forall>k. length k = 32 \<longrightarrow> (\<exists>f. cr_aead cr NewChaCha20Poly1305 k = Some f \<and> aead_match f f \<and> a_nonceSize f = 12 \<and> a_overhead f = 16)) \<and>
    (\<forall>k. length k \<in> {16, 24, 32} \<longrightarrow> (\<exists>f. cr_block cr AESNewCipher k = Some f \<and> block_match f \<and> b_size f = 16)) \<and>
    (\<forall>k. length k = 16 \<longrightarrow> (\<exists>f. cr_block cr NewBlowfish k = Some f \<and> block_match f \<and> b_size f = 8)) \<and>
    (\<forall>d n k x. map_of digests d = Some n \<longrightarrow> glen (cr_hmac cr d k x) = n)"

definition key_ok :: "key \<Rightarrow> bool" where
  "key_ok k \<longleftrightarrow> length (Cipher k) = 64 \<and> length (HMAC k) = 64"

lemma crypto_okD:
  assumes "crypto_ok cr"
  shows "length k \<in> {16, 24, 32} \<Longrightarrow> \<exists>f. cr_aead cr NewGCM k = Some f \<and> aead_match f f \<and> a_nonceSize f = 12 \<and> a_overhead f = 16"
    "length k = 32 \<Longrightarrow> \<exists>f. cr_aead cr NewChaCha20Poly1305 k = Some f \<and> aead_match f f \<and> a_nonceSize f = 12 \<and> a_overhead f = 16"
    "length k \<in> {16, 24, 32} \<Longrightarrow> \<exists>f. cr_block cr AESNewCipher k = Some f \<and> block_match f \<and> b_size f = 16"
    "length k = 16 \<Longrightarrow> \<exists>f. cr_block cr NewBlowfish k = Some f \<and> block_match f \<and> b_size f = 8"
    "map_of digests d = Some n \<Longrightarrow> glen (cr_hmac cr d k x) = n"
  using assms unfolding crypto_ok_def by blast+

text \<open>The entries the table of ciphers can give, and the sizes of the digests.\<close>

definition entryOk :: "dc_cipherInfo \<Rightarrow> bool" where
  "entryOk i \<longleftrightarrow>
    (case newAEAD i of Some NewGCM \<Rightarrow> keyLen i \<in> {16, 24, 32} | Some NewChaCha20Poly1305 \<Rightarrow> keyLen i = 32
     | None \<Rightarrow> (case newBlock i of Some AESNewCipher \<Rightarrow> keyLen i \<in> {16, 24, 32} | Some NewBlowfish \<Rightarrow> keyLen i = 16 | None \<Rightarrow> False))"

lemma canonical_entry:
  assumes "CanonicalCipher c = Some name"
  shows "entryOk (cipherEntry name)"
proof -
  have all: "list_all (\<lambda>(a, n). entryOk (cipherEntry n)) cipherAliases" by code_simp
  have "\<exists>a. (a, name) \<in> set cipherAliases" using assms by (auto simp: CanonicalCipher_def lookup_def dest: map_of_SomeD)
  then show ?thesis using all by (auto simp: list_all_iff)
qed

lemma canonical_digest:
  assumes "CanonicalDigest d = Some name"
  shows "map_of digests name = Some (digestEntry name)" "0 \<le> digestEntry name" "digestEntry name \<le> 64"
proof -
  have all: "list_all (\<lambda>(a, n). map_of digests n = Some (digestEntry n) \<and> 0 \<le> digestEntry n \<and> digestEntry n \<le> 64) digestAliases"
    by code_simp
  have "\<exists>a. (a, name) \<in> set digestAliases" using assms by (auto simp: CanonicalDigest_def lookup_def Let_def dest: map_of_SomeD)
  then show "map_of digests name = Some (digestEntry name)" "0 \<le> digestEntry name" "digestEntry name \<le> 64"
    using all by (auto simp: list_all_iff)
qed

text \<open>A key as it is before its first packet, and the two ends of one.\<close>

definition fresh_key :: "u8 \<Rightarrow> keyState \<Rightarrow> bool" where
  "fresh_key keyID ks \<longleftrightarrow> keyOk ks \<and> sendPID ks = 0 \<and> replay ks = init_window 64 \<and> ks_KeyID ks = keyID AND 7"

lemma mask7_idem: "(w AND 7 :: u8) AND 7 = w AND 7"
  by (simp add: and.assoc)

lemma newAEADState_pair:
  assumes cr: "crypto_ok cr" and i: "entryOk i" "newAEAD i = Some ctor" and k: "key_ok s" "key_ok r"
  shows "\<exists>c v. newAEADState cr (emptyKeyState keyID name rnd) ctor (keyLen i) s r = Inr c \<and>
    newAEADState cr (emptyKeyState keyID name rnd') ctor (keyLen i) r s = Inr v \<and>
    fresh_key keyID c \<and> fresh_key keyID v \<and> keys_match c v"
proof -
  have "\<exists>f. cr_aead cr ctor (take (keyLen i) (Cipher x)) = Some f \<and> aead_match f f \<and> a_nonceSize f = 12 \<and> a_overhead f = 16"
    if "key_ok x" for x
    using i that crypto_okD(1,2) [OF cr, of "take (keyLen i) (Cipher x)"]
    by (cases ctor) (auto simp: entryOk_def key_ok_def)
  then obtain f g where f: "cr_aead cr ctor (take (keyLen i) (Cipher s)) = Some f" "aead_match f f" "a_nonceSize f = 12" "a_overhead f = 16"
    and g: "cr_aead cr ctor (take (keyLen i) (Cipher r)) = Some g" "aead_match g g" "a_nonceSize g = 12" "a_overhead g = 16"
    using k by meson
  have w: "\<exists>S. window_of S (init_window 64)" using window_of_init [of 64] by auto
  have len: "length (a_seal h nonce pt ad) = length pt + 16" if "aead_match h h" for h nonce pt ad
    using that by (simp add: aead_match_def)
  show ?thesis
    using f g w len by (simp add: newAEADState_def emptyKeyState_def fresh_key_def keyOk_def aeadOk_def keys_match_def
        dc_consts KeyIDMask_def mask7_idem)
qed

lemma newCBCState_pair:
  assumes cr: "crypto_ok cr" and i: "entryOk i" "newAEAD i = None" and d: "CanonicalDigest digest = Some dn" and k: "key_ok s" "key_ok r"
  shows "\<exists>c v. newCBCState cr (emptyKeyState keyID name rnd) (newBlock i) (keyLen i) digest s r = Inr c \<and>
    newCBCState cr (emptyKeyState keyID name rnd') (newBlock i) (keyLen i) digest r s = Inr v \<and>
    fresh_key keyID c \<and> fresh_key keyID v \<and> keys_match c v"
proof -
  obtain ctor where ctor: "newBlock i = Some ctor" using i by (auto simp: entryOk_def split: option.splits)
  define bs :: int where "bs = (if ctor = AESNewCipher then 16 else 8)"
  have "\<exists>f. cr_block cr ctor (take (keyLen i) (Cipher x)) = Some f \<and> block_match f \<and> b_size f = bs" if "key_ok x" for x
    using i ctor that crypto_okD(3,4) [OF cr, of "take (keyLen i) (Cipher x)"]
    by (cases ctor) (auto simp: entryOk_def key_ok_def bs_def)
  then obtain f g where f: "cr_block cr ctor (take (keyLen i) (Cipher s)) = Some f" "block_match f" "b_size f = bs"
    and g: "cr_block cr ctor (take (keyLen i) (Cipher r)) = Some g" "block_match g" "b_size g = bs"
    using k by meson
  have w: "\<exists>S. window_of S (init_window 64)" using window_of_init [of 64] by auto
  have bs: "8 \<le> bs" "bs \<le> 16" by (simp_all add: bs_def)
  have mac: "glen (cr_hmac cr dn key x) = digestEntry dn" for key x using crypto_okD(5) [OF cr canonical_digest(1) [OF d]] .
  define mk where "mk a b key1 key2 rd = (emptyKeyState keyID name rd)\<lparr>ks_cbc := Some \<lparr>cb_send = a, cb_recv = b, blockSize = bs,
      macSize = digestEntry dn, sendMAC = cr_hmac cr dn key1, recvMAC = cr_hmac cr dn key2,
      ivBuf = replicate ivBatch 0, ivOff = ivBatch\<rparr>\<rparr>" for a b key1 key2 rd
  have new: "newCBCState cr (emptyKeyState keyID name rd) (newBlock i) (keyLen i) digest x y = Inr (mk a b
      (take (nat (digestEntry dn)) (HMAC x)) (take (nat (digestEntry dn)) (HMAC y)) rd)"
    if "cr_block cr ctor (take (keyLen i) (Cipher x)) = Some a" "cr_block cr ctor (take (keyLen i) (Cipher y)) = Some b" "b_size a = bs"
    for x y a b rd
    using that bs by (simp add: newCBCState_def d ctor mk_def dc_consts)
  have ok: "fresh_key keyID (mk a b k1 k2 rd)" if "block_match b" for a b k1 k2 rd
    using that w bs canonical_digest(2) [OF d]
    by (simp add: mk_def fresh_key_def keyOk_def emptyKeyState_def cbcOk_def ivOk_def block_match_def dc_consts KeyIDMask_def mask7_idem)
  have match: "keys_match (mk a b k1 k2 rd) (mk b a k2 k1 rd')" if "block_match a" "b_size a = bs" for a b k1 k2 rd rd'
    using that bs mac canonical_digest(2) [OF d]
    by (simp add: mk_def keys_match_def emptyKeyState_def cbc_match_def ivOk_def block_match_def KeyIDMask_def mask7_idem)
  show ?thesis using new [OF f(1) g(1) f(3)] new [OF g(1) f(1) g(3)] ok [OF f(2)] ok [OF g(2)] match [OF f(2,3)] by blast
qed

lemma NewKeyState_pair:
  assumes cr: "crypto_ok cr" and k: "key_ok s" "key_ok r" and n: "CanonicalCipher cipher = Some name"
    and d: "IsAEAD cipher \<or> CanonicalDigest digest \<noteq> None"
  shows "\<exists>c v. NewKeyState cr rnd keyID cipher digest (Some s) (Some r) = Inr c \<and>
    NewKeyState cr rnd' keyID cipher digest (Some r) (Some s) = Inr v \<and>
    fresh_key keyID c \<and> fresh_key keyID v \<and> keys_match c v"
proof (cases "newAEAD (cipherEntry name)")
  case None
  then have "\<not> IsAEAD cipher" using n by (simp add: IsAEAD_def lookupCipher_def)
  then obtain dn where dn: "CanonicalDigest digest = Some dn" using d by auto
  show ?thesis
    using newCBCState_pair [OF cr canonical_entry [OF n] None dn k, of keyID name rnd rnd'] None by (simp add: NewKeyState_def n Let_def)
next
  case (Some ctor)
  show ?thesis
    using newAEADState_pair [OF cr canonical_entry [OF n] Some k, of keyID name rnd rnd'] Some by (simp add: NewKeyState_def n Let_def)
qed

text \<open>
  Claim C22. \<open>NewKeyState\<close> makes a key exactly for the cipher names it knows, and for a CBC cipher
  only with a digest it knows; any other name is refused by the error that names it. A new key is
  well-formed, has sent nothing and received nothing. The keys the two ends of a session make
  from the same key material in opposite directions match both ways, so either can open
  what the other seals.
\<close>

theorem NewKeyState_ends:
  assumes cr: "crypto_ok cr" and k: "key_ok s" "key_ok r"
  shows "case CanonicalCipher cipher of
      None \<Rightarrow> NewKeyState cr rnd keyID cipher digest (Some s) (Some r) = Inl (Err (UnsupportedCipher cipher))
    | Some name \<Rightarrow>
      if IsAEAD cipher \<or> CanonicalDigest digest \<noteq> None then
        \<exists>c v. NewKeyState cr rnd keyID cipher digest (Some s) (Some r) = Inr c \<and>
          NewKeyState cr rnd' keyID cipher digest (Some r) (Some s) = Inr v \<and>
          fresh_key keyID c \<and> fresh_key keyID v \<and> keys_match c v \<and> keys_match v c
      else NewKeyState cr rnd keyID cipher digest (Some s) (Some r) = Inl (Err (UnsupportedDigest digest name))"
proof (cases "CanonicalCipher cipher")
  case None
  then show ?thesis by (simp add: NewKeyState_def)
next
  case (Some name)
  show ?thesis
  proof (cases "IsAEAD cipher \<or> CanonicalDigest digest \<noteq> None")
    case True
    from NewKeyState_pair [OF cr k Some True, of rnd keyID rnd'] NewKeyState_pair [OF cr k(2,1) Some True, of rnd' keyID rnd]
    show ?thesis using Some True by auto
  next
    case False
    then have "newAEAD (cipherEntry name) = None" using Some by (simp add: IsAEAD_def lookupCipher_def)
    then show ?thesis using Some False by (simp add: NewKeyState_def newCBCState_def emptyKeyState_def Let_def)
  qed
qed

lemma demoBlock_match: "block_match (demoBlock\<lparr>b_size := n\<rparr>)" "demoBlock\<lparr>b_size := 16\<rparr> = demoBlock"
  by (simp_all add: block_match_def demoBlock_def comp_def)

definition demoCrypto2 :: crypto where
  "demoCrypto2 = \<lparr>cr_aead = (\<lambda>_ _. Some demoAEAD), cr_block = (\<lambda>ctor _. Some (if ctor = AESNewCipher then demoBlock else demoBlock\<lparr>b_size := 8\<rparr>)),
     cr_hmac = (\<lambda>d k x. replicate (nat (digestEntry d)) (sum_list k + 2 * sum_list x))\<rparr>"

lemma demoCrypto2_ok: "crypto_ok demoCrypto2"
proof -
  have "0 \<le> n" "digestEntry d = n" if "map_of digests d = Some n" for d n
    using that by (auto simp: digestEntry_def lookup_def digests_def split: if_splits)
  then show ?thesis
    using demoAEAD_match demoBlock_match(1) [of 8] demoBlock_match(1) [of 16] unfolding demoBlock_match(2)
    by (simp add: crypto_ok_def demoCrypto2_def glen_def) (simp add: demoAEAD_def demoBlock_def)
qed

lemma demoKey_ok: "key_ok demoKey"
  by (simp add: key_ok_def demoKey_def)

theorem NewKeyState_ends_witness:
  "(\<exists>c v. NewKeyState demoCrypto2 [] 3 ''bf-cbc'' ''RSA-SHA1'' (Some demoKey) (Some demoKey) = Inr c \<and> keys_match c v) \<and>
   NewKeyState demoCrypto2 [] 3 ''DES-CBC'' ''SHA1'' (Some demoKey) (Some demoKey) = Inl (Err (UnsupportedCipher ''DES-CBC'')) \<and>
   NewKeyState demoCrypto2 [] 3 ''BF-CBC'' ''SHA3'' (Some demoKey) (Some demoKey) = Inl (Err (UnsupportedDigest ''SHA3'' ''BF-CBC''))"
proof -
  have n: "CanonicalCipher ''bf-cbc'' = Some ''BF-CBC''" "CanonicalCipher ''DES-CBC'' = None" "CanonicalCipher ''BF-CBC'' = Some ''BF-CBC''"
    "CanonicalDigest ''RSA-SHA1'' = Some ''SHA1''" "CanonicalDigest ''SHA3'' = None" "\<not> IsAEAD ''BF-CBC''" by code_simp+
  note ends = NewKeyState_ends [where rnd = "[]" and keyID = 3, OF demoCrypto2_ok demoKey_ok demoKey_ok]
  show ?thesis
    using ends [where cipher = "''bf-cbc''" and digest = "''RSA-SHA1''"] ends [where cipher = "''DES-CBC''" and digest = "''SHA1''"]
      ends [where cipher = "''BF-CBC''" and digest = "''SHA3''"]
    by (simp add: n) blast
qed

lemma NewKeyState_made:
  assumes cr: "crypto_ok cr" and k: "key_ok s" "key_ok r"
  shows "NewKeyState cr rnd keyID cipher digest (Some s) (Some r) \<noteq> Inl Panic \<and>
    (\<forall>ks. NewKeyState cr rnd keyID cipher digest (Some s) (Some r) = Inr ks \<longrightarrow> keyOk ks)"
proof (cases "CanonicalCipher cipher")
  case None
  then show ?thesis by (simp add: NewKeyState_def)
next
  case (Some name)
  show ?thesis
  proof (cases "IsAEAD cipher \<or> CanonicalDigest digest \<noteq> None")
    case True
    then show ?thesis using NewKeyState_pair [OF cr k Some True, of rnd keyID rnd] by (auto simp: fresh_key_def)
  next
    case False
    then have "newAEAD (cipherEntry name) = None" using Some by (simp add: IsAEAD_def lookupCipher_def)
    then show ?thesis using Some False by (simp add: NewKeyState_def newCBCState_def Let_def)
  qed
qed

section \<open>Sealing keeps keys in order\<close>

lemma keyOk_update:
  assumes "keyOk ks" "replay ks' = replay ks" "ks_KeyID ks' = ks_KeyID ks" "ks_aead ks' = ks_aead ks"
    and "\<And>k. ks_aead ks = None \<Longrightarrow> ks_cbc ks = Some k \<Longrightarrow> cbcOk k \<Longrightarrow> \<exists>k'. ks_cbc ks' = Some k' \<and> cbcOk k'"
  shows "keyOk ks'"
  using assms by (auto simp: keyOk_def split: option.splits)

lemma cbc_seal_iv:
  "nextIV k (nat (blockSize k)) rnd = (Inr iv, k', rnd') \<Longrightarrow> \<exists>x. cbc_seal k out pid m payload rnd = (Inr x, k', rnd')"
  unfolding cbc_seal_def Let_def by simp

lemma cbc_seal_ok:
  assumes k: "cbcOk k" and sealed: "cbc_seal k out pid m payload rnd = (r, k', rnd')"
  shows "cbcOk k' \<and> r \<noteq> Inl Panic"
proof -
  have n: "nat (blockSize k) \<le> 16" and iv: "ivOk k" using k by (auto simp: cbcOk_def)
  obtain ir k2 rnd2 where niv: "nextIV k (nat (blockSize k)) rnd = (ir, k2, rnd2)" by (metis prod_cases3)
  note I = nextIV_ok [OF iv n niv]
  have ok: "cbcOk k2" using k I(1) by (subst I(4)) (simp add: cbcOk_def ivOk_def)
  show ?thesis
  proof (cases ir)
    case (Inl e)
    then show ?thesis using cbc_seal_no_iv [of k rnd e k2 rnd2] niv sealed ok I(2) by simp
  next
    case (Inr v)
    then show ?thesis using cbc_seal_iv [of k rnd v k2 rnd2 out pid m payload] niv sealed ok by auto
  qed
qed

lemma ks_seal_ok:
  assumes k: "keyOk ks" and sealed: "ks_seal ks dst peerID m payload = (r, ks')"
  shows "keyOk ks'" "ks_KeyID ks' = ks_KeyID ks" "r \<noteq> Inl Panic"
proof -
  have "keyOk ks' \<and> ks_KeyID ks' = ks_KeyID ks \<and> r \<noteq> Inl Panic"
  proof (cases "sendPID ks + 1 \<ge> lastPID")
    case True
    have "keyOk (ks\<lparr>sendPID := sendPID ks + 1\<rparr>)" using k by (rule keyOk_update) auto
    then show ?thesis using sealed True by (auto simp: ks_seal_def nextPID_cases)
  next
    case False
    let ?ks = "ks\<lparr>sendPID := sendPID ks + 1\<rparr>" and ?h = "AppendDataHeader [] (ks_KeyID ks) peerID"
    have seal: "ks_seal ks dst peerID m payload =
     (case ks_aead ks of Some a \<Rightarrow> (aead_seal a (dst @ ?h) (length dst) (ucast (sendPID ks + 1)) m payload, ?ks)
        | None \<Rightarrow> (case ks_cbc ks of None \<Rightarrow> (Inl Panic, ?ks)
           | Some k \<Rightarrow> (case cbc_seal k (dst @ ?h) (ucast (sendPID ks + 1)) m payload (ks_rand ks) of (r, k, rnd) \<Rightarrow>
               (r, ?ks\<lparr>ks_cbc := Some k, ks_rand := rnd\<rparr>))))"
      using False header_append [of dst "ks_KeyID ks" peerID] by (simp add: ks_seal_def nextPID_cases Let_def split: option.split)
    show ?thesis
    proof (cases "ks_aead ks")
      case (Some a)
      then have len: "length (a_seal (ae_send a) nonce pt ad) = length pt + 16" for nonce pt ad
        using k by (simp add: keyOk_def aeadOk_def)
      have "keyOk ?ks" using k by (rule keyOk_update) auto
      then show ?thesis using sealed unfolding seal Some option.case aead_seal_eq [OF len header_len refl refl] by auto
    next
      case None
      then obtain c where c: "ks_cbc ks = Some c" "cbcOk c" using k by (auto simp: keyOk_def split: option.splits)
      obtain r2 c2 rnd2 where cs: "cbc_seal c (dst @ ?h) (ucast (sendPID ks + 1)) m payload (ks_rand ks) = (r2, c2, rnd2)"
        by (metis prod_cases3)
      have "keyOk (?ks\<lparr>ks_cbc := Some c2, ks_rand := rnd2\<rparr>)"
        using k by (rule keyOk_update) (use cbc_seal_ok [OF c(2) cs] in auto)
      then show ?thesis using sealed cbc_seal_ok [OF c(2) cs] unfolding seal None c(1) option.case cs by auto
    qed
  qed
  then show "keyOk ks'" "ks_KeyID ks' = ks_KeyID ks" "r \<noteq> Inl Panic" by auto
qed

lemma channel_ok_mono:
  assumes "channel_ok st c" and st': "\<And>b ks. st b = Some ks \<Longrightarrow> \<exists>ks'. st' b = Some ks' \<and> ks_KeyID ks' = ks_KeyID ks"
  shows "channel_ok st' c"
  using assms(1) unfolding channel_ok_def by (simp, metis st')

lemma channel_ok_update:
  assumes "channel_ok st c" "st a = Some ks" "ks_KeyID ks' = ks_KeyID ks"
  shows "channel_ok (st(a \<mapsto> ks')) c"
  using assms by (intro channel_ok_mono [OF assms(1)]) auto

lemma channel_ok_new: "channel_ok st c \<Longrightarrow> st a = None \<Longrightarrow> channel_ok (st(a \<mapsto> ks)) c"
  by (rule channel_ok_mono) auto

lemma store_ok_update: "store_ok st \<Longrightarrow> keyOk ks \<Longrightarrow> store_ok (st(a \<mapsto> ks))"
  by (simp add: store_ok_def)

lemma Seal_ok:
  assumes st: "store_ok st" and c: "channel_ok st c" and sealed: "Seal st c dst payload = (r, st')"
  shows "store_ok st' \<and> channel_ok st' c \<and> r \<noteq> Inl Panic"
proof (cases "cs_primary (c_state c)")
  case None
  then show ?thesis using assms by (auto simp: Seal_def)
next
  case (Some a)
  then obtain ks where ks: "st a = Some ks" using c by (auto simp: channel_ok_def)
  obtain r2 ks2 where s: "ks_seal ks dst (cs_peerID (c_state c)) (cs_mode (c_state c)) payload = (r2, ks2)" by fastforce
  have "keyOk ks" using st ks by (simp add: store_ok_def)
  note S = ks_seal_ok [OF this s]
  have "r = r2" "st' = st(a \<mapsto> ks2)" using sealed Some ks s by (simp_all add: Seal_def)
  then show ?thesis using store_ok_update [OF st S(1)] channel_ok_update [OF c ks S(2)] S(3) by simp
qed

section \<open>Any sequence of calls\<close>

text \<open>
  The calls a session makes; an address for a new key is taken only when it is free, and
  \<open>SetPrimary\<close> is given nil or the address of a key.
\<close>

datatype chan_op =
  OpNewKey addr bytes u8 string string key key
| OpSetPrimary "addr option"
| OpDropKey u8
| OpSetPeerID u32
| OpSetCompression mode
| OpSetRand addr bytes
| OpSeal bytes bytes
| OpSealPing bytes
| OpSealOCC bytes u8
| OpOpen bytes bytes

fun exec :: "crypto \<Rightarrow> store \<times> channel \<Rightarrow> chan_op \<Rightarrow> bool \<times> store \<times> channel" where
  "exec cr (st, c) (OpNewKey a rnd keyID cipher digest s r) =
    (case NewKeyState cr rnd keyID cipher digest (Some s) (Some r) of
       Inr ks \<Rightarrow> (False, if st a = None then st(a \<mapsto> ks) else st, c)
     | Inl e \<Rightarrow> (e = Panic, st, c))"
| "exec cr (st, c) (OpSetPrimary p) = (False, SetPrimary st c p)"
| "exec cr (st, c) (OpDropKey keyID) = (False, st, DropKey c keyID)"
| "exec cr (st, c) (OpSetPeerID peerID) = (False, st, SetPeerID c peerID)"
| "exec cr (st, c) (OpSetCompression m) = (False, st, SetCompression c m)"
| "exec cr (st, c) (OpSetRand a rnd) = (False, (case st a of None \<Rightarrow> st | Some ks \<Rightarrow> st(a \<mapsto> setRand ks rnd)), c)"
| "exec cr (st, c) (OpSeal dst payload) = (let (r, st) = Seal st c dst payload in (panics r, st, c))"
| "exec cr (st, c) (OpSealPing dst) = (let (r, st) = SealPing st c dst in (panics r, st, c))"
| "exec cr (st, c) (OpSealOCC dst opcode) = (let (r, st) = SealOCC st c dst opcode in (panics r, st, c))"
| "exec cr (st, c) (OpOpen dst packet) = (let (r, st) = Open st c dst packet in (panics r, st, c))"

fun execAll :: "crypto \<Rightarrow> store \<times> channel \<Rightarrow> chan_op list \<Rightarrow> bool \<times> store \<times> channel" where
  "execAll cr s [] = (False, s)"
| "execAll cr s (op # ops) = (let (p, s) = exec cr s op; (q, s) = execAll cr s ops in (p \<or> q, s))"

fun opOk :: "chan_op \<Rightarrow> bool" where
  "opOk (OpNewKey _ _ _ _ _ s r) \<longleftrightarrow> key_ok s \<and> key_ok r"
| "opOk _ \<longleftrightarrow> True"

lemma SetPrimary_ok:
  assumes st: "store_ok st" and c: "channel_ok st c" and p: "SetPrimary st c p = (st', c')"
  shows "store_ok st' \<and> channel_ok st' c'"
proof (cases "p = None \<or> st (the p) = None")
  case True
  then show ?thesis using assms by (cases p) (auto simp: SetPrimary_def)
next
  case False
  then obtain a ks where a: "p = Some a" "st a = Some ks" by auto
  let ?ks = "setReplayWindow ks (o_ReplayWindow (c_opts c))"
  have ks: "keyOk ks" "ks_KeyID ks AND 7 = ks_KeyID ks" using st a(2) by (auto simp: store_ok_def keyOk_def)
  have w: "1 \<le> o_ReplayWindow (c_opts c)" "o_ReplayWindow (c_opts c) \<le> 65536" using c by (simp_all add: channel_ok_def)
  have "keyOk ?ks"
    using ks(1) keyOk_replay [OF ks(1) window_of_init [OF w]] by (simp add: setReplayWindow_def)
  moreover have "st' = st(a \<mapsto> ?ks)" using a p by (auto simp: SetPrimary_def)
  ultimately have "store_ok st'" using store_ok_update [OF st] by simp
  moreover have id: "ks_KeyID ?ks = ks_KeyID ks" by (simp add: setReplayWindow_def)
  have "unat (ks_KeyID ks) < 8" using word_and7 [of "ks_KeyID ks"] ks(2) by simp
  then have "channel_ok st' c'"
    using c a p id ks(2) unfolding channel_ok_def
    by (auto simp: SetPrimary_def update_def KeyIDMask_def nth_list_update split: if_splits) fastforce
  ultimately show ?thesis by simp
qed

lemma DropKey_ok:
  assumes c: "channel_ok st c"
  shows "channel_ok st (DropKey c keyID)"
proof -
  have "unat (keyID AND KeyIDMask) < 8" using word_and7 [of keyID] by (simp add: KeyIDMask_def)
  moreover have "\<exists>ks. st a = Some ks \<and> cs_keys (c_state c) ! unat (ks_KeyID ks) = Some a \<and> unat (ks_KeyID ks) \<noteq> unat (keyID AND KeyIDMask)"
    if "cs_primary (c_state c) = Some a" "cs_keys (c_state c) ! unat (keyID AND KeyIDMask) \<noteq> Some a" for a
    using c that unfolding channel_ok_def by metis
  ultimately show ?thesis
    using c unfolding channel_ok_def DropKey_def update_def Let_def
    by (fastforce simp: nth_list_update split: if_splits)
qed

lemma exec_ok:
  assumes cr: "crypto_ok cr" and s: "store_ok st" "channel_ok st c" and op: "opOk op"
  shows "case exec cr (st, c) op of (p, st', c') \<Rightarrow> \<not> p \<and> store_ok st' \<and> channel_ok st' c'"
proof (cases op)
  case (OpNewKey a rnd keyID cipher digest sk rk)
  have np: "NewKeyState cr rnd keyID cipher digest (Some sk) (Some rk) \<noteq> Inl Panic \<and>
      (\<forall>ks. NewKeyState cr rnd keyID cipher digest (Some sk) (Some rk) = Inr ks \<longrightarrow> keyOk ks)"
    using NewKeyState_made [OF cr, of sk rk] op OpNewKey by auto
  have ch: "channel_ok (st(a \<mapsto> ks)) c" if "st a = None" for ks
    using s(2) that by (rule channel_ok_new)
  show ?thesis using np ch s store_ok_update [OF s(1)]
    by (cases "NewKeyState cr rnd keyID cipher digest (Some sk) (Some rk)") (auto simp: OpNewKey)
next
  case (OpSetPrimary p)
  then show ?thesis using SetPrimary_ok [OF s] by (cases "SetPrimary st c p") auto
next
  case (OpDropKey k)
  then show ?thesis using DropKey_ok [OF s(2)] s(1) by simp
next
  case (OpSetPeerID p)
  then show ?thesis using s by (simp add: SetPeerID_def update_def channel_ok_def)
next
  case (OpSetCompression m)
  then show ?thesis using s by (simp add: SetCompression_def update_def channel_ok_def)
next
  case (OpSetRand a rnd)
  show ?thesis
  proof (cases "st a")
    case (Some ks)
    have k: "keyOk ks" using s(1) Some by (simp add: store_ok_def)
    then have "keyOk (setRand ks rnd)"
      by (rule keyOk_update) (auto simp: setRand_def cbcOk_def ivOk_def split: option.splits)
    moreover have "ks_KeyID (setRand ks rnd) = ks_KeyID ks" by (simp add: setRand_def split: option.split)
    ultimately show ?thesis
      using OpSetRand Some store_ok_update [OF s(1)] channel_ok_update [OF s(2) Some] by simp
  qed (use OpSetRand s in simp)
next
  case (OpSeal d p)
  then show ?thesis using Seal_ok [OF s, of d p] by (cases "Seal st c d p") (auto simp: panics_def)
next
  case (OpSealPing d)
  then show ?thesis using Seal_ok [OF s, of d PingPayload] by (cases "Seal st c d PingPayload") (auto simp: panics_def SealPing_def)
next
  case (OpSealOCC d oc)
  then show ?thesis using Seal_ok [OF s, of d "OCCPrefix @ [oc]"] by (cases "Seal st c d (OCCPrefix @ [oc])") (auto simp: panics_def SealOCC_def)
next
  case (OpOpen d p)
  show ?thesis
  proof (cases "Open st c d p")
    case (Pair r st')
    then show ?thesis using OpOpen Open_ok(1-3) [OF s Pair] by (simp add: panics_def)
  qed
qed

lemma execAll_ok:
  assumes cr: "crypto_ok cr"
  shows "store_ok st \<Longrightarrow> channel_ok st c \<Longrightarrow> list_all opOk ops \<Longrightarrow>
    (case execAll cr (st, c) ops of (p, st', c') \<Rightarrow> \<not> p \<and> store_ok st' \<and> channel_ok st' c')"
proof (induction ops arbitrary: st c)
  case (Cons op ops)
  obtain p st1 c1 where e: "exec cr (st, c) op = (p, st1, c1)" by (metis prod_cases3)
  have "\<not> p \<and> store_ok st1 \<and> channel_ok st1 c1" using exec_ok [OF cr Cons.prems(1,2), of op] Cons.prems(3) e by simp
  then show ?case using Cons.IH [of st1 c1] Cons.prems(3) e by (simp split: prod.splits)
qed simp

lemma NewChannel_ok: "channel_ok st (NewChannel opts)"
  by (simp add: channel_ok_def NewChannel_def Let_def dc_consts)


definition demoOps :: "chan_op list" where
  "demoOps = [OpNewKey 1 [] 2 ''AES-128-GCM'' [] demoKey demoKey, OpSetPrimary (Some 1), OpSealPing [], OpOpen [] [72, 1], OpDropKey 2, OpSeal [] [1]]"


text \<open>
  Claim C24. A channel delivers no packet twice: of any packets that arrive, in any order and
  with any repetitions, those it delivers are distinct, and none is one whose id a key's window
  has already recorded. The keys of the channel stay installed meanwhile.
\<close>

theorem no_packet_twice:
  assumes "store_ok st" "channel_ok st c" "openAll st c packets = (out, st')"
  shows "distinct out \<and> (\<forall>p \<in> set out. \<not> spent st c p) \<and> set out \<subseteq> set packets"
  using assms by (rule openAll_distinct)

lemma demo_ok: "store_ok demoStore" "channel_ok demoStore demoChannel"
proof -
  have "aeadOk \<lparr>ae_send = demoAEAD, ae_recv = demoAEAD, sendIV = replicate 8 9, recvIV = replicate 8 9\<rparr>"
    by (simp add: aeadOk_def demoAEAD_def demoTag_def)
  moreover have "\<exists>S. window_of S (init_window 64)" using window_of_init [of 64] by auto
  ultimately have "keyOk (demoState ''AES-256-GCM'')"
    unfolding demo_state by (simp add: keyOk_def emptyKeyState_def KeyIDMask_def dc_consts)
  then show st: "store_ok demoStore" by (simp add: store_ok_def demoStore_def)
  have st': "store_ok (Map.empty(1 \<mapsto> demoState ''AES-256-GCM''))" using st by (simp add: demoStore_def)
  let ?c = "NewChannel \<lparr>o_PeerID = 66, o_Compression = LZO, o_ReplayWindow = 0, o_MaxPayload = 0\<rparr>"
  have "o_ReplayWindow (c_opts ?c) = 64" by (simp add: NewChannel_def Let_def dc_consts)
  moreover have "setReplayWindow (demoState ''AES-256-GCM'') 64 = demoState ''AES-256-GCM''"
    unfolding demo_state by (simp add: setReplayWindow_def emptyKeyState_def init_window_def dc_consts)
  ultimately have "fst (SetPrimary (Map.empty(1 \<mapsto> demoState ''AES-256-GCM'')) ?c (Some 1)) = demoStore"
    by (simp add: SetPrimary_def demoStore_def)
  then have "SetPrimary (Map.empty(1 \<mapsto> demoState ''AES-256-GCM'')) ?c (Some 1) = (demoStore, demoChannel)"
    by (simp add: demoChannel_def prod_eq_iff)
  from SetPrimary_ok [OF st' NewChannel_ok this] show "channel_ok demoStore demoChannel" ..
qed

theorem no_packet_twice_witness:
  "fst (openAll demoStore demoChannel [demoPacket, demoPacket, [1]]) = [demoPacket] \<and> \<not> spent demoStore demoChannel demoPacket"
proof -
  have run: "fst (openAll demoStore demoChannel [demoPacket, demoPacket, [1]]) = [demoPacket]" by code_simp
  then have "openAll demoStore demoChannel [demoPacket, demoPacket, [1]] =
      ([demoPacket], snd (openAll demoStore demoChannel [demoPacket, demoPacket, [1]]))" by (metis prod.collapse)
  from no_packet_twice [OF demo_ok this] run show ?thesis by simp
qed



end
