(* ===== verification/Ctlwrap.thy ===== *)
theory Ctlwrap
  imports Handshake Replay Compress
begin

text \<open>
  The protection of control packets (\<open>core/proxy/openvpn/ovpn/ctlwrap\<close>: \<open>wrap.go\<close>, \<open>ctlwrap.go\<close>,
  \<open>server.go\<close>): the static key and its parts, the wrappers plain, tls-auth, tls-crypt and the two
  ends of tls-crypt-v2, their packet ids and replay windows, and the wrapped client keys of
  tls-crypt-v2.

  Parameters: the keyed hashes, AES in counter mode (\<open>ctr\<close>: what \<open>aes.NewCipher\<close> gives for a key, or
  nothing, then initialisation vector and text), the PEM coder, the clock and the random source. A \<open>Wrapper\<close>
  is a value that each call returns changed; the locks of the source make calls atomic.
\<close>

section \<open>Errors\<close>

datatype ctl_err =
  NilPacket
| CannotWrap opcode
| KeyIDOutOfRange u8
| TooManyAcks int
| WrapTooShort string int int
| NotControlOpcode string opcode
| MalformedBody opcode wire_err
| PIDExhausted
| CtlAuth
| CtlReplay
| CtlShort
| NoKeyGiven string
| UnsupportedAuthDigest string
| InvalidDirection int
| CipherFailed
| NonHexCharacter int
| TooManyDigits
| NoBegin
| NoEnd
| WrongDigits int
| NoPEMBlock
| ClientKeyShort int
| ServerKeyLength
| WKcLength int
| WKcSays int int
| MetadataTooLarge
| RandFailed io_err

text \<open>Which exported errors a value wraps: the key errors wrap \<open>ErrKey\<close>.\<close>

datatype ctl_sentinel = IsErrAuth | IsErrReplay | IsErrKey | IsWireErr wire_err

definition ctl_wraps :: "ctl_err \<Rightarrow> ctl_sentinel option" where
  "ctl_wraps x = (case x of
     CannotWrap _ \<Rightarrow> Some (IsWireErr ErrBadOpcode)
   | TooManyAcks _ \<Rightarrow> Some (IsWireErr ErrTooMany)
   | WrapTooShort _ _ _ \<Rightarrow> Some (IsWireErr ErrShort)
   | NotControlOpcode _ _ \<Rightarrow> Some (IsWireErr ErrBadOpcode)
   | MalformedBody _ e \<Rightarrow> Some (IsWireErr e)
   | CtlAuth \<Rightarrow> Some IsErrAuth
   | CtlReplay \<Rightarrow> Some IsErrReplay
   | CtlShort \<Rightarrow> Some (IsWireErr ErrShort)
   | NoKeyGiven _ \<Rightarrow> Some IsErrKey
   | NonHexCharacter _ \<Rightarrow> Some IsErrKey
   | TooManyDigits \<Rightarrow> Some IsErrKey
   | NoBegin \<Rightarrow> Some IsErrKey
   | NoEnd \<Rightarrow> Some IsErrKey
   | WrongDigits _ \<Rightarrow> Some IsErrKey
   | NoPEMBlock \<Rightarrow> Some IsErrKey
   | ClientKeyShort _ \<Rightarrow> Some IsErrKey
   | ServerKeyLength \<Rightarrow> Some IsErrKey
   | WKcLength _ \<Rightarrow> Some IsErrKey
   | WKcSays _ _ \<Rightarrow> Some IsErrKey
   | MetadataTooLarge \<Rightarrow> Some IsErrKey
   | _ \<Rightarrow> None)"

section \<open>Static keys\<close>

type_synonym staticKey = bytes
type_synonym direction = int

definition Bidirectional :: direction where "Bidirectional = -1"
definition Normal :: direction where "Normal = 0"
definition Inverse :: direction where "Inverse = 1"

lemmas direction_defs = Bidirectional_def Normal_def Inverse_def

definition Direction_String :: "direction \<Rightarrow> string" where
  "Direction_String d =
    (if d = Bidirectional then ''bidirectional'' else if d = Normal then ''0'' else if d = Inverse then ''1''
     else ''Direction('' @ itoa d @ '')'')"

definition staticKeyBegin :: string where "staticKeyBegin = ''-----BEGIN OpenVPN Static key V1-----''"
definition staticKeyEnd :: string where "staticKeyEnd = ''-----END OpenVPN Static key V1-----''"
definition staticKeyHex :: int where "staticKeyHex = 512"

definition unhex :: "char \<Rightarrow> u8 option" where
  "unhex c =
    (let b = byte_of c in
     if byte_of CHR ''0'' \<le> b \<and> b \<le> byte_of CHR ''9'' then Some (b - byte_of CHR ''0'')
     else if byte_of CHR ''a'' \<le> b \<and> b \<le> byte_of CHR ''f'' then Some (b - byte_of CHR ''a'' + 10)
     else if byte_of CHR ''A'' \<le> b \<and> b \<le> byte_of CHR ''F'' then Some (b - byte_of CHR ''A'' + 10)
     else None)"

text \<open>The digits of one line: the key so far and how many digits it has.\<close>

definition putDigit :: "staticKey \<Rightarrow> nat \<Rightarrow> u8 \<Rightarrow> staticKey" where
  "putDigit k digits v =
    (if digits mod 2 = 0 then k[digits div 2 := push_bit 4 v] else k[digits div 2 := (k ! (digits div 2)) OR v])"

fun keyDigits :: "string \<Rightarrow> int \<Rightarrow> staticKey \<Rightarrow> nat \<Rightarrow> (ctl_err, staticKey \<times> nat) res" where
  "keyDigits [] lineNo k digits = Inr (k, digits)"
| "keyDigits (c # line) lineNo k digits =
    (if c = CHR '' '' \<or> c = CHR 0x09 then keyDigits line lineNo k digits
     else case unhex c of None \<Rightarrow> Inl (Err (NonHexCharacter lineNo)) | Some v \<Rightarrow>
     if int digits \<ge> staticKeyHex then Inl (Err TooManyDigits)
     else keyDigits line lineNo (putDigit k digits v) (digits + 1))"

definition cutLine :: "string \<Rightarrow> string \<times> string" where
  "cutLine text = (takeWhile (\<lambda>c. c \<noteq> CHR 0x0A) text, drop 1 (dropWhile (\<lambda>c. c \<noteq> CHR 0x0A) text))"

lemma cutLine_shorter: "text \<noteq> [] \<Longrightarrow> length (snd (cutLine text)) < length text"
proof -
  assume "text \<noteq> []"
  have "length (dropWhile (\<lambda>c. c \<noteq> CHR 0x0A) text) \<le> length text" by (rule length_dropWhile_le)
  moreover have "0 < length text" using \<open>text \<noteq> []\<close> by simp
  ultimately show ?thesis unfolding cutLine_def snd_conv length_drop by linarith
qed

record keyScan =
  ks_key :: staticKey
  ks_digits :: nat
  ks_inside :: bool
  ks_done :: bool

text \<open>One line of the file.\<close>

definition keyLine :: "string \<Rightarrow> int \<Rightarrow> keyScan \<Rightarrow> (ctl_err, keyScan) res" where
  "keyLine raw lineNo s =
    (let line = trimSpace raw in
     if \<not> ks_inside s then Inr (if line = staticKeyBegin then s\<lparr>ks_inside := True\<rparr> else s)
     else if line = staticKeyEnd then Inr (s\<lparr>ks_done := True\<rparr>)
     else if line = [] \<or> hd line = CHR ''#'' \<or> hd line = CHR '';'' then Inr s
     else rbind (keyDigits line lineNo (ks_key s) (ks_digits s)) (\<lambda>(k, n). Inr (s\<lparr>ks_key := k, ks_digits := n\<rparr>)))"

function keyLines :: "string \<Rightarrow> int \<Rightarrow> keyScan \<Rightarrow> (ctl_err, keyScan) res" where
  "keyLines text lineNo s =
    (if text = [] \<or> ks_done s then Inr s
     else case keyLine (fst (cutLine text)) (lineNo + 1) s of Inl e \<Rightarrow> Inl e
       | Inr s \<Rightarrow> keyLines (snd (cutLine text)) (lineNo + 1) s)"
  by pat_completeness auto
termination
  by (relation "measure (\<lambda>(text, lineNo, s). length text)") (auto simp: cutLine_shorter)

declare keyLines.simps [simp del]

definition ParseStaticKey :: "string \<Rightarrow> (ctl_err, staticKey) res" where
  "ParseStaticKey text =
    rbind (keyLines text 0 \<lparr>ks_key = replicate 256 0, ks_digits = 0, ks_inside = False, ks_done = False\<rparr>) (\<lambda>s.
    if \<not> ks_inside s then Inl (Err NoBegin)
    else if \<not> ks_done s then Inl (Err NoEnd)
    else if int (ks_digits s) \<noteq> staticKeyHex then Inl (Err (WrongDigits (int (ks_digits s))))
    else Inr (ks_key s))"

record keyParts =
  sendCipher :: bytes
  sendHMAC :: bytes
  recvCipher :: bytes
  recvHMAC :: bytes

definition Parts :: "staticKey \<Rightarrow> direction \<Rightarrow> keyParts option" where
  "Parts k dir =
    (let part = (\<lambda>i. take 64 (drop (64 * i) k));
         both = (\<lambda>send recv. Some \<lparr>sendCipher = part (2 * send), sendHMAC = part (2 * send + 1),
                                   recvCipher = part (2 * recv), recvHMAC = part (2 * recv + 1)\<rparr>)
     in if dir = Bidirectional then both 0 0
        else if dir = Normal then both 0 1
        else if dir = Inverse then both 1 0
        else None)"

section \<open>Packets\<close>

definition headLen :: nat where "headLen = 9"
definition pidLen :: nat where "pidLen = 8"
definition cryptTag :: nat where "cryptTag = 32"
definition cryptHead :: nat where "cryptHead = headLen + pidLen"
definition aesBlock :: nat where "aesBlock = 16"
definition replayWindowSize :: int where "replayWindowSize = 64"
definition minWKcLen :: int where "minWKcLen = 32 + 256 + 2"
definition maxWKcLen :: int where "maxWKcLen = 1024"

lemmas ctl_consts = headLen_def pidLen_def cryptTag_def cryptHead_def aesBlock_def

text \<open>A nil packet is \<open>None\<close>.\<close>

definition checkPacket :: "control_packet option \<Rightarrow> (ctl_err, control_packet) res" where
  "checkPacket p =
    (case p of None \<Rightarrow> Inl (Err NilPacket) | Some p \<Rightarrow>
     if \<not> IsControl (Opcode p) then Inl (Err (CannotWrap (Opcode p)))
     else if KeyID p > KeyIDMask then Inl (Err (KeyIDOutOfRange (KeyID p)))
     else if glen (Acks p) > MaxAcks then Inl (Err (TooManyAcks (glen (Acks p))))
     else Inr p)"

definition bodyLen :: "control_packet \<Rightarrow> int" where
  "bodyLen p = 1 + 4 * glen (Acks p) + (if glen (Acks p) > 0 then 8 else 0) +
     (if HasMessageID p then 4 + glen (Payload p) else 0)"

definition splitHead :: "bytes \<Rightarrow> nat \<Rightarrow> string \<Rightarrow> (ctl_err, opcode \<times> u8) res" where
  "splitHead b minLen knd =
    (if length b < minLen then Inl (Err (WrapTooShort knd (glen b) (int minLen)))
     else rbind (gidx b 0) (\<lambda>b0. let (op, keyID) = SplitHeader b0 in
       if \<not> IsControl op then Inl (Err (NotControlOpcode knd op)) else Inr (op, keyID)))"

definition parsePacket :: "opcode \<Rightarrow> u8 \<Rightarrow> bytes \<Rightarrow> bytes \<Rightarrow> (ctl_err, control_packet) res" where
  "parsePacket op keyID sid body =
    (case ParseBody \<lparr>Opcode = op, KeyID = keyID, SessionID = take 8 (sid @ zeroSessionID), Acks = [],
            RemoteSessionID = zeroSessionID, PacketID = 0, Payload = []\<rparr> body of
       Inl Panic \<Rightarrow> Inl Panic | Inl (Err e) \<Rightarrow> Inl (Err (MalformedBody op e)) | Inr p \<Rightarrow> Inr p)"

definition plain_Wrap :: "control_packet option \<Rightarrow> (ctl_err, bytes) res" where
  "plain_Wrap p = rbind (checkPacket p) (\<lambda>p. Inr (Marshal p))"

definition plain_Unwrap :: "bytes \<Rightarrow> (ctl_err, control_packet) res" where
  "plain_Unwrap b =
    rbind (splitHead b headLen ''plain'') (\<lambda>(op, keyID).
    rbind (gslice b 1 (int headLen)) (\<lambda>sid. rbind (gfrom b (int headLen)) (\<lambda>body.
    parsePacket op keyID sid body)))"

section \<open>Packet ids and their replay window\<close>

record sender =
  sd_time :: u32
  sd_last :: u64

definition newSender :: "u32 \<Rightarrow> sender" where
  "newSender now = \<lparr>sd_time = now, sd_last = 0\<rparr>"

definition sender_next :: "sender \<Rightarrow> (ctl_err, u32) res \<times> sender" where
  "sender_next s =
    (let n = sd_last s + 1; s = s\<lparr>sd_last := n\<rparr>
     in if n > 0xFFFFFFFF then (Inl (Err PIDExhausted), s) else (Inr (ucast n), s))"

definition appendPID :: "sender \<Rightarrow> bytes \<Rightarrow> (ctl_err, bytes) res \<times> sender" where
  "appendPID s b =
    (case sender_next s of (Inl e, s) \<Rightarrow> (Inl e, s) | (Inr pid, s) \<Rightarrow> (Inr (b @ be32 pid @ be32 (sd_time s)), s))"

record ctlWindow =
  cw_seen :: bool
  cw_time :: u32
  cw_maxPID :: u32
  cw_bits :: u64

definition newCtlWindow :: ctlWindow where
  "newCtlWindow = \<lparr>cw_seen = False, cw_time = 0, cw_maxPID = 0, cw_bits = 0\<rparr>"

definition ctl_accept :: "ctlWindow \<Rightarrow> u32 \<times> u32 \<Rightarrow> bool \<times> ctlWindow" where
  "ctl_accept w tp =
    (let (t, pid) = tp in
     if \<not> cw_seen w \<or> t > cw_time w then (True, \<lparr>cw_seen = True, cw_time = t, cw_maxPID = pid, cw_bits = 1\<rparr>)
     else if t < cw_time w then (False, w)
     else if pid > cw_maxPID w then
       (let d = uint (pid - cw_maxPID w);
            bits = (if d \<ge> replayWindowSize then 1 else push_bit (nat d) (cw_bits w) OR 1)
        in (True, w\<lparr>cw_bits := bits, cw_maxPID := pid\<rparr>))
     else
       let d = uint (cw_maxPID w - pid)
       in if d \<ge> replayWindowSize \<or> cw_bits w AND push_bit (nat d) 1 \<noteq> 0 then (False, w)
          else (True, w\<lparr>cw_bits := cw_bits w OR push_bit (nat d) 1\<rparr>))"

section \<open>tls-auth\<close>

definition ctl_digests :: "(string \<times> nat) list" where
  "ctl_digests = [(''MD5'', 16), (''SHA1'', 20), (''SHA224'', 28), (''SHA256'', 32), (''SHA384'', 48), (''SHA512'', 64)]"

text \<open>The name the table knows and its size.\<close>

definition lookupDigest :: "string \<Rightarrow> (string \<times> nat) option" where
  "lookupDigest name =
    (let n = toUpper (removeChars [CHR ''-'', CHR ''_''] (trimSpace name));
         n = (if n = [] then ''SHA1'' else n);
         n = (if hasPrefix n ''SHA2'' \<and> length n = 7 then ''SHA'' @ drop 4 n else n)
     in case lookup ctl_digests n of Some sz \<Rightarrow> Some (n, sz) | None \<Rightarrow> None)"

record tlsAuth =
  ta_size :: nat
  ta_mac :: "bytes \<Rightarrow> bytes \<Rightarrow> bytes"
  ta_sendKey :: bytes
  ta_recvKey :: bytes
  ta_send :: sender
  ta_recv :: ctlWindow

text \<open>\<open>mac\<close>: the keyed hash over packet id, time, head and body; \<open>rest\<close> starts with the packet id.\<close>

definition auth_mac :: "tlsAuth \<Rightarrow> bytes \<Rightarrow> bytes \<Rightarrow> bytes \<Rightarrow> bytes" where
  "auth_mac w key head rest = ta_mac w key (take pidLen rest @ head @ drop pidLen rest)"

definition auth_Wrap :: "tlsAuth \<Rightarrow> control_packet option \<Rightarrow> (ctl_err, bytes) res \<times> tlsAuth" where
  "auth_Wrap w p =
    (case checkPacket p of Inl e \<Rightarrow> (Inl e, w) | Inr p \<Rightarrow>
     let macLen = ta_size w;
         b = [Header (Opcode p) (KeyID p)] @ SessionID p @ replicate macLen 0
     in case appendPID (ta_send w) b of (Inl e, s) \<Rightarrow> (Inl e, w\<lparr>ta_send := s\<rparr>) | (Inr b, s) \<Rightarrow>
     let b = AppendBody b p;
         m = auth_mac w (ta_sendKey w) (take headLen b) (drop (headLen + macLen) b)
     in (Inr (copyInto b headLen (take (length b - headLen) m)), w\<lparr>ta_send := s\<rparr>))"

definition auth_Unwrap :: "tlsAuth \<Rightarrow> bytes \<Rightarrow> (ctl_err, control_packet) res \<times> tlsAuth" where
  "auth_Unwrap w b =
    (let macLen = ta_size w in
     case splitHead b (headLen + macLen + pidLen) ''tls-auth'' of Inl e \<Rightarrow> (Inl e, w) | Inr (op, keyID) \<Rightarrow>
     let head = take headLen b; got = take macLen (drop headLen b); rest = drop (headLen + macLen) b
     in if got \<noteq> auth_mac w (ta_recvKey w) head rest then (Inl (Err CtlAuth), w)
     else case getU32 (drop 4 rest) of Inl e \<Rightarrow> (Inl e, w) | Inr t \<Rightarrow>
     case getU32 rest of Inl e \<Rightarrow> (Inl e, w) | Inr pid \<Rightarrow>
     case ctl_accept (ta_recv w) (t, pid) of (False, r) \<Rightarrow> (Inl (Err CtlReplay), w\<lparr>ta_recv := r\<rparr>) | (True, r) \<Rightarrow>
     (parsePacket op keyID (drop 1 head) (drop pidLen rest), w\<lparr>ta_recv := r\<rparr>))"

definition NewTLSAuth :: "hmac_fn \<Rightarrow> u32 \<Rightarrow> staticKey option \<Rightarrow> direction \<Rightarrow> string \<Rightarrow> (ctl_err, tlsAuth) res" where
  "NewTLSAuth hmac now key' dir digest =
    (case key' of None \<Rightarrow> Inl (Err (NoKeyGiven ''tls-auth'')) | Some k \<Rightarrow>
     case lookupDigest digest of None \<Rightarrow> Inl (Err (UnsupportedAuthDigest digest)) | Some (name, sz) \<Rightarrow>
     case Parts k dir of None \<Rightarrow> Inl (Err (InvalidDirection dir)) | Some ps \<Rightarrow>
     Inr \<lparr>ta_size = sz, ta_mac = hmac name, ta_sendKey = take sz (sendHMAC ps), ta_recvKey = take sz (recvHMAC ps),
          ta_send = newSender now, ta_recv = newCtlWindow\<rparr>)"

section \<open>tls-crypt\<close>

type_synonym ctr_fn = "bytes \<Rightarrow> (bytes \<Rightarrow> bytes \<Rightarrow> bytes) option"

record tlsCrypt =
  tc_sendCTR :: "bytes \<Rightarrow> bytes \<Rightarrow> bytes"
  tc_recvCTR :: "bytes \<Rightarrow> bytes \<Rightarrow> bytes"
  tc_hash :: "bytes \<Rightarrow> bytes \<Rightarrow> bytes"
  tc_sendMAC :: bytes
  tc_recvMAC :: bytes
  tc_send :: sender
  tc_recv :: ctlWindow
  tc_wkc :: "bytes option"

definition carriesWKc :: "opcode \<Rightarrow> bool" where
  "carriesWKc op \<longleftrightarrow> op = ControlHardResetClientV3 \<or> op = ControlWKCV1"

definition crypt_tag :: "tlsCrypt \<Rightarrow> bytes \<Rightarrow> bytes \<Rightarrow> bytes \<Rightarrow> bytes" where
  "crypt_tag w key head body = tc_hash w key (head @ body)"

definition crypt_Wrap :: "tlsCrypt \<Rightarrow> control_packet option \<Rightarrow> (ctl_err, bytes) res \<times> tlsCrypt" where
  "crypt_Wrap w p =
    (case checkPacket p of Inl e \<Rightarrow> (Inl e, w) | Inr p \<Rightarrow>
     let wkc = (case tc_wkc w of Some k \<Rightarrow> if carriesWKc (Opcode p) then k else [] | None \<Rightarrow> []);
         b = [Header (Opcode p) (KeyID p)] @ SessionID p
     in case appendPID (tc_send w) b of (Inl e, s) \<Rightarrow> (Inl e, w\<lparr>tc_send := s\<rparr>) | (Inr b, s) \<Rightarrow>
     let b = b @ replicate cryptTag 0;
         b = AppendBody b p;
         body = drop (cryptHead + cryptTag) b;
         t = crypt_tag w (tc_sendMAC w) (take cryptHead b) body;
         b = copyInto b cryptHead (take (length b - cryptHead) t);
         b = take (cryptHead + cryptTag) b @ tc_sendCTR w (take aesBlock t) body
     in (Inr (b @ wkc), w\<lparr>tc_send := s\<rparr>))"

definition crypt_Unwrap :: "tlsCrypt \<Rightarrow> bytes \<Rightarrow> (ctl_err, control_packet) res \<times> tlsCrypt" where
  "crypt_Unwrap w b =
    (case splitHead b (cryptHead + cryptTag) ''tls-crypt'' of Inl e \<Rightarrow> (Inl e, w) | Inr (op, keyID) \<Rightarrow>
     let clearPart = take cryptHead b; got = take cryptTag (drop cryptHead b); ct = drop (cryptHead + cryptTag) b;
         body = tc_recvCTR w (take aesBlock got) ct
     in if got \<noteq> crypt_tag w (tc_recvMAC w) clearPart body then (Inl (Err CtlAuth), w)
     else case getU32 (drop (headLen + 4) clearPart) of Inl e \<Rightarrow> (Inl e, w) | Inr t \<Rightarrow>
     case getU32 (drop headLen clearPart) of Inl e \<Rightarrow> (Inl e, w) | Inr pid \<Rightarrow>
     case ctl_accept (tc_recv w) (t, pid) of (False, r) \<Rightarrow> (Inl (Err CtlReplay), w\<lparr>tc_recv := r\<rparr>) | (True, r) \<Rightarrow>
     (parsePacket op keyID (take 8 (drop 1 clearPart)) body, w\<lparr>tc_recv := r\<rparr>))"

definition newTLSCrypt :: "hmac_fn \<Rightarrow> ctr_fn \<Rightarrow> u32 \<Rightarrow> staticKey option \<Rightarrow> bool \<Rightarrow> bytes option \<Rightarrow> (ctl_err, tlsCrypt) res" where
  "newTLSCrypt hmac ctr now key' client wkc =
    (case key' of None \<Rightarrow> Inl (Err (NoKeyGiven ''tls-crypt'')) | Some k \<Rightarrow>
     let dir = (if client then Inverse else Normal)
     in case Parts k dir of None \<Rightarrow> Inl Panic | Some ps \<Rightarrow>
     case ctr (take 32 (sendCipher ps)) of None \<Rightarrow> Inl (Err CipherFailed) | Some se \<Rightarrow>
     case ctr (take 32 (recvCipher ps)) of None \<Rightarrow> Inl (Err CipherFailed) | Some re \<Rightarrow>
     Inr \<lparr>tc_sendCTR = se, tc_recvCTR = re, tc_hash = hmac ''SHA256'', tc_sendMAC = take 32 (sendHMAC ps),
          tc_recvMAC = take 32 (recvHMAC ps), tc_send = newSender now, tc_recv = newCtlWindow, tc_wkc = wkc\<rparr>)"

definition NewTLSCrypt :: "hmac_fn \<Rightarrow> ctr_fn \<Rightarrow> u32 \<Rightarrow> staticKey option \<Rightarrow> bool \<Rightarrow> (ctl_err, tlsCrypt) res" where
  "NewTLSCrypt hmac ctr now key' client = newTLSCrypt hmac ctr now key' client None"

section \<open>tls-crypt-v2\<close>

definition v2ClientKeyType :: string where "v2ClientKeyType = ''OpenVPN tls-crypt-v2 client key''"
definition v2ServerKeyType :: string where "v2ServerKeyType = ''OpenVPN tls-crypt-v2 server key''"

text \<open>The PEM coder: the next block of a text, its type and bytes, and the text after it.\<close>

type_synonym pem_decode = "bytes \<Rightarrow> (string \<times> bytes \<times> bytes) option"

definition checkWKc :: "bytes \<Rightarrow> (ctl_err, unit) res" where
  "checkWKc wkc =
    (if glen wkc < minWKcLen \<or> glen wkc > maxWKcLen then Inl (Err (WKcLength (glen wkc)))
     else rbind (gfrom wkc (glen wkc - 2)) (\<lambda>d. rbind (getU16 d) (\<lambda>n.
       if uint n \<noteq> glen wkc then Inl (Err (WKcSays (uint n) (glen wkc))) else Inr ())))"

text \<open>The loops over PEM blocks. A decoder that finds a block leaves a shorter text; the loop stops where it would not.\<close>

function clientKeyBlocks :: "pem_decode \<Rightarrow> bytes \<Rightarrow> (ctl_err, staticKey \<times> bytes) res" where
  "clientKeyBlocks decode text =
    (case decode text of None \<Rightarrow> Inl (Err NoPEMBlock)
     | Some (ty, data, rest) \<Rightarrow>
       if ty \<noteq> v2ClientKeyType then
         (if length rest < length text then clientKeyBlocks decode rest else Inl (Err NoPEMBlock))
       else if glen data < 256 then Inl (Err (ClientKeyShort (glen data)))
       else rbind (checkWKc (drop 256 data)) (\<lambda>_. Inr (take 256 data, drop 256 data)))"
  by pat_completeness auto
termination
  by (relation "measure (\<lambda>(decode, text). length text)") auto

declare clientKeyBlocks.simps [simp del]

definition ParseTLSCryptV2ClientKey :: "pem_decode \<Rightarrow> bytes \<Rightarrow> (ctl_err, staticKey \<times> bytes) res" where
  "ParseTLSCryptV2ClientKey decode text = clientKeyBlocks decode text"

definition NewTLSCryptV2Client :: "hmac_fn \<Rightarrow> ctr_fn \<Rightarrow> u32 \<Rightarrow> staticKey option \<Rightarrow> bytes \<Rightarrow> (ctl_err, tlsCrypt) res" where
  "NewTLSCryptV2Client hmac ctr now key' wkc =
    rbind (checkWKc wkc) (\<lambda>_. newTLSCrypt hmac ctr now key' True (Some wkc))"

type_synonym serverKey = bytes

function serverKeyBlocks :: "pem_decode \<Rightarrow> bytes \<Rightarrow> (ctl_err, serverKey) res" where
  "serverKeyBlocks decode text =
    (if text = [] then Inl (Err NoPEMBlock)
     else case decode text of None \<Rightarrow> Inl (Err NoPEMBlock)
     | Some (ty, data, rest) \<Rightarrow>
       if ty \<noteq> v2ServerKeyType then
         (if length rest < length text then serverKeyBlocks decode rest else Inl (Err NoPEMBlock))
       else if glen data \<noteq> 128 then Inl (Err ServerKeyLength)
       else Inr data)"
  by pat_completeness auto
termination
  by (relation "measure (\<lambda>(decode, text). length text)") auto

declare serverKeyBlocks.simps [simp del]

definition ParseTLSCryptV2ServerKey :: "pem_decode \<Rightarrow> bytes \<Rightarrow> (ctl_err, serverKey) res" where
  "ParseTLSCryptV2ServerKey decode text = serverKeyBlocks decode text"

text \<open>The wrapped client key: tag, encrypted client key and metadata, length.\<close>

definition UnwrapTLSCryptV2ClientKey :: "hmac_fn \<Rightarrow> ctr_fn \<Rightarrow> serverKey option \<Rightarrow> bytes \<Rightarrow> (ctl_err, staticKey \<times> bytes) res" where
  "UnwrapTLSCryptV2ClientKey hmac ctr key' wkc =
    (case key' of None \<Rightarrow> Inl (Err (NoKeyGiven [])) | Some k \<Rightarrow>
     rbind (checkWKc wkc) (\<lambda>_.
     case ctr (take 32 k) of None \<Rightarrow> Inl (Err CipherFailed) | Some c \<Rightarrow>
     rbind (gslice wkc 0 32) (\<lambda>tag'. rbind (gslice wkc 32 (glen wkc - 2)) (\<lambda>ct. rbind (gfrom wkc (glen wkc - 2)) (\<lambda>len.
     let plain = c (take 16 tag') ct
     in if hmac ''SHA256'' (take 32 (drop 64 k)) (len @ plain) \<noteq> tag' then Inl (Err CtlAuth)
        else rbind (gslice plain 0 256) (\<lambda>kc. Inr (kc, drop 256 plain)))))))"

record v2Session =
  v2_key :: serverKey
  v2_inner :: "tlsCrypt option"
  v2_wkc :: bytes

definition NewTLSCryptV2Server :: "serverKey option \<Rightarrow> (ctl_err, v2Session) res" where
  "NewTLSCryptV2Server key' =
    (case key' of None \<Rightarrow> Inl (Err (NoKeyGiven [])) | Some k \<Rightarrow> Inr \<lparr>v2_key = k, v2_inner = None, v2_wkc = []\<rparr>)"

definition v2_Wrap :: "v2Session \<Rightarrow> control_packet option \<Rightarrow> (ctl_err, bytes) res \<times> v2Session" where
  "v2_Wrap v p =
    (case v2_inner v of None \<Rightarrow> (Inl (Err CtlAuth), v)
     | Some w \<Rightarrow> (case crypt_Wrap w p of (r, w) \<Rightarrow> (r, v\<lparr>v2_inner := Some w\<rparr>)))"

definition v2_inner_Unwrap :: "v2Session \<Rightarrow> bytes \<Rightarrow> (ctl_err, control_packet) res \<times> v2Session" where
  "v2_inner_Unwrap v b =
    (case v2_inner v of None \<Rightarrow> (Inl (Err CtlAuth), v)
     | Some w \<Rightarrow> (case crypt_Unwrap w b of (r, w) \<Rightarrow> (r, v\<lparr>v2_inner := Some w\<rparr>)))"

text \<open>The first reset of a session: its wrapped key gives the keys, and the packet must authenticate under them.\<close>

definition v2_bind :: "hmac_fn \<Rightarrow> ctr_fn \<Rightarrow> u32 \<Rightarrow> v2Session \<Rightarrow> bytes \<Rightarrow> bytes \<Rightarrow> (ctl_err, control_packet) res \<times> v2Session" where
  "v2_bind hmac ctr now v wrapped b =
    (case UnwrapTLSCryptV2ClientKey hmac ctr (Some (v2_key v)) wrapped of Inl e \<Rightarrow> (Inl e, v) | Inr (k, _) \<Rightarrow>
     case NewTLSCrypt hmac ctr now (Some k) False of Inl e \<Rightarrow> (Inl e, v) | Inr inner \<Rightarrow>
     case crypt_Unwrap inner b of (Inl e, _) \<Rightarrow> (Inl e, v)
     | (Inr packet, inner) \<Rightarrow> (Inr packet, v\<lparr>v2_inner := Some inner, v2_wkc := wrapped\<rparr>))"

definition v2_Unwrap :: "hmac_fn \<Rightarrow> ctr_fn \<Rightarrow> u32 \<Rightarrow> v2Session \<Rightarrow> bytes \<Rightarrow> (ctl_err, control_packet) res \<times> v2Session" where
  "v2_Unwrap hmac ctr now v b =
    (if glen b < 9 then (Inl (Err CtlShort), v)
     else case gidx b 0 of Inl e \<Rightarrow> (Inl e, v) | Inr b0 \<Rightarrow>
     let (op, kid) = SplitHeader b0 in
     if carriesWKc op then
       (if glen b < minWKcLen + 9 then (Inl (Err CtlAuth), v)
        else case gfrom b (glen b - 2) of Inl e \<Rightarrow> (Inl e, v) | Inr d \<Rightarrow>
        case getU16 d of Inl e \<Rightarrow> (Inl e, v) | Inr n16 \<Rightarrow>
        let n = uint n16 in
        if n < minWKcLen \<or> n > maxWKcLen \<or> n > glen b - 9 then (Inl (Err CtlAuth), v)
        else
        let wrapped = drop (nat (glen b - n)) b; b' = take (nat (glen b - n)) b
        in if v2_inner v = None then
             (if op \<noteq> ControlHardResetClientV3 \<or> kid \<noteq> 0 then (Inl (Err CtlAuth), v)
              else v2_bind hmac ctr now v wrapped b')
           else if v2_wkc v \<noteq> wrapped then (Inl (Err CtlAuth), v)
           else v2_inner_Unwrap v b')
     else v2_inner_Unwrap v b)"

definition GenerateTLSCryptV2ServerKey :: "bytes \<Rightarrow> (ctl_err, serverKey) res" where
  "GenerateTLSCryptV2ServerKey rnd =
    (case fst (ReadFull rnd 128) of Inl e \<Rightarrow> Inl (Err (RandFailed e)) | Inr k \<Rightarrow> Inr k)"

definition ServerKey_MarshalPEM :: "(string \<Rightarrow> bytes \<Rightarrow> bytes) \<Rightarrow> serverKey option \<Rightarrow> bytes" where
  "ServerKey_MarshalPEM encode key' = (case key' of None \<Rightarrow> [] | Some k \<Rightarrow> encode v2ServerKeyType k)"

definition be64 :: "u64 \<Rightarrow> bytes" where
  "be64 v = be32 (ucast (drop_bit 32 v)) @ be32 (ucast v)"

text \<open>Nil metadata, \<open>None\<close>, stands for the creation time.\<close>

definition wkcMetadata :: "u64 \<Rightarrow> bytes option \<Rightarrow> bytes" where
  "wkcMetadata now metadata = (case metadata of None \<Rightarrow> 1 # be64 now | Some m \<Rightarrow> 0 # m)"

definition wrapClientKey :: "hmac_fn \<Rightarrow> (bytes \<Rightarrow> bytes \<Rightarrow> bytes) \<Rightarrow> serverKey \<Rightarrow> bytes \<Rightarrow> bytes" where
  "wrapClientKey hmac c k plain =
    (let len = be16 (of_nat (32 + length plain + 2));
         tag' = take 32 (hmac ''SHA256'' (take 32 (drop 64 k)) (len @ plain))
     in tag' @ c (take 16 tag') plain @ len)"

definition IssueTLSCryptV2ClientKey :: "hmac_fn \<Rightarrow> ctr_fn \<Rightarrow> (string \<Rightarrow> bytes \<Rightarrow> bytes) \<Rightarrow> u64 \<Rightarrow> bytes \<Rightarrow>
    serverKey option \<Rightarrow> bytes option \<Rightarrow> (ctl_err, bytes) res" where
  "IssueTLSCryptV2ClientKey hmac ctr encode now rnd key' metadata =
    (case key' of None \<Rightarrow> Inl (Err (NoKeyGiven [])) | Some k \<Rightarrow>
     if glen (case metadata of None \<Rightarrow> [] | Some m \<Rightarrow> m) > maxWKcLen - minWKcLen - 1 then Inl (Err MetadataTooLarge)
     else case fst (ReadFull rnd 256) of Inl e \<Rightarrow> Inl (Err (RandFailed e)) | Inr kc \<Rightarrow>
     let plain = kc @ wkcMetadata now metadata
     in case ctr (take 32 k) of None \<Rightarrow> Inl (Err CipherFailed) | Some c \<Rightarrow>
     Inr (encode v2ClientKeyType (take 256 plain @ wrapClientKey hmac c k plain)))"

end
