(* ===== verification/Ctlwrap_Window.thy ===== *)
theory Ctlwrap_Window
  imports Ctlwrap
begin

text \<open>
  The replay window of the control channel refines the set of the (time, id) pairs it has
  accepted, and is a second instance of the replay filters: no pair is accepted twice.
\<close>

definition pairs_of :: "(u32 \<times> u32) set \<Rightarrow> ctlWindow \<Rightarrow> bool" where
  "pairs_of S w \<longleftrightarrow>
    (if \<not> cw_seen w then S = {}
     else (cw_time w, cw_maxPID w) \<in> S \<and> (\<forall>t p. (t, p) \<in> S \<longrightarrow> t < cw_time w \<or> (t = cw_time w \<and> p \<le> cw_maxPID w)) \<and>
       (\<forall>p. p \<le> cw_maxPID w \<longrightarrow> unat (cw_maxPID w) - unat p < 64 \<longrightarrow>
          (bit (cw_bits w) (unat (cw_maxPID w) - unat p) \<longleftrightarrow> (cw_time w, p) \<in> S)))"

text \<open>
  The specification: a pair is fresh if it is new and every accepted one is of an earlier time,
  or of the same time and less than 64 ids ahead of it.
\<close>

definition fresh_pair :: "(u32 \<times> u32) set \<Rightarrow> u32 \<times> u32 \<Rightarrow> bool" where
  "fresh_pair S tp \<longleftrightarrow> tp \<notin> S \<and> (\<forall>t p. (t, p) \<in> S \<longrightarrow> t < fst tp \<or> (t = fst tp \<and> unat p < unat (snd tp) + 64))"

lemma pairs_of_new: "pairs_of {} newCtlWindow"
  by (simp add: pairs_of_def newCtlWindow_def)

lemma pairs_ofD:
  assumes "pairs_of S w" "cw_seen w"
  shows "(cw_time w, cw_maxPID w) \<in> S" "\<And>t p. (t, p) \<in> S \<Longrightarrow> t < cw_time w \<or> (t = cw_time w \<and> p \<le> cw_maxPID w)"
    "\<And>p. p \<le> cw_maxPID w \<Longrightarrow> unat (cw_maxPID w) - unat p < 64 \<Longrightarrow>
       bit (cw_bits w) (unat (cw_maxPID w) - unat p) \<longleftrightarrow> (cw_time w, p) \<in> S"
  using assms unfolding pairs_of_def by simp_all

lemma uint_sub: "(b::u32) \<le> a \<Longrightarrow> uint (a - b) = int (unat a - unat b)"
  by (metis unat_sub uint_nat)

lemma bit_one_u64: "bit (1 :: u64) n \<longleftrightarrow> n = 0"
  by (simp add: bit_1_iff)

lemma and_mask_eq0: "n < 64 \<Longrightarrow> (v :: u64) AND push_bit n 1 \<noteq> 0 \<longleftrightarrow> bit v n"
  using and_mask64 [of n v] by simp

lemma bit_shifted: "n < 64 \<Longrightarrow> bit (push_bit d (v :: u64) OR 1) n \<longleftrightarrow> n = 0 \<or> (d \<le> n \<and> bit v (n - d))"
  by (auto simp: bit_or_iff bit_push_bit_iff bit_1_iff)

lemma bit_set_one: "e < 64 \<Longrightarrow> bit ((v :: u64) OR push_bit e 1) n \<longleftrightarrow> n = e \<or> bit v n"
  by (auto simp: bit_or_iff bit_mask64)

text \<open>The four branches.\<close>

lemma ctl_accept_new:
  assumes w: "pairs_of S w" and new: "\<not> cw_seen w \<or> t > cw_time w"
  shows "fresh_pair S (t, p)" "pairs_of (insert (t, p) S) \<lparr>cw_seen = True, cw_time = t, cw_maxPID = p, cw_bits = 1\<rparr>"
proof -
  have less: "t' < t" if "(t', p') \<in> S" for t' p'
    using w new that pairs_ofD(2) [OF w] by (cases "cw_seen w") (fastforce simp: pairs_of_def)+
  then show "fresh_pair S (t, p)" by (fastforce simp: fresh_pair_def)
  have "unat p - unat q = 0 \<longleftrightarrow> (t, q) \<in> insert (t, p) S" if "q \<le> p" for q
    using less [of t q] that by (auto simp: word_le_nat_alt word_unat_eq_iff)
  then show "pairs_of (insert (t, p) S) \<lparr>cw_seen = True, cw_time = t, cw_maxPID = p, cw_bits = 1\<rparr>"
    using less by (auto simp: pairs_of_def bit_one_u64)
qed

lemma ctl_accept_above:
  assumes w: "pairs_of S w" and seen: "cw_seen w" and above: "p > cw_maxPID w"
    and d: "d = unat p - unat (cw_maxPID w)" and bits: "bits = (if 64 \<le> d then 1 else push_bit d (cw_bits w) OR 1)"
  shows "fresh_pair S (cw_time w, p)" "pairs_of (insert (cw_time w, p) S) (w\<lparr>cw_bits := bits, cw_maxPID := p\<rparr>)"
proof -
  note W = pairs_ofD [OF w seen]
  have lt: "unat (cw_maxPID w) < unat p" using above by (simp add: word_less_nat_alt)
  have hi: "unat q \<le> unat (cw_maxPID w)" if "(cw_time w, q) \<in> S" for q
    using W(2) [OF that] by (simp add: word_le_nat_alt)
  show "fresh_pair S (cw_time w, p)"
    using hi [of p] W(2) lt by (fastforce simp: fresh_pair_def word_le_nat_alt)
  have "bit bits (unat p - unat q) \<longleftrightarrow> (cw_time w, q) \<in> insert (cw_time w, p) S"
    if q: "q \<le> p" "unat p - unat q < 64" for q
  proof (cases "q \<le> cw_maxPID w")
    case True
    then have le: "unat q \<le> unat (cw_maxPID w)" by (simp add: word_le_nat_alt)
    then have n: "unat p - unat q - d = unat (cw_maxPID w) - unat q" "d \<le> unat p - unat q" "unat p - unat q \<noteq> 0" "d < 64" "q \<noteq> p"
      using lt q(2) above True by (auto simp: d)
    show ?thesis using W(3) [OF True] n q(2) le by (simp add: bits bit_shifted)
  next
    case False
    then have "unat (cw_maxPID w) < unat q" by (simp add: not_le word_less_nat_alt)
    then have "(cw_time w, q) \<notin> S" "unat p - unat q < d" using hi [of q] lt by (auto simp: d)
    moreover have "unat p - unat q = 0 \<longleftrightarrow> q = p" using q(1) by (auto simp: word_le_nat_alt word_unat_eq_iff)
    ultimately show ?thesis using q(2) by (auto simp: bits bit_shifted bit_one_u64)
  qed
  moreover have "q \<le> p" if "(cw_time w, q) \<in> S" for q using hi [OF that] lt by (simp add: word_le_nat_alt)
  ultimately show "pairs_of (insert (cw_time w, p) S) (w\<lparr>cw_bits := bits, cw_maxPID := p\<rparr>)"
    using seen W(2) by (auto simp: pairs_of_def)
qed

lemma ctl_accept_below:
  assumes w: "pairs_of S w" and seen: "cw_seen w" and below: "p \<le> cw_maxPID w"
    and e: "e = unat (cw_maxPID w) - unat p"
  shows "fresh_pair S (cw_time w, p) \<longleftrightarrow> e < 64 \<and> \<not> bit (cw_bits w) e"
    "e < 64 \<Longrightarrow> pairs_of (insert (cw_time w, p) S) (w\<lparr>cw_bits := cw_bits w OR push_bit e 1\<rparr>)"
proof -
  note W = pairs_ofD [OF w seen]
  have le: "unat p \<le> unat (cw_maxPID w)" using below by (simp add: word_le_nat_alt)
  have far: "\<not> fresh_pair S (cw_time w, p)" if "\<not> e < 64"
  proof
    assume "fresh_pair S (cw_time w, p)"
    then have "cw_time w < cw_time w \<or> unat (cw_maxPID w) < unat p + 64" using W(1) unfolding fresh_pair_def fst_conv snd_conv by blast
    then show False using that le by (simp add: e)
  qed
  have near: "fresh_pair S (cw_time w, p) \<longleftrightarrow> (cw_time w, p) \<notin> S" if "e < 64"
    using W(2) that le by (fastforce simp: fresh_pair_def e word_le_nat_alt)
  show "fresh_pair S (cw_time w, p) \<longleftrightarrow> e < 64 \<and> \<not> bit (cw_bits w) e"
    using far near W(3) [OF below] by (auto simp: e)
  assume e64: "e < 64"
  have "bit (cw_bits w OR push_bit e 1) (unat (cw_maxPID w) - unat q) \<longleftrightarrow> (cw_time w, q) \<in> insert (cw_time w, p) S"
    if q: "q \<le> cw_maxPID w" "unat (cw_maxPID w) - unat q < 64" for q
  proof -
    have "unat (cw_maxPID w) - unat q = e \<longleftrightarrow> q = p"
      using q(1) le by (auto simp: e word_le_nat_alt word_unat_eq_iff)
    then show ?thesis using W(3) [OF q] unfolding bit_set_one [OF e64] by simp
  qed
  then show "pairs_of (insert (cw_time w, p) S) (w\<lparr>cw_bits := cw_bits w OR push_bit e 1\<rparr>)"
    using seen W(1,2) below by (auto simp: pairs_of_def)
qed

lemma ctl_accept_cases:
  assumes w: "pairs_of S w"
  shows "case ctl_accept w (t, p) of (ok, w') \<Rightarrow>
    (ok \<longleftrightarrow> fresh_pair S (t, p)) \<and> (ok \<longrightarrow> pairs_of (insert (t, p) S) w') \<and> (\<not> ok \<longrightarrow> w' = w)"
proof -
  consider (new) "\<not> cw_seen w \<or> t > cw_time w" | (old) "cw_seen w" "t < cw_time w" "\<not> t > cw_time w"
    | (above) "cw_seen w" "t = cw_time w" "p > cw_maxPID w" | (below) "cw_seen w" "t = cw_time w" "p \<le> cw_maxPID w" "\<not> p > cw_maxPID w"
    by (meson less_linear not_less)
  then show ?thesis
  proof cases
    case new
    then show ?thesis using ctl_accept_new [OF w new, of p] by (simp add: ctl_accept_def)
  next
    case old
    then have "ctl_accept w (t, p) = (False, w)" by (simp add: ctl_accept_def)
    moreover have "\<not> fresh_pair S (t, p)" using pairs_ofD(1) [OF w old(1)] old(2,3) by (auto simp: fresh_pair_def)
    ultimately show ?thesis by simp
  next
    case above
    define d where "d = unat p - unat (cw_maxPID w)"
    define bits where "bits = (if 64 \<le> d then 1 else push_bit d (cw_bits w) OR 1)"
    have "uint (p - cw_maxPID w) = int d" using above(3) uint_sub [of "cw_maxPID w" p] by (simp add: d_def)
    then have "ctl_accept w (t, p) = (True, w\<lparr>cw_bits := bits, cw_maxPID := p\<rparr>)"
      using above by (simp add: ctl_accept_def bits_def Let_def replayWindowSize_def)
    then show ?thesis using ctl_accept_above [OF w above(1,3) d_def bits_def] above(2) by simp
  next
    case below
    define e where "e = unat (cw_maxPID w) - unat p"
    have u: "uint (cw_maxPID w - p) = int e" using below(3) uint_sub [of p "cw_maxPID w"] by (simp add: e_def)
    note B = ctl_accept_below [OF w below(1,3) e_def]
    have "ctl_accept w (t, p) = (if e \<ge> 64 \<or> cw_bits w AND push_bit e 1 \<noteq> 0 then (False, w)
        else (True, w\<lparr>cw_bits := cw_bits w OR push_bit e 1\<rparr>))"
      using below(1,2,4) u by (simp add: ctl_accept_def Let_def replayWindowSize_def)
    then show ?thesis using B below(2) and_mask_eq0 [of e "cw_bits w"] by auto
  qed
qed

interpretation ctl_window: replay_filter pairs_of ctl_accept
proof
  fix S s i s'
  assume w: "pairs_of S s"
  show "s' = s" if "ctl_accept s i = (False, s')"
    using ctl_accept_cases [OF w, of "fst i" "snd i"] that by simp
  show "i \<notin> S \<and> pairs_of (insert i S) s'" if "ctl_accept s i = (True, s')"
    using ctl_accept_cases [OF w, of "fst i" "snd i"] that by (simp add: fresh_pair_def)
qed

text \<open>
  Claim C26. The control channel's replay window accepts no pair of time and packet id twice,
  and is exact: a pair is accepted if and only if it has not been accepted before and every
  accepted pair is of an earlier time, or of the same time with an id less than 64 ahead of it.
\<close>

theorem ctl_window_exact:
  assumes "runFilter ctl_accept newCtlWindow pairs = (out, w)"
  shows "distinct out \<and> set out \<subseteq> set pairs \<and>
    (fst (ctl_accept w (t, p)) \<longleftrightarrow> (t, p) \<notin> set out \<and> (\<forall>(t', p') \<in> set out. t' < t \<or> (t' = t \<and> unat p' < unat p + 64)))"
proof -
  from ctl_window.run_distinct [OF pairs_of_new assms] have
    d: "distinct out" "set out \<subseteq> set pairs" "pairs_of (set out) w" by auto
  have "fst (ctl_accept w (t, p)) = fresh_pair (set out) (t, p)"
    using ctl_accept_cases [OF d(3), of t p] by (cases "ctl_accept w (t, p)") simp
  also have "\<dots> \<longleftrightarrow> (t, p) \<notin> set out \<and> (\<forall>(t', p') \<in> set out. t' < t \<or> (t' = t \<and> unat p' < unat p + 64))"
    unfolding fresh_pair_def by (simp add: Ball_def)
  finally show ?thesis using d by simp
qed

theorem ctl_window_exact_witness:
  "fst (runFilter ctl_accept newCtlWindow [(5, 1), (5, 70), (5, 1), (5, 7), (5, 7), (4, 9), (6, 1)]) = [(5, 1), (5, 70), (5, 7), (6, 1)] \<and>
   \<not> fst (ctl_accept (snd (runFilter ctl_accept newCtlWindow [(5, 1), (5, 70), (5, 1), (5, 7), (5, 7), (4, 9), (6, 1)])) (5, 71))"
proof -
  let ?r = "runFilter ctl_accept newCtlWindow [(5, 1), (5, 70), (5, 1), (5, 7), (5, 7), (4, 9), (6, 1)]"
  have f: "fst ?r = [(5, 1), (5, 70), (5, 7), (6, 1)]" by code_simp
  then have "?r = ([(5, 1), (5, 70), (5, 7), (6, 1)], snd ?r)" by (metis prod.collapse)
  from ctl_window_exact [OF this, of 5 71] f show ?thesis by auto
qed

end
