(* ===== verification/Ctlwrap_Packets.thy ===== *)
theory Ctlwrap_Packets
  imports Ctlwrap_Window
begin

text \<open>
  The interface of the source's \<open>Wrapper\<close> as a locale: two ends that are linked stay linked
  whether a packet arrives or is lost, and a packet that arrives is unwrapped to what was
  wrapped. Its instances are the plain wrapper, tls-auth, tls-crypt; a second locale adds that
  nothing is accepted twice.
\<close>

section \<open>The interface\<close>

type_synonym 's wrap_fn = "'s \<Rightarrow> control_packet option \<Rightarrow> (ctl_err, bytes) res \<times> 's"
type_synonym 'r unwrap_fn = "'r \<Rightarrow> bytes \<Rightarrow> (ctl_err, control_packet) res \<times> 'r"

text \<open>Packets sent one after the other, each with whether the network loses it: what the receiver makes of those that arrive.\<close>

fun transfer :: "'s wrap_fn \<Rightarrow> 'r unwrap_fn \<Rightarrow> 's \<Rightarrow> 'r \<Rightarrow> (control_packet \<times> bool) list \<Rightarrow> (ctl_err, control_packet) res list" where
  "transfer wrap unwrap s r [] = []"
| "transfer wrap unwrap s r ((p, lost) # ps) =
    (case wrap s (Some p) of (Inl e, s) \<Rightarrow> transfer wrap unwrap s r ps
     | (Inr b, s) \<Rightarrow> if lost then transfer wrap unwrap s r ps
         else let (x, r) = unwrap r b in x # transfer wrap unwrap s r ps)"

locale control_wrapper =
  fixes wrap :: "'s wrap_fn" and unwrap :: "'r unwrap_fn" and linked :: "'s \<Rightarrow> 'r \<Rightarrow> bool" and room :: "'s \<Rightarrow> nat \<Rightarrow> bool"
  assumes wraps: "wf_packet p \<Longrightarrow> room s (Suc n) \<Longrightarrow> \<exists>b s'. wrap s (Some p) = (Inr b, s') \<and> room s' n"
    and arrives: "linked s r \<Longrightarrow> wf_packet p \<Longrightarrow> wrap s (Some p) = (Inr b, s') \<Longrightarrow>
      \<exists>r'. unwrap r b = (Inr p, r') \<and> linked s' r'"
    and is_lost: "linked s r \<Longrightarrow> wrap s (Some p) = (Inr b, s') \<Longrightarrow> linked s' r"
begin

lemma transfer_delivers:
  assumes "linked s r" "room s (length ps)" "list_all (\<lambda>(p, _). wf_packet p) ps"
  shows "transfer wrap unwrap s r ps = map (\<lambda>(p, _). Inr p) (filter (\<lambda>(_, lost). \<not> lost) ps)"
  using assms
proof (induction ps arbitrary: s r)
  case (Cons x ps)
  obtain p lost where x: "x = (p, lost)" by fastforce
  have wf: "wf_packet p" "list_all (\<lambda>(p, _). wf_packet p) ps" using Cons.prems(3) x by auto
  obtain b s' where w: "wrap s (Some p) = (Inr b, s')" "room s' (length ps)"
    using wraps [OF wf(1), of s "length ps"] Cons.prems(2) by auto
  show ?case
  proof (cases lost)
    case True
    then show ?thesis using Cons.IH [OF is_lost [OF Cons.prems(1) w(1)] w(2) wf(2)] x w(1) by simp
  next
    case False
    obtain r' where r: "unwrap r b = (Inr p, r')" "linked s' r'" using arrives [OF Cons.prems(1) wf(1) w(1)] by blast
    then show ?thesis using Cons.IH [OF r(2) w(2) wf(2)] x w(1) False by simp
  qed
qed simp

end

locale authentic_wrapper = control_wrapper +
  fixes valid :: "'r \<Rightarrow> bool"
  assumes once: "valid r \<Longrightarrow> unwrap r b = (Inr p, r') \<Longrightarrow> valid r' \<and> unwrap r' b = (Inl (Err CtlReplay), r')"
    and failed: "valid r \<Longrightarrow> unwrap r b = (Inl (Err e), r') \<Longrightarrow> e = CtlAuth \<or> e = CtlReplay \<Longrightarrow> r' = r"
begin

lemma repeated: "valid r \<Longrightarrow> unwrap r b = (Inr p, r') \<Longrightarrow> unwrap r' b = (Inl (Err CtlReplay), r')"
  using once by blast

end

section \<open>Parts of packets\<close>

lemma checkPacket_wf: "wf_packet p \<Longrightarrow> checkPacket (Some p) = Inr p"
proof -
  assume wf: "wf_packet p"
  have "KeyID p \<le> 7" using wf word_and_le1 [of "KeyID p" 7] by (simp add: wf_packet_def)
  then show ?thesis using wf by (auto simp: checkPacket_def wf_packet_def glen_def MaxAcks_def KeyIDMask_def not_less)
qed

lemma head_wf:
  assumes "wf_packet p"
  shows "SplitHeader (Header (Opcode p) (KeyID p)) = (Opcode p, KeyID p)" "IsControl (Opcode p)" "length (SessionID p) = 8"
  using assms IsControl_mask [of "Opcode p"] by (auto simp: SplitHeader_Header wf_packet_def)

lemma splitHead_wf:
  assumes "wf_packet p" "b = Header (Opcode p) (KeyID p) # rest" "n \<le> length b"
  shows "splitHead b n knd = Inr (Opcode p, KeyID p)"
  using assms head_wf [OF assms(1)] by (simp add: splitHead_def)

lemma parsePacket_wf:
  assumes wf: "wf_packet p"
  shows "parsePacket (Opcode p) (KeyID p) (SessionID p) (AppendBody [] p) = Inr p"
proof -
  have sid: "take 8 (SessionID p @ zeroSessionID) = SessionID p" using wf by (simp add: wf_packet_def)
  have "ParseBody \<lparr>Opcode = Opcode p, KeyID = KeyID p, SessionID = SessionID p, Acks = [],
      RemoteSessionID = zeroSessionID, PacketID = 0, Payload = []\<rparr> (AppendBody [] p @ []) = Inr (p\<lparr>Payload := (if HasMessageID p then Payload p @ [] else [])\<rparr>)"
    by (rule ParseBody_AppendBody [OF wf]) simp_all
  moreover have "p\<lparr>Payload := (if HasMessageID p then Payload p @ [] else [])\<rparr> = p" using wf by (auto simp: wf_packet_def)
  ultimately show ?thesis unfolding parsePacket_def sid by simp
qed

lemma AppendBody_append: "AppendBody dst p = dst @ AppendBody [] p"
  by (simp add: AppendBody_eq)

lemma bodyLen_eq: "length (RemoteSessionID p) = 8 \<Longrightarrow> glen (AppendBody [] p) = bodyLen p"
  by (simp add: AppendBody_eq bodyLen_def glen_def)

section \<open>The plain wrapper\<close>

lemma plain_Unwrap_eq: "plain_Unwrap b = (case Unmarshal b of
    Inr p \<Rightarrow> Inr p
  | Inl Panic \<Rightarrow> Inl Panic
  | Inl (Err e) \<Rightarrow> Inl (Err (if length b < 9 then WrapTooShort ''plain'' (glen b) 9
       else if \<not> IsControl (fst (SplitHeader (b ! 0))) then NotControlOpcode ''plain'' (fst (SplitHeader (b ! 0)))
       else MalformedBody (fst (SplitHeader (b ! 0))) e)))"
proof (cases "length b < 9")
  case True
  then show ?thesis by (simp add: plain_Unwrap_def Unmarshal_def splitHead_def glen_def ctl_consts)
next
  case False
  then have g: "\<not> glen b < 9" "0 < length b" "gidx b 0 = Inr (b ! 0)" by (auto simp: glen_def gidx_def)
  have sl: "gslice b 1 9 = Inr (take 8 (drop (Suc 0) b))" "gfrom b 9 = Inr (drop 9 b)"
    using False by (simp_all add: gslice_ok gfrom_ok glen_def)
  have sid: "take 8 (take 8 (drop (Suc 0) b) @ zeroSessionID) = take 8 (drop (Suc 0) b)" using False by simp
  obtain op k where s: "SplitHeader (b ! 0) = (op, k)" by fastforce
  have gg: "(gidx b 0 :: (ctl_err, u8) res) = Inr (b ! 0)" "(gidx b 0 :: (wire_err, u8) res) = Inr (b ! 0)"
    using g(2) by (simp_all add: gidx_def glen_def)
  show ?thesis
    using False s by (simp add: plain_Unwrap_def Unmarshal_def splitHead_def parsePacket_def ctl_consts g(1) gg sl sid
        del: take_append split: sum.split fault.split)
qed

interpretation plain_wrapper: control_wrapper "\<lambda>s p. (plain_Wrap p, s)" "\<lambda>r b. (plain_Unwrap b, r)" "\<lambda>(_::unit) (_::unit). True" "\<lambda>_ _. True"
proof
  show "\<exists>b s'. (plain_Wrap (Some p), s) = (Inr b, s') \<and> True" if "wf_packet p" for p :: control_packet and s :: unit
    using that by (simp add: plain_Wrap_def checkPacket_wf)
  show "\<exists>r'. (plain_Unwrap b, r) = (Inr p, r') \<and> True"
    if "wf_packet p" "(plain_Wrap (Some p), s) = (Inr b, s')" for r s s' :: unit and p b
  proof -
    have b: "b = Marshal p" using that by (simp add: plain_Wrap_def checkPacket_wf)
    have "Unmarshal (Marshal p) = Inr p"
      using Unmarshal_Marshal_append [OF that(1), of "[]"] that(1) by (auto simp: wf_packet_def)
    then show ?thesis by (simp add: b plain_Unwrap_eq)
  qed
qed simp_all

section \<open>Packet ids\<close>

text \<open>
  A window that has seen nothing of the sender's future: an earlier time, or the same time
  and no id above the last one used.
\<close>

definition ahead :: "sender \<Rightarrow> ctlWindow \<Rightarrow> bool" where
  "ahead s w \<longleftrightarrow> unat (sd_last s) < 2 ^ 32 \<and>
     (\<not> cw_seen w \<or> cw_time w < sd_time s \<or> (cw_time w = sd_time s \<and> unat (cw_maxPID w) \<le> unat (sd_last s)))"

definition senderRoom :: "sender \<Rightarrow> nat \<Rightarrow> bool" where
  "senderRoom s n \<longleftrightarrow> unat (sd_last s) + n < 2 ^ 32"

lemma unat_succ_u64: "unat (v :: u64) + 1 < 2 ^ 64 \<Longrightarrow> unat (v + 1) = unat v + 1"
  by (simp add: unat_word_ariths)

lemma sender_next_room:
  assumes "senderRoom s (Suc n)"
  shows "\<exists>pid s'. sender_next s = (Inr pid, s') \<and> senderRoom s' n"
proof -
  have lt: "unat (sd_last s) + 1 < 2 ^ 32" "unat (sd_last s) + 1 < 2 ^ 64" using assms by (simp_all add: senderRoom_def)
  have u: "unat (sd_last s + 1) = unat (sd_last s) + 1" by (rule unat_succ_u64 [OF lt(2)])
  have "\<not> sd_last s + 1 > 0xFFFFFFFF" using lt(1) u by (simp add: word_less_nat_alt not_less)
  moreover have "senderRoom (s\<lparr>sd_last := sd_last s + 1\<rparr>) n" using assms u by (simp add: senderRoom_def)
  ultimately show ?thesis by (simp add: sender_next_def Let_def)
qed

lemma sender_next_ahead:
  assumes "sender_next s = (Inr pid, s')" "ahead s w"
  shows "ahead s' w" "sd_time s' = sd_time s" "\<exists>w'. ctl_accept w (sd_time s, pid) = (True, w') \<and> ahead s' w'"
proof -
  have n: "\<not> sd_last s + 1 > 0xFFFFFFFF" and pid: "pid = ucast (sd_last s + 1)" and s': "s' = s\<lparr>sd_last := sd_last s + 1\<rparr>"
    using assms(1) by (auto simp: sender_next_def Let_def split: if_splits)
  have le: "unat (sd_last s + 1) \<le> 0xFFFFFFFF" using n by (simp add: not_less word_le_nat_alt)
  have u: "unat pid = unat (sd_last s + 1)"
    using le unfolding pid by (simp add: unsigned_ucast_eq take_bit_eq_mod)
  show t: "sd_time s' = sd_time s" by (simp add: s')
  have u1: "unat (sd_last s + 1) = unat (sd_last s) + 1"
    using assms(2) by (intro unat_succ_u64) (simp add: ahead_def)
  show "ahead s' w" using assms(2) le u1 by (auto simp: ahead_def s')
  show "\<exists>w'. ctl_accept w (sd_time s, pid) = (True, w') \<and> ahead s' w'"
  proof (cases "\<not> cw_seen w \<or> sd_time s > cw_time w")
    case True
    then show ?thesis using le u by (simp add: ctl_accept_def ahead_def s')
  next
    case False
    then have "cw_time w = sd_time s" "unat (cw_maxPID w) \<le> unat (sd_last s)" using assms(2) by (auto simp: ahead_def)
    moreover then have "pid > cw_maxPID w" using u u1 by (simp add: word_less_nat_alt)
    ultimately show ?thesis using False le u by (simp add: ctl_accept_def ahead_def s' Let_def)
  qed
qed

lemma appendPID_eq:
  "appendPID s b = (case sender_next s of (Inl e, s) \<Rightarrow> (Inl e, s) | (Inr pid, s) \<Rightarrow> (Inr (b @ be32 pid @ be32 (sd_time s)), s))"
  by (simp add: appendPID_def)

section \<open>tls-auth\<close>

definition auth_linked :: "tlsAuth \<Rightarrow> tlsAuth \<Rightarrow> bool" where
  "auth_linked s r \<longleftrightarrow> ta_size r = ta_size s \<and> ta_mac r = ta_mac s \<and> ta_recvKey r = ta_sendKey s \<and>
     (\<forall>k x. length (ta_mac s k x) = ta_size s) \<and> ahead (ta_send s) (ta_recv r)"

text \<open>What is wrapped, in closed form.\<close>

lemma auth_Wrap_eq:
  assumes wf: "wf_packet p" and mac: "\<And>k x. length (ta_mac w k x) = ta_size w" and nx: "sender_next (ta_send w) = (Inr pid, s')"
    and hd: "hd' = Header (Opcode p) (KeyID p) # SessionID p" and rs: "rs = be32 pid @ be32 (sd_time s') @ AppendBody [] p"
  shows "auth_Wrap w (Some p) = (Inr (hd' @ auth_mac w (ta_sendKey w) hd' rs @ rs), w\<lparr>ta_send := s'\<rparr>)"
proof -
  have lh: "length hd' = headLen" using wf by (simp add: hd wf_packet_def ctl_consts)
  let ?z = "replicate (ta_size w) 0 :: bytes"
  have b: "AppendBody ((hd' @ ?z) @ be32 pid @ be32 (sd_time s')) p = hd' @ ?z @ rs"
    by (subst AppendBody_append) (simp add: rs)
  have ap: "appendPID (ta_send w) ([Header (Opcode p) (KeyID p)] @ SessionID p @ ?z) = (Inr ((hd' @ ?z) @ be32 pid @ be32 (sd_time s')), s')"
    by (simp add: appendPID_eq nx hd)
  have m: "length (auth_mac w k h x) = ta_size w" for k h x by (simp add: auth_mac_def mac)
  have cut: "take headLen (hd' @ ?z @ rs) = hd'" "drop (headLen + ta_size w) (hd' @ ?z @ rs) = rs" using lh by simp_all
  have "take (length (hd' @ ?z @ rs) - headLen) (auth_mac w (ta_sendKey w) hd' rs) = auth_mac w (ta_sendKey w) hd' rs"
    using lh m by simp
  moreover have "copyInto (hd' @ ?z @ rs) headLen (auth_mac w (ta_sendKey w) hd' rs) = hd' @ auth_mac w (ta_sendKey w) hd' rs @ rs"
    using lh m by (simp add: copyInto_def)
  ultimately show ?thesis unfolding auth_Wrap_def checkPacket_wf [OF wf] sum.case Let_def ap prod.case b cut by simp
qed

lemma auth_Unwrap_eq:
  assumes wf: "wf_packet p" and mac: "\<And>k x. length (ta_mac w k x) = ta_size w"
    and hd: "hd' = Header (Opcode p) (KeyID p) # SessionID p" and rs: "rs = be32 pid @ be32 t @ AppendBody [] p"
  shows "auth_Unwrap w (hd' @ auth_mac w (ta_recvKey w) hd' rs @ rs) =
    (case ctl_accept (ta_recv w) (t, pid) of (True, r) \<Rightarrow> (Inr p, w\<lparr>ta_recv := r\<rparr>) | (False, r) \<Rightarrow> (Inl (Err CtlReplay), w\<lparr>ta_recv := r\<rparr>))"
proof -
  let ?m = "auth_mac w (ta_recvKey w) hd' rs"
  have lh: "length hd' = headLen" and sid: "drop 1 hd' = SessionID p" using wf by (simp_all add: hd wf_packet_def ctl_consts)
  have lm: "length ?m = ta_size w" by (simp add: auth_mac_def mac)
  have sp: "splitHead (hd' @ ?m @ rs) (headLen + ta_size w + pidLen) ''tls-auth'' = Inr (Opcode p, KeyID p)"
    by (rule splitHead_wf [OF wf, where rest = "SessionID p @ ?m @ rs"]) (use lh lm in \<open>simp_all add: hd rs ctl_consts\<close>)
  have cut: "take headLen (hd' @ ?m @ rs) = hd'" "take (ta_size w) (drop headLen (hd' @ ?m @ rs)) = ?m"
      "drop (headLen + ta_size w) (hd' @ ?m @ rs) = rs"
    using lh lm by simp_all
  have ids: "getU32 (drop 4 rs) = (Inr t :: (ctl_err, u32) res)" "getU32 rs = (Inr pid :: (ctl_err, u32) res)"
      "drop pidLen rs = AppendBody [] p"
    by (simp_all add: rs ctl_consts)
  show ?thesis
    unfolding auth_Unwrap_def Let_def sp sum.case prod.case cut ids sid parsePacket_wf [OF wf] by simp
qed

section \<open>Unwrapping is authentication and the replay window\<close>

text \<open>
  Both protected wrappers unwrap in the same way: a \<open>view\<close> of the packet that depends on the
  keys alone says whether it is authentic, under which time and id, and what packet it
  carries; then the window decides.
\<close>

type_synonym packet_view = "ctl_err fault + (u32 \<times> u32) \<times> (ctl_err, control_packet) res"

locale windowed_wrapper =
  fixes view :: "'w \<Rightarrow> bytes \<Rightarrow> packet_view" and get :: "'w \<Rightarrow> ctlWindow" and upd :: "'w \<Rightarrow> ctlWindow \<Rightarrow> 'w"
    and open_fn :: "'w unwrap_fn"
  assumes opens: "open_fn w b = (case view w b of Inl e \<Rightarrow> (Inl e, w)
      | Inr (tp, x) \<Rightarrow> (case ctl_accept (get w) tp of (False, r) \<Rightarrow> (Inl (Err CtlReplay), upd w r) | (True, r) \<Rightarrow> (x, upd w r)))"
    and laws: "get (upd w r) = r" "view (upd w r) b = view w b" "upd (upd w r) r' = upd w r'" "upd w (get w) = w"
    and bad: "view w b = Inl f \<Longrightarrow> f \<noteq> Panic \<and> f \<noteq> Err CtlReplay"
    and good: "view w b = Inr (tp, x) \<Longrightarrow> \<not> panics x \<and> (\<forall>e. x = Inl (Err e) \<longrightarrow> (\<exists>op e'. e = MalformedBody op e'))"
begin

definition window_ok :: "'w \<Rightarrow> bool" where
  "window_ok w \<longleftrightarrow> (\<exists>S. pairs_of S (get w))"

lemma accept_again:
  assumes "pairs_of S w" "ctl_accept w tp = (True, r)"
  shows "pairs_of (insert tp S) r" "ctl_accept r tp = (False, r)"
proof -
  show p: "pairs_of (insert tp S) r" using ctl_window.accepted [OF assms] ..
  obtain ok r' where a: "ctl_accept r tp = (ok, r')" by fastforce
  have "\<not> ok" using ctl_window.accepted [OF p, of tp r'] a by (cases ok) auto
  then show "ctl_accept r tp = (False, r)" using a ctl_window.refused [OF p, of tp r'] by simp
qed

lemma open_cases:
  assumes "window_ok w"
  obtains (unauthentic) e where "view w b = Inl (Err e)" "open_fn w b = (Inl (Err e), w)" "e \<noteq> CtlReplay"
  | (replayed) tp x where "view w b = Inr (tp, x)" "open_fn w b = (Inl (Err CtlReplay), w)"
  | (accepted) tp x r where "view w b = Inr (tp, x)" "ctl_accept (get w) tp = (True, r)" "open_fn w b = (x, upd w r)"
      "window_ok (upd w r)" "\<not> panics x" "open_fn (upd w r) b = (Inl (Err CtlReplay), upd w r)"
proof (cases "view w b")
  case (Inl f)
  then show ?thesis using bad [OF Inl] opens [of w b] unauthentic by (cases f) auto
next
  case (Inr y)
  obtain tp x where y: "view w b = Inr (tp, x)" using Inr by (cases y) auto
  obtain S where S: "pairs_of S (get w)" using assms by (auto simp: window_ok_def)
  show ?thesis
  proof (cases "ctl_accept (get w) tp")
    case (Pair ok r)
    show ?thesis
    proof (cases ok)
      case False
      then have "r = get w" using ctl_window.refused [OF S, of tp r] Pair by simp
      then show ?thesis using opens [of w b] y Pair False laws(4) replayed by simp
    next
      case True
      note A = accept_again [OF S, of tp r] 
      have a: "pairs_of (insert tp S) r" "ctl_accept r tp = (False, r)" using A Pair True by simp_all
      have "open_fn (upd w r) b = (Inl (Err CtlReplay), upd w r)" using y a(2) by (simp add: opens laws)
      moreover have "open_fn w b = (x, upd w r)" using y Pair True by (simp add: opens)
      ultimately show ?thesis using a(1) y Pair True good [OF y] by (intro accepted) (auto simp: window_ok_def laws)
    qed
  qed
qed

lemma open_once: "window_ok w \<Longrightarrow> open_fn w b = (Inr p, w') \<Longrightarrow> window_ok w' \<and> open_fn w' b = (Inl (Err CtlReplay), w')"
  by (erule open_cases [of w b]) auto

lemma open_failed: "window_ok w \<Longrightarrow> open_fn w b = (Inl (Err e), w') \<Longrightarrow> e = CtlAuth \<or> e = CtlReplay \<Longrightarrow> w' = w"
  by (erule open_cases [of w b]) (use good in fastforce)+

lemma open_safe:
  assumes "window_ok w" "open_fn w b = (x, w')"
  shows "\<not> panics x \<and> window_ok w'"
  by (rule open_cases [OF assms(1), of b]) (use assms in auto)

end

lemma parsePacket_result:
  "\<not> panics (parsePacket op keyID sid body) \<and>
   (\<forall>e. parsePacket op keyID sid body = Inl (Err e) \<longrightarrow> (\<exists>op e'. e = MalformedBody op e'))"
  using ParseBody_no_panic by (auto simp: parsePacket_def panics_def split: sum.splits fault.splits)

lemma splitHead_result: "splitHead b (Suc n) knd = Inl f \<Longrightarrow> f \<noteq> Panic \<and> f \<noteq> Err CtlReplay"
  by (auto simp: splitHead_def gidx_def glen_def split: if_splits prod.splits)

lemma getU32_result: "4 \<le> length d \<Longrightarrow> getU32 d = Inl f \<Longrightarrow> False"
  using getU32_total [of d] by (metis Inl_Inr_False)

definition auth_view :: "tlsAuth \<Rightarrow> bytes \<Rightarrow> packet_view" where
  "auth_view w b =
    (case splitHead b (headLen + ta_size w + pidLen) ''tls-auth'' of Inl e \<Rightarrow> Inl e | Inr (op, keyID) \<Rightarrow>
     let head = take headLen b; got = take (ta_size w) (drop headLen b); rest = drop (headLen + ta_size w) b
     in if got \<noteq> auth_mac w (ta_recvKey w) head rest then Inl (Err CtlAuth)
     else case getU32 (drop 4 rest) of Inl e \<Rightarrow> Inl e | Inr t \<Rightarrow>
     case getU32 rest of Inl e \<Rightarrow> Inl e | Inr pid \<Rightarrow> Inr ((t, pid), parsePacket op keyID (drop 1 head) (drop pidLen rest)))"

lemma splitHead_len: "splitHead b n knd = Inr x \<Longrightarrow> n \<le> length b"
  by (auto simp: splitHead_def split: if_splits)

interpretation auth_window: windowed_wrapper auth_view ta_recv "\<lambda>w r. w\<lparr>ta_recv := r\<rparr>" auth_Unwrap
proof
  fix w :: tlsAuth and b r r' f tp x
  show "auth_Unwrap w b = (case auth_view w b of Inl e \<Rightarrow> (Inl e, w)
      | Inr (tp, x) \<Rightarrow> (case ctl_accept (ta_recv w) tp of (False, r) \<Rightarrow> (Inl (Err CtlReplay), w\<lparr>ta_recv := r\<rparr>) | (True, r) \<Rightarrow> (x, w\<lparr>ta_recv := r\<rparr>)))"
    by (auto simp: auth_Unwrap_def auth_view_def Let_def split: sum.split prod.split bool.split)
  show "ta_recv (w\<lparr>ta_recv := r\<rparr>) = r" "w\<lparr>ta_recv := r, ta_recv := r'\<rparr> = w\<lparr>ta_recv := r'\<rparr>" "w\<lparr>ta_recv := ta_recv w\<rparr> = w" by simp_all
  show "auth_view (w\<lparr>ta_recv := r\<rparr>) b = auth_view w b"
    by (simp add: auth_view_def auth_mac_def split: sum.split prod.split)
  show "f \<noteq> Panic \<and> f \<noteq> Err CtlReplay" if "auth_view w b = Inl f"
  proof (cases "splitHead b (headLen + ta_size w + pidLen) ''tls-auth''")
    case (Inl e)
    then show ?thesis using that splitHead_result [of b "16 + ta_size w" "''tls-auth''"] by (simp add: auth_view_def ctl_consts)
  next
    case (Inr y)
    have "headLen + ta_size w + pidLen \<le> length b" by (rule splitHead_len [OF Inr])
    then have "\<exists>t. getU32 (drop 4 (drop (headLen + ta_size w) b)) = (Inr t :: (ctl_err, u32) res)"
        "\<exists>pid. getU32 (drop (headLen + ta_size w) b) = (Inr pid :: (ctl_err, u32) res)"
      by (intro getU32_total; simp add: ctl_consts)+
    then show ?thesis using that Inr by (auto simp: auth_view_def Let_def split: if_splits prod.splits)
  qed
  show "\<not> panics x \<and> (\<forall>e. x = Inl (Err e) \<longrightarrow> (\<exists>op e'. e = MalformedBody op e'))" if v: "auth_view w b = Inr (tp, x)"
  proof -
    have "\<exists>op k sid body. x = parsePacket op k sid body"
      using v by (auto simp: auth_view_def Let_def split: sum.splits prod.splits if_splits)
    then show ?thesis using parsePacket_result by auto
  qed
qed

interpretation auth_wrapper: authentic_wrapper auth_Wrap auth_Unwrap auth_linked
  "\<lambda>w n. senderRoom (ta_send w) n \<and> (\<forall>k x. length (ta_mac w k x) = ta_size w)" auth_window.window_ok
proof
  fix p s r b n s' r' e
  show "\<exists>b s'. auth_Wrap s (Some p) = (Inr b, s') \<and> senderRoom (ta_send s') n \<and> (\<forall>k x. length (ta_mac s' k x) = ta_size s')"
    if wf: "wf_packet p" and rm: "senderRoom (ta_send s) (Suc n) \<and> (\<forall>k x. length (ta_mac s k x) = ta_size s)"
  proof -
    obtain pid s2 where nx: "sender_next (ta_send s) = (Inr pid, s2)" "senderRoom s2 n" using sender_next_room rm by blast
    show ?thesis using auth_Wrap_eq [OF wf _ nx(1) refl refl] rm nx(2) by simp
  qed
  have wrapped: "\<exists>pid s2 hd' rs. sender_next (ta_send s) = (Inr pid, s2) \<and> s' = s\<lparr>ta_send := s2\<rparr> \<and>
      hd' = Header (Opcode p) (KeyID p) # SessionID p \<and> rs = be32 pid @ be32 (sd_time s2) @ AppendBody [] p \<and>
      b = hd' @ auth_mac s (ta_sendKey s) hd' rs @ rs"
    if "wf_packet p" "auth_linked s r" "auth_Wrap s (Some p) = (Inr b, s')"
  proof -
    obtain y s2 where nx: "sender_next (ta_send s) = (y, s2)" by fastforce
    have "\<exists>pid. y = Inr pid"
      using that(1,3) nx by (cases y) (auto simp: auth_Wrap_def checkPacket_wf appendPID_eq Let_def)
    then show ?thesis using that(2,3) auth_Wrap_eq [OF that(1) _ _ refl refl] nx unfolding auth_linked_def by auto
  qed
  show "\<exists>r'. auth_Unwrap r b = (Inr p, r') \<and> auth_linked s' r'"
    if l: "auth_linked s r" and wf: "wf_packet p" and w: "auth_Wrap s (Some p) = (Inr b, s')"
  proof -
    obtain pid s2 hd' rs where W: "sender_next (ta_send s) = (Inr pid, s2)" "s' = s\<lparr>ta_send := s2\<rparr>"
      "hd' = Header (Opcode p) (KeyID p) # SessionID p" "rs = be32 pid @ be32 (sd_time s2) @ AppendBody [] p"
      "b = hd' @ auth_mac s (ta_sendKey s) hd' rs @ rs"
      using wrapped [OF wf l w] by blast
    have same: "auth_mac s (ta_sendKey s) h x = auth_mac r (ta_recvKey r) h x" for h x
      using l by (simp add: auth_linked_def auth_mac_def)
    have mac: "\<And>k x. length (ta_mac r k x) = ta_size r" using l by (simp add: auth_linked_def)
    have ah: "ahead (ta_send s) (ta_recv r)" using l by (simp add: auth_linked_def)
    obtain w' where a: "ctl_accept (ta_recv r) (sd_time s2, pid) = (True, w')" "ahead s2 w'"
      using sender_next_ahead [OF W(1) ah] by auto
    show ?thesis
      using auth_Unwrap_eq [OF wf mac W(3,4)] a l unfolding W(2,5) same by (simp add: auth_linked_def)
  qed
  show "auth_linked s' r" if l: "auth_linked s r" and w: "auth_Wrap s (Some p) = (Inr b, s')"
  proof -
    obtain y s2 where nx: "sender_next (ta_send s) = (y, s2)" by fastforce
    obtain pid where "y = Inr pid" "s' = s\<lparr>ta_send := s2\<rparr>"
      using w nx by (cases y) (auto simp: auth_Wrap_def appendPID_eq Let_def split: sum.splits)
    then show ?thesis using l sender_next_ahead(1) [of "ta_send s" pid s2 "ta_recv r"] nx by (simp add: auth_linked_def)
  qed
  show "auth_window.window_ok r' \<and> auth_Unwrap r' b = (Inl (Err CtlReplay), r')"
    if "auth_window.window_ok r" "auth_Unwrap r b = (Inr p, r')"
    using that by (rule auth_window.open_once)
  show "r' = r" if "auth_window.window_ok r" "auth_Unwrap r b = (Inl (Err e), r')" "e = CtlAuth \<or> e = CtlReplay"
    using that by (rule auth_window.open_failed)
qed

section \<open>tls-crypt\<close>

definition crypt_linked :: "tlsCrypt \<Rightarrow> tlsCrypt \<Rightarrow> bool" where
  "crypt_linked s r \<longleftrightarrow> tc_hash r = tc_hash s \<and> tc_recvMAC r = tc_sendMAC s \<and>
     (\<forall>iv x. length (tc_sendCTR s iv x) = length x \<and> tc_recvCTR r iv (tc_sendCTR s iv x) = x) \<and>
     (\<forall>k x. length (tc_hash s k x) = 32) \<and> ahead (tc_send s) (tc_recv r)"

definition wkcOf :: "tlsCrypt \<Rightarrow> control_packet \<Rightarrow> bytes" where
  "wkcOf w p = (case tc_wkc w of Some k \<Rightarrow> if carriesWKc (Opcode p) then k else [] | None \<Rightarrow> [])"

definition cryptBytes :: "tlsCrypt \<Rightarrow> control_packet \<Rightarrow> u32 \<Rightarrow> u32 \<Rightarrow> bytes" where
  "cryptBytes w p pid t =
    (let hd' = Header (Opcode p) (KeyID p) # SessionID p @ be32 pid @ be32 t;
         tg = crypt_tag w (tc_sendMAC w) hd' (AppendBody [] p)
     in hd' @ tg @ tc_sendCTR w (take aesBlock tg) (AppendBody [] p))"

lemma crypt_Wrap_eq:
  assumes wf: "wf_packet p" and mac: "\<And>k x. length (tc_hash w k x) = 32" and nx: "sender_next (tc_send w) = (Inr pid, s')"
  shows "crypt_Wrap w (Some p) = (Inr (cryptBytes w p pid (sd_time s') @ wkcOf w p), w\<lparr>tc_send := s'\<rparr>)"
proof -
  define hd' where "hd' = Header (Opcode p) (KeyID p) # SessionID p @ be32 pid @ be32 (sd_time s')"
  let ?z = "replicate cryptTag 0 :: bytes" and ?B = "AppendBody [] p"
  define tg where "tg = crypt_tag w (tc_sendMAC w) hd' ?B"
  have lh: "length hd' = cryptHead" using wf by (simp add: hd'_def wf_packet_def ctl_consts)
  have lt: "length tg = cryptTag" by (simp add: tg_def crypt_tag_def mac ctl_consts)
  have ap: "appendPID (tc_send w) ([Header (Opcode p) (KeyID p)] @ SessionID p) = (Inr hd', s')"
    by (simp add: appendPID_eq nx hd'_def)
  have b: "AppendBody (hd' @ ?z) p = hd' @ ?z @ ?B" by (subst AppendBody_append) simp
  have cut: "drop (cryptHead + cryptTag) (hd' @ ?z @ ?B) = ?B" "take cryptHead (hd' @ ?z @ ?B) = hd'" using lh by simp_all
  have t: "take (length (hd' @ ?z @ ?B) - cryptHead) tg = tg" using lh lt by simp
  have c: "copyInto (hd' @ ?z @ ?B) cryptHead tg = hd' @ tg @ ?B" using lh lt by (simp add: copyInto_def)
  have u: "take (cryptHead + cryptTag) (hd' @ tg @ ?B) = hd' @ tg" using lh lt by simp
  have cb: "cryptBytes w p pid (sd_time s') = hd' @ tg @ tc_sendCTR w (take aesBlock tg) ?B"
    by (simp add: cryptBytes_def Let_def hd'_def [symmetric] tg_def)
  show ?thesis
    unfolding crypt_Wrap_def checkPacket_wf [OF wf] sum.case Let_def ap prod.case b cut
    unfolding tg_def [symmetric] t c u cb wkcOf_def by simp
qed

lemma crypt_Unwrap_eq:
  assumes wf: "wf_packet p" and mac: "\<And>k x. length (tc_hash s k x) = 32" and h: "tc_hash r = tc_hash s" "tc_recvMAC r = tc_sendMAC s"
    and ctr: "\<And>iv x. tc_recvCTR r iv (tc_sendCTR s iv x) = x"
  shows "crypt_Unwrap r (cryptBytes s p pid t) =
    (case ctl_accept (tc_recv r) (t, pid) of (True, w) \<Rightarrow> (Inr p, r\<lparr>tc_recv := w\<rparr>) | (False, w) \<Rightarrow> (Inl (Err CtlReplay), r\<lparr>tc_recv := w\<rparr>))"
proof -
  define hd' where "hd' = Header (Opcode p) (KeyID p) # SessionID p @ be32 pid @ be32 t"
  let ?B = "AppendBody [] p"
  define tg where "tg = crypt_tag s (tc_sendMAC s) hd' ?B"
  define ct where "ct = tc_sendCTR s (take aesBlock tg) ?B"
  have cb: "cryptBytes s p pid t = hd' @ tg @ ct"
    by (simp add: cryptBytes_def Let_def hd'_def [symmetric] tg_def ct_def)
  have lh: "length hd' = cryptHead" using wf by (simp add: hd'_def wf_packet_def ctl_consts)
  have lt: "length tg = cryptTag" by (simp add: tg_def crypt_tag_def mac ctl_consts)
  have sp: "splitHead (hd' @ tg @ ct) (cryptHead + cryptTag) ''tls-crypt'' = Inr (Opcode p, KeyID p)"
    by (rule splitHead_wf [OF wf, where rest = "(SessionID p @ be32 pid @ be32 t) @ tg @ ct"]) (use lh lt in \<open>simp_all add: hd'_def\<close>)
  have cut: "take cryptHead (hd' @ tg @ ct) = hd'" "take cryptTag (drop cryptHead (hd' @ tg @ ct)) = tg"
      "drop (cryptHead + cryptTag) (hd' @ tg @ ct) = ct"
    using lh lt by simp_all
  have sid: "length (SessionID p) = 8" using wf by (simp add: wf_packet_def)
  have ids: "getU32 (drop (headLen + 4) hd') = (Inr t :: (ctl_err, u32) res)" "getU32 (drop headLen hd') = (Inr pid :: (ctl_err, u32) res)"
      "take 8 (drop 1 hd') = SessionID p"
    using sid by (simp_all add: hd'_def ctl_consts)
  have dec: "tc_recvCTR r (take aesBlock tg) ct = ?B" by (simp add: ct_def ctr)
  have same: "crypt_tag r (tc_recvMAC r) hd' ?B = tg" by (simp add: tg_def crypt_tag_def h)
  show ?thesis
    unfolding cb crypt_Unwrap_def sp sum.case prod.case Let_def cut dec same ids parsePacket_wf [OF wf] by simp
qed

definition crypt_view :: "tlsCrypt \<Rightarrow> bytes \<Rightarrow> packet_view" where
  "crypt_view w b =
    (case splitHead b (cryptHead + cryptTag) ''tls-crypt'' of Inl e \<Rightarrow> Inl e | Inr (op, keyID) \<Rightarrow>
     let clearPart = take cryptHead b; got = take cryptTag (drop cryptHead b); ct = drop (cryptHead + cryptTag) b;
         body = tc_recvCTR w (take aesBlock got) ct
     in if got \<noteq> crypt_tag w (tc_recvMAC w) clearPart body then Inl (Err CtlAuth)
     else case getU32 (drop (headLen + 4) clearPart) of Inl e \<Rightarrow> Inl e | Inr t \<Rightarrow>
     case getU32 (drop headLen clearPart) of Inl e \<Rightarrow> Inl e | Inr pid \<Rightarrow>
     Inr ((t, pid), parsePacket op keyID (take 8 (drop 1 clearPart)) body))"

interpretation crypt_window: windowed_wrapper crypt_view tc_recv "\<lambda>w r. w\<lparr>tc_recv := r\<rparr>" crypt_Unwrap
proof
  fix w :: tlsCrypt and b r r' f tp x
  show "crypt_Unwrap w b = (case crypt_view w b of Inl e \<Rightarrow> (Inl e, w)
      | Inr (tp, x) \<Rightarrow> (case ctl_accept (tc_recv w) tp of (False, r) \<Rightarrow> (Inl (Err CtlReplay), w\<lparr>tc_recv := r\<rparr>) | (True, r) \<Rightarrow> (x, w\<lparr>tc_recv := r\<rparr>)))"
    by (auto simp: crypt_Unwrap_def crypt_view_def Let_def split: sum.split prod.split bool.split)
  show "tc_recv (w\<lparr>tc_recv := r\<rparr>) = r" "w\<lparr>tc_recv := r, tc_recv := r'\<rparr> = w\<lparr>tc_recv := r'\<rparr>" "w\<lparr>tc_recv := tc_recv w\<rparr> = w" by simp_all
  show "crypt_view (w\<lparr>tc_recv := r\<rparr>) b = crypt_view w b"
    by (simp add: crypt_view_def crypt_tag_def split: sum.split prod.split)
  show "f \<noteq> Panic \<and> f \<noteq> Err CtlReplay" if "crypt_view w b = Inl f"
  proof (cases "splitHead b (cryptHead + cryptTag) ''tls-crypt''")
    case (Inl e)
    then show ?thesis using that splitHead_result [of b 48 "''tls-crypt''"] by (simp add: crypt_view_def ctl_consts)
  next
    case (Inr y)
    have "cryptHead + cryptTag \<le> length b" by (rule splitHead_len [OF Inr])
    then have "\<exists>t. getU32 (drop (headLen + 4) (take cryptHead b)) = (Inr t :: (ctl_err, u32) res)"
        "\<exists>pid. getU32 (drop headLen (take cryptHead b)) = (Inr pid :: (ctl_err, u32) res)"
      by (intro getU32_total; simp add: ctl_consts)+
    then show ?thesis using that Inr by (auto simp: crypt_view_def Let_def split: if_splits prod.splits)
  qed
  show "\<not> panics x \<and> (\<forall>e. x = Inl (Err e) \<longrightarrow> (\<exists>op e'. e = MalformedBody op e'))" if v: "crypt_view w b = Inr (tp, x)"
  proof -
    have "\<exists>op k sid body. x = parsePacket op k sid body"
      using v by (auto simp: crypt_view_def Let_def split: sum.splits prod.splits if_splits)
    then show ?thesis using parsePacket_result by auto
  qed
qed

text \<open>What \<open>Wrap\<close> did when it succeeded.\<close>

lemma crypt_Wrap_Inr:
  assumes "crypt_Wrap s (Some p) = (Inr b, s')"
  shows "\<exists>pid s2. sender_next (tc_send s) = (Inr pid, s2) \<and> s' = s\<lparr>tc_send := s2\<rparr>"
proof -
  obtain y s2 where nx: "sender_next (tc_send s) = (y, s2)" by fastforce
  show ?thesis using assms nx by (cases y) (auto simp: crypt_Wrap_def appendPID_eq Let_def split: sum.splits)
qed

lemma crypt_linked_sent:
  assumes "crypt_linked s r" "crypt_Wrap s (Some p) = (Inr b, s')"
  shows "crypt_linked s' r"
proof -
  obtain pid s2 where "sender_next (tc_send s) = (Inr pid, s2)" "s' = s\<lparr>tc_send := s2\<rparr>" using crypt_Wrap_Inr [OF assms(2)] by blast
  then show ?thesis using assms(1) sender_next_ahead(1) [of "tc_send s" pid s2 "tc_recv r"] by (simp add: crypt_linked_def)
qed

lemma crypt_linked_arrives:
  assumes l: "crypt_linked s r" and wf: "wf_packet p" and w: "crypt_Wrap s (Some p) = (Inr b, s')"
  shows "\<exists>b' r'. b = b' @ wkcOf s p \<and> crypt_Unwrap r b' = (Inr p, r') \<and> crypt_linked s' r' \<and> 49 \<le> length b' \<and>
    take 1 b' = [Header (Opcode p) (KeyID p)]"
proof -
  obtain pid s2 where W: "sender_next (tc_send s) = (Inr pid, s2)" "s' = s\<lparr>tc_send := s2\<rparr>" using crypt_Wrap_Inr [OF w] by blast
  have L: "tc_hash r = tc_hash s" "tc_recvMAC r = tc_sendMAC s" "\<And>k x. length (tc_hash s k x) = 32" "\<And>iv x. length (tc_sendCTR s iv x) = length x"
      "\<And>iv x. tc_recvCTR r iv (tc_sendCTR s iv x) = x" "ahead (tc_send s) (tc_recv r)"
    using l by (simp_all add: crypt_linked_def)
  have b: "b = cryptBytes s p pid (sd_time s2) @ wkcOf s p" using crypt_Wrap_eq [OF wf L(3) W(1)] w by simp
  obtain w' where a: "ctl_accept (tc_recv r) (sd_time s2, pid) = (True, w')" "ahead s2 w'"
    using sender_next_ahead [OF W(1) L(6)] by auto
  have "crypt_Unwrap r (cryptBytes s p pid (sd_time s2)) = (Inr p, r\<lparr>tc_recv := w'\<rparr>)"
    using crypt_Unwrap_eq [OF wf L(3,1,2,5)] a(1) by simp
  moreover have "crypt_linked s' (r\<lparr>tc_recv := w'\<rparr>)" using l a(2) by (simp add: crypt_linked_def W(2))
  moreover have "49 \<le> length (cryptBytes s p pid (sd_time s2))" "take 1 (cryptBytes s p pid (sd_time s2)) = [Header (Opcode p) (KeyID p)]"
    using wf L(3) by (simp_all add: cryptBytes_def Let_def crypt_tag_def wf_packet_def)
  ultimately show ?thesis using b by blast
qed

interpretation crypt_wrapper: authentic_wrapper crypt_Wrap crypt_Unwrap "\<lambda>s r. crypt_linked s r \<and> tc_wkc s = None"
  "\<lambda>w n. senderRoom (tc_send w) n \<and> (\<forall>k x. length (tc_hash w k x) = 32)" crypt_window.window_ok
proof
  fix p s r b n s' r' e
  show "\<exists>b s'. crypt_Wrap s (Some p) = (Inr b, s') \<and> senderRoom (tc_send s') n \<and> (\<forall>k x. length (tc_hash s' k x) = 32)"
    if wf: "wf_packet p" and rm: "senderRoom (tc_send s) (Suc n) \<and> (\<forall>k x. length (tc_hash s k x) = 32)"
  proof -
    obtain pid s2 where nx: "sender_next (tc_send s) = (Inr pid, s2)" "senderRoom s2 n" using sender_next_room rm by blast
    show ?thesis using crypt_Wrap_eq [OF wf _ nx(1)] rm nx(2) by simp
  qed
  show "\<exists>r'. crypt_Unwrap r b = (Inr p, r') \<and> crypt_linked s' r' \<and> tc_wkc s' = None"
    if l: "crypt_linked s r \<and> tc_wkc s = None" and wf: "wf_packet p" and w: "crypt_Wrap s (Some p) = (Inr b, s')"
    using crypt_linked_arrives [OF _ wf w, of r] crypt_Wrap_Inr [OF w] l by (auto simp: wkcOf_def)
  show "crypt_linked s' r \<and> tc_wkc s' = None" if "crypt_linked s r \<and> tc_wkc s = None" "crypt_Wrap s (Some p) = (Inr b, s')"
    using crypt_linked_sent that crypt_Wrap_Inr by fastforce
  show "crypt_window.window_ok r' \<and> crypt_Unwrap r' b = (Inl (Err CtlReplay), r')"
    if "crypt_window.window_ok r" "crypt_Unwrap r b = (Inr p, r')"
    using that by (rule crypt_window.open_once)
  show "r' = r" if "crypt_window.window_ok r" "crypt_Unwrap r b = (Inl (Err e), r')" "e = CtlAuth \<or> e = CtlReplay"
    using that by (rule crypt_window.open_failed)
qed

end
