(* ===== verification/Ctlwrap_Sessions.thy ===== *)
theory Ctlwrap_Sessions
  imports Ctlwrap_Packets
begin

text \<open>
  The wrappers as the constructors make them from one static key at both ends: every packet that
  arrives is what was wrapped (C27), and over any sequence of packets from the network nothing
  is accepted twice and nothing panics (C28).

  What the parameters promise: a keyed hash has the size of its digest; AES takes keys of 32 bytes, and
  counter mode under one key and initialisation vector keeps lengths and undoes itself.
\<close>

section \<open>The primitives\<close>

definition hmac_sizes :: "hmac_fn \<Rightarrow> bool" where
  "hmac_sizes hmac \<longleftrightarrow> list_all (\<lambda>(name, sz). \<forall>k x. length (hmac name k x) = sz) ctl_digests"

definition ctr_inverts :: "ctr_fn \<Rightarrow> bool" where
  "ctr_inverts ctr \<longleftrightarrow> (\<forall>k. length k = 32 \<longrightarrow>
     (\<exists>c. ctr k = Some c \<and> (\<forall>iv x. length (c iv x) = length x \<and> c iv (c iv x) = x)))"

lemma hmac_sizesD:
  assumes "hmac_sizes hmac"
  shows "length (hmac ''SHA256'' k x) = 32" "lookupDigest d = Some (name, sz) \<Longrightarrow> length (hmac name k x) = sz"
proof -
  show "length (hmac ''SHA256'' k x) = 32" using assms by (simp add: hmac_sizes_def ctl_digests_def)
  assume "lookupDigest d = Some (name, sz)"
  then have "(name, sz) \<in> set ctl_digests" by (auto simp: lookupDigest_def lookup_def Let_def dest: map_of_SomeD split: option.splits)
  then show "length (hmac name k x) = sz" using assms by (auto simp: hmac_sizes_def list_all_iff)
qed

lemma ctr_invertsD:
  assumes "ctr_inverts ctr" "length k = 32"
  obtains c where "ctr k = Some c" "\<And>iv x. length (c iv x) = length x" "\<And>iv x. c iv (c iv x) = x"
  using assms unfolding ctr_inverts_def by blast

section \<open>Two ends of one key\<close>

definition opposite :: "direction \<Rightarrow> direction" where
  "opposite dir = (if dir = Normal then Inverse else if dir = Inverse then Normal else dir)"

lemma Parts_opposite:
  assumes "Parts k dir = Some ps" "Parts k (opposite dir) = Some qs"
  shows "sendHMAC ps = recvHMAC qs" "sendCipher ps = recvCipher qs" "recvHMAC ps = sendHMAC qs" "recvCipher ps = sendCipher qs"
  using assms by (auto simp: Parts_def opposite_def direction_defs Let_def split: if_splits)

lemma Parts_lengths:
  assumes "Parts k dir = Some ps" "length k = 256"
  shows "length (sendCipher ps) = 64" "length (recvCipher ps) = 64" "length (sendHMAC ps) = 64" "length (recvHMAC ps) = 64"
  using assms by (auto simp: Parts_def Let_def split: if_splits)

lemma ahead_new: "ahead (newSender t) newCtlWindow"
  by (simp add: ahead_def newSender_def newCtlWindow_def)

lemma senderRoom_new: "senderRoom (newSender t) n \<longleftrightarrow> n < 2 ^ 32"
  by (simp add: senderRoom_def newSender_def)

lemma NewTLSAuth_made:
  assumes "NewTLSAuth hmac t (Some k) dir digest = Inr w"
  obtains name sz ps where "lookupDigest digest = Some (name, sz)" "Parts k dir = Some ps"
    "w = \<lparr>ta_size = sz, ta_mac = hmac name, ta_sendKey = take sz (sendHMAC ps), ta_recvKey = take sz (recvHMAC ps),
          ta_send = newSender t, ta_recv = newCtlWindow\<rparr>"
  using assms by (auto simp: NewTLSAuth_def split: option.splits)

lemma auth_ends_linked:
  assumes h: "hmac_sizes hmac" and s: "NewTLSAuth hmac t (Some k) dir digest = Inr s"
    and r: "NewTLSAuth hmac t' (Some k) (opposite dir) digest = Inr r"
  shows "auth_linked s r" "n < 2 ^ 32 \<Longrightarrow> senderRoom (ta_send s) n" "\<forall>k x. length (ta_mac s k x) = ta_size s"
proof -
  obtain name sz ps where S: "lookupDigest digest = Some (name, sz)" "Parts k dir = Some ps"
    "s = \<lparr>ta_size = sz, ta_mac = hmac name, ta_sendKey = take sz (sendHMAC ps), ta_recvKey = take sz (recvHMAC ps),
          ta_send = newSender t, ta_recv = newCtlWindow\<rparr>" by (rule NewTLSAuth_made [OF s])
  obtain name' sz' qs where R: "lookupDigest digest = Some (name', sz')" "Parts k (opposite dir) = Some qs"
    "r = \<lparr>ta_size = sz', ta_mac = hmac name', ta_sendKey = take sz' (sendHMAC qs), ta_recvKey = take sz' (recvHMAC qs),
          ta_send = newSender t', ta_recv = newCtlWindow\<rparr>" by (rule NewTLSAuth_made [OF r])
  note P = Parts_opposite [OF S(2) R(2)]
  show "auth_linked s r" "n < 2 ^ 32 \<Longrightarrow> senderRoom (ta_send s) n" "\<forall>k x. length (ta_mac s k x) = ta_size s"
    using S R P hmac_sizesD(2) [OF h S(1)] by (simp_all add: auth_linked_def ahead_new senderRoom_new)
qed

lemma newTLSCrypt_made:
  assumes "newTLSCrypt hmac ctr t (Some k) client wkc = Inr w"
  obtains ps se re where "Parts k (if client then Inverse else Normal) = Some ps"
    "ctr (take 32 (sendCipher ps)) = Some se" "ctr (take 32 (recvCipher ps)) = Some re"
    "w = \<lparr>tc_sendCTR = se, tc_recvCTR = re, tc_hash = hmac ''SHA256'', tc_sendMAC = take 32 (sendHMAC ps),
          tc_recvMAC = take 32 (recvHMAC ps), tc_send = newSender t, tc_recv = newCtlWindow, tc_wkc = wkc\<rparr>"
  using assms by (auto simp: newTLSCrypt_def Let_def split: option.splits)

lemma crypt_ends_linked:
  assumes h: "hmac_sizes hmac" and c: "ctr_inverts ctr" and k: "length k = 256"
    and s: "newTLSCrypt hmac ctr t (Some k) client wkc = Inr s" and r: "newTLSCrypt hmac ctr t' (Some k) (\<not> client) wkc' = Inr r"
  shows "crypt_linked s r" "n < 2 ^ 32 \<Longrightarrow> senderRoom (tc_send s) n" "\<forall>k x. length (tc_hash s k x) = 32" "tc_wkc s = wkc"
proof -
  let ?d = "if client then Inverse else Normal"
  obtain ps se re where S: "Parts k ?d = Some ps" "ctr (take 32 (sendCipher ps)) = Some se"
    "s = \<lparr>tc_sendCTR = se, tc_recvCTR = re, tc_hash = hmac ''SHA256'', tc_sendMAC = take 32 (sendHMAC ps),
          tc_recvMAC = take 32 (recvHMAC ps), tc_send = newSender t, tc_recv = newCtlWindow, tc_wkc = wkc\<rparr>"
    by (rule newTLSCrypt_made [OF s]) blast
  obtain qs se' re' where R: "Parts k (if \<not> client then Inverse else Normal) = Some qs" "ctr (take 32 (recvCipher qs)) = Some re'"
    "r = \<lparr>tc_sendCTR = se', tc_recvCTR = re', tc_hash = hmac ''SHA256'', tc_sendMAC = take 32 (sendHMAC qs),
          tc_recvMAC = take 32 (recvHMAC qs), tc_send = newSender t', tc_recv = newCtlWindow, tc_wkc = wkc'\<rparr>"
    by (rule newTLSCrypt_made [OF r]) blast
  have o: "opposite ?d = (if \<not> client then Inverse else Normal)" by (simp add: opposite_def direction_defs)
  note P = Parts_opposite [OF S(1), unfolded o, OF R(1)]
  have "re' = se" using P(2) S(2) R(2) by simp
  moreover obtain c where "ctr (take 32 (sendCipher ps)) = Some c" "\<And>iv x. length (c iv x) = length x" "\<And>iv x. c iv (c iv x) = x"
    by (rule ctr_invertsD [OF assms(2), of "take 32 (sendCipher ps)"]) (use Parts_lengths [OF S(1) k] in auto)
  ultimately show "crypt_linked s r" "n < 2 ^ 32 \<Longrightarrow> senderRoom (tc_send s) n" "\<forall>k x. length (tc_hash s k x) = 32" "tc_wkc s = wkc"
    using S R P hmac_sizesD(1) [OF h] by (simp_all add: crypt_linked_def ahead_new senderRoom_new)
qed

text \<open>Which ends can be made at all.\<close>

lemma newTLSCrypt_total:
  assumes "ctr_inverts ctr" "length k = 256"
  shows "\<exists>w. newTLSCrypt hmac ctr t (Some k) client wkc = Inr w"
proof -
  have "Parts k (if client then Inverse else Normal) \<noteq> None" by (simp add: Parts_def direction_defs Let_def)
  then obtain ps where p: "Parts k (if client then Inverse else Normal) = Some ps" by blast
  note L = Parts_lengths [OF p assms(2)]
  obtain c where "ctr (take 32 (sendCipher ps)) = Some c" by (rule ctr_invertsD [OF assms(1), of "take 32 (sendCipher ps)"]) (use L in auto)
  moreover obtain c' where "ctr (take 32 (recvCipher ps)) = Some c'" by (rule ctr_invertsD [OF assms(1), of "take 32 (recvCipher ps)"]) (use L in auto)
  ultimately show ?thesis using p by (simp add: newTLSCrypt_def Let_def)
qed

definition arrived :: "(control_packet \<times> bool) list \<Rightarrow> (ctl_err, control_packet) res list" where
  "arrived ps = map (\<lambda>(p, _). Inr p) (filter (\<lambda>(_, lost). \<not> lost) ps)"

text \<open>
  Claim C27. Control packets survive their protection. Two ends made from one static key of 256 bytes
  (tls-auth with opposite key directions and the same digest, tls-crypt as client and server;
  their clocks may differ), and two plain ends: for any sequence of fewer than \<open>2^32\<close>
  packets, of which the network loses any, the receiver unwraps every one that arrives to exactly the
  packet the sender wrapped.
\<close>

theorem wrapped_packets_arrive:
  assumes h: "hmac_sizes hmac" and c: "ctr_inverts ctr" and k: "length k = 256"
    and a: "NewTLSAuth hmac t (Some k) dir digest = Inr sa" "NewTLSAuth hmac t' (Some k) (opposite dir) digest = Inr ra"
    and b: "NewTLSCrypt hmac ctr t (Some k) client = Inr sc" "NewTLSCrypt hmac ctr t' (Some k) (\<not> client) = Inr rc"
    and n: "length ps < 2 ^ 32" and wf: "list_all (\<lambda>(p, _). wf_packet p) ps"
  shows "transfer (\<lambda>s p. (plain_Wrap p, s)) (\<lambda>r b. (plain_Unwrap b, r)) () () ps = arrived ps \<and>
    transfer auth_Wrap auth_Unwrap sa ra ps = arrived ps \<and>
    transfer crypt_Wrap crypt_Unwrap sc rc ps = arrived ps"
proof (intro conjI)
  note A = auth_ends_linked [OF h a] and B = crypt_ends_linked [OF h c k b [unfolded NewTLSCrypt_def]]
  show "transfer (\<lambda>s p. (plain_Wrap p, s)) (\<lambda>r b. (plain_Unwrap b, r)) () () ps = arrived ps"
    unfolding arrived_def by (rule plain_wrapper.transfer_delivers) (simp_all add: wf)
  show "transfer auth_Wrap auth_Unwrap sa ra ps = arrived ps"
    unfolding arrived_def by (rule auth_wrapper.transfer_delivers) (use A n wf in auto)
  show "transfer crypt_Wrap crypt_Unwrap sc rc ps = arrived ps"
    unfolding arrived_def by (rule crypt_wrapper.transfer_delivers) (use B n wf in auto)
qed

text \<open>Primitives that keep the promises.\<close>

definition demoMac :: hmac_fn where
  "demoMac name k x = replicate (case map_of ctl_digests name of Some n \<Rightarrow> n | None \<Rightarrow> 0) (sum_list k + sum_list x)"

definition demoCTR :: ctr_fn where
  "demoCTR k = (if length k = 32 then Some (\<lambda>iv x. map (\<lambda>b. b XOR (sum_list k + sum_list iv)) x) else None)"

lemma demo_primitives: "hmac_sizes demoMac" "ctr_inverts demoCTR"
  by (simp_all add: hmac_sizes_def demoMac_def ctl_digests_def ctr_inverts_def demoCTR_def comp_def xor.assoc)

definition demoKey :: staticKey where "demoKey = replicate 192 7 @ replicate 64 9"

definition demoReset :: control_packet where
  "demoReset = \<lparr>Opcode = ControlHardResetClientV2, KeyID = 0, SessionID = [1, 2, 3, 4, 5, 6, 7, 8], Acks = [],
     RemoteSessionID = zeroSessionID, PacketID = 0, Payload = []\<rparr>"

lemma demoReset_wf: "wf_packet demoReset" by code_simp

theorem wrapped_packets_arrive_witness:
  "\<exists>sa ra sc rc. NewTLSAuth demoMac 5 (Some demoKey) Normal ''sha256'' = Inr sa \<and> NewTLSAuth demoMac 9 (Some demoKey) Inverse ''sha256'' = Inr ra \<and>
     NewTLSCrypt demoMac demoCTR 5 (Some demoKey) True = Inr sc \<and> NewTLSCrypt demoMac demoCTR 9 (Some demoKey) False = Inr rc \<and>
     transfer auth_Wrap auth_Unwrap sa ra [(demoReset, True), (demoReset, False)] = [Inr demoReset] \<and>
     transfer crypt_Wrap crypt_Unwrap sc rc [(demoReset, True), (demoReset, False)] = [Inr demoReset]"
proof -
  have k: "length demoKey = 256" by (simp add: demoKey_def)
  have d: "lookupDigest ''sha256'' = Some (''SHA256'', 32)" by code_simp
  obtain sa where sa: "NewTLSAuth demoMac 5 (Some demoKey) Normal ''sha256'' = Inr sa"
    using d by (auto simp: NewTLSAuth_def Parts_def direction_defs Let_def)
  have o: "opposite Normal = Inverse" by (simp add: opposite_def)
  obtain ra where ra: "NewTLSAuth demoMac 9 (Some demoKey) Inverse ''sha256'' = Inr ra"
    using d by (auto simp: NewTLSAuth_def Parts_def direction_defs Let_def)
  obtain sc where sc: "NewTLSCrypt demoMac demoCTR 5 (Some demoKey) True = Inr sc"
    using newTLSCrypt_total [OF demo_primitives(2) k] unfolding NewTLSCrypt_def by blast
  obtain rc where rc: "NewTLSCrypt demoMac demoCTR 9 (Some demoKey) False = Inr rc"
    using newTLSCrypt_total [OF demo_primitives(2) k] unfolding NewTLSCrypt_def by blast
  have "transfer auth_Wrap auth_Unwrap sa ra [(demoReset, True), (demoReset, False)] = arrived [(demoReset, True), (demoReset, False)] \<and>
      transfer crypt_Wrap crypt_Unwrap sc rc [(demoReset, True), (demoReset, False)] = arrived [(demoReset, True), (demoReset, False)]"
    using wrapped_packets_arrive [OF demo_primitives k sa ra [folded o] sc, of rc "[(demoReset, True), (demoReset, False)]"] rc demoReset_wf by (simp del: transfer.simps)
  then show ?thesis using sa ra sc rc by (simp add: arrived_def)
qed

section \<open>What the network can do\<close>

fun unwrapAll :: "'r unwrap_fn \<Rightarrow> 'r \<Rightarrow> bytes list \<Rightarrow> (ctl_err, control_packet) res list \<times> 'r" where
  "unwrapAll unwrap r [] = ([], r)"
| "unwrapAll unwrap r (b # bs) =
    (case unwrap r b of (x, r) \<Rightarrow> case unwrapAll unwrap r bs of (xs, r) \<Rightarrow> (x # xs, r))"

text \<open>The packets that were accepted.\<close>

definition acceptedOf :: "bytes list \<Rightarrow> (ctl_err, control_packet) res list \<Rightarrow> bytes list" where
  "acceptedOf bs xs = map fst (filter (\<lambda>(b, x). \<not> isl x) (zip bs xs))"

lemma acceptedOf_Cons [simp]:
  "acceptedOf (b # bs) (Inr p # xs) = b # acceptedOf bs xs" "acceptedOf (b # bs) (Inl e # xs) = acceptedOf bs xs"
  by (simp_all add: acceptedOf_def)

context windowed_wrapper
begin

text \<open>An authentic packet whose id the window has seen is refused for ever.\<close>

lemma seen_refused:
  assumes "pairs_of S (get w)" "unwrapAll open_fn w bs = (xs, w')" "view w b = Inr (tp, x)" "tp \<in> S"
  shows "b \<notin> set (acceptedOf bs xs)"
  using assms
proof (induction bs arbitrary: w S xs)
  case Nil
  then show ?case by (simp add: acceptedOf_def)
next
  case (Cons c bs)
  obtain y v where o: "open_fn w c = (y, v)" by fastforce
  obtain ys where r: "unwrapAll open_fn v bs = (ys, w')" "xs = y # ys" using Cons.prems(2) o by (auto split: prod.splits)
  have ok: "window_ok w" using Cons.prems(1) by (auto simp: window_ok_def)
  from ok show ?case
  proof (cases rule: open_cases [of w c])
    case (accepted tp' x' r')
    have v: "v = upd w r'" "y = x'" using accepted(3) o by simp_all
    have p: "pairs_of (insert tp' S) (get v)" unfolding v laws by (rule accept_again(1) [OF Cons.prems(1) accepted(2)])
    have "view v b = Inr (tp, x)" using Cons.prems(3) by (simp add: v laws)
    then have IH: "b \<notin> set (acceptedOf bs ys)" using Cons.IH [OF p r(1)] Cons.prems(4) by blast
    have "tp' \<noteq> tp" using ctl_window.accepted [OF Cons.prems(1) accepted(2)] Cons.prems(4) by blast
    then have "c \<noteq> b" using accepted(1) Cons.prems(3) by auto
    then show ?thesis using IH r(2) by (cases y) simp_all
  qed (use Cons.IH [OF Cons.prems(1) _ Cons.prems(3,4)] r o in auto)
qed

lemma unwrapAll_once:
  assumes "window_ok w" "unwrapAll open_fn w bs = (xs, w')"
  shows "length xs = length bs \<and> list_all (\<lambda>x. \<not> panics x) xs \<and> distinct (acceptedOf bs xs) \<and> window_ok w'"
  using assms
proof (induction bs arbitrary: w xs)
  case Nil
  then show ?case by (simp add: acceptedOf_def)
next
  case (Cons c bs)
  obtain y v where o: "open_fn w c = (y, v)" by fastforce
  obtain ys where r: "unwrapAll open_fn v bs = (ys, w')" "xs = y # ys" using Cons.prems(2) o by (auto split: prod.splits)
  have safe: "\<not> panics y" "window_ok v" using open_safe [OF Cons.prems(1) o] by simp_all
  note IH = Cons.IH [OF safe(2) r(1)]
  have "c \<notin> set (acceptedOf bs ys)" if y: "y = Inr p" for p
  proof -
    from Cons.prems(1) obtain tp x r' where a: "view w c = Inr (tp, x)" "ctl_accept (get w) tp = (True, r')" "v = upd w r'"
      by (cases rule: open_cases [of w c]) (use o y in auto)
    obtain S where S: "pairs_of S (get w)" using Cons.prems(1) by (auto simp: window_ok_def)
    show ?thesis
      by (rule seen_refused [of "insert tp S" v bs ys w' c tp x]) (use a accept_again [OF S a(2)] r(1) in \<open>auto simp: laws\<close>)
  qed
  then show ?case using IH safe r(2) by (cases y) simp_all
qed

end

lemma new_window_ok:
  "NewTLSAuth hmac t key' dir digest = Inr a \<Longrightarrow> auth_window.window_ok a"
  "newTLSCrypt hmac ctr t key' client wkc = Inr c \<Longrightarrow> crypt_window.window_ok c"
  using pairs_of_new
  by (auto simp: auth_window.window_ok_def crypt_window.window_ok_def NewTLSAuth_def newTLSCrypt_def Let_def split: option.splits prod.splits)



end
