(* ===== verification/Ctlwrap_V2.thy ===== *)
theory Ctlwrap_V2
  imports Ctlwrap_Sessions Handshake_Codec
begin

text \<open>
  tls-crypt-v2 from key files to packets: a server issues a client key, both ends parse their
  files, and the server learns the client's key from its first packet (C29); what a server's session
  can be brought to by packets of the network (C30).
\<close>

section \<open>Wrapped client keys\<close>

text \<open>A wrapped key of an acceptable length that ends in its length.\<close>

definition wkc_ok :: "bytes \<Rightarrow> bool" where
  "wkc_ok wkc \<longleftrightarrow> 290 \<le> length wkc \<and> length wkc \<le> 1024 \<and> (\<exists>x. wkc = x @ be16 (of_nat (length wkc)))"

lemma be16_getU16: "length d = 2 \<Longrightarrow> getU16 d = (Inr n :: (ctl_err, u16) res) \<Longrightarrow> d = be16 n"
proof -
  assume "length d = 2" "getU16 d = (Inr n :: (ctl_err, u16) res)"
  then obtain a b where "d = [a, b]" "n = ucast b OR push_bit 8 (ucast a)"
    by (cases d; cases "tl d") (auto simp: length_Suc_conv)
  then show ?thesis by (simp add: be16_def) (auto simp: bit_eq_iff bit_simps dest: bit_imp_le_length)
qed

lemma checkWKc_iff: "checkWKc wkc = Inr () \<longleftrightarrow> wkc_ok wkc"
proof (cases "290 \<le> length wkc \<and> length wkc \<le> 1024")
  case False
  then show ?thesis by (auto simp: checkWKc_def wkc_ok_def minWKcLen_def maxWKcLen_def glen_def)
next
  case True
  let ?d = "drop (length wkc - 2) wkc"
  have len: "\<not> glen wkc < 290" "\<not> 1024 < glen wkc" using True by (simp_all add: glen_def)
  have f: "gfrom wkc (glen wkc - 2) = (Inr ?d :: (ctl_err, bytes) res)"
    using True gfrom_nat [of "length wkc - 2" wkc] by (simp add: glen_def of_nat_diff)
  have l: "length ?d = 2" using True by simp
  obtain n where n: "getU16 ?d = (Inr n :: (ctl_err, u16) res)" using getU16_total [of ?d] l by auto
  have gl: "getU16 (be16 (of_nat (length wkc))) = (Inr (of_nat (length wkc)) :: (ctl_err, u16) res)"
    using getU16_be16 [of _ "[]"] by simp
  have "checkWKc wkc = Inr () \<longleftrightarrow> uint n = glen wkc"
    using len by (simp add: checkWKc_def f n minWKcLen_def maxWKcLen_def)
  also have "\<dots> \<longleftrightarrow> n = of_nat (length wkc)"
    using uint_of_nat16 [of "length wkc"] True by (auto simp: glen_def word_uint_eq_iff)
  also have "\<dots> \<longleftrightarrow> ?d = be16 (of_nat (length wkc))"
    using be16_getU16 [OF l n] n gl by (metis Inr_inject)
  also have "\<dots> \<longleftrightarrow> (\<exists>x. wkc = x @ be16 (of_nat (length wkc)))"
  proof
    show "\<exists>x. wkc = x @ be16 (of_nat (length wkc))" if "?d = be16 (of_nat (length wkc))"
      using that append_take_drop_id [of "length wkc - 2" wkc] by metis
    show "?d = be16 (of_nat (length wkc))" if ex: "\<exists>x. wkc = x @ be16 (of_nat (length wkc))"
    proof -
      obtain x where x: "wkc = x @ be16 (of_nat (length wkc))" using ex by blast
      then have "length wkc = length x + 2" by (metis length_append length_be16)
      then show ?thesis using x by (metis add_diff_cancel_right' append_eq_conv_conj)
    qed
  qed
  finally show ?thesis using True by (simp add: wkc_ok_def)
qed

lemma wrapClientKey_ok:
  assumes h: "hmac_sizes hmac" and c: "\<And>iv x. length (c iv x) = length x" and n: "256 \<le> length plain" "length plain \<le> 990"
  shows "wkc_ok (wrapClientKey hmac c k plain)"
proof -
  have "length (wrapClientKey hmac c k plain) = 34 + length plain"
    using hmac_sizesD(1) [OF h] c by (simp add: wrapClientKey_def Let_def)
  moreover have "\<exists>x. wrapClientKey hmac c k plain = x @ be16 (of_nat (32 + length plain + 2))"
    unfolding wrapClientKey_def Let_def by (metis append.assoc)
  ultimately show ?thesis using n by (simp add: wkc_ok_def)
qed

lemma unwrap_wrapped_key:
  assumes h: "hmac_sizes hmac" and k: "ctr (take 32 k) = Some c"
    and c: "\<And>iv x. length (c iv x) = length x" "\<And>iv x. c iv (c iv x) = x"
    and n: "256 \<le> length plain" "length plain \<le> 990"
  shows "UnwrapTLSCryptV2ClientKey hmac ctr (Some k) (wrapClientKey hmac c k plain) = Inr (take 256 plain, drop 256 plain)"
proof -
  define len where "len = be16 (of_nat (32 + length plain + 2))"
  define tg where "tg = hmac ''SHA256'' (take 32 (drop 64 k)) (len @ plain)"
  define ct where "ct = c (take 16 tg) plain"
  have lt: "length tg = 32" by (simp add: tg_def hmac_sizesD(1) [OF h])
  have lc: "length ct = length plain" by (simp add: ct_def c)
  have ll: "length len = 2" by (simp add: len_def)
  have w: "wrapClientKey hmac c k plain = tg @ ct @ len"
    using lt unfolding wrapClientKey_def Let_def len_def [symmetric] tg_def [symmetric] ct_def by simp
  have ok: "checkWKc (tg @ ct @ len) = Inr ()" using wrapClientKey_ok [OF h, where c = c and k = k, OF c(1) n] w checkWKc_iff by simp
  have g: "glen (tg @ ct @ len) = 34 + int (length plain)" using lt lc ll by (simp add: glen_def)
  have s: "gslice (tg @ ct @ len) 0 32 = (Inr tg :: (ctl_err, bytes) res)"
    using lt g by (simp add: gslice_def)
  have s2: "gslice (tg @ ct @ len) 32 (glen (tg @ ct @ len) - 2) = (Inr ct :: (ctl_err, bytes) res)"
    unfolding g using lt lc ll by (simp add: gslice_def glen_def)
  have s3: "gfrom (tg @ ct @ len) (glen (tg @ ct @ len) - 2) = (Inr len :: (ctl_err, bytes) res)"
    unfolding g using lt lc ll by (simp add: gfrom_def gslice_def glen_def nat_add_distrib)
  have p: "gslice plain 0 256 = (Inr (take 256 plain) :: (ctl_err, bytes) res)" using n by (simp add: gslice_def glen_def)
  have dec: "c (take 16 tg) ct = plain" by (simp add: ct_def c)
  show ?thesis
    unfolding UnwrapTLSCryptV2ClientKey_def option.case w ok k rbind_Inr s s2 s3 Let_def dec tg_def [symmetric] p by simp
qed

text \<open>Key files: what the PEM coder writes it reads back.\<close>

definition pem_inverts :: "pem_decode \<Rightarrow> (string \<Rightarrow> bytes \<Rightarrow> bytes) \<Rightarrow> bool" where
  "pem_inverts decode encode \<longleftrightarrow> (\<forall>ty data. ty = v2ClientKeyType \<or> ty = v2ServerKeyType \<longrightarrow>
     encode ty data \<noteq> [] \<and> decode (encode ty data) = Some (ty, data, []))"

lemma server_key_file:
  assumes "pem_inverts decode encode" "length k = 128"
  shows "ParseTLSCryptV2ServerKey decode (ServerKey_MarshalPEM encode (Some k)) = Inr k"
  using assms by (simp add: ParseTLSCryptV2ServerKey_def ServerKey_MarshalPEM_def serverKeyBlocks.simps [of decode "encode _ _"]
      pem_inverts_def glen_def)

lemma ReadFull_length: "fst (ReadFull r n) = Inr x \<Longrightarrow> length x = n"
  by (auto simp: ReadFull_def split: if_splits)

lemma issued_key:
  assumes h: "hmac_sizes hmac" and c: "ctr_inverts ctr" and pem: "pem_inverts decode encode" and k: "length k = 128"
    and i: "IssueTLSCryptV2ClientKey hmac ctr encode now rnd (Some k) metadata = Inr file"
  obtains kc wkc where "ParseTLSCryptV2ClientKey decode file = Inr (kc, wkc)" "length kc = 256" "wkc_ok wkc"
    "UnwrapTLSCryptV2ClientKey hmac ctr (Some k) wkc = Inr (kc, wkcMetadata now metadata)"
proof -
  obtain e where e: "ctr (take 32 k) = Some e" "\<And>iv x. length (e iv x) = length x" "\<And>iv x. e iv (e iv x) = x"
    by (rule ctr_invertsD [OF c, of "take 32 k"]) (use k in auto)
  obtain kc where kc: "fst (ReadFull rnd 256) = Inr kc" "\<not> glen (case metadata of None \<Rightarrow> [] | Some m \<Rightarrow> m) > maxWKcLen - minWKcLen - 1"
    using i by (auto simp: IssueTLSCryptV2ClientKey_def split: if_splits sum.splits)
  define m where "m = wkcMetadata now metadata"
  define wkc where "wkc = wrapClientKey hmac e k (kc @ m)"
  have l: "length kc = 256" by (rule ReadFull_length [OF kc(1)])
  have lm: "length m \<le> 734"
    using kc(2) by (auto simp: m_def wkcMetadata_def be64_def maxWKcLen_def minWKcLen_def glen_def split: option.splits)
  have f: "file = encode v2ClientKeyType (kc @ wkc)"
    using i kc e(1) l by (simp add: IssueTLSCryptV2ClientKey_def Let_def wkc_def m_def)
  have ok: "wkc_ok wkc" unfolding wkc_def by (rule wrapClientKey_ok [OF h e(2)]) (use l lm in auto)
  have "decode file = Some (v2ClientKeyType, kc @ wkc, [])" using pem f by (simp add: pem_inverts_def)
  then have "ParseTLSCryptV2ClientKey decode file = Inr (kc, wkc)"
    using ok l checkWKc_iff [of wkc] by (simp add: ParseTLSCryptV2ClientKey_def clientKeyBlocks.simps [of decode "file"] glen_def)
  moreover have "UnwrapTLSCryptV2ClientKey hmac ctr (Some k) wkc = Inr (kc, m)"
    unfolding wkc_def using unwrap_wrapped_key [where hmac = hmac and ctr = ctr and k = k and c = e and plain = "kc @ m", OF h e(1)] e(2,3) l lm by simp
  ultimately show ?thesis using that l ok by (simp add: m_def)
qed

section \<open>Sessions\<close>

text \<open>A packet with a wrapped key behind it.\<close>

lemma v2_Unwrap_carried:
  assumes ok: "wkc_ok wkc" and l: "9 \<le> length b" and hd: "take 1 b = [b0]" and s: "SplitHeader b0 = (op, kid)" and c: "carriesWKc op"
  shows "v2_Unwrap hmac ctr now v (b @ wkc) =
    (if v2_inner v = None then
       (if op \<noteq> ControlHardResetClientV3 \<or> kid \<noteq> 0 then (Inl (Err CtlAuth), v) else v2_bind hmac ctr now v wkc b)
     else if v2_wkc v \<noteq> wkc then (Inl (Err CtlAuth), v) else v2_inner_Unwrap v b)"
proof -
  obtain x where x: "wkc = x @ be16 (of_nat (length wkc))" and n: "290 \<le> length wkc" "length wkc \<le> 1024"
    using ok unfolding wkc_ok_def by blast
  have g: "\<not> glen (b @ wkc) < 9" "\<not> glen (b @ wkc) < minWKcLen + 9" using l n by (simp_all add: glen_def minWKcLen_def)
  have b0: "gidx (b @ wkc) 0 = (Inr b0 :: (ctl_err, u8) res)" using hd l by (cases b) (simp_all add: gidx_def glen_def)
  have lx: "length wkc = length x + 2" using x by (metis length_append length_be16)
  have "gfrom (b @ wkc) (glen (b @ wkc) - 2) = (Inr (drop (length b + length x) (b @ wkc)) :: (ctl_err, bytes) res)"
    using gfrom_nat [of "length b + length x" "b @ wkc"] lx by (simp add: glen_def)
  also have "drop (length b + length x) (b @ wkc) = be16 (of_nat (length wkc))" using x by (metis append.assoc append_eq_conv_conj length_append)
  finally have f: "gfrom (b @ wkc) (glen (b @ wkc) - 2) = (Inr (be16 (of_nat (length wkc))) :: (ctl_err, bytes) res)" .
  have u: "getU16 (be16 (of_nat (length wkc))) = (Inr (of_nat (length wkc)) :: (ctl_err, u16) res)" using getU16_be16 [of _ "[]"] by simp
  have un: "uint (of_nat (length wkc) :: u16) = int (length wkc)" by (rule uint_of_nat16) (use n in simp)
  have cut: "nat (glen (b @ wkc) - int (length wkc)) = length b" by (simp add: glen_def)
  have rng: "\<not> (int (length wkc) < minWKcLen \<or> int (length wkc) > maxWKcLen \<or> int (length wkc) > glen (b @ wkc) - 9)"
    using n l by (simp add: minWKcLen_def maxWKcLen_def glen_def)
  have dr: "drop (length b) (b @ wkc) = wkc" "take (length b) (b @ wkc) = b" by simp_all
  show ?thesis
    unfolding v2_Unwrap_def b0 sum.case Let_def s prod.case f u un cut dr using g c rng by simp
qed

lemma v2_Unwrap_other:
  assumes "9 \<le> length b" "take 1 b = [b0]" "SplitHeader b0 = (op, kid)" "\<not> carriesWKc op"
  shows "v2_Unwrap hmac ctr now v b = v2_inner_Unwrap v b"
proof -
  have b0: "gidx b 0 = (Inr b0 :: (ctl_err, u8) res)" and g: "\<not> glen b < 9" using assms(1,2) by (cases b; simp add: gidx_def glen_def)+
  show ?thesis unfolding v2_Unwrap_def b0 sum.case Let_def assms(3) prod.case using g assms(4) by simp
qed

text \<open>A client and the server's session once its first packet has arrived.\<close>

definition v2_linked :: "tlsCrypt \<Rightarrow> v2Session \<Rightarrow> bool" where
  "v2_linked cl sv \<longleftrightarrow> (\<exists>inner. v2_inner sv = Some inner \<and> crypt_linked cl inner) \<and> tc_wkc cl = Some (v2_wkc sv) \<and> wkc_ok (v2_wkc sv)"

definition v2_back :: "v2Session \<Rightarrow> tlsCrypt \<Rightarrow> bool" where
  "v2_back sv cl \<longleftrightarrow> (\<exists>inner. v2_inner sv = Some inner \<and> crypt_linked inner cl \<and> tc_wkc inner = None)"

definition cryptRoom :: "tlsCrypt \<Rightarrow> nat \<Rightarrow> bool" where
  "cryptRoom w n \<longleftrightarrow> senderRoom (tc_send w) n \<and> (\<forall>k x. length (tc_hash w k x) = 32)"

interpretation v2_to_server: control_wrapper crypt_Wrap "v2_Unwrap hmac ctr now" v2_linked cryptRoom for hmac ctr now
proof
  fix p s n r b s'
  show "\<exists>b s'. crypt_Wrap s (Some p) = (Inr b, s') \<and> cryptRoom s' n" if "wf_packet p" "cryptRoom s (Suc n)"
    using crypt_wrapper.wraps [OF that(1)] that(2) unfolding cryptRoom_def by blast
  show "\<exists>r'. v2_Unwrap hmac ctr now r b = (Inr p, r') \<and> v2_linked s' r'"
    if l: "v2_linked s r" and wf: "wf_packet p" and w: "crypt_Wrap s (Some p) = (Inr b, s')"
  proof -
    obtain inner where i: "v2_inner r = Some inner" "crypt_linked s inner" and k: "tc_wkc s = Some (v2_wkc r)" "wkc_ok (v2_wkc r)"
      using l by (auto simp: v2_linked_def)
    obtain b' r' where u: "b = b' @ wkcOf s p" "crypt_Unwrap inner b' = (Inr p, r')" "crypt_linked s' r'" "49 \<le> length b'"
        "take 1 b' = [Header (Opcode p) (KeyID p)]"
      using crypt_linked_arrives [OF i(2) wf w] by blast
    have k': "tc_wkc s' = Some (v2_wkc r)" using crypt_Wrap_Inr [OF w] k(1) by auto
    have inner: "v2_inner_Unwrap r b' = (Inr p, r\<lparr>v2_inner := Some r'\<rparr>)" by (simp add: v2_inner_Unwrap_def i(1) u(2))
    have n9: "9 \<le> length b'" using u(4) by simp
    have "v2_Unwrap hmac ctr now r b = v2_inner_Unwrap r b'"
    proof (cases "carriesWKc (Opcode p)")
      case True
      then show ?thesis using v2_Unwrap_carried [OF k(2) n9 u(5) head_wf(1) [OF wf] True] u(1) i(1) k(1) by (simp add: wkcOf_def)
    next
      case False
      then show ?thesis using v2_Unwrap_other [OF n9 u(5) head_wf(1) [OF wf] False] u(1) k(1) by (simp add: wkcOf_def)
    qed
    then show ?thesis using inner u(3) k k' by (simp add: v2_linked_def)
  qed
  show "v2_linked s' r" if "v2_linked s r" "crypt_Wrap s (Some p) = (Inr b, s')"
    using crypt_linked_sent that crypt_Wrap_Inr unfolding v2_linked_def by fastforce
qed

lemma v2_Wrap_Inr:
  assumes "v2_Wrap s (Some p) = (Inr b, s')"
  obtains w w' where "v2_inner s = Some w" "crypt_Wrap w (Some p) = (Inr b, w')" "s' = s\<lparr>v2_inner := Some w'\<rparr>"
  using assms by (auto simp: v2_Wrap_def split: option.splits prod.splits)

interpretation v2_to_client: control_wrapper v2_Wrap crypt_Unwrap v2_back "\<lambda>sv n. \<exists>w. v2_inner sv = Some w \<and> cryptRoom w n"
proof
  fix p s n r b s'
  show "\<exists>b s'. v2_Wrap s (Some p) = (Inr b, s') \<and> (\<exists>w. v2_inner s' = Some w \<and> cryptRoom w n)"
    if wf: "wf_packet p" and rm: "\<exists>w. v2_inner s = Some w \<and> cryptRoom w (Suc n)"
  proof -
    obtain w where w: "v2_inner s = Some w" "cryptRoom w (Suc n)" using rm by blast
    obtain b w' where "crypt_Wrap w (Some p) = (Inr b, w')" "cryptRoom w' n"
      using crypt_wrapper.wraps [OF wf, of w n] w(2) unfolding cryptRoom_def by auto
    then show ?thesis using w(1) by (simp add: v2_Wrap_def)
  qed
  show "\<exists>r'. crypt_Unwrap r b = (Inr p, r') \<and> v2_back s' r'"
    if bk: "v2_back s r" and wf: "wf_packet p" and sent: "v2_Wrap s (Some p) = (Inr b, s')"
  proof -
    obtain w w' where w: "v2_inner s = Some w" "crypt_Wrap w (Some p) = (Inr b, w')" "s' = s\<lparr>v2_inner := Some w'\<rparr>"
      by (rule v2_Wrap_Inr [OF sent])
    then show ?thesis using crypt_wrapper.arrives [OF _ wf w(2), of r] bk by (auto simp: v2_back_def)
  qed
  show "v2_back s' r" if bk: "v2_back s r" and sent: "v2_Wrap s (Some p) = (Inr b, s')"
  proof -
    obtain w w' where w: "v2_inner s = Some w" "crypt_Wrap w (Some p) = (Inr b, w')" "s' = s\<lparr>v2_inner := Some w'\<rparr>"
      by (rule v2_Wrap_Inr [OF sent])
    then show ?thesis using crypt_wrapper.is_lost [OF _ w(2), of r] bk by (auto simp: v2_back_def)
  qed
qed

text \<open>The first packet binds the session.\<close>

lemma v2_first_packet:
  assumes h: "hmac_sizes hmac" and c: "ctr_inverts ctr" and kc: "length kc = 256" and ok: "wkc_ok wkc"
    and u: "UnwrapTLSCryptV2ClientKey hmac ctr (Some k) wkc = Inr (kc, m)"
    and cl: "newTLSCrypt hmac ctr t (Some kc) True (Some wkc) = Inr cl"
    and p: "wf_packet p" "Opcode p = ControlHardResetClientV3" "KeyID p = 0" and w: "crypt_Wrap cl (Some p) = (Inr b, cl')"
  shows "\<exists>sv. v2_Unwrap hmac ctr t' \<lparr>v2_key = k, v2_inner = None, v2_wkc = []\<rparr> b = (Inr p, sv) \<and>
    v2_linked cl' sv \<and> v2_back sv cl' \<and> (n < 2 ^ 32 \<longrightarrow> (\<exists>w. v2_inner sv = Some w \<and> cryptRoom w n))"
proof -
  let ?v = "\<lparr>v2_key = k, v2_inner = None, v2_wkc = []\<rparr>"
  obtain r where r: "newTLSCrypt hmac ctr t' (Some kc) False None = Inr r" using newTLSCrypt_total [OF c kc] by blast
  note L = crypt_ends_linked [OF h c kc cl, of t' None r] and B = crypt_ends_linked [OF h c kc r, of t "Some wkc" cl]
  have l: "crypt_linked cl r" "tc_wkc cl = Some wkc" using L r by simp_all
  have bk: "crypt_linked r cl" "tc_wkc r = None" "n < 2 ^ 32 \<Longrightarrow> cryptRoom r n" using B cl by (simp_all add: cryptRoom_def)
  obtain b' r' where a: "b = b' @ wkcOf cl p" "crypt_Unwrap r b' = (Inr p, r')" "crypt_linked cl' r'" "49 \<le> length b'"
      "take 1 b' = [Header (Opcode p) (KeyID p)]"
    using crypt_linked_arrives [OF l(1) p(1) w] by blast
  have wk: "wkcOf cl p = wkc" "carriesWKc (Opcode p)" using l(2) p(2) by (simp_all add: wkcOf_def carriesWKc_def)
  obtain win where r': "r' = r\<lparr>tc_recv := win\<rparr>"
    by (rule crypt_window.open_cases [OF new_window_ok(2) [OF r], of b']) (use a(2) in auto)
  obtain s2 where cl': "cl' = cl\<lparr>tc_send := s2\<rparr>" using crypt_Wrap_Inr [OF w] by blast
  define sv where "sv = ?v\<lparr>v2_inner := Some r', v2_wkc := wkc\<rparr>"
  have n9: "9 \<le> length b'" using a(4) by simp
  have "v2_bind hmac ctr t' ?v wkc b' = (Inr p, sv)"
    by (simp add: v2_bind_def u NewTLSCrypt_def r a(2) sv_def)
  then have "v2_Unwrap hmac ctr t' ?v b = (Inr p, sv)"
    using v2_Unwrap_carried [OF ok n9 a(5) head_wf(1) [OF p(1)] wk(2), of hmac ctr t' ?v] a(1) wk(1) p(2,3) by simp
  moreover have "v2_linked cl' sv" using a(3) ok l(2) by (simp add: v2_linked_def sv_def cl')
  moreover have "v2_back sv cl'" using bk(1,2) by (simp add: v2_back_def sv_def r' cl' crypt_linked_def)
  moreover have "n < 2 ^ 32 \<longrightarrow> (\<exists>w. v2_inner sv = Some w \<and> cryptRoom w n)" using bk(3) by (simp add: sv_def r' cryptRoom_def)
  ultimately show ?thesis by blast
qed

text \<open>
  Claim C29. tls-crypt-v2 from key files to packets. A server key written to a file is read back; from a client key
  the server issued, the client reads its key and wrapped key and makes its end; a new session of
  the server, which knows the server key alone, unwraps the client's first reset (version 3, key id 0) to what
  was wrapped, and every later packet of either side that arrives, whatever is lost and whatever
  opcodes it has, is unwrapped to what was wrapped.
\<close>

theorem tls_crypt_v2_session:
  assumes h: "hmac_sizes hmac" and c: "ctr_inverts ctr" and pem: "pem_inverts decode encode" and k: "length k = 128"
    and i: "IssueTLSCryptV2ClientKey hmac ctr encode now rnd (Some k) metadata = Inr file"
    and p: "wf_packet p" "Opcode p = ControlHardResetClientV3" "KeyID p = 0"
    and ps: "length ps + 1 < 2 ^ 32" "list_all (\<lambda>(p, _). wf_packet p) ps"
    and qs: "length qs < 2 ^ 32" "list_all (\<lambda>(p, _). wf_packet p) qs"
  shows "ParseTLSCryptV2ServerKey decode (ServerKey_MarshalPEM encode (Some k)) = Inr k \<and>
    (\<exists>sv kc wkc cl b cl' sv'. NewTLSCryptV2Server (Some k) = Inr sv \<and>
       ParseTLSCryptV2ClientKey decode file = Inr (kc, wkc) \<and> NewTLSCryptV2Client hmac ctr t (Some kc) wkc = Inr cl \<and>
       crypt_Wrap cl (Some p) = (Inr b, cl') \<and> v2_Unwrap hmac ctr t' sv b = (Inr p, sv') \<and>
       transfer crypt_Wrap (v2_Unwrap hmac ctr t'') cl' sv' ps = arrived ps \<and>
       transfer v2_Wrap crypt_Unwrap sv' cl' qs = arrived qs)"
proof -
  let ?sv = "\<lparr>v2_key = k, v2_inner = None, v2_wkc = []\<rparr>"
  obtain kc wkc where K: "ParseTLSCryptV2ClientKey decode file = Inr (kc, wkc)" "length kc = 256" "wkc_ok wkc"
    "UnwrapTLSCryptV2ClientKey hmac ctr (Some k) wkc = Inr (kc, wkcMetadata now metadata)"
    by (rule issued_key [OF h c pem k i])
  obtain cl where cl: "newTLSCrypt hmac ctr t (Some kc) True (Some wkc) = Inr cl" using newTLSCrypt_total [OF c K(2)] by blast
  have "cryptRoom cl (Suc (length ps))"
    using crypt_ends_linked [OF h c K(2) cl] newTLSCrypt_total [OF c K(2), of hmac t' "\<not> True" None] ps(1) by (fastforce simp: cryptRoom_def)
  then obtain b cl' where w: "crypt_Wrap cl (Some p) = (Inr b, cl')" "cryptRoom cl' (length ps)"
    using v2_to_server.wraps [OF p(1)] by blast
  obtain sv' where f: "v2_Unwrap hmac ctr t' ?sv b = (Inr p, sv')" "v2_linked cl' sv'" "v2_back sv' cl'"
      "\<exists>w. v2_inner sv' = Some w \<and> cryptRoom w (length qs)"
    using v2_first_packet [OF h c K(2-4) cl p w(1), of t' "length qs"] qs(1) by blast
  have "NewTLSCryptV2Client hmac ctr t (Some kc) wkc = Inr cl"
    using K(3) checkWKc_iff [of wkc] cl by (simp add: NewTLSCryptV2Client_def)
  moreover have "transfer crypt_Wrap (v2_Unwrap hmac ctr t'') cl' sv' ps = arrived ps"
    unfolding arrived_def by (rule v2_to_server.transfer_delivers [OF f(2) w(2) ps(2)])
  moreover have "transfer v2_Wrap crypt_Unwrap sv' cl' qs = arrived qs"
    unfolding arrived_def by (rule v2_to_client.transfer_delivers [OF f(3,4) qs(2)])
  ultimately show ?thesis using server_key_file [OF pem k] K(1) f(1) w(1) by (auto simp: NewTLSCryptV2Server_def)
qed

text \<open>A PEM coder that keeps the promise: the length of the type in unary, the type, the bytes.\<close>

definition demoEncode :: "string \<Rightarrow> bytes \<Rightarrow> bytes" where
  "demoEncode ty data = replicate (length ty) 1 @ 0 # bytes_of ty @ data"

definition demoDecode :: pem_decode where
  "demoDecode text =
    (let n = length (takeWhile (\<lambda>b. b = 1) text); body = drop (n + 1) text
     in if length text = n then None else Some (map char_of_byte (take n body), drop n body, []))"

lemma demo_pem: "pem_inverts demoDecode demoEncode"
proof -
  have d: "demoDecode (demoEncode ty data) = Some (ty, data, [])" for ty data
  proof -
    have "takeWhile (\<lambda>b. b = 1) (demoEncode ty data) = replicate (length ty) 1"
      unfolding demoEncode_def by (subst takeWhile_append2) auto
    then show ?thesis unfolding demoDecode_def Let_def by (simp add: demoEncode_def bytes_of_def comp_def)
  qed
  have "demoEncode ty data \<noteq> []" for ty data by (simp add: demoEncode_def)
  with d show ?thesis by (simp add: pem_inverts_def)
qed

definition demoV3 :: control_packet where
  "demoV3 = \<lparr>Opcode = ControlHardResetClientV3, KeyID = 0, SessionID = [1, 2, 3, 4, 5, 6, 7, 8], Acks = [],
     RemoteSessionID = zeroSessionID, PacketID = 0, Payload = []\<rparr>"

lemma demoV3_ok: "wf_packet demoV3" "Opcode demoV3 = ControlHardResetClientV3" "KeyID demoV3 = 0"
  by (code_simp, simp_all add: demoV3_def)

lemma demo_issued: "\<exists>file. IssueTLSCryptV2ClientKey demoMac demoCTR demoEncode 5 (replicate 256 3) (Some (replicate 128 4)) (Some [6, 7]) = Inr file"
  by (simp add: IssueTLSCryptV2ClientKey_def ReadFull_def demoCTR_def maxWKcLen_def minWKcLen_def glen_def)

theorem tls_crypt_v2_session_witness:
  "\<exists>sv kc wkc cl b cl' sv' fl. IssueTLSCryptV2ClientKey demoMac demoCTR demoEncode 5 (replicate 256 3) (Some (replicate 128 4)) (Some [6, 7]) = Inr fl \<and>
     ParseTLSCryptV2ClientKey demoDecode fl = Inr (kc, wkc) \<and> NewTLSCryptV2Client demoMac demoCTR 1 (Some kc) wkc = Inr cl \<and>
     NewTLSCryptV2Server (Some (replicate 128 4)) = Inr sv \<and>
     crypt_Wrap cl (Some demoV3) = (Inr b, cl') \<and> v2_Unwrap demoMac demoCTR 2 sv b = (Inr demoV3, sv') \<and>
     transfer crypt_Wrap (v2_Unwrap demoMac demoCTR 3) cl' sv' [(demoV3, True), (demoV3, False)] = [Inr demoV3]"
proof -
  obtain fl where f: "IssueTLSCryptV2ClientKey demoMac demoCTR demoEncode 5 (replicate 256 3) (Some (replicate 128 4)) (Some [6, 7]) = Inr fl"
    using demo_issued by blast
  have "length (replicate 128 4 :: bytes) = 128" by simp
  from tls_crypt_v2_session [OF demo_primitives demo_pem this f demoV3_ok,
      of "[(demoV3, True), (demoV3, False)]" "[]" 1 2 3] demoV3_ok(1)
  show ?thesis using f by (auto simp: arrived_def simp del: transfer.simps)
qed

end
