(* ===== verification/Ctlwrap_Guard.thy ===== *)
theory Ctlwrap_Guard
  imports Ctlwrap_V2
begin

text \<open>
  What packets of the network can do to the server's tls-crypt-v2 session: an unbound session
  stays as it is until a packet authenticates; a bound one is a window over the packets of its client (C30).
\<close>

section \<open>A packet and the wrapped key behind it\<close>

definition v2_split :: "bytes \<Rightarrow> (ctl_err, (opcode \<times> u8) \<times> bytes \<times> bytes option) res" where
  "v2_split b =
    (if glen b < 9 then Inl (Err CtlShort)
     else case gidx b 0 of Inl e \<Rightarrow> Inl e | Inr b0 \<Rightarrow>
     let (op, kid) = SplitHeader b0 in
     if carriesWKc op then
       (if glen b < minWKcLen + 9 then Inl (Err CtlAuth)
        else case gfrom b (glen b - 2) of Inl e \<Rightarrow> Inl e | Inr d \<Rightarrow>
        case getU16 d of Inl e \<Rightarrow> Inl e | Inr n16 \<Rightarrow>
        if uint n16 < minWKcLen \<or> uint n16 > maxWKcLen \<or> uint n16 > glen b - 9 then Inl (Err CtlAuth)
        else Inr ((op, kid), take (nat (glen b - uint n16)) b, Some (drop (nat (glen b - uint n16)) b)))
     else Inr ((op, kid), b, None))"

lemma v2_Unwrap_split:
  "v2_Unwrap hmac ctr now v b = (case v2_split b of Inl e \<Rightarrow> (Inl e, v)
   | Inr (_, _, None) \<Rightarrow> v2_inner_Unwrap v b
   | Inr ((op, kid), b', Some wrapped) \<Rightarrow>
       if v2_inner v = None then
         (if op \<noteq> ControlHardResetClientV3 \<or> kid \<noteq> 0 then (Inl (Err CtlAuth), v) else v2_bind hmac ctr now v wrapped b')
       else if v2_wkc v \<noteq> wrapped then (Inl (Err CtlAuth), v) else v2_inner_Unwrap v b')"
  unfolding v2_Unwrap_def v2_split_def Let_def by (simp split: sum.split prod.split)

lemma v2_split_result: "v2_split b = Inl f \<Longrightarrow> f = Err CtlShort \<or> f = Err CtlAuth"
proof -
  assume f: "v2_split b = Inl f"
  show ?thesis
  proof (cases "glen b < 9")
    case True
    then show ?thesis using f by (simp add: v2_split_def)
  next
    case False
    then have n: "9 \<le> length b" by (simp add: glen_def)
    have i: "gidx b 0 = (Inr (b ! 0) :: (ctl_err, u8) res)" using n by (cases b) simp_all
    have g: "gfrom b (glen b - 2) = (Inr (drop (length b - 2) b) :: (ctl_err, bytes) res)"
      using n gfrom_nat [of "length b - 2" b] by (simp add: glen_def of_nat_diff)
    obtain d where d: "getU16 (drop (length b - 2) b) = (Inr d :: (ctl_err, u16) res)" using n getU16_total [of "drop (length b - 2) b"] by auto
    show ?thesis using f False unfolding v2_split_def i sum.case g d by (auto simp: Let_def split: if_splits prod.splits)
  qed
qed

lemma v2_split_inj:
  "v2_split b = Inr (h, b', None) \<Longrightarrow> b' = b" "v2_split b = Inr (h, b', Some w) \<Longrightarrow> b = b' @ w"
  by (auto simp: v2_split_def Let_def split: if_splits sum.splits prod.splits)

lemma UnwrapTLSCryptV2ClientKey_safe:
  assumes "ctr_inverts ctr" "length k = 128"
  shows "\<not> panics (UnwrapTLSCryptV2ClientKey hmac ctr (Some k) wkc)"
proof (cases "checkWKc wkc")
  case (Inl f)
  have "f \<noteq> Panic"
  proof
    assume "f = Panic"
    then have p: "checkWKc wkc = Inl Panic" using Inl by simp
    then have n: "290 \<le> length wkc" "glen wkc - 2 = int (length wkc - 2)"
      by (auto simp: checkWKc_def minWKcLen_def glen_def of_nat_diff split: if_splits)
    obtain d where "getU16 (drop (length wkc - 2) wkc) = (Inr d :: (ctl_err, u16) res)"
      using n getU16_total [of "drop (length wkc - 2) wkc"] by auto
    moreover have "gfrom wkc (glen wkc - 2) = (Inr (drop (length wkc - 2) wkc) :: (ctl_err, bytes) res)"
      unfolding n(2) by (rule gfrom_nat) simp
    ultimately show False using p by (auto simp: checkWKc_def split: if_splits)
  qed
  then show ?thesis using Inl by (cases f) (simp_all add: UnwrapTLSCryptV2ClientKey_def)
next
  case (Inr u)
  then have n: "290 \<le> length wkc" using checkWKc_iff [of wkc] by (simp add: wkc_ok_def)
  obtain c where c: "ctr (take 32 k) = Some c" "\<And>iv x. length (c iv x) = length x" "\<And>iv x. c iv (c iv x) = x"
    by (rule ctr_invertsD [OF assms(1), of "take 32 k"]) (use assms(2) in auto)
  have s: "gslice wkc 0 32 = (Inr (take 32 wkc) :: (ctl_err, bytes) res)" using n by (simp add: gslice_def glen_def)
  have s2: "gslice wkc 32 (glen wkc - 2) = (Inr (take (length wkc - 34) (drop 32 wkc)) :: (ctl_err, bytes) res)"
    using n by (simp add: gslice_def glen_def nat_diff_distrib)
  have s3: "gfrom wkc (glen wkc - 2) = (Inr (drop (length wkc - 2) wkc) :: (ctl_err, bytes) res)"
    using n gfrom_nat [of "length wkc - 2" wkc] by (simp add: glen_def of_nat_diff)
  have p: "gslice x 0 256 = (Inr (take 256 x) :: (ctl_err, bytes) res)" if "256 \<le> length x" for x :: bytes
    using that by (simp add: gslice_def glen_def)
  have "256 \<le> length (c iv (take (length wkc - 34) (drop 32 wkc)))" for iv using n c(2) by simp
  then show ?thesis
    unfolding UnwrapTLSCryptV2ClientKey_def option.case Inr rbind_Inr c(1) s s2 s3 Let_def by (simp add: p)
qed

section \<open>A bound session\<close>

text \<open>The client's keys and its wrapped key; \<open>boundTo\<close> is the session that holds them.\<close>

type_synonym bound = "tlsCrypt \<times> bytes"

definition boundTo :: "serverKey \<Rightarrow> bound \<Rightarrow> v2Session" where
  "boundTo k s = \<lparr>v2_key = k, v2_inner = Some (fst s), v2_wkc = snd s\<rparr>"

definition unbound :: "serverKey \<Rightarrow> v2Session" where
  "unbound k = \<lparr>v2_key = k, v2_inner = None, v2_wkc = []\<rparr>"

text \<open>The part of a packet that the inner wrapper is given.\<close>

definition bound_part :: "bytes \<Rightarrow> bytes \<Rightarrow> (ctl_err, bytes) res" where
  "bound_part wkc b =
    (case v2_split b of Inl e \<Rightarrow> Inl e | Inr (_, _, None) \<Rightarrow> Inr b
     | Inr (_, b', Some wrapped) \<Rightarrow> if wkc \<noteq> wrapped then Inl (Err CtlAuth) else Inr b')"

definition bound_view :: "bound \<Rightarrow> bytes \<Rightarrow> packet_view" where
  "bound_view s b = (case bound_part (snd s) b of Inl e \<Rightarrow> Inl e | Inr b' \<Rightarrow> crypt_view (fst s) b')"

definition bound_Unwrap :: "bound unwrap_fn" where
  "bound_Unwrap s b = (case bound_part (snd s) b of Inl e \<Rightarrow> (Inl e, s)
     | Inr b' \<Rightarrow> (case crypt_Unwrap (fst s) b' of (x, w) \<Rightarrow> (x, (w, snd s))))"

lemma bound_part_result: "bound_part wkc b = Inl f \<Longrightarrow> f = Err CtlShort \<or> f = Err CtlAuth"
  using v2_split_result [of b] by (auto simp: bound_part_def split: sum.splits option.splits if_splits)

interpretation bound_window: windowed_wrapper bound_view "\<lambda>s. tc_recv (fst s)" "\<lambda>s r. ((fst s)\<lparr>tc_recv := r\<rparr>, snd s)" bound_Unwrap
proof
  fix s :: bound and b r r' f tp x
  show "bound_Unwrap s b = (case bound_view s b of Inl e \<Rightarrow> (Inl e, s)
      | Inr (tp, x) \<Rightarrow> (case ctl_accept (tc_recv (fst s)) tp of (False, r) \<Rightarrow> (Inl (Err CtlReplay), ((fst s)\<lparr>tc_recv := r\<rparr>, snd s))
          | (True, r) \<Rightarrow> (x, ((fst s)\<lparr>tc_recv := r\<rparr>, snd s))))"
    unfolding bound_Unwrap_def bound_view_def crypt_window.opens by (auto split: sum.split prod.split bool.split)
  show "tc_recv (fst ((fst s)\<lparr>tc_recv := r\<rparr>, snd s)) = r" "((fst s)\<lparr>tc_recv := tc_recv (fst s)\<rparr>, snd s) = s"
    "((fst ((fst s)\<lparr>tc_recv := r\<rparr>, snd s))\<lparr>tc_recv := r'\<rparr>, snd ((fst s)\<lparr>tc_recv := r\<rparr>, snd s)) = ((fst s)\<lparr>tc_recv := r'\<rparr>, snd s)"
    by simp_all
  show "bound_view ((fst s)\<lparr>tc_recv := r\<rparr>, snd s) b = bound_view s b"
    unfolding bound_view_def fst_conv snd_conv crypt_window.laws ..
  show "f \<noteq> Panic \<and> f \<noteq> Err CtlReplay" if "bound_view s b = Inl f"
    using that bound_part_result [of "snd s" b] crypt_window.bad by (fastforce simp: bound_view_def split: sum.splits)
  show "\<not> panics x \<and> (\<forall>e. x = Inl (Err e) \<longrightarrow> (\<exists>op e'. e = MalformedBody op e'))" if v: "bound_view s b = Inr (tp, x)"
  proof -
    obtain b' where "crypt_view (fst s) b' = Inr (tp, x)" using v by (auto simp: bound_view_def split: sum.splits)
    then show ?thesis by (rule crypt_window.good)
  qed
qed

lemma v2_Unwrap_bound:
  "v2_Unwrap hmac ctr now (boundTo k s) b = (case bound_Unwrap s b of (x, s) \<Rightarrow> (x, boundTo k s))"
  unfolding v2_Unwrap_split bound_Unwrap_def bound_part_def
  by (auto simp: boundTo_def v2_inner_Unwrap_def split: sum.split prod.split option.split)

lemma unwrapAll_bound:
  "unwrapAll (v2_Unwrap hmac ctr now) (boundTo k s) bs = (case unwrapAll bound_Unwrap s bs of (xs, s) \<Rightarrow> (xs, boundTo k s))"
  by (induction bs arbitrary: s) (auto simp: v2_Unwrap_bound split: prod.splits)

lemma unwrapAll_bound_key: "unwrapAll bound_Unwrap s bs = (xs, s') \<Longrightarrow> snd s' = snd s"
proof (induction bs arbitrary: s xs)
  case (Cons b bs)
  obtain x s1 where o: "bound_Unwrap s b = (x, s1)" by (rule prod.exhaust)
  have "snd s1 = snd s" using o by (auto simp: bound_Unwrap_def split: sum.splits prod.splits)
  then show ?case using Cons o by (auto split: prod.splits)
qed simp

section \<open>Binding\<close>

definition authentic_key :: "hmac_fn \<Rightarrow> ctr_fn \<Rightarrow> serverKey \<Rightarrow> bytes \<Rightarrow> bool" where
  "authentic_key hmac ctr k wkc \<longleftrightarrow> \<not> isl (UnwrapTLSCryptV2ClientKey hmac ctr (Some k) wkc)"

lemma v2_bind_result:
  assumes c: "ctr_inverts ctr" and k: "length k = 128" and b: "v2_bind hmac ctr now (unbound k) wkc b = (x, v)"
  shows "(\<exists>e. x = Inl (Err e) \<and> v = unbound k) \<or>
    (\<exists>p w tp y. x = Inr p \<and> v = boundTo k (w, wkc) \<and> authentic_key hmac ctr k wkc \<and> crypt_view w b = Inr (tp, y) \<and> pairs_of {tp} (tc_recv w))"
proof (cases "UnwrapTLSCryptV2ClientKey hmac ctr (Some k) wkc")
  case (Inl f)
  then show ?thesis using UnwrapTLSCryptV2ClientKey_safe [OF c k, of hmac wkc] b
    by (cases f) (auto simp: v2_bind_def unbound_def)
next
  case (Inr y)
  obtain kc m where u: "UnwrapTLSCryptV2ClientKey hmac ctr (Some k) wkc = Inr (kc, m)" using Inr by (cases y) simp
  show ?thesis
  proof (cases "newTLSCrypt hmac ctr now (Some kc) False None")
    case (Inl f)
    have "f \<noteq> Panic" using Inl by (auto simp: newTLSCrypt_def Parts_def direction_defs Let_def split: option.splits)
    then show ?thesis using b u Inl by (cases f) (auto simp: v2_bind_def unbound_def NewTLSCrypt_def)
  next
    case (Inr inner)
    have bd: "v2_bind hmac ctr now (unbound k) wkc b = (case crypt_Unwrap inner b of (Inl e, _) \<Rightarrow> (Inl e, unbound k)
        | (Inr packet, inner) \<Rightarrow> (Inr packet, boundTo k (inner, wkc)))"
      by (auto simp: v2_bind_def u Inr unbound_def NewTLSCrypt_def boundTo_def split: sum.split prod.split)
    have new: "pairs_of {} (tc_recv inner)"
      using Inr pairs_of_new by (auto simp: newTLSCrypt_def Let_def split: option.splits)
    have "crypt_window.window_ok inner" by (rule new_window_ok(2) [OF Inr])
    then show ?thesis
    proof (cases rule: crypt_window.open_cases [of inner b])
      case (accepted tp y r)
      have pr: "pairs_of {tp} r" by (rule crypt_window.accept_again(1) [OF new accepted(2), simplified])
      have vw: "crypt_view (inner\<lparr>tc_recv := r\<rparr>) b = Inr (tp, y)" using accepted(1) by (simp add: crypt_window.laws)
      show ?thesis
      proof (cases y)
        case (Inl f)
        then show ?thesis using b bd accepted(3,5) by (cases f) auto
      next
        case (Inr p)
        then have "x = Inr p" "v = boundTo k (inner\<lparr>tc_recv := r\<rparr>, wkc)" using b bd accepted(3) by simp_all
        then show ?thesis using pr vw u by (fastforce simp: authentic_key_def)
      qed
    qed (use b bd in auto)
  qed
qed

lemma v2_Unwrap_unbound:
  assumes c: "ctr_inverts ctr" and k: "length k = 128" and b: "v2_Unwrap hmac ctr now (unbound k) b = (x, v)"
  shows "(\<exists>e. x = Inl (Err e) \<and> v = unbound k) \<or>
    (\<exists>p s tp y. x = Inr p \<and> v = boundTo k s \<and> authentic_key hmac ctr k (snd s) \<and>
       bound_view s b = Inr (tp, y) \<and> pairs_of {tp} (tc_recv (fst s)))"
proof (cases "v2_split b")
  case (Inl f)
  then show ?thesis using v2_split_result [OF Inl] b by (auto simp: v2_Unwrap_split)
next
  case (Inr y)
  obtain op kid b' w where y: "v2_split b = Inr ((op, kid), b', w)" using Inr by (cases y) auto
  show ?thesis
  proof (cases w)
    case None
    then show ?thesis using b y by (auto simp: v2_Unwrap_split v2_inner_Unwrap_def unbound_def)
  next
    case (Some wrapped)
    show ?thesis
    proof (cases "op \<noteq> ControlHardResetClientV3 \<or> kid \<noteq> 0")
      case True
      then show ?thesis using b y Some by (auto simp: v2_Unwrap_split unbound_def)
    next
      case False
      then have "v2_bind hmac ctr now (unbound k) wrapped b' = (x, v)"
        using b y Some by (simp add: v2_Unwrap_split unbound_def)
      from v2_bind_result [OF c k this] show ?thesis
      proof (elim disjE exE conjE, goal_cases)
        case (2 p w tp y')
        have "bound_view (w, wrapped) b = Inr (tp, y')" using y Some 2(4) by (simp add: bound_view_def bound_part_def)
        then show ?case using 2 by (intro disjI2 exI [of _ p] exI [of _ "(w, wrapped)"]) auto
      qed blast
    qed
  qed
qed



end
