(* ===== verification/Go_Std.thy ===== *)
theory Go_Std
  imports Go_Strings
begin

text \<open>
  More of Go's standard library as the option parsers use it: the numbers of \<open>strconv\<close>, \<open>encoding/hex\<close>,
  \<open>encoding/base64\<close> and the addresses of \<open>net/netip\<close>. Where a call returns an error that
  its callers do not look at, it is \<open>None\<close>. The last section has the rules by which results of
  checked calls are reasoned about.
\<close>

section \<open>Strings\<close>

definition trimSuffix :: "string \<Rightarrow> string \<Rightarrow> string" where
  "trimSuffix s p = (if hasSuffix s p then take (length s - length p) s else s)"

text \<open>\<open>Trim\<close> and \<open>TrimRight\<close> with a set of ASCII characters.\<close>

definition trimRightSet :: "char list \<Rightarrow> string \<Rightarrow> string" where
  "trimRightSet cs s = rev (dropWhile (\<lambda>c. c \<in> set cs) (rev s))"

definition trimSet :: "char list \<Rightarrow> string \<Rightarrow> string" where
  "trimSet cs s = trimRightSet cs (dropWhile (\<lambda>c. c \<in> set cs) s)"

text \<open>\<open>EqualFold\<close> against an ASCII text without \<open>k\<close> and \<open>s\<close>, or of the same length in bytes.\<close>

definition equalFold :: "string \<Rightarrow> string \<Rightarrow> bool" where
  "equalFold s t \<longleftrightarrow> map lowerChar s = map lowerChar t"

text \<open>\<open>Cut\<close> at a character: what is before it, what is after it, whether it is there.\<close>

definition cutChar :: "char \<Rightarrow> string \<Rightarrow> string \<times> string \<times> bool" where
  "cutChar sep s = (takeWhile (\<lambda>c. c \<noteq> sep) s, drop 1 (dropWhile (\<lambda>c. c \<noteq> sep) s), sep \<in> set s)"

section \<open>Numbers\<close>

text \<open>\<open>ParseUint\<close> in base 10 and 16, for a result of the given bits.\<close>

definition parseUint10 :: "nat \<Rightarrow> string \<Rightarrow> nat option" where
  "parseUint10 bits s = (case parseDigits s of None \<Rightarrow> None | Some n \<Rightarrow> if n < 2 ^ bits then Some n else None)"

definition hexDigits :: string where "hexDigits = ''0123456789abcdefABCDEF''"

definition hexVal :: "char \<Rightarrow> nat option" where
  "hexVal c = map_of (zip hexDigits ([0..<16] @ [10..<16])) c"

definition hexNat :: "string \<Rightarrow> nat option" where
  "hexNat s = (if s = [] \<or> list_ex (\<lambda>c. hexVal c = None) s then None
     else Some (foldl (\<lambda>v c. v * 16 + the (hexVal c)) 0 s))"

definition parseUint16 :: "nat \<Rightarrow> string \<Rightarrow> nat option" where
  "parseUint16 bits s = (case hexNat s of None \<Rightarrow> None | Some n \<Rightarrow> if n < 2 ^ bits then Some n else None)"

text \<open>\<open>hex.Decode\<close>\<close>

fun hexDecode :: "string \<Rightarrow> bytes option" where
  "hexDecode [] = Some []"
| "hexDecode [c] = None"
| "hexDecode (c # d # s) =
    (case hexVal c of None \<Rightarrow> None | Some hi \<Rightarrow>
     case hexVal d of None \<Rightarrow> None | Some lo \<Rightarrow>
     case hexDecode s of None \<Rightarrow> None | Some bs \<Rightarrow> Some (of_nat (hi * 16 + lo) # bs))"

section \<open>Base 64\<close>

definition b64Alphabet :: string where
  "b64Alphabet = ''ABCDEFGHIJKLMNOPQRSTUVWXYZabcdefghijklmnopqrstuvwxyz0123456789+/''"

definition b64Val :: "char \<Rightarrow> nat option" where
  "b64Val c = map_of (zip b64Alphabet [0..<64]) c"

fun b64Bytes :: "nat list \<Rightarrow> bytes" where
  "b64Bytes (a # b # c # d # vs) =
    of_nat (a * 4 + b div 16) # of_nat ((b mod 16) * 16 + c div 4) # of_nat ((c mod 4) * 64 + d) # b64Bytes vs"
| "b64Bytes [a, b, c] = [of_nat (a * 4 + b div 16), of_nat ((b mod 16) * 16 + c div 4)]"
| "b64Bytes [a, b] = [of_nat (a * 4 + b div 16)]"
| "b64Bytes _ = []"

definition b64Raw :: "string \<Rightarrow> bytes option" where
  "b64Raw s = (if length s mod 4 = 1 \<or> list_ex (\<lambda>c. b64Val c = None) s then None
     else Some (b64Bytes (map (\<lambda>c. the (b64Val c)) s)))"

definition b64Std :: "string \<Rightarrow> bytes option" where
  "b64Std s =
    (let body = (if hasSuffix s ''=='' then take (length s - 2) s else if hasSuffix s ''='' then take (length s - 1) s else s)
     in if length s mod 4 \<noteq> 0 then None else b64Raw body)"

section \<open>Addresses\<close>

text \<open>The zero \<open>netip.Addr\<close>, an IPv4 and an IPv6 address with its zone.\<close>

datatype addr = NoAddr | V4 u32 | V6 "128 word" string

definition Is4 :: "addr \<Rightarrow> bool" where
  "Is4 a = (case a of V4 _ \<Rightarrow> True | _ \<Rightarrow> False)"

definition Is6 :: "addr \<Rightarrow> bool" where
  "Is6 a = (case a of V6 _ _ \<Rightarrow> True | _ \<Rightarrow> False)"

definition Is4In6 :: "addr \<Rightarrow> bool" where
  "Is4In6 a = (case a of V6 v _ \<Rightarrow> drop_bit 32 v = 0xFFFF | _ \<Rightarrow> False)"

definition noZone :: "addr \<Rightarrow> addr" where
  "noZone a = (case a of V6 v _ \<Rightarrow> V6 v [] | _ \<Rightarrow> a)"

definition parseOctet :: "string \<Rightarrow> nat option" where
  "parseOctet s =
    (case parseDigits s of None \<Rightarrow> None
     | Some n \<Rightarrow> if (length s > 1 \<and> hd s = CHR ''0'') \<or> n > 255 then None else Some n)"

definition parseIPv4 :: "string \<Rightarrow> nat list option" where
  "parseIPv4 s =
    (let os = map parseOctet (splitChar (CHR ''.'') s)
     in if length os = 4 \<and> None \<notin> set os then Some (map the os) else None)"

definition isHex :: "char \<Rightarrow> bool" where
  "isHex c \<longleftrightarrow> hexVal c \<noteq> None"

text \<open>The loop over the groups of an IPv6 address: the bytes so far and where the ellipsis is.\<close>

function v6Groups :: "string \<Rightarrow> nat list \<Rightarrow> nat option \<Rightarrow> (nat list \<times> nat option \<times> string) option" where
  "v6Groups s ip ell =
    (if 16 \<le> length ip then Some (ip, ell, s)
     else
     let ds = takeWhile isHex s; rest = dropWhile isHex s; v = the (hexNat ds)
     in if ds = [] \<or> length ds > 4 then None
     else if rest \<noteq> [] \<and> hd rest = CHR ''.'' then
       (if (ell = None \<and> length ip \<noteq> 12) \<or> length ip + 4 > 16 then None
        else case parseIPv4 s of None \<Rightarrow> None | Some os \<Rightarrow> Some (ip @ os, ell, []))
     else
     let ip' = ip @ [v div 256, v mod 256]
     in if rest = [] then Some (ip', ell, [])
     else if hd rest \<noteq> CHR '':'' \<or> length rest = 1 then None
     else if hd (tl rest) \<noteq> CHR '':'' then v6Groups (tl rest) ip' ell
     else if ell \<noteq> None then None
     else if tl (tl rest) = [] then Some (ip', Some (length ip'), [])
     else v6Groups (tl (tl rest)) ip' (Some (length ip')))"
  by pat_completeness auto
termination
  by (relation "measure (\<lambda>(s, ip, ell). 16 - length ip)") auto

declare v6Groups.simps [simp del]

definition u128Of :: "nat list \<Rightarrow> 128 word" where
  "u128Of bs = foldl (\<lambda>v b. v * 256 + of_nat b) 0 bs"

definition parseIPv6 :: "string \<Rightarrow> addr option" where
  "parseIPv6 s =
    (let (t, zone, z) = cutChar (CHR ''%'') s;
         lead = hasPrefix t ''::'';
         t' = (if lead then drop 2 t else t)
     in if z \<and> zone = [] then None
     else if lead \<and> t' = [] then Some (V6 0 zone)
     else case v6Groups t' [] (if lead then Some 0 else None) of None \<Rightarrow> None
     | Some (ip, ell, rest) \<Rightarrow>
       if rest \<noteq> [] then None
       else if length ip < 16 then
         (case ell of None \<Rightarrow> None
          | Some e \<Rightarrow> Some (V6 (u128Of (take e ip @ replicate (16 - length ip) 0 @ drop e ip)) zone))
       else if ell \<noteq> None then None
       else Some (V6 (u128Of ip) zone))"

definition ParseAddr :: "string \<Rightarrow> addr option" where
  "ParseAddr s =
    (case find (\<lambda>c. c \<in> {CHR ''.'', CHR '':'', CHR ''%''}) s of None \<Rightarrow> None
     | Some c \<Rightarrow>
       if c = CHR ''.'' then map_option (\<lambda>os. V4 (foldl (\<lambda>v b. v * 256 + of_nat b) 0 os)) (parseIPv4 s)
       else if c = CHR '':'' then parseIPv6 s else None)"

definition ParseAddrPort :: "string \<Rightarrow> (addr \<times> nat) option" where
  "ParseAddrPort s =
    (if CHR '':'' \<notin> set s then None
     else
     let (rp, ri, _) = cutChar (CHR '':'') (rev s); ip = rev ri; port = rev rp;
         v6 = (ip \<noteq> [] \<and> hd ip = CHR ''['')
     in if ip = [] \<or> port = [] then None
     else if v6 \<and> (length ip < 2 \<or> last ip \<noteq> CHR '']'') then None
     else case parseUint10 16 port of None \<Rightarrow> None | Some n \<Rightarrow>
     case ParseAddr (if v6 then butlast (tl ip) else ip) of None \<Rightarrow> None
     | Some a \<Rightarrow> if v6 \<noteq> Is6 a then None else Some (a, n))"

text \<open>A prefix; the zero one is \<open>NoPrefix\<close>. \<open>PrefixFrom\<close> drops the zone.\<close>

datatype prefix = NoPrefix | Prefix addr int

definition PrefixFrom :: "addr \<Rightarrow> int \<Rightarrow> prefix" where
  "PrefixFrom a n = Prefix (noZone a) n"

definition Masked :: "prefix \<Rightarrow> prefix" where
  "Masked p =
    (case p of NoPrefix \<Rightarrow> NoPrefix
     | Prefix a n \<Rightarrow> Prefix (case a of V4 v \<Rightarrow> V4 (v AND NOT (mask (nat (32 - n))))
         | V6 v z \<Rightarrow> V6 (v AND NOT (mask (nat (128 - n)))) z | NoAddr \<Rightarrow> NoAddr) n)"

section \<open>Reasoning about results\<close>

text \<open>A call that does not panic and whose result, if there is one, satisfies a predicate.\<close>

definition yields :: "('a \<Rightarrow> bool) \<Rightarrow> ('e, 'a) res \<Rightarrow> bool" where
  "yields P r \<longleftrightarrow> (case r of Inl f \<Rightarrow> f \<noteq> Panic | Inr a \<Rightarrow> P a)"

named_theorems yields_intros \<open>rules for the constructs that results are built from\<close>

lemma yields_Err [simp, intro!, yields_intros]: "yields P (Inl (Err e))"
  by (simp add: yields_def)

lemma yields_Inr [simp]: "yields P (Inr a) = P a"
  by (simp add: yields_def)

lemma yields_if [yields_intros]: "(c \<Longrightarrow> yields P a) \<Longrightarrow> (\<not> c \<Longrightarrow> yields P b) \<Longrightarrow> yields P (if c then a else b)"
  by simp

lemma yields_rbind: "yields Q m \<Longrightarrow> (\<And>a. Q a \<Longrightarrow> yields P (f a)) \<Longrightarrow> yields P (rbind m f)"
  by (cases m) (auto simp: yields_def split: sum.splits)

lemma yields_mono: "yields Q m \<Longrightarrow> (\<And>a. Q a \<Longrightarrow> P a) \<Longrightarrow> yields P m"
  by (auto simp: yields_def split: sum.splits)

lemma yields_option [yields_intros]:
  "(x = None \<Longrightarrow> yields P a) \<Longrightarrow> (\<And>y. x = Some y \<Longrightarrow> yields P (f y)) \<Longrightarrow> yields P (case x of None \<Rightarrow> a | Some y \<Rightarrow> f y)"
  by (cases x) auto

lemma yields_noPanic: "yields P m \<Longrightarrow> \<not> panics m"
  by (auto simp: yields_def panics_def)

lemma yieldsD: "yields P m \<Longrightarrow> m = Inr a \<Longrightarrow> P a"
  by (auto simp: yields_def)

lemma yields_gidx: "0 \<le> i \<Longrightarrow> i < glen xs \<Longrightarrow> P (xs ! nat i) \<Longrightarrow> yields P (gidx xs i)"
  by (simp add: gidx_def)

end
