(* ===== verification/Options_Lex.thy ===== *)
theory Options_Lex
  imports Go_Std Compress
begin

text \<open>
  How a line of a client profile or of a server's push is read
  (\<open>core/proxy/openvpn/ovpn/options/lex.go\<close>): lines, arguments with quotes, escapes and comments, names of
  directives, opening tags, and what of a name may reach a log. The text is a string of bytes. Letters
  outside ASCII keep their case (\<open>Go_Strings\<close>).
\<close>

section \<open>Errors\<close>

text \<open>
  A message, a message with the text it quotes, an error under the name of its directive or at
  its line, a directive the client cannot honour, and what the file system says.
\<close>

datatype opt_err =
  OpenDoubleQuote
| OpenSingleQuote
| Unsupported string
| Msg string
| MsgArg string string
| Within string opt_err
| AtLine string int opt_err
| CompErr comp_err
| FileErr string

text \<open>\<open>errors.Is(err, ErrUnsupported)\<close>\<close>

fun isUnsupported :: "opt_err \<Rightarrow> bool" where
  "isUnsupported (Unsupported _) = True"
| "isUnsupported (Within _ e) = isUnsupported e"
| "isUnsupported (AtLine _ _ e) = isUnsupported e"
| "isUnsupported _ = False"

section \<open>Lines\<close>

definition byteOrderMark :: string where "byteOrderMark = [CHR 0xEF, CHR 0xBB, CHR 0xBF]"

definition splitLines :: "string \<Rightarrow> string list" where
  "splitLines text = map (\<lambda>l. trimSuffix l [CHR 0x0D]) (splitChar (CHR 0x0A) (trimPrefix text byteOrderMark))"

section \<open>Arguments\<close>

definition isSpace :: "char \<Rightarrow> bool" where
  "isSpace c \<longleftrightarrow> c = CHR '' '' \<or> c = CHR 0x09 \<or> c = CHR 0x0B \<or> c = CHR 0x0C \<or> c = CHR 0x0D"

definition backslash :: char where "backslash = CHR 0x5C"
definition quot :: char where "quot = CHR 0x22"
definition apostrophe :: char where "apostrophe = CHR 0x27"

definition isEscaped :: "char \<Rightarrow> bool" where
  "isEscaped c \<longleftrightarrow> c = backslash \<or> c = quot \<or> c = apostrophe \<or> c = CHR '' '' \<or> c = CHR 0x09"

text \<open>Whether the text starts with a backslash that escapes the character after it.\<close>

definition escapes :: "string \<Rightarrow> bool" where
  "escapes s \<longleftrightarrow> length s > 1 \<and> s ! 0 = backslash \<and> isEscaped (s ! 1)"

lemma escapes_simps [simp]:
  "escapes [] = False" "escapes [c] = False" "escapes (c # d # s) \<longleftrightarrow> c = backslash \<and> isEscaped d"
  by (simp_all add: escapes_def)

text \<open>The inside of double quotes: the argument and what is left after the closing quote.\<close>

function dquoted :: "string \<Rightarrow> string \<Rightarrow> (string \<times> string) option" where
  "dquoted cur s =
    (if s = [] then None
     else if escapes s then dquoted (cur @ [s ! 1]) (drop 2 s)
     else if s ! 0 = quot then Some (cur, drop 1 s)
     else dquoted (cur @ [s ! 0]) (drop 1 s))"
  by pat_completeness auto
termination
  by (relation "measure (\<lambda>(cur, s). length s)") auto

declare dquoted.simps [simp del]

lemma dquoted_Nil [simp]: "dquoted cur [] = None"
  using dquoted.simps [of cur "[]"] by simp

lemma dquoted_one [simp]: "dquoted cur [c] = (if c = quot then Some (cur, []) else None)"
  using dquoted.simps [of cur "[c]"] by simp

lemma dquoted_more [simp]:
  "dquoted cur (c # d # s) = (if c = backslash \<and> isEscaped d then dquoted (cur @ [d]) s
     else if c = quot then Some (cur, d # s) else dquoted (cur @ [c]) (d # s))"
  using dquoted.simps [of cur "c # d # s"] by simp

lemma dquoted_shorter: "dquoted cur s = Some (a, rest) \<Longrightarrow> length rest < length s"
proof (induction cur s rule: dquoted.induct)
  case (1 cur s)
  have e: "dquoted cur s = (if s = [] then None
     else if escapes s then dquoted (cur @ [s ! 1]) (drop 2 s)
     else if s ! 0 = quot then Some (cur, drop 1 s)
     else dquoted (cur @ [s ! 0]) (drop 1 s))" by (rule dquoted.simps)
  show ?case
  proof (cases "s = [] \<or> (\<not> escapes s \<and> s ! 0 = quot)")
    case True
    then show ?thesis using 1(3) e by (auto split: if_splits)
  next
    case False
    then have "length rest < length (drop 1 s)" if "\<not> escapes s" using 1(2,3) e that by simp
    moreover have "length rest < length (drop 2 s)" if "escapes s" using 1(1,3) e that False by simp
    ultimately show ?thesis by (cases "escapes s") auto
  qed
qed

lemma dropWhile_shorter: "s \<noteq> [] \<Longrightarrow> length (dropWhile P (drop (Suc 0) s)) - Suc 0 < length s"
proof -
  assume "s \<noteq> []"
  then have "length (drop (Suc 0) s) < length s" by simp
  moreover have "length (dropWhile P (drop (Suc 0) s)) \<le> length (drop (Suc 0) s)" by (rule length_dropWhile_le)
  ultimately show ?thesis by linarith
qed

text \<open>
  The loop of \<open>splitArgs\<close>: the arguments so far, the one being read, and whether one is being read outside
  quotes.
\<close>

function argLoop :: "string list \<Rightarrow> string \<Rightarrow> bool \<Rightarrow> string \<Rightarrow> (opt_err, string list) res" where
  "argLoop args cur inArg s =
    (if s = [] then Inr (if inArg then args @ [cur] else args)
     else
     let c = s ! 0 in
     if \<not> inArg \<and> isSpace c then argLoop args cur False (drop 1 s)
     else if \<not> inArg \<and> (c = CHR ''#'' \<or> c = CHR '';'') then Inr args
     else if \<not> inArg \<and> c = quot then
       (case dquoted cur (drop 1 s) of None \<Rightarrow> Inl (Err OpenDoubleQuote)
        | Some (a, rest) \<Rightarrow> argLoop (args @ [a]) [] False rest)
     else if \<not> inArg \<and> c = apostrophe then
       (if apostrophe \<notin> set (drop 1 s) then Inl (Err OpenSingleQuote)
        else argLoop (args @ [takeWhile (\<lambda>c. c \<noteq> apostrophe) (drop 1 s)]) cur False
               (drop 1 (dropWhile (\<lambda>c. c \<noteq> apostrophe) (drop 1 s))))
     else if isSpace c then argLoop (args @ [cur]) [] False (drop 1 s)
     else if escapes s then argLoop args (cur @ [s ! 1]) True (drop 2 s)
     else argLoop args (cur @ [c]) True (drop 1 s))"
  by pat_completeness auto
termination
  by (relation "measure (\<lambda>(args, cur, inArg, s). length s)") (auto dest: dquoted_shorter simp: dropWhile_shorter)

declare argLoop.simps [simp del]

definition splitArgs :: "string \<Rightarrow> (opt_err, string list) res" where
  "splitArgs s = argLoop [] [] False s"

section \<open>Names\<close>

definition directiveName :: "string \<Rightarrow> string" where
  "directiveName s = toLower (trimPrefix s ''--'')"

definition isLower :: "char \<Rightarrow> bool" where "isLower c \<longleftrightarrow> c \<in> set lowerLetters"
definition isUpper :: "char \<Rightarrow> bool" where "isUpper c \<longleftrightarrow> c \<in> set upperLetters"
definition isNumeral :: "char \<Rightarrow> bool" where "isNumeral c \<longleftrightarrow> c \<in> set ''0123456789''"

definition openTag :: "string list \<Rightarrow> string option" where
  "openTag args =
    (case args of [t] \<Rightarrow>
       if length t < 3 \<or> hd t \<noteq> CHR ''<'' \<or> last t \<noteq> CHR ''>'' then None
       else let name = butlast (tl t)
            in if list_all (\<lambda>c. isLower c \<or> isUpper c \<or> isNumeral c \<or> c = CHR ''-'' \<or> c = CHR ''_'') name
               then Some (toLower name) else None
     | _ \<Rightarrow> None)"

definition plainNames :: "string list" where
  "plainNames =
    [''auth'', ''ca'', ''cert'', ''cipher'', ''compress'', ''config'', ''connection'', ''fragment'', ''keepalive'',
     ''key'', ''ping'', ''pkcs12'', ''port'', ''proto'', ''remote'', ''rport'', ''secret'', ''server'',
     ''askpass'', ''bind'', ''capath'', ''cd'', ''chroot'', ''client'', ''daemon'', ''dev'', ''dh'', ''dns'',
     ''down'', ''echo'', ''engine'', ''float'', ''group'', ''ifconfig'', ''inactive'', ''inetd'', ''iproute'',
     ''ipchange'', ''keysize'', ''lladdr'', ''local'', ''log'', ''lport'', ''management'', ''mark'', ''mlock'',
     ''mode'', ''mssfix'', ''multihome'', ''mute'', ''nice'', ''nobind'', ''passtos'', ''plugin'', ''prng'',
     ''providers'', ''pull'', ''rcvbuf'', ''route'', ''service'', ''setenv'', ''shaper'', ''sndbuf'', ''status'',
     ''syslog'', ''topology'', ''txqueuelen'', ''up'', ''user'', ''verb'', ''writepid'']"

definition unrecognized :: string where "unrecognized = ''(unrecognized)''"

text \<open>The loop over a name: whether a hyphen was seen; \<open>None\<close> for a character that does not fit. \<open>prev\<close> is the
  character before, if there is one.\<close>

fun nameLoop :: "char option \<Rightarrow> bool \<Rightarrow> string \<Rightarrow> (opt_err, bool option) res" where
  "nameLoop prev hyphen [] = Inr (Some hyphen)"
| "nameLoop prev hyphen (c # s) =
    (if isLower c \<or> isNumeral c then nameLoop (Some c) hyphen s
     else if c = CHR ''-'' then
       (case prev of None \<Rightarrow> Inl Panic
        | Some d \<Rightarrow> if d \<noteq> CHR ''-'' \<and> s \<noteq> [] then nameLoop (Some c) True s else Inr None)
     else Inr None)"

definition ignoredName :: "string \<Rightarrow> (opt_err, string) res" where
  "ignoredName name =
    (if name \<in> set plainNames then Inr name
     else if length name > 48 \<or> length name = 0 \<or> \<not> isLower (name ! 0) then Inr unrecognized
     else rbind (nameLoop None False name) (\<lambda>h.
       case h of None \<Rightarrow> Inr unrecognized | Some False \<Rightarrow> Inr unrecognized | Some True \<Rightarrow> Inr name))"

end
