(* ===== verification/Options.thy ===== *)
theory Options
  imports Options_Lex
begin

text \<open>
  Reading a client profile (\<open>core/proxy/openvpn/ovpn/options\<close>: \<open>options.go\<close>, \<open>parse.go\<close>): the text becomes entries,
  directives and blocks, with included files read in place; the entries are applied one by one;
  then the defaults of the remotes and the checks over the whole profile.

  A \<open>[]byte\<close> is a string here, and \<open>None\<close> where the source has nil: an empty block has no
  content, an empty file has the empty one. Durations are nanoseconds. Parameter: the file system, as what joining paths
  and reading a file give.
\<close>

section \<open>Profiles\<close>

record remote =
  r_Host :: string
  r_Port :: u16
  r_Network :: string

definition IsTCP :: "remote \<Rightarrow> bool" where
  "IsTCP r = hasPrefix (r_Network r) ''tcp''"

record pullFilter =
  pf_Action :: string
  pf_Prefix :: string

type_synonym duration = int

record ovpnOptions =
  o_Remotes :: "remote list"
  o_RemoteRandom :: bool
  o_CA :: "string option"
  o_Cert :: "string option"
  o_Key :: "string option"
  o_ExtraCerts :: "string option"
  o_PKCS12 :: "string option"
  o_PeerFingerprints :: "bytes list"
  o_TLSAuth :: "string option"
  o_KeyDirection :: int
  o_TLSCrypt :: "string option"
  o_TLSCryptV2 :: "string option"
  o_Cipher :: string
  o_DataCiphers :: "string list"
  o_DataCiphersFallback :: string
  o_Auth :: string
  o_AuthUserPass :: bool
  o_Username :: string
  o_Password :: string
  o_AuthUserPassFile :: string
  o_StaticChallenge :: string
  o_StaticChallengeEcho :: bool
  o_KeyPassword :: string
  o_RemoteCertTLS :: string
  o_NsCertType :: string
  o_VerifyX509Name :: string
  o_VerifyX509Type :: string
  o_TLSVersionMin :: string
  o_TLSVersionMax :: string
  o_CRLVerify :: "string option"
  o_RemoteCertEKU :: string
  o_RemoteCertKU :: "u16 list"
  o_RemoteCertKUSet :: bool
  o_VerifyHash :: "bytes list"
  o_VerifyHashAlgo :: string
  o_Compression :: mode
  o_CompressionSet :: bool
  o_TunMTU :: int
  o_Ping :: duration
  o_PingRestart :: duration
  o_RenegSec :: duration
  o_HandWindow :: duration
  o_ConnectTimeout :: duration
  o_ExplicitExitNotify :: int
  o_PingRestartSet :: bool
  o_PullFilters :: "pullFilter list"
  o_BaseDir :: string
  o_Ignored :: "string list"

definition defaultPort :: u16 where "defaultPort = 1194"
definition maxFileSize :: int where "maxFileSize = 4194304"
definition maxIncludeDepth :: nat where "maxIncludeDepth = 8"
definition maxSeconds :: nat where "maxSeconds = 2147483647"
definition Second :: duration where "Second = 1000000000"
definition defaultRenegSec :: duration where "defaultRenegSec = 3600 * Second"
definition defaultConnectTimeout :: duration where "defaultConnectTimeout = 30 * Second"

definition unsupported :: "string \<Rightarrow> (opt_err, 'a) res" where
  "unsupported what = Inl (Err (Unsupported what))"

record entry =
  e_src :: string
  e_line :: int
  e_args :: "string list"
  e_block :: bool
  e_content :: "string option"
  e_conn :: int
  e_connOpen :: bool

record connBlock =
  c_line :: int
  c_src :: string
  c_host :: string
  c_network :: string
  c_port :: u16

record remoteSpec =
  s_host :: string
  s_port :: u16
  s_network :: string

record parser =
  ps_o :: ovpnOptions
  ps_entries :: "entry list"
  ps_blocks :: "string \<rightharpoonup> string option"
  ps_conns :: "connBlock list"
  ps_remotes :: "remoteSpec list"
  ps_network :: string
  ps_port :: u16
  ps_devName :: string
  ps_devType :: string
  ps_ignored :: "string set"

definition setO :: "(ovpnOptions \<Rightarrow> ovpnOptions) \<Rightarrow> parser \<Rightarrow> parser" where
  "setO f p = p\<lparr>ps_o := f (ps_o p)\<rparr>"

definition defaultOptions :: "string \<Rightarrow> ovpnOptions" where
  "defaultOptions dir =
    \<lparr>o_Remotes = [], o_RemoteRandom = False, o_CA = None, o_Cert = None, o_Key = None, o_ExtraCerts = None,
     o_PKCS12 = None, o_PeerFingerprints = [], o_TLSAuth = None, o_KeyDirection = -1, o_TLSCrypt = None,
     o_TLSCryptV2 = None, o_Cipher = [], o_DataCiphers = [''AES-256-GCM'', ''AES-128-GCM'', ''CHACHA20-POLY1305''],
     o_DataCiphersFallback = [], o_Auth = ''SHA1'', o_AuthUserPass = False, o_Username = [], o_Password = [],
     o_AuthUserPassFile = [], o_StaticChallenge = [], o_StaticChallengeEcho = False, o_KeyPassword = [],
     o_RemoteCertTLS = [], o_NsCertType = [], o_VerifyX509Name = [], o_VerifyX509Type = [], o_TLSVersionMin = [],
     o_TLSVersionMax = [], o_CRLVerify = None, o_RemoteCertEKU = [], o_RemoteCertKU = [], o_RemoteCertKUSet = False,
     o_VerifyHash = [], o_VerifyHashAlgo = [], o_Compression = 0, o_CompressionSet = False, o_TunMTU = 1500,
     o_Ping = 0, o_PingRestart = 0, o_RenegSec = defaultRenegSec, o_HandWindow = 60 * Second,
     o_ConnectTimeout = defaultConnectTimeout, o_ExplicitExitNotify = 0, o_PingRestartSet = False,
     o_PullFilters = [], o_BaseDir = dir, o_Ignored = []\<rparr>"

definition newParser :: "string \<Rightarrow> parser" where
  "newParser dir =
    \<lparr>ps_o = defaultOptions dir, ps_entries = [], ps_blocks = Map.empty, ps_conns = [], ps_remotes = [], ps_network = [],
     ps_port = 0, ps_devName = [], ps_devType = [], ps_ignored = {}\<rparr>"

section \<open>Files\<close>

record fileSys =
  fs_join :: "string \<Rightarrow> string \<Rightarrow> string"
  fs_read :: "string \<Rightarrow> string + string"

definition readFile :: "fileSys \<Rightarrow> string \<Rightarrow> string \<Rightarrow> (opt_err, string) res" where
  "readFile fs dir name =
    (let path = (if hasPrefix name ''/'' then name else fs_join fs dir name)
     in case fs_read fs path of Inl e \<Rightarrow> Inl (Err (FileErr e))
        | Inr data \<Rightarrow> if glen data > maxFileSize then Inl (Err (MsgArg ''file is too large'' path)) else Inr data)"

definition isInline :: "string \<Rightarrow> bool" where
  "isInline f \<longleftrightarrow> toLower f = ''[inline]'' \<or> toLower f = ''[[inline]]''"

section \<open>Entries\<close>

text \<open>\<open>lineError\<close> around the error of a call.\<close>

definition atLine :: "string \<Rightarrow> int \<Rightarrow> (opt_err, 'a) res \<Rightarrow> (opt_err, 'a) res" where
  "atLine src num r = (case r of Inl (Err e) \<Rightarrow> Inl (Err (AtLine src num e)) | Inl Panic \<Rightarrow> Inl Panic | Inr a \<Rightarrow> Inr a)"

text \<open>\<open>fmt.Errorf("name: %w", err)\<close>\<close>

definition within :: "string \<Rightarrow> (opt_err, 'a) res \<Rightarrow> (opt_err, 'a) res" where
  "within name r = (case r of Inl (Err e) \<Rightarrow> Inl (Err (Within name e)) | Inl Panic \<Rightarrow> Inl Panic | Inr a \<Rightarrow> Inr a)"

text \<open>The lines of a block after its opening tag: how many there are before the closing line, and the content.\<close>

fun blockLoop :: "string \<Rightarrow> string list \<Rightarrow> nat \<Rightarrow> string option \<Rightarrow> (opt_err, nat \<times> string option) res" where
  "blockLoop name [] j content = Inl (Err (MsgArg ''block is not closed'' name))"
| "blockLoop name (l # ls) j content =
    (let closeTag = ''</'' @ name @ ''>'';
         t = trimSpace l;
         add = (\<lambda>s. Some ((case content of None \<Rightarrow> [] | Some c \<Rightarrow> c) @ s @ [CHR 0x0A]))
     in if name = ''connection'' \<and> equalFold t ''<connection>'' then Inl (Err (Msg ''<connection> inside <connection>''))
        else if length t \<ge> length closeTag \<and> equalFold (drop (length t - length closeTag) t) closeTag then
          (let rest = trimRightSet [CHR '' '', CHR 0x09] (take (length t - length closeTag) t)
           in Inr (j, if rest \<noteq> [] then add rest else content))
        else blockLoop name ls (j + 1) (add l))"

definition blockEnd :: "string list \<Rightarrow> string \<Rightarrow> (opt_err, nat \<times> string option) res" where
  "blockEnd ls name = blockLoop name ls 0 None"

text \<open>The arguments of a line, with the name normalised and \<open>setenv opt\<close> taken off.\<close>

definition lineArgs :: "string list \<Rightarrow> string list" where
  "lineArgs args =
    (case args of [] \<Rightarrow> [] | a0 # as \<Rightarrow>
     if directiveName a0 = ''setenv'' \<and> length (a0 # as) > 2 \<and> as ! 0 = ''opt''
     then directiveName (as ! 1) # drop 2 as else directiveName a0 # as)"

text \<open>\<open>include\<close>: the lines of the file that a \<open>config\<close> directive names.\<close>

definition includeLines :: "fileSys \<Rightarrow> string \<Rightarrow> string list \<Rightarrow> string \<Rightarrow> int \<Rightarrow> nat \<Rightarrow> (opt_err, string list) res" where
  "includeLines fs dir args src num depth =
    atLine src num
      (if length args < 2 then Inl (Err (Msg ''config: missing file name''))
       else if dir = [] then Inl (Err (MsgArg ''config: file references need a base directory'' (args ! 1)))
       else if depth \<ge> maxIncludeDepth then Inl (Err (Msg ''config: includes nested too deeply''))
       else rbind (within ''config'' (readFile fs dir (args ! 1))) (\<lambda>data. Inr (splitLines data)))"

definition addEntry :: "entry \<Rightarrow> parser \<Rightarrow> parser" where
  "addEntry e p = p\<lparr>ps_entries := ps_entries p @ [e]\<rparr>"

lemma includeLines_depth: "includeLines fs dir args src num depth = Inr ls \<Longrightarrow> depth < maxIncludeDepth"
  by (auto simp: includeLines_def atLine_def split: sum.splits fault.splits if_splits)

function collect :: "fileSys \<Rightarrow> string list \<Rightarrow> int \<Rightarrow> string \<Rightarrow> nat \<Rightarrow> int \<Rightarrow> parser \<Rightarrow> (opt_err, parser) res" where
  "collect fs [] base src depth conn p = Inr p"
| "collect fs (l # ls) base src depth conn p =
    (let num = base + 1 in
     case atLine src num (splitArgs l) of Inl e \<Rightarrow> Inl e
     | Inr args \<Rightarrow>
       if args = [] then collect fs ls num src depth conn p
       else case openTag args of
         Some name \<Rightarrow>
         (case atLine src num (blockEnd ls name) of Inl e \<Rightarrow> Inl e
          | Inr (n, content) \<Rightarrow>
            if name = ''connection'' then
              if conn \<ge> 0 then Inl (Err (AtLine src num (Msg ''<connection> inside <connection>'')))
              else
              let idx = glen (ps_conns p);
                  p = p\<lparr>ps_conns := ps_conns p @ [\<lparr>c_line = num, c_src = src, c_host = [], c_network = [], c_port = 0\<rparr>]\<rparr>;
                  p = addEntry \<lparr>e_src = src, e_line = num, e_args = [name], e_block = False, e_content = None, e_conn = idx, e_connOpen = True\<rparr> p
              in case collect fs (take n ls) num src depth idx p of Inl e \<Rightarrow> Inl e
                 | Inr p \<Rightarrow> collect fs (drop (n + 1) ls) (num + int n + 1) src depth conn p
            else
              let p = addEntry \<lparr>e_src = src, e_line = num, e_args = [name], e_block = True, e_content = content, e_conn = conn, e_connOpen = False\<rparr> p;
                  p = p\<lparr>ps_blocks := (ps_blocks p)(name \<mapsto> content)\<rparr>
              in collect fs (drop (n + 1) ls) (num + int n + 1) src depth conn p)
       | None \<Rightarrow>
         let args = lineArgs args in
         if hd args = ''config'' then
           (case includeLines fs (o_BaseDir (ps_o p)) args src num depth of Inl e \<Rightarrow> Inl e
            | Inr lines \<Rightarrow>
              (case collect fs lines 0 (args ! 1) (depth + 1) conn p of Inl e \<Rightarrow> Inl e
               | Inr p \<Rightarrow> collect fs ls num src depth conn p))
         else collect fs ls num src depth conn
           (addEntry \<lparr>e_src = src, e_line = num, e_args = args, e_block = False, e_content = None, e_conn = conn, e_connOpen = False\<rparr> p))"
  by pat_completeness auto
termination
  by (relation "measures [\<lambda>(fs, ls, base, src, depth, conn, p). maxIncludeDepth - depth, \<lambda>(fs, ls, base, src, depth, conn, p). length ls]")
    (auto dest: includeLines_depth)

declare collect.simps(2) [simp del]

end
