(* ===== verification/Options_Parse.thy ===== *)
theory Options_Parse
  imports Options
begin

text \<open>
  Applying the entries of a profile (\<open>parse.go\<close>: \<open>apply\<close>, \<open>applyBlock\<close> and their helpers), \<open>finish\<close> and \<open>parse\<close>. Each case of the
  source's switch is a definition; \<open>apply\<close> is the switch.
\<close>

section \<open>Arguments and values\<close>

definition ename :: "entry \<Rightarrow> (opt_err, string) res" where
  "ename e = gidx (e_args e) 0"

definition nargs :: "entry \<Rightarrow> nat" where
  "nargs e = length (e_args e)"

definition arg :: "entry \<Rightarrow> nat \<Rightarrow> (opt_err, string) res" where
  "arg e i = (if i \<ge> length (e_args e) then Inl (Err (MsgArg ''missing argument'' (hd (e_args e)))) else Inr (e_args e ! i))"

definition parseProto :: "string \<Rightarrow> (opt_err, string) res" where
  "parseProto s =
    (let v = toLower s in
     if v \<in> set [''udp'', ''udp4'', ''udp6'', ''tcp'', ''tcp4'', ''tcp6''] then Inr v
     else if v \<in> set [''tcp-client'', ''tcp4-client'', ''tcp6-client''] then Inr (trimSuffix v ''-client'')
     else if v \<in> set [''tcp-server'', ''tcp4-server'', ''tcp6-server''] then unsupported (''proto '' @ v)
     else Inl (Err (MsgArg ''unknown protocol'' s)))"

definition isProto :: "string \<Rightarrow> bool" where
  "isProto s \<longleftrightarrow> \<not> isl (parseProto s)"

definition parsePort :: "string \<Rightarrow> (opt_err, u16) res" where
  "parsePort s =
    (case parseUint10 16 s of None \<Rightarrow> Inl (Err (MsgArg ''bad port'' s))
     | Some n \<Rightarrow> if n = 0 then Inl (Err (MsgArg ''bad port'' s)) else Inr (of_nat n))"

definition parseDirection :: "string \<Rightarrow> (opt_err, int) res" where
  "parseDirection s =
    (if s = ''0'' then Inr 0 else if s = ''1'' then Inr 1 else Inl (Err (MsgArg ''key direction must be 0 or 1'' s)))"

definition parseSeconds :: "string \<Rightarrow> (opt_err, duration) res" where
  "parseSeconds s =
    (case parseUint10 64 s of None \<Rightarrow> Inl (Err (MsgArg ''bad number of seconds'' s))
     | Some n \<Rightarrow> if n > maxSeconds then Inl (Err (MsgArg ''bad number of seconds'' s)) else Inr (int n * Second))"

definition parseMTU :: "string \<Rightarrow> (opt_err, int) res" where
  "parseMTU s =
    (case atoi s of None \<Rightarrow> Inl (Err (MsgArg ''bad MTU'' s))
     | Some n \<Rightarrow> if n < 68 \<or> n > 65535 then Inl (Err (MsgArg ''bad MTU'' s)) else Inr n)"

definition tlsVersion :: "string \<Rightarrow> string option" where
  "tlsVersion s = (if s \<in> set [''1.0'', ''1.1'', ''1.2'', ''1.3''] then Some s else None)"

definition parseCompression :: "string \<Rightarrow> string \<Rightarrow> (opt_err, mode) res" where
  "parseCompression name a =
    (case (if name = ''comp-lzo'' then ParseCompLZO a else ParseCompress a) of
       Inl Panic \<Rightarrow> Inl Panic | Inl (Err e) \<Rightarrow> Inl (Err (Within name (CompErr e))) | Inr m \<Rightarrow> Inr m)"

definition credentials :: "string \<Rightarrow> string \<times> string" where
  "credentials data =
    (let lines = splitChar (CHR 0x0A) data
     in (trimRightSet [CHR 0x0D] (lines ! 0), if length lines > 1 then trimRightSet [CHR 0x0D] (lines ! 1) else []))"

definition parseFingerprint :: "string \<Rightarrow> (opt_err, bytes) res" where
  "parseFingerprint s =
    (let h = removeChars [CHR '':''] s in
     if length h \<noteq> 64 then Inl (Err (MsgArg ''not a SHA-256 fingerprint'' s))
     else case hexDecode h of None \<Rightarrow> Inl (Err (MsgArg ''not a SHA-256 fingerprint'' s)) | Some b \<Rightarrow> Inr b)"

definition decodeBase64 :: "string \<Rightarrow> bytes option" where
  "decodeBase64 s =
    (let s = removeChars [CHR '' '', CHR 0x09, CHR 0x0D, CHR 0x0A, CHR 0x0B, CHR 0x0C] s
     in case b64Std s of Some b \<Rightarrow> Some b | None \<Rightarrow> b64Raw (trimRightSet [CHR ''=''] s))"

text \<open>The pairs of a digest, each decoded on its own.\<close>

fun hashParts :: "string list \<Rightarrow> bytes option" where
  "hashParts [] = Some []"
| "hashParts (part # ps) =
    (if length part \<noteq> 2 then None
     else case hexDecode part of None \<Rightarrow> None | Some b \<Rightarrow>
     case hashParts ps of None \<Rightarrow> None | Some bs \<Rightarrow> Some (b @ bs))"

definition parseHash :: "string \<Rightarrow> string \<Rightarrow> (opt_err, bytes) res" where
  "parseHash s algo =
    (let bad = Inl (Err (MsgArg ''not a digest written as colon-separated hex pairs'' s)) in
     if algo \<noteq> ''SHA1'' \<and> algo \<noteq> ''SHA256'' then Inl (Err (MsgArg ''unknown digest'' algo))
     else
     let size = (if algo = ''SHA1'' then 20 else 32); parts = splitChar (CHR '':'') s
     in if length parts \<noteq> size then bad
        else case hashParts parts of None \<Rightarrow> bad | Some h \<Rightarrow> Inr h)"

section \<open>Helpers of the parser\<close>

definition ignore :: "parser \<Rightarrow> string \<Rightarrow> (opt_err, parser) res" where
  "ignore p name =
    rbind (ignoredName name) (\<lambda>n.
    Inr (if n \<in> ps_ignored p then p
         else setO (\<lambda>o'. o'\<lparr>o_Ignored := o_Ignored o' @ [n]\<rparr>) (p\<lparr>ps_ignored := insert n (ps_ignored p)\<rparr>)))"

definition ignore_entry :: "parser \<Rightarrow> entry \<Rightarrow> (opt_err, parser) res" where
  "ignore_entry p e = rbind (ename e) (ignore p)"

text \<open>\<open>content\<close>: the data of a directive and whether it is from a block.\<close>

definition content :: "fileSys \<Rightarrow> parser \<Rightarrow> entry \<Rightarrow> (opt_err, string option \<times> bool) res" where
  "content fs p e =
    rbind (ename e) (\<lambda>name.
    if e_block e then Inr (e_content e, True)
    else if nargs e < 2 \<or> e_args e ! 1 = [] then Inl (Err (MsgArg ''missing file name'' name))
    else
    let f = e_args e ! 1 in
    if isInline f then (case ps_blocks p name of None \<Rightarrow> Inl (Err (MsgArg ''no block'' name)) | Some b \<Rightarrow> Inr (b, True))
    else if o_BaseDir (ps_o p) = [] then
      (case ps_blocks p name of Some b \<Rightarrow> Inr (b, True)
       | None \<Rightarrow> Inl (Err (MsgArg ''file references need a base directory'' name)))
    else rbind (within name (readFile fs (o_BaseDir (ps_o p)) f)) (\<lambda>data. Inr (Some data, False)))"

definition setConn :: "parser \<Rightarrow> int \<Rightarrow> (connBlock \<Rightarrow> connBlock) \<Rightarrow> (opt_err, parser) res" where
  "setConn p i f = rbind (gidx (ps_conns p) i) (\<lambda>c. Inr (p\<lparr>ps_conns := (ps_conns p)[nat i := f c]\<rparr>))"

section \<open>The cases of the switch\<close>

definition openConn :: "parser \<Rightarrow> entry \<Rightarrow> (opt_err, parser) res" where
  "openConn p e = setConn p (e_conn e) (\<lambda>c. c\<lparr>c_network := ps_network p, c_port := ps_port p\<rparr>)"

text \<open>The port and protocol of a remote, from what follows its host.\<close>

definition remotePort :: "string list \<Rightarrow> (opt_err, u16 \<times> string list) res" where
  "remotePort rest =
    (case rest of [] \<Rightarrow> Inr (0, [])
     | a # as \<Rightarrow> (case parsePort a of Inr port \<Rightarrow> Inr (port, as)
        | Inl f \<Rightarrow> if as = [] \<and> isProto a then Inr (0, rest) else within ''remote'' (Inl f)))"

definition remoteNetwork :: "string list \<Rightarrow> (opt_err, string) res" where
  "remoteNetwork rest = (case rest of [] \<Rightarrow> Inr [] | a # _ \<Rightarrow> within ''remote'' (parseProto a))"

definition do_remote :: "parser \<Rightarrow> entry \<Rightarrow> (opt_err, parser) res" where
  "do_remote p e =
    rbind (arg e 1) (\<lambda>host.
    let host = (if length host > 2 \<and> hd host = CHR ''['' \<and> last host = CHR '']'' then butlast (tl host) else host) in
    if host = [] then Inl (Err (Msg ''remote: empty host''))
    else
    rbind (gfrom (e_args e) 2) (\<lambda>rest.
    rbind (remotePort rest) (\<lambda>(port, rest).
    rbind (remoteNetwork rest) (\<lambda>network.
    if e_conn e \<ge> 0 then
      setConn p (e_conn e) (\<lambda>c. c\<lparr>c_host := host, c_port := (if port \<noteq> 0 then port else c_port c),
                                 c_network := (if network \<noteq> [] then network else c_network c)\<rparr>)
    else Inr (p\<lparr>ps_remotes := ps_remotes p @ [\<lparr>s_host = host, s_port = port, s_network = network\<rparr>]\<rparr>)))))"

definition do_proto :: "parser \<Rightarrow> entry \<Rightarrow> (opt_err, parser) res" where
  "do_proto p e =
    rbind (arg e 1) (\<lambda>a. rbind (parseProto a) (\<lambda>network.
    if e_conn e \<ge> 0 then setConn p (e_conn e) (\<lambda>c. c\<lparr>c_network := network\<rparr>) else Inr (p\<lparr>ps_network := network\<rparr>)))"

definition do_port :: "parser \<Rightarrow> entry \<Rightarrow> string \<Rightarrow> (opt_err, parser) res" where
  "do_port p e name =
    rbind (arg e 1) (\<lambda>a. rbind (within name (parsePort a)) (\<lambda>port.
    if e_conn e \<ge> 0 then setConn p (e_conn e) (\<lambda>c. c\<lparr>c_port := port\<rparr>) else Inr (p\<lparr>ps_port := port\<rparr>)))"

definition do_static_challenge :: "parser \<Rightarrow> entry \<Rightarrow> string \<Rightarrow> (opt_err, parser) res" where
  "do_static_challenge p e name =
    rbind (arg e 1) (\<lambda>a.
    ignore (setO (\<lambda>o'. o'\<lparr>o_StaticChallenge := a, o_StaticChallengeEcho := (nargs e > 2 \<and> e_args e ! 2 = ''1'')\<rparr>) p) name)"

definition do_remote_cert_eku :: "parser \<Rightarrow> entry \<Rightarrow> (opt_err, parser) res" where
  "do_remote_cert_eku p e =
    rbind (arg e 1) (\<lambda>a.
    if a = [] then Inl (Err (Msg ''remote-cert-eku: empty extended key usage'')) else Inr (setO (\<lambda>o'. o'\<lparr>o_RemoteCertEKU := a\<rparr>) p))"

fun keyUsages :: "string list \<Rightarrow> (opt_err, u16 list) res" where
  "keyUsages [] = Inr []"
| "keyUsages (a # as) =
    (case parseUint16 16 (trimPrefix (trimPrefix a ''0x'') ''0X'') of None \<Rightarrow> Inl (Err (MsgArg ''remote-cert-ku: not a key usage value in hex'' a))
     | Some v \<Rightarrow> rbind (keyUsages as) (\<lambda>vs. Inr (of_nat v # vs)))"

definition remoteCertKU :: "parser \<Rightarrow> entry \<Rightarrow> (opt_err, parser) res" where
  "remoteCertKU p e =
    rbind (gfrom (e_args e) 1) (\<lambda>as. rbind (keyUsages as) (\<lambda>vs.
    let vs = takeWhile (\<lambda>v. v \<noteq> 0) vs in
    if nargs e > 1 \<and> vs = [] then Inr (setO (\<lambda>o'. o'\<lparr>o_RemoteCertKU := [], o_RemoteCertKUSet := False\<rparr>) p)
    else Inr (setO (\<lambda>o'. o'\<lparr>o_RemoteCertKU := vs, o_RemoteCertKUSet := True\<rparr>) p)))"

definition do_verify_hash :: "parser \<Rightarrow> entry \<Rightarrow> (opt_err, parser) res" where
  "do_verify_hash p e =
    rbind (arg e 1) (\<lambda>a.
    let algo = (if nargs e > 2 then toUpper (e_args e ! 2) else ''SHA1'') in
    rbind (within ''verify-hash'' (parseHash a algo)) (\<lambda>h.
    Inr (setO (\<lambda>o'. o'\<lparr>o_VerifyHash := [h], o_VerifyHashAlgo := algo\<rparr>) p)))"

definition do_key_direction :: "parser \<Rightarrow> entry \<Rightarrow> (opt_err, parser) res" where
  "do_key_direction p e =
    rbind (arg e 1) (\<lambda>a. rbind (within ''key-direction'' (parseDirection a)) (\<lambda>d. Inr (setO (\<lambda>o'. o'\<lparr>o_KeyDirection := d\<rparr>) p)))"

definition cipherList :: "string \<Rightarrow> string list" where
  "cipherList a =
    map toUpper (filter (\<lambda>c. c \<noteq> []) (map (\<lambda>c. trimSpace (trimPrefix (trimSpace c) ''?'')) (splitChar (CHR '':'') a)))"

definition do_data_ciphers :: "parser \<Rightarrow> entry \<Rightarrow> string \<Rightarrow> (opt_err, parser) res" where
  "do_data_ciphers p e name =
    rbind (arg e 1) (\<lambda>a.
    let l = cipherList a in
    if l = [] then Inl (Err (MsgArg ''empty cipher list'' name)) else Inr (setO (\<lambda>o'. o'\<lparr>o_DataCiphers := l\<rparr>) p))"

text \<open>The directives that store their argument in upper case.\<close>

definition do_upper :: "(string \<Rightarrow> ovpnOptions \<Rightarrow> ovpnOptions) \<Rightarrow> parser \<Rightarrow> entry \<Rightarrow> (opt_err, parser) res" where
  "do_upper put' p e = rbind (arg e 1) (\<lambda>a. Inr (setO (put' (toUpper a)) p))"

definition do_cert_type :: "parser \<Rightarrow> entry \<Rightarrow> string \<Rightarrow> (opt_err, parser) res" where
  "do_cert_type p e name =
    rbind (arg e 1) (\<lambda>a.
    if toLower a \<noteq> ''server'' then Inl (Err (MsgArg ''only server makes sense for a client'' a))
    else if name = ''remote-cert-tls'' then Inr (setO (\<lambda>o'. o'\<lparr>o_RemoteCertTLS := ''server''\<rparr>) p)
    else Inr (setO (\<lambda>o'. o'\<lparr>o_NsCertType := ''server''\<rparr>) p))"

definition do_verify_name :: "parser \<Rightarrow> entry \<Rightarrow> (opt_err, parser) res" where
  "do_verify_name p e =
    rbind (arg e 1) (\<lambda>a.
    let typ = (if nargs e > 2 then toLower (e_args e ! 2) else ''subject'') in
    if typ \<noteq> ''subject'' \<and> typ \<noteq> ''name'' \<and> typ \<noteq> ''name-prefix'' then Inl (Err (MsgArg ''verify-x509-name: unknown type'' typ))
    else Inr (setO (\<lambda>o'. o'\<lparr>o_VerifyX509Name := a, o_VerifyX509Type := typ\<rparr>) p))"

definition do_tls_min :: "parser \<Rightarrow> entry \<Rightarrow> (opt_err, parser) res" where
  "do_tls_min p e =
    rbind (arg e 1) (\<lambda>a.
    case tlsVersion a of Some v \<Rightarrow> Inr (setO (\<lambda>o'. o'\<lparr>o_TLSVersionMin := v\<rparr>) p)
    | None \<Rightarrow> if nargs e > 2 \<and> toLower (e_args e ! 2) = ''or-highest'' then Inr (setO (\<lambda>o'. o'\<lparr>o_TLSVersionMin := ''1.3''\<rparr>) p)
        else Inl (Err (MsgArg ''tls-version-min: unknown version'' a)))"

definition do_tls_max :: "parser \<Rightarrow> entry \<Rightarrow> (opt_err, parser) res" where
  "do_tls_max p e =
    rbind (arg e 1) (\<lambda>a.
    case tlsVersion a of Some v \<Rightarrow> Inr (setO (\<lambda>o'. o'\<lparr>o_TLSVersionMax := v\<rparr>) p)
    | None \<Rightarrow> Inl (Err (MsgArg ''tls-version-max: unknown version'' a)))"

definition do_compression :: "parser \<Rightarrow> entry \<Rightarrow> string \<Rightarrow> (opt_err, parser) res" where
  "do_compression p e name =
    rbind (parseCompression name (if nargs e > 1 then e_args e ! 1 else [])) (\<lambda>m.
    Inr (setO (\<lambda>o'. o'\<lparr>o_Compression := m, o_CompressionSet := True\<rparr>) p))"

definition do_tun_mtu :: "parser \<Rightarrow> entry \<Rightarrow> (opt_err, parser) res" where
  "do_tun_mtu p e =
    rbind (arg e 1) (\<lambda>a. rbind (within ''tun-mtu'' (parseMTU a)) (\<lambda>mtu. Inr (setO (\<lambda>o'. o'\<lparr>o_TunMTU := mtu\<rparr>) p)))"

definition do_seconds :: "parser \<Rightarrow> entry \<Rightarrow> string \<Rightarrow> (opt_err, parser) res" where
  "do_seconds p e name =
    rbind (arg e 1) (\<lambda>a. rbind (within name (parseSeconds a)) (\<lambda>d.
    if name = ''ping'' then Inr (setO (\<lambda>o'. o'\<lparr>o_Ping := d\<rparr>) p)
    else if name = ''ping-restart'' \<or> name = ''ping-exit'' then Inr (setO (\<lambda>o'. o'\<lparr>o_PingRestart := d, o_PingRestartSet := True\<rparr>) p)
    else if name = ''reneg-sec'' then Inr (setO (\<lambda>o'. o'\<lparr>o_RenegSec := d\<rparr>) p)
    else if name = ''hand-window'' then
      (if d = 0 then Inl (Err (Msg ''hand-window: must be positive'')) else Inr (setO (\<lambda>o'. o'\<lparr>o_HandWindow := d\<rparr>) p))
    else Inr (setO (\<lambda>o'. o'\<lparr>o_ConnectTimeout := (if d = 0 then defaultConnectTimeout else d)\<rparr>) p)))"

definition do_keepalive :: "parser \<Rightarrow> entry \<Rightarrow> (opt_err, parser) res" where
  "do_keepalive p e =
    (if nargs e < 3 then Inl (Err (Msg ''keepalive: needs two arguments''))
     else rbind (within ''keepalive'' (parseSeconds (e_args e ! 1))) (\<lambda>ping.
     rbind (within ''keepalive'' (parseSeconds (e_args e ! 2))) (\<lambda>restart.
     Inr (setO (\<lambda>o'. o'\<lparr>o_Ping := ping, o_PingRestart := restart, o_PingRestartSet := True\<rparr>) p))))"

text \<open>The count of \<open>explicit-exit-notify\<close>.\<close>

definition exitCount :: "string list \<Rightarrow> (opt_err, int) res" where
  "exitCount as =
    (case as of [] \<Rightarrow> Inr 1
     | a # _ \<Rightarrow> (case atoi a of None \<Rightarrow> Inl (Err (MsgArg ''explicit-exit-notify: bad count'' a))
        | Some v \<Rightarrow> if v < 0 \<or> v > 1000 then Inl (Err (MsgArg ''explicit-exit-notify: bad count'' a)) else Inr v))"

definition do_exit_notify :: "parser \<Rightarrow> entry \<Rightarrow> (opt_err, parser) res" where
  "do_exit_notify p e = rbind (exitCount (drop 1 (e_args e))) (\<lambda>n. Inr (setO (\<lambda>o'. o'\<lparr>o_ExplicitExitNotify := n\<rparr>) p))"

definition do_pull_filter :: "parser \<Rightarrow> entry \<Rightarrow> (opt_err, parser) res" where
  "do_pull_filter p e =
    (if nargs e < 3 then Inl (Err (Msg ''pull-filter: needs an action and a text''))
     else
     let action = toLower (e_args e ! 1) in
     if action \<noteq> ''accept'' \<and> action \<noteq> ''ignore'' \<and> action \<noteq> ''reject'' then Inl (Err (MsgArg ''pull-filter: unknown action'' (e_args e ! 1)))
     else Inr (setO (\<lambda>o'. o'\<lparr>o_PullFilters := o_PullFilters o' @ [\<lparr>pf_Action = action, pf_Prefix = e_args e ! 2\<rparr>]\<rparr>) p))"

definition do_dev :: "parser \<Rightarrow> entry \<Rightarrow> string \<Rightarrow> (opt_err, parser) res" where
  "do_dev p e name =
    rbind (arg e 1) (\<lambda>a. ignore (if name = ''dev'' then p\<lparr>ps_devName := toLower a\<rparr> else p\<lparr>ps_devType := toLower a\<rparr>) name)"

definition do_mode :: "parser \<Rightarrow> entry \<Rightarrow> string \<Rightarrow> (opt_err, parser) res" where
  "do_mode p e name =
    (if nargs e > 1 \<and> toLower (e_args e ! 1) = ''server'' then unsupported ''mode server'' else ignore p name)"

definition do_key_method :: "parser \<Rightarrow> entry \<Rightarrow> string \<Rightarrow> (opt_err, parser) res" where
  "do_key_method p e name =
    (if nargs e > 1 \<and> e_args e ! 1 \<noteq> ''2'' then unsupported (''key-method '' @ e_args e ! 1) else ignore p name)"

definition askpass :: "fileSys \<Rightarrow> parser \<Rightarrow> entry \<Rightarrow> (opt_err, parser) res" where
  "askpass fs p e =
    (if nargs e < 2 \<or> e_args e ! 1 = [] \<or> isInline (e_args e ! 1) \<or> o_BaseDir (ps_o p) = [] then ignore_entry p e
     else rbind (within ''askpass'' (readFile fs (o_BaseDir (ps_o p)) (e_args e ! 1))) (\<lambda>data.
     Inr (setO (\<lambda>o'. o'\<lparr>o_KeyPassword := trimRightSet [CHR 0x0D] (fst (cutChar (CHR 0x0A) data))\<rparr>) p)))"

section \<open>Directives whose argument is file content\<close>

text \<open>The lines of a block that are neither empty nor comments, each read by a function.\<close>

definition dataLines :: "string \<Rightarrow> string list" where
  "dataLines text = filter (\<lambda>l. l \<noteq> [] \<and> hd l \<noteq> CHR ''#'' \<and> hd l \<noteq> CHR '';'') (map trimSpace (splitChar (CHR 0x0A) text))"

fun mapRes :: "('a \<Rightarrow> (opt_err, 'b) res) \<Rightarrow> 'a list \<Rightarrow> (opt_err, 'b list) res" where
  "mapRes f [] = Inr []"
| "mapRes f (x # xs) = rbind (f x) (\<lambda>y. rbind (mapRes f xs) (\<lambda>ys. Inr (y # ys)))"

definition text_of :: "string option \<Rightarrow> string" where
  "text_of d = (case d of None \<Rightarrow> [] | Some t \<Rightarrow> t)"

text \<open>The certificates and keys.\<close>

definition block_key :: "fileSys \<Rightarrow> parser \<Rightarrow> entry \<Rightarrow> string \<Rightarrow> (opt_err, parser) res" where
  "block_key fs p e name =
    rbind (content fs p e) (\<lambda>(data, _).
    if name = ''ca'' then Inr (setO (\<lambda>o'. o'\<lparr>o_CA := data\<rparr>) p)
    else if name = ''cert'' then Inr (setO (\<lambda>o'. o'\<lparr>o_Cert := data\<rparr>) p)
    else if name = ''key'' then Inr (setO (\<lambda>o'. o'\<lparr>o_Key := data\<rparr>) p)
    else if name = ''extra-certs'' then Inr (setO (\<lambda>o'. o'\<lparr>o_ExtraCerts := data\<rparr>) p)
    else if name = ''tls-auth'' then
      (let p = setO (\<lambda>o'. o'\<lparr>o_TLSAuth := data\<rparr>) p in
       if \<not> e_block e \<and> nargs e > 2 then
         rbind (within ''tls-auth'' (parseDirection (e_args e ! 2))) (\<lambda>d. Inr (setO (\<lambda>o'. o'\<lparr>o_KeyDirection := d\<rparr>) p))
       else Inr p)
    else if name = ''tls-crypt'' then Inr (setO (\<lambda>o'. o'\<lparr>o_TLSCrypt := data\<rparr>) p)
    else Inr (setO (\<lambda>o'. o'\<lparr>o_TLSCryptV2 := data\<rparr>) p))"

definition block_pkcs12 :: "fileSys \<Rightarrow> parser \<Rightarrow> entry \<Rightarrow> (opt_err, parser) res" where
  "block_pkcs12 fs p e =
    rbind (content fs p e) (\<lambda>(data, fromBlock).
    if fromBlock then
      (case decodeBase64 (text_of data) of None \<Rightarrow> Inl (Err (Msg ''pkcs12: inline block is not base64''))
       | Some b \<Rightarrow> Inr (setO (\<lambda>o'. o'\<lparr>o_PKCS12 := Some (string_of b)\<rparr>) p))
    else Inr (setO (\<lambda>o'. o'\<lparr>o_PKCS12 := data\<rparr>) p))"

definition block_crl :: "fileSys \<Rightarrow> parser \<Rightarrow> entry \<Rightarrow> (opt_err, parser) res" where
  "block_crl fs p e =
    rbind (content fs p e) (\<lambda>(data, _).
    if trimSpace (text_of data) = [] then Inl (Err (Msg ''crl-verify: no CRL'')) else Inr (setO (\<lambda>o'. o'\<lparr>o_CRLVerify := data\<rparr>) p))"

definition block_verify_hash :: "parser \<Rightarrow> entry \<Rightarrow> (opt_err, parser) res" where
  "block_verify_hash p e =
    rbind (mapRes (\<lambda>l. within ''verify-hash'' (parseHash l ''SHA256'')) (dataLines (text_of (e_content e)))) (\<lambda>hs.
    if hs = [] then Inl (Err (Msg ''verify-hash: no digest in the block''))
    else Inr (setO (\<lambda>o'. o'\<lparr>o_VerifyHash := hs, o_VerifyHashAlgo := ''SHA256''\<rparr>) p))"

definition block_user_pass :: "fileSys \<Rightarrow> parser \<Rightarrow> entry \<Rightarrow> string \<Rightarrow> (opt_err, parser) res" where
  "block_user_pass fs p e name =
    (let p = setO (\<lambda>o'. o'\<lparr>o_AuthUserPass := True, o_AuthUserPassFile := []\<rparr>) p in
     if \<not> e_block e \<and> nargs e < 2 then Inr p
     else if \<not> e_block e \<and> o_BaseDir (ps_o p) = [] \<and> ps_blocks p name = None \<and> e_args e ! 1 \<noteq> [] \<and> \<not> isInline (e_args e ! 1) then
       ignore (setO (\<lambda>o'. o'\<lparr>o_AuthUserPassFile := e_args e ! 1\<rparr>) p) name
     else rbind (content fs p e) (\<lambda>(data, _).
       let (user, pass) = credentials (text_of data) in Inr (setO (\<lambda>o'. o'\<lparr>o_Username := user, o_Password := pass\<rparr>) p)))"

definition block_fingerprint :: "fileSys \<Rightarrow> parser \<Rightarrow> entry \<Rightarrow> (opt_err, parser) res" where
  "block_fingerprint fs p e =
    rbind (if \<not> e_block e \<and> nargs e > 1 \<and> \<not> isInline (e_args e ! 1) then Inr (e_args e ! 1)
           else rbind (content fs p e) (\<lambda>(data, _). Inr (text_of data))) (\<lambda>text.
    rbind (mapRes (\<lambda>l. within ''peer-fingerprint'' (parseFingerprint l)) (dataLines text)) (\<lambda>fps.
    if fps = [] then Inl (Err (Msg ''peer-fingerprint: no fingerprint''))
    else Inr (setO (\<lambda>o'. o'\<lparr>o_PeerFingerprints := o_PeerFingerprints o' @ fps\<rparr>) p)))"

definition applyBlock :: "fileSys \<Rightarrow> parser \<Rightarrow> entry \<Rightarrow> (opt_err, parser) res" where
  "applyBlock fs p e =
    rbind (ename e) (\<lambda>name.
    if name \<in> set [''ca'', ''cert'', ''key'', ''extra-certs'', ''tls-auth'', ''tls-crypt'', ''tls-crypt-v2''] then block_key fs p e name
    else if name = ''pkcs12'' then block_pkcs12 fs p e
    else if name = ''crl-verify'' then block_crl fs p e
    else if name = ''verify-hash'' then block_verify_hash p e
    else if name = ''auth-user-pass'' then block_user_pass fs p e name
    else if name = ''peer-fingerprint'' then block_fingerprint fs p e
    else if name = ''secret'' then unsupported ''secret''
    else ignore p name)"

section \<open>The switch\<close>

definition apply_directive :: "fileSys \<Rightarrow> parser \<Rightarrow> entry \<Rightarrow> string \<Rightarrow> (opt_err, parser) res" where
  "apply_directive fs p e name =
    (if name = ''remote'' then do_remote p e
     else if name = ''proto'' then do_proto p e
     else if name \<in> set [''port'', ''rport''] then do_port p e name
     else if name = ''remote-random'' then Inr (setO (\<lambda>o'. o'\<lparr>o_RemoteRandom := True\<rparr>) p)
     else if name \<in> set [''ca'', ''cert'', ''key'', ''extra-certs'', ''pkcs12'', ''tls-auth'', ''tls-crypt'', ''tls-crypt-v2'',
       ''auth-user-pass'', ''peer-fingerprint''] then applyBlock fs p e
     else if name = ''crl-verify'' then
       (if nargs e > 2 \<and> toLower (e_args e ! 2) = ''dir'' then unsupported ''crl-verify dir'' else applyBlock fs p e)
     else if name = ''askpass'' then askpass fs p e
     else if name = ''static-challenge'' then do_static_challenge p e name
     else if name = ''remote-cert-eku'' then do_remote_cert_eku p e
     else if name = ''remote-cert-ku'' then remoteCertKU p e
     else if name = ''verify-hash'' then do_verify_hash p e
     else if name = ''key-direction'' then do_key_direction p e
     else if name = ''cipher'' then do_upper (\<lambda>a o'. o'\<lparr>o_Cipher := a\<rparr>) p e
     else if name \<in> set [''data-ciphers'', ''ncp-ciphers''] then do_data_ciphers p e name
     else if name = ''data-ciphers-fallback'' then do_upper (\<lambda>a o'. o'\<lparr>o_DataCiphersFallback := a\<rparr>) p e
     else if name = ''auth'' then do_upper (\<lambda>a o'. o'\<lparr>o_Auth := a\<rparr>) p e
     else if name \<in> set [''remote-cert-tls'', ''ns-cert-type''] then do_cert_type p e name
     else if name = ''verify-x509-name'' then do_verify_name p e
     else if name = ''tls-version-min'' then do_tls_min p e
     else if name = ''tls-version-max'' then do_tls_max p e
     else if name \<in> set [''comp-lzo'', ''compress''] then do_compression p e name
     else if name = ''tun-mtu'' then do_tun_mtu p e
     else if name \<in> set [''ping'', ''ping-restart'', ''ping-exit'', ''reneg-sec'', ''hand-window'', ''connect-timeout'',
       ''server-poll-timeout''] then do_seconds p e name
     else if name = ''keepalive'' then do_keepalive p e
     else if name = ''explicit-exit-notify'' then do_exit_notify p e
     else if name = ''pull-filter'' then do_pull_filter p e
     else if name \<in> set [''dev'', ''dev-type''] then do_dev p e name
     else if name = ''mode'' then do_mode p e name
     else if name = ''key-method'' then do_key_method p e name
     else if name \<in> set [''fragment'', ''secret'', ''http-proxy'', ''socks-proxy'', ''cryptoapicert'', ''management-external-key'',
       ''management-external-cert'', ''server'', ''server-bridge'', ''tls-server'', ''tls-remote'', ''tls-verify''] then unsupported name
     else if hasPrefix name ''pkcs11-'' then unsupported name
     else ignore p name)"

definition apply_entry :: "fileSys \<Rightarrow> parser \<Rightarrow> entry \<Rightarrow> (opt_err, parser) res" where
  "apply_entry fs p e =
    rbind (ename e) (\<lambda>name.
    if e_block e then applyBlock fs p e
    else if e_connOpen e then openConn p e
    else apply_directive fs p e name)"

fun applyAll :: "fileSys \<Rightarrow> parser \<Rightarrow> entry list \<Rightarrow> (opt_err, parser) res" where
  "applyAll fs p [] = Inr p"
| "applyAll fs p (e # es) = rbind (atLine (e_src e) (e_line e) (apply_entry fs p e)) (\<lambda>p. applyAll fs p es)"

section \<open>The whole profile\<close>

definition makeRemote :: "string \<Rightarrow> u16 \<Rightarrow> string \<Rightarrow> remote" where
  "makeRemote host port network =
    \<lparr>r_Host = host, r_Port = (if port = 0 then defaultPort else port), r_Network = (if network = [] then ''udp'' else network)\<rparr>"

fun connRemotes :: "connBlock list \<Rightarrow> (opt_err, remote list) res" where
  "connRemotes [] = Inr []"
| "connRemotes (c # cs) =
    (if c_host c = [] then Inl (Err (AtLine (c_src c) (c_line c) (Msg ''<connection> block without remote'')))
     else rbind (connRemotes cs) (\<lambda>rs. Inr (makeRemote (c_host c) (c_port c) (c_network c) # rs)))"

definition specRemote :: "parser \<Rightarrow> remoteSpec \<Rightarrow> remote" where
  "specRemote p r =
    makeRemote (s_host r) (if s_port r = 0 then ps_port p else s_port r) (if s_network r = [] then ps_network p else s_network r)"

definition finish_profile :: "parser \<Rightarrow> (opt_err, parser) res" where
  "finish_profile p =
    rbind (connRemotes (ps_conns p)) (\<lambda>rs.
    let p = setO (\<lambda>o'. o'\<lparr>o_Remotes := o_Remotes o' @ rs\<rparr>) p in
    rbind (if ps_conns p \<noteq> [] \<and> ps_remotes p \<noteq> [] then ignore p ''remote''
           else Inr (setO (\<lambda>o'. o'\<lparr>o_Remotes := o_Remotes o' @ map (specRemote p) (ps_remotes p)\<rparr>) p)) (\<lambda>p.
    let dev = (if ps_devType p = [] then ps_devName p else ps_devType p) in
    if hasPrefix dev ''tap'' then unsupported (if ps_devType p \<noteq> [] then ''dev-type tap'' else ''dev tap'')
    else if length (filter (\<lambda>k. k \<noteq> None) [o_TLSAuth (ps_o p), o_TLSCrypt (ps_o p), o_TLSCryptV2 (ps_o p)]) > 1
    then Inl (Err (Msg ''tls-auth, tls-crypt and tls-crypt-v2 are mutually exclusive''))
    else Inr p))"

definition parse :: "fileSys \<Rightarrow> string \<Rightarrow> string \<Rightarrow> (opt_err, ovpnOptions) res" where
  "parse fs text dir =
    rbind (collect fs (splitLines text) 0 [] 0 (-1) (newParser dir)) (\<lambda>p.
    rbind (applyAll fs p (ps_entries p)) (\<lambda>p.
    rbind (finish_profile p) (\<lambda>p. Inr (ps_o p))))"

definition Parse :: "fileSys \<Rightarrow> string \<Rightarrow> (opt_err, ovpnOptions) res" where
  "Parse fs text = parse fs text []"

definition ParseWithBaseDir :: "fileSys \<Rightarrow> string \<Rightarrow> string \<Rightarrow> (opt_err, ovpnOptions) res" where
  "ParseWithBaseDir fs text dir = parse fs text dir"

end
