(* ===== verification/Options_Args.thy ===== *)
theory Options_Args
  imports Options_Lex
begin

text \<open>
  Arguments written in quotes or bare are read back (C31), and a name that reaches a log is a known
  name or words joined by hyphens.
\<close>

section \<open>Writing arguments\<close>

definition escapeArg :: "string \<Rightarrow> string" where
  "escapeArg a = concat (map (\<lambda>c. if c = backslash \<or> c = quot then [backslash, c] else [c]) a)"

definition quoteArg :: "string \<Rightarrow> string" where
  "quoteArg a = quot # escapeArg a @ [quot]"

text \<open>What can stand without quotes.\<close>

definition bareOk :: "string \<Rightarrow> bool" where
  "bareOk a \<longleftrightarrow> a \<noteq> [] \<and> hd a \<notin> {CHR ''#'', CHR '';'', quot, apostrophe} \<and> list_all (\<lambda>c. \<not> isSpace c \<and> c \<noteq> backslash) a"

text \<open>Arguments, each with whether it is quoted, each followed by a space.\<close>

definition printArg :: "bool \<times> string \<Rightarrow> string" where
  "printArg qa = (if fst qa then quoteArg (snd qa) else snd qa)"

definition printArgs :: "(bool \<times> string) list \<Rightarrow> string" where
  "printArgs qs = concat (map (\<lambda>qa. printArg qa @ '' '') qs)"

definition isComment :: "string \<Rightarrow> bool" where
  "isComment s \<longleftrightarrow> s = [] \<or> hd s = CHR ''#'' \<or> hd s = CHR '';''"

section \<open>Reading them\<close>

lemma quot_not [simp]: "quot \<noteq> backslash" "backslash \<noteq> quot" "isEscaped quot" "isEscaped backslash" "\<not> isSpace quot" "quot \<noteq> CHR ''#''" "quot \<noteq> CHR '';''"
  by (simp_all add: quot_def backslash_def isEscaped_def isSpace_def)

lemma dquoted_escapeArg: "dquoted cur (escapeArg a @ quot # rest) = Some (cur @ a, rest)"
proof (induction a arbitrary: cur)
  case Nil
  then show ?case by (cases rest) (simp_all add: escapeArg_def)
next
  case (Cons c a)
  let ?s = "escapeArg a @ quot # rest"
  obtain d s where s: "?s = d # s" by (cases ?s) auto
  show ?case
  proof (cases "c = backslash \<or> c = quot")
    case True
    then have "escapeArg (c # a) @ quot # rest = backslash # c # ?s" by (simp add: escapeArg_def)
    then show ?thesis using Cons.IH [of "cur @ [c]"] True by auto
  next
    case False
    then have "escapeArg (c # a) @ quot # rest = c # d # s" using s by (simp add: escapeArg_def)
    then show ?thesis using Cons.IH [of "cur @ [c]"] False s by simp
  qed
qed

lemma argLoop_space: "isSpace c \<Longrightarrow> argLoop args cur False (c # s) = argLoop args cur False s"
  by (subst argLoop.simps) simp

lemma argLoop_quoted: "argLoop args [] False (quoteArg a @ s) = argLoop (args @ [a]) [] False s"
  by (subst argLoop.simps) (simp add: quoteArg_def dquoted_escapeArg)

lemma argLoop_inside:
  assumes "list_all (\<lambda>c. \<not> isSpace c \<and> c \<noteq> backslash) a" "s = [] \<or> isSpace (hd s)"
  shows "argLoop args cur True (a @ s) = argLoop (args @ [cur @ a]) [] False (drop 1 s)"
  using assms
proof (induction a arbitrary: cur)
  case Nil
  then show ?case
    by (cases s) (subst argLoop.simps, simp add: argLoop.simps [of _ _ _ "[]"], subst argLoop.simps, simp)
next
  case (Cons c a)
  have "\<not> escapes (c # a @ s)" using Cons.prems by (cases "a @ s") auto
  then have "argLoop args cur True ((c # a) @ s) = argLoop args (cur @ [c]) True (a @ s)"
    using Cons.prems by (subst argLoop.simps) simp
  then show ?case using Cons by simp
qed

lemma argLoop_bare:
  assumes a: "bareOk a" and s: "s = [] \<or> isSpace (hd s)"
  shows "argLoop args [] False (a @ s) = argLoop (args @ [a]) [] False (drop 1 s)"
proof -
  obtain c t where c: "a = c # t" using a by (cases a) (auto simp: bareOk_def)
  have ne: "\<not> escapes (c # t @ s)" using a c by (cases "t @ s") (auto simp: bareOk_def)
  have "argLoop args [] False (a @ s) = argLoop args [c] True (t @ s)"
    using a ne unfolding c by (subst argLoop.simps) (simp add: bareOk_def)
  also have "\<dots> = argLoop (args @ [[c] @ t]) [] False (drop 1 s)"
    by (rule argLoop_inside) (use a s c in \<open>auto simp: bareOk_def\<close>)
  finally show ?thesis by (simp add: c)
qed

lemma argLoop_printArgs:
  assumes "list_all (\<lambda>(q, a). q \<or> bareOk a) qs"
  shows "argLoop args [] False (printArgs qs @ s) = argLoop (args @ map snd qs) [] False s"
  using assms
proof (induction qs arbitrary: args)
  case (Cons qa qs)
  obtain q a where qa: "qa = (q, a)" by fastforce
  have "argLoop args [] False (printArgs (qa # qs) @ s) = argLoop (args @ [a]) [] False (printArgs qs @ s)"
  proof (cases q)
    case True
    then show ?thesis by (simp add: printArgs_def printArg_def qa argLoop_quoted argLoop_space isSpace_def)
  next
    case False
    then show ?thesis using argLoop_bare [of a "CHR '' '' # printArgs qs @ s" args] Cons.prems qa
      by (simp add: printArgs_def printArg_def isSpace_def)
  qed
  then show ?case using Cons qa by simp
qed (simp add: printArgs_def)

lemma argLoop_comment: "isComment s \<Longrightarrow> argLoop args [] False s = Inr args"
  by (cases s) (subst argLoop.simps, simp, subst argLoop.simps, auto simp: isComment_def isSpace_def)

text \<open>
  Claim C31. What is written as arguments is read back: a line of arguments, each in double quotes with backslash and quote
  escaped (any text, the empty one too) or bare (where it starts with no quote or comment sign and has no white space and
  no backslash), followed by a comment or by nothing, is split into exactly these arguments.
\<close>

theorem splitArgs_printArgs:
  assumes "list_all (\<lambda>(q, a). q \<or> bareOk a) qs" "isComment c"
  shows "splitArgs (printArgs qs @ c) = Inr (map snd qs)"
  unfolding splitArgs_def argLoop_printArgs [OF assms(1)] by (simp add: argLoop_comment [OF assms(2)])

theorem splitArgs_printArgs_witness:
  "splitArgs (printArgs [(False, ''verify-x509-name''), (True, ''C=US, O=a b''), (True, []), (True, [backslash, quot])] @ ''# note'') =
     Inr [''verify-x509-name'', ''C=US, O=a b'', [], [backslash, quot]]"
proof -
  have "bareOk ''verify-x509-name''" by code_simp
  then show ?thesis
    using splitArgs_printArgs [of "[(False, ''verify-x509-name''), (True, ''C=US, O=a b''), (True, []), (True, [backslash, quot])]" "''# note''"]
    by (simp add: isComment_def)
qed

section \<open>Names that are logged\<close>

text \<open>A known name, the placeholder, or at most 48 lower-case letters, digits and hyphens, a letter first, a
  hyphen among them.\<close>

definition loggable :: "string \<Rightarrow> bool" where
  "loggable n \<longleftrightarrow> n = unrecognized \<or> n \<in> set plainNames \<or>
     (length n \<le> 48 \<and> list_all (\<lambda>c. isLower c \<or> isNumeral c \<or> c = CHR ''-'') n \<and> isLower (hd n) \<and> CHR ''-'' \<in> set n)"

lemma nameLoop_result:
  assumes "prev \<noteq> None \<or> (s \<noteq> [] \<and> hd s \<noteq> CHR ''-'')"
  shows "yields (\<lambda>h. \<forall>b. h = Some b \<longrightarrow> list_all (\<lambda>c. isLower c \<or> isNumeral c \<or> c = CHR ''-'') s \<and> (b \<longrightarrow> hy \<or> CHR ''-'' \<in> set s))
    (nameLoop prev hy s)"
  using assms
proof (induction prev hy s rule: nameLoop.induct)
  case (2 prev hy c s)
  show ?case
  proof (cases "isLower c \<or> isNumeral c")
    case True
    then show ?thesis using 2(1) by (auto elim: yields_mono)
  next
    case False
    show ?thesis
    proof (cases "c = CHR ''-''")
      case True
      then obtain d where d: "prev = Some d" using 2(3) by auto
      show ?thesis
      proof (cases "d \<noteq> CHR ''-'' \<and> s \<noteq> []")
        case dd: True
        have "nameLoop prev hy (c # s) = nameLoop (Some c) True s" using False True d dd by simp
        moreover note 2(2) [OF False True d dd]
        ultimately show ?thesis using True by (auto elim: yields_mono)
      qed (use False True d in auto)
    qed (use False in simp)
  qed
qed simp

lemma ignoredName_loggable: "yields loggable (ignoredName name)"
proof (cases "name \<in> set plainNames \<or> length name > 48 \<or> length name = 0 \<or> \<not> isLower (name ! 0)")
  case True
  then show ?thesis by (auto simp: ignoredName_def loggable_def)
next
  case False
  then have n: "name \<noteq> []" "isLower (hd name)" "length name \<le> 48" by (auto simp: hd_conv_nth)
  have "hd name \<noteq> CHR ''-''" using n(2) by (auto simp: isLower_def lowerLetters_def)
  then have "yields (\<lambda>h. \<forall>b. h = Some b \<longrightarrow> list_all (\<lambda>c. isLower c \<or> isNumeral c \<or> c = CHR ''-'') name \<and> (b \<longrightarrow> False \<or> CHR ''-'' \<in> set name))
      (nameLoop None False name)" using n(1) by (intro nameLoop_result) simp
  then show ?thesis
    unfolding ignoredName_def using False n
    by (auto simp: loggable_def intro!: yields_rbind split: option.split bool.split)
qed

end
