(* ===== verification/Options_Profile.thy ===== *)
theory Options_Profile
  imports Options_Parse Options_Args
begin

text \<open>
  What every profile that is accepted satisfies, and that no text, file system or nesting of
  includes makes the parser panic: an invariant of the parser that every directive keeps.
\<close>

section \<open>Well-formed profiles\<close>

definition networks :: "string list" where
  "networks = [''udp'', ''udp4'', ''udp6'', ''tcp'', ''tcp4'', ''tcp6'']"

definition durationOk :: "duration \<Rightarrow> bool" where
  "durationOk d \<longleftrightarrow> 0 \<le> d \<and> d \<le> int maxSeconds * Second"

definition hashesOk :: "bytes list \<Rightarrow> string \<Rightarrow> bool" where
  "hashesOk hs algo \<longleftrightarrow> (hs = [] \<and> algo = []) \<or> (hs \<noteq> [] \<and> algo = ''SHA1'' \<and> list_all (\<lambda>h. length h = 20) hs) \<or>
     (hs \<noteq> [] \<and> algo = ''SHA256'' \<and> list_all (\<lambda>h. length h = 32) hs)"

definition oneOf :: "'a list \<Rightarrow> 'a \<Rightarrow> bool" where
  "oneOf xs x \<longleftrightarrow> x \<in> set xs"

lemma oneOfI: "x \<in> set xs \<Longrightarrow> oneOf xs x"
  by (simp add: oneOf_def)

definition optsOk :: "ovpnOptions \<Rightarrow> bool" where
  "optsOk o' \<longleftrightarrow>
    oneOf [-1, 0, 1] (o_KeyDirection o') \<and> o_DataCiphers o' \<noteq> [] \<and>
    oneOf [[], ''server''] (o_RemoteCertTLS o') \<and> oneOf [[], ''server''] (o_NsCertType o') \<and>
    oneOf [[], ''subject'', ''name'', ''name-prefix''] (o_VerifyX509Type o') \<and>
    oneOf [[], ''1.0'', ''1.1'', ''1.2'', ''1.3''] (o_TLSVersionMin o') \<and> oneOf [[], ''1.0'', ''1.1'', ''1.2'', ''1.3''] (o_TLSVersionMax o') \<and>
    list_all (\<lambda>h. length h = 32) (o_PeerFingerprints o') \<and> hashesOk (o_VerifyHash o') (o_VerifyHashAlgo o') \<and>
    0 \<notin> set (o_RemoteCertKU o') \<and> 68 \<le> o_TunMTU o' \<and> o_TunMTU o' \<le> 65535 \<and>
    durationOk (o_Ping o') \<and> durationOk (o_PingRestart o') \<and> durationOk (o_RenegSec o') \<and>
    durationOk (o_HandWindow o') \<and> o_HandWindow o' \<noteq> 0 \<and> durationOk (o_ConnectTimeout o') \<and> o_ConnectTimeout o' \<noteq> 0 \<and>
    0 \<le> o_ExplicitExitNotify o' \<and> o_ExplicitExitNotify o' \<le> 1000 \<and> oneOf [ModeNone, LZO, Swap, V2] (o_Compression o') \<and>
    list_all (\<lambda>f. oneOf [''accept'', ''ignore'', ''reject''] (pf_Action f)) (o_PullFilters o') \<and>
    distinct (o_Ignored o') \<and> list_all loggable (o_Ignored o')"

definition networkOk :: "string \<Rightarrow> bool" where
  "networkOk n \<longleftrightarrow> n = [] \<or> n \<in> set networks"

definition parserOk :: "string \<Rightarrow> nat \<Rightarrow> parser \<Rightarrow> bool" where
  "parserOk dir n p \<longleftrightarrow>
    optsOk (ps_o p) \<and> o_BaseDir (ps_o p) = dir \<and> o_Remotes (ps_o p) = [] \<and> length (ps_conns p) = n \<and> list_all (\<lambda>c. networkOk (c_network c)) (ps_conns p) \<and>
    list_all (\<lambda>r. s_host r \<noteq> [] \<and> networkOk (s_network r)) (ps_remotes p) \<and> networkOk (ps_network p) \<and>
    ps_ignored p = set (o_Ignored (ps_o p))"

definition entryOk :: "nat \<Rightarrow> entry \<Rightarrow> bool" where
  "entryOk n e \<longleftrightarrow> e_args e \<noteq> [] \<and> e_conn e < int n \<and> (e_connOpen e \<longrightarrow> 0 \<le> e_conn e)"

text \<open>What is promised of the result.\<close>

definition remoteOk :: "remote \<Rightarrow> bool" where
  "remoteOk r \<longleftrightarrow> r_Host r \<noteq> [] \<and> r_Port r \<noteq> 0 \<and> r_Network r \<in> set networks"

definition profileOk :: "ovpnOptions \<Rightarrow> bool" where
  "profileOk o' \<longleftrightarrow> optsOk o' \<and> list_all remoteOk (o_Remotes o') \<and>
     length (filter (\<lambda>k. k \<noteq> None) [o_TLSAuth o', o_TLSCrypt o', o_TLSCryptV2 o']) \<le> 1"

section \<open>Values\<close>

lemma yields_within [simp]: "yields P (within n m) = yields P m"
  by (auto simp: yields_def within_def split: sum.splits fault.splits)

lemma yields_atLine [simp]: "yields P (atLine src n m) = yields P m"
  by (auto simp: yields_def atLine_def split: sum.splits fault.splits)

lemma yields_unsupported [simp, intro!]: "yields P (unsupported w)"
  by (simp add: unsupported_def)

lemma yields_arg: "yields (\<lambda>a. i < length (e_args e)) (arg e i)"
  by (simp add: arg_def)

lemma yields_parseProto: "yields (\<lambda>n. n \<in> set networks) (parseProto s)"
  by (auto simp: parseProto_def Let_def networks_def trimSuffix_def hasSuffix_def)

lemma yields_parsePort: "yields (\<lambda>n. n \<noteq> 0) (parsePort s)"
proof (cases "parseUint10 16 s")
  case (Some n)
  have "n < 65536" using Some by (auto simp: parseUint10_def split: option.splits if_splits)
  then have "unat (of_nat n :: u16) = n" by (simp add: unsigned_of_nat take_bit_nat_eq_self)
  then have "of_nat n \<noteq> (0 :: u16)" if "n \<noteq> 0" using that by auto
  then show ?thesis using Some by (simp add: parsePort_def)
qed (simp add: parsePort_def)

lemma yields_parseDirection: "yields (\<lambda>d. d = 0 \<or> d = 1) (parseDirection s)"
  by (simp add: parseDirection_def)

lemma yields_parseSeconds: "yields durationOk (parseSeconds s)"
  by (auto simp: parseSeconds_def durationOk_def Second_def split: option.split)

lemma yields_parseMTU: "yields (\<lambda>n. 68 \<le> n \<and> n \<le> 65535) (parseMTU s)"
  by (auto simp: parseMTU_def split: option.split)

lemma yields_parseCompression: "yields (oneOf [ModeNone, LZO, Swap, V2]) (parseCompression name a)"
  by (auto simp: parseCompression_def ParseCompLZO_def ParseCompress_def oneOf_def)

lemma length_hexDecode: "hexDecode s = Some b \<Longrightarrow> length s = 2 * length b"
  by (induction s arbitrary: b rule: hexDecode.induct) (auto split: option.splits)

lemma yields_parseFingerprint: "yields (\<lambda>b. length b = 32) (parseFingerprint s)"
  using length_hexDecode [of "removeChars [CHR '':''] s"] by (auto simp: parseFingerprint_def Let_def split: option.split)

lemma length_hashParts: "hashParts ps = Some h \<Longrightarrow> length h = length ps"
  by (induction ps arbitrary: h) (auto split: option.splits if_splits dest: length_hexDecode)

lemma yields_parseHash: "yields (\<lambda>h. (algo = ''SHA1'' \<and> length h = 20) \<or> (algo = ''SHA256'' \<and> length h = 32)) (parseHash s algo)"
  using length_hashParts [of "splitChar (CHR '':'') s"] by (auto simp: parseHash_def Let_def split: option.split)

lemma yields_exitCount: "yields (\<lambda>n. 0 \<le> n \<and> n \<le> 1000) (exitCount as)"
  by (auto simp: exitCount_def split: list.split option.split)

lemma yields_mapRes: "(\<And>x. yields P (f x)) \<Longrightarrow> yields (list_all P) (mapRes f xs)"
  by (induction xs) (auto intro!: yields_rbind)

lemma yields_keyUsages: "yields (\<lambda>_. True) (keyUsages as)"
  by (induction as) (auto intro!: yields_rbind split: option.split)

lemma yields_ename: "entryOk n e \<Longrightarrow> yields (\<lambda>_. True) (ename e)"
  by (cases "e_args e") (auto simp: ename_def entryOk_def)

lemma yields_readFile: "yields (\<lambda>_. True) (readFile fs dir name)"
  by (auto simp: readFile_def Let_def split: sum.split)

lemma yields_content: "entryOk n e \<Longrightarrow> yields (\<lambda>_. True) (content fs p e)"
  unfolding content_def Let_def
  by (auto intro!: yields_rbind [OF yields_ename] yields_rbind [OF yields_readFile [THEN yields_within [THEN iffD2]]] yields_intros)

lemma takeWhile_ne0: "0 \<notin> set (takeWhile (\<lambda>v. v \<noteq> 0) vs)"
  by (induction vs) auto

lemma networks_ne [simp]: "[] \<notin> set networks"
  by (simp add: networks_def)

section \<open>Directives\<close>

lemma ignore_ok: "parserOk dir n p \<Longrightarrow> yields (parserOk dir n) (ignore p name)"
  unfolding ignore_def
  by (rule yields_rbind [OF ignoredName_loggable]) (auto simp: parserOk_def optsOk_def setO_def)

lemma setConn_ok:
  assumes "parserOk dir n p" "0 \<le> i" "i < int n" "\<And>c. networkOk (c_network c) \<Longrightarrow> networkOk (c_network (f c))"
  shows "yields (parserOk dir n) (setConn p i f)"
proof -
  have l: "i < glen (ps_conns p)" using assms(1,3) by (simp add: parserOk_def glen_def)
  have "networkOk (c_network (ps_conns p ! nat i))"
    using assms(1,2,3) by (auto simp: parserOk_def list_all_length)
  then have "list_all (\<lambda>c. networkOk (c_network c)) ((ps_conns p)[nat i := f (ps_conns p ! nat i)])"
    using assms(1,4) by (auto simp: parserOk_def list_all_iff dest!: set_update_subset_insert [THEN subsetD])
  then show ?thesis using assms(1,2) l by (simp add: setConn_def gidx_def parserOk_def)
qed

text \<open>Updates of the options alone.\<close>

lemma setO_ok:
  assumes "parserOk dir n p" "\<And>o'. optsOk o' \<Longrightarrow> optsOk (f o') \<and> o_BaseDir (f o') = o_BaseDir o' \<and> o_Remotes (f o') = o_Remotes o' \<and> o_Ignored (f o') = o_Ignored o'"
  shows "parserOk dir n (setO f p)"
  using assms by (simp add: parserOk_def setO_def)

lemma yields_setO:
  "parserOk dir n p \<Longrightarrow> (\<And>o'. optsOk o' \<Longrightarrow> optsOk (f o') \<and> o_BaseDir (f o') = o_BaseDir o' \<and> o_Remotes (f o') = o_Remotes o' \<and> o_Ignored (f o') = o_Ignored o') \<Longrightarrow>
   yields (parserOk dir n) (Inr (setO f p))"
  by (simp add: setO_ok)

lemma parserOkD:
  assumes "parserOk dir n p"
  shows "optsOk (ps_o p)" "o_Remotes (ps_o p) = []" "ps_ignored p = set (o_Ignored (ps_o p))"
  using assms by (simp_all add: parserOk_def)

lemmas bind_arg = yields_rbind [OF yields_arg]

lemma yields_remotePort: "yields (\<lambda>_. True) (remotePort rest)"
  using yields_parsePort [of "hd rest"] by (cases rest) (auto simp: remotePort_def yields_def within_def split: sum.splits fault.splits)

lemma yields_remoteNetwork: "yields networkOk (remoteNetwork rest)"
  by (cases rest) (auto simp: remoteNetwork_def networkOk_def intro: yields_mono [OF yields_parseProto])

lemma do_remote_ok: "parserOk dir n p \<Longrightarrow> entryOk n e \<Longrightarrow> yields (parserOk dir n) (do_remote p e)"
  unfolding do_remote_def Let_def
  by (rule bind_arg)
    (auto intro!: yields_intros yields_rbind [OF yields_remotePort] yields_rbind [OF yields_remoteNetwork] setConn_ok
      simp: gfrom_ok glen_def entryOk_def parserOk_def split: if_splits)

lemma do_proto_ok: "parserOk dir n p \<Longrightarrow> entryOk n e \<Longrightarrow> yields (parserOk dir n) (do_proto p e)"
  unfolding do_proto_def
  by (auto intro!: bind_arg yields_rbind [OF yields_parseProto] setConn_ok simp: entryOk_def parserOk_def networkOk_def)

lemma do_port_ok: "parserOk dir n p \<Longrightarrow> entryOk n e \<Longrightarrow> yields (parserOk dir n) (do_port p e name)"
  unfolding do_port_def
  by (auto intro!: bind_arg yields_rbind [OF yields_parsePort [THEN yields_within [THEN iffD2]]] setConn_ok simp: entryOk_def parserOk_def)

lemma openConn_ok: "parserOk dir n p \<Longrightarrow> entryOk n e \<Longrightarrow> e_connOpen e \<Longrightarrow> yields (parserOk dir n) (openConn p e)"
  unfolding openConn_def by (auto intro!: setConn_ok simp: entryOk_def parserOk_def)

text \<open>The directives that update the options: their values keep the bounds.\<close>

lemma do_static_challenge_ok: "parserOk dir n p \<Longrightarrow> yields (parserOk dir n) (do_static_challenge p e name)"
  unfolding do_static_challenge_def
  by (rule bind_arg, rule ignore_ok, erule setO_ok) (simp add: optsOk_def)

lemma do_remote_cert_eku_ok: "parserOk dir n p \<Longrightarrow> yields (parserOk dir n) (do_remote_cert_eku p e)"
  unfolding do_remote_cert_eku_def
  by (rule bind_arg, intro yields_if yields_Err, erule yields_setO) (simp add: optsOk_def)

lemma remoteCertKU_ok:
  assumes "parserOk dir n p" "entryOk n e"
  shows "yields (parserOk dir n) (remoteCertKU p e)"
proof -
  obtain as where a: "gfrom (e_args e) 1 = (Inr as :: (opt_err, string list) res)"
    using assms(2) by (cases "e_args e") (simp_all add: entryOk_def)
  show ?thesis unfolding remoteCertKU_def a rbind_Inr Let_def
    by (rule yields_rbind [OF yields_keyUsages], intro yields_if yields_setO [OF assms(1)])
      (simp_all add: optsOk_def takeWhile_ne0)
qed

lemma do_verify_hash_ok: "parserOk dir n p \<Longrightarrow> yields (parserOk dir n) (do_verify_hash p e)"
  unfolding do_verify_hash_def Let_def
  by (rule bind_arg, rule yields_rbind [OF yields_parseHash [THEN yields_within [THEN iffD2]]], erule yields_setO)
    (auto simp: optsOk_def hashesOk_def)

lemma do_key_direction_ok: "parserOk dir n p \<Longrightarrow> yields (parserOk dir n) (do_key_direction p e)"
  unfolding do_key_direction_def
  by (rule bind_arg, rule yields_rbind [OF yields_parseDirection [THEN yields_within [THEN iffD2]]], erule yields_setO)
    (auto simp: optsOk_def intro!: oneOfI)

lemma do_data_ciphers_ok: "parserOk dir n p \<Longrightarrow> yields (parserOk dir n) (do_data_ciphers p e name)"
  unfolding do_data_ciphers_def Let_def
  by (rule bind_arg, intro yields_if yields_Err, erule yields_setO) (simp add: optsOk_def)

lemma do_upper_ok:
  "parserOk dir n p \<Longrightarrow> (\<And>a o'. optsOk o' \<Longrightarrow> optsOk (f a o') \<and> o_BaseDir (f a o') = o_BaseDir o' \<and> o_Remotes (f a o') = o_Remotes o' \<and> o_Ignored (f a o') = o_Ignored o') \<Longrightarrow>
   yields (parserOk dir n) (do_upper f p e)"
  unfolding do_upper_def by (rule bind_arg, erule yields_setO)

lemma do_cert_type_ok: "parserOk dir n p \<Longrightarrow> yields (parserOk dir n) (do_cert_type p e name)"
  unfolding do_cert_type_def
  by (rule bind_arg, intro yields_if yields_Err; erule yields_setO) (simp_all add: optsOk_def oneOfI)

lemma do_verify_name_ok: "parserOk dir n p \<Longrightarrow> yields (parserOk dir n) (do_verify_name p e)"
  unfolding do_verify_name_def Let_def
  by (rule bind_arg, intro yields_if yields_Err; erule yields_setO) (auto simp: optsOk_def intro!: oneOfI)

lemma tlsVersion_result: "tlsVersion a = Some v \<Longrightarrow> oneOf [[], ''1.0'', ''1.1'', ''1.2'', ''1.3''] v"
  by (auto simp: tlsVersion_def oneOf_def split: if_splits)

lemma do_tls_min_ok: "parserOk dir n p \<Longrightarrow> yields (parserOk dir n) (do_tls_min p e)"
  unfolding do_tls_min_def
  by (rule bind_arg, intro yields_option yields_if yields_Err; erule yields_setO)
    (auto simp: optsOk_def tlsVersion_result intro!: oneOfI)

lemma do_tls_max_ok: "parserOk dir n p \<Longrightarrow> yields (parserOk dir n) (do_tls_max p e)"
  unfolding do_tls_max_def
  by (rule bind_arg, intro yields_option yields_Err; erule yields_setO) (simp add: optsOk_def tlsVersion_result)

lemma do_compression_ok: "parserOk dir n p \<Longrightarrow> yields (parserOk dir n) (do_compression p e name)"
  unfolding do_compression_def
  by (rule yields_rbind [OF yields_parseCompression], erule yields_setO) (simp add: optsOk_def)

lemma do_tun_mtu_ok: "parserOk dir n p \<Longrightarrow> yields (parserOk dir n) (do_tun_mtu p e)"
  unfolding do_tun_mtu_def
  by (rule bind_arg, rule yields_rbind [OF yields_parseMTU [THEN yields_within [THEN iffD2]]], erule yields_setO)
    (simp add: optsOk_def)

lemma default_timeout_ok: "durationOk defaultConnectTimeout" "defaultConnectTimeout \<noteq> 0"
  by (simp_all add: durationOk_def defaultConnectTimeout_def Second_def maxSeconds_def)

lemmas bind_seconds = yields_rbind [OF yields_parseSeconds [THEN yields_within [THEN iffD2]]]

lemma do_seconds_ok: "parserOk dir n p \<Longrightarrow> yields (parserOk dir n) (do_seconds p e name)"
  unfolding do_seconds_def
  by (rule bind_arg, rule bind_seconds, intro yields_if yields_Err; erule yields_setO)
    (simp_all add: optsOk_def default_timeout_ok)

lemma do_keepalive_ok: "parserOk dir n p \<Longrightarrow> yields (parserOk dir n) (do_keepalive p e)"
  unfolding do_keepalive_def
  by (intro yields_if yields_Err, rule bind_seconds, rule bind_seconds, erule yields_setO) (simp add: optsOk_def)

lemma do_exit_notify_ok: "parserOk dir n p \<Longrightarrow> yields (parserOk dir n) (do_exit_notify p e)"
  unfolding do_exit_notify_def
  by (rule yields_rbind [OF yields_exitCount], erule yields_setO) (simp add: optsOk_def)

lemma do_pull_filter_ok: "parserOk dir n p \<Longrightarrow> yields (parserOk dir n) (do_pull_filter p e)"
  unfolding do_pull_filter_def Let_def
  by (intro yields_if yields_Err; erule yields_setO) (auto simp: optsOk_def intro!: oneOfI)

lemma do_dev_ok: "parserOk dir n p \<Longrightarrow> yields (parserOk dir n) (do_dev p e name)"
  unfolding do_dev_def by (rule bind_arg, rule ignore_ok) (simp add: parserOk_def)

lemma do_mode_ok: "parserOk dir n p \<Longrightarrow> yields (parserOk dir n) (do_mode p e name)"
  unfolding do_mode_def by (intro yields_if yields_unsupported ignore_ok)

lemma do_key_method_ok: "parserOk dir n p \<Longrightarrow> yields (parserOk dir n) (do_key_method p e name)"
  unfolding do_key_method_def by (intro yields_if yields_unsupported ignore_ok)

lemmas bind_file = yields_rbind [OF yields_readFile [THEN yields_within [THEN iffD2]]]

lemma askpass_ok:
  assumes "parserOk dir n p" "entryOk n e"
  shows "yields (parserOk dir n) (askpass fs p e)"
  unfolding askpass_def ignore_entry_def
  by (intro yields_if yields_rbind [OF yields_ename [OF assms(2)]] bind_file ignore_ok [OF assms(1)] yields_setO [OF assms(1)])
    (simp add: optsOk_def)

section \<open>Blocks\<close>

lemma yields_case_prod [yields_intros]: "(\<And>a b. x = (a, b) \<Longrightarrow> yields P (f a b)) \<Longrightarrow> yields P (case x of (a, b) \<Rightarrow> f a b)"
  by (cases x) auto

lemma block_key_ok:
  assumes "parserOk dir n p" "entryOk n e"
  shows "yields (parserOk dir n) (block_key fs p e name)"
  unfolding block_key_def Let_def
  by (intro yields_rbind [OF yields_content [OF assms(2)]] yields_case_prod yields_if
        yields_rbind [OF yields_parseDirection [THEN yields_within [THEN iffD2]]] yields_setO setO_ok assms)
    (auto simp: optsOk_def setO_ok assms intro!: oneOfI)

lemma block_pkcs12_ok:
  assumes "parserOk dir n p" "entryOk n e"
  shows "yields (parserOk dir n) (block_pkcs12 fs p e)"
  unfolding block_pkcs12_def
  by (intro yields_rbind [OF yields_content [OF assms(2)]] yields_case_prod yields_if yields_option yields_Err yields_setO assms)
    (simp_all add: optsOk_def)

lemma block_crl_ok:
  assumes "parserOk dir n p" "entryOk n e"
  shows "yields (parserOk dir n) (block_crl fs p e)"
  unfolding block_crl_def
  by (intro yields_rbind [OF yields_content [OF assms(2)]] yields_case_prod yields_if yields_Err yields_setO assms)
    (simp add: optsOk_def)

lemma block_verify_hash_ok:
  assumes "parserOk dir n p"
  shows "yields (parserOk dir n) (block_verify_hash p e)"
  unfolding block_verify_hash_def
proof (rule yields_rbind [OF yields_mapRes [where P = "\<lambda>h. length h = 32"]])
  show "yields (\<lambda>h. length h = 32) (within ''verify-hash'' (parseHash l ''SHA256''))" for l
    using yields_parseHash [of "''SHA256''" l] by simp
  show "yields (parserOk dir n) (if hs = [] then Inl (Err (Msg ''verify-hash: no digest in the block''))
      else Inr (setO (\<lambda>o'. o'\<lparr>o_VerifyHash := hs, o_VerifyHashAlgo := ''SHA256''\<rparr>) p))" if "list_all (\<lambda>h. length h = 32) hs" for hs
    by (intro yields_if yields_Err yields_setO assms) (use that in \<open>simp add: optsOk_def hashesOk_def\<close>)
qed

lemma block_user_pass_ok:
  assumes "parserOk dir n p" "entryOk n e"
  shows "yields (parserOk dir n) (block_user_pass fs p e name)"
proof -
  have 1: "parserOk dir n (setO (\<lambda>o'. o'\<lparr>o_AuthUserPass := True, o_AuthUserPassFile := []\<rparr>) p)"
    by (rule setO_ok [OF assms(1)]) (simp add: optsOk_def)
  show ?thesis unfolding block_user_pass_def Let_def
    by (intro yields_if ignore_ok yields_rbind [OF yields_content [OF assms(2)]] yields_case_prod yields_setO setO_ok 1)
      (simp_all add: optsOk_def 1 assms)
qed

lemma block_fingerprint_ok:
  assumes "parserOk dir n p" "entryOk n e"
  shows "yields (parserOk dir n) (block_fingerprint fs p e)"
  unfolding block_fingerprint_def
proof (rule yields_rbind [where Q = "\<lambda>_. True"])
  show "yields (\<lambda>_. True) (if \<not> e_block e \<and> nargs e > 1 \<and> \<not> isInline (e_args e ! 1) then Inr (e_args e ! 1)
      else rbind (content fs p e) (\<lambda>(data, _). Inr (text_of data)))"
    by (intro yields_if yields_rbind [OF yields_content [OF assms(2)]] yields_case_prod) simp_all
  show "yields (parserOk dir n) (rbind (mapRes (\<lambda>l. within ''peer-fingerprint'' (parseFingerprint l)) (dataLines t)) (\<lambda>fps.
      if fps = [] then Inl (Err (Msg ''peer-fingerprint: no fingerprint''))
      else Inr (setO (\<lambda>o'. o'\<lparr>o_PeerFingerprints := o_PeerFingerprints o' @ fps\<rparr>) p)))" for t
    by (rule yields_rbind [OF yields_mapRes [OF yields_parseFingerprint [THEN yields_within [THEN iffD2]]]],
        intro yields_if yields_Err yields_setO assms)
      (simp add: optsOk_def)
qed

lemma applyBlock_ok:
  assumes "parserOk dir n p" "entryOk n e"
  shows "yields (parserOk dir n) (applyBlock fs p e)"
  unfolding applyBlock_def
  by (intro yields_rbind [OF yields_ename [OF assms(2)]] yields_if block_key_ok block_pkcs12_ok block_crl_ok block_verify_hash_ok
      block_user_pass_ok block_fingerprint_ok yields_unsupported ignore_ok assms)

section \<open>Entries\<close>

lemmas directives_ok = do_remote_ok do_proto_ok do_port_ok applyBlock_ok askpass_ok do_static_challenge_ok do_remote_cert_eku_ok
  remoteCertKU_ok do_verify_hash_ok do_key_direction_ok do_data_ciphers_ok do_cert_type_ok do_verify_name_ok
  do_tls_min_ok do_tls_max_ok do_compression_ok do_tun_mtu_ok do_seconds_ok do_keepalive_ok do_exit_notify_ok do_pull_filter_ok
  do_dev_ok do_mode_ok do_key_method_ok yields_unsupported ignore_ok

lemma apply_directive_ok:
  assumes "parserOk dir n p" "entryOk n e"
  shows "yields (parserOk dir n) (apply_directive fs p e name)"
  unfolding apply_directive_def
  by (intro yields_if directives_ok do_upper_ok yields_setO assms) (simp_all add: optsOk_def)

lemma apply_entry_ok:
  assumes "parserOk dir n p" "entryOk n e"
  shows "yields (parserOk dir n) (apply_entry fs p e)"
  unfolding apply_entry_def
  by (intro yields_rbind [OF yields_ename [OF assms(2)]] yields_if applyBlock_ok openConn_ok apply_directive_ok assms)

lemma applyAll_ok: "parserOk dir n p \<Longrightarrow> list_all (entryOk n) es \<Longrightarrow> yields (parserOk dir n) (applyAll fs p es)"
  by (induction es arbitrary: p) (auto intro!: yields_rbind [OF apply_entry_ok [THEN yields_atLine [THEN iffD2]]])

section \<open>Collecting\<close>

lemma yields_argLoop: "yields (\<lambda>_. True) (argLoop args cur inArg s)"
proof (induction s arbitrary: args cur inArg rule: measure_induct_rule [of length])
  case (less s)
  show ?case
    by (subst argLoop.simps, unfold Let_def, intro yields_if yields_option yields_case_prod yields_Err)
      (auto intro!: less dest: dquoted_shorter simp: dropWhile_shorter)
qed

lemma yields_splitArgs: "yields (\<lambda>_. True) (splitArgs s)"
  unfolding splitArgs_def by (rule yields_argLoop)

lemma yields_blockEnd: "yields (\<lambda>_. True) (blockEnd ls name)"
proof -
  have "yields (\<lambda>_. True) (blockLoop name ls j c)" for j c
    by (induction ls arbitrary: j c) (auto simp: Let_def intro!: yields_if)
  then show ?thesis by (simp add: blockEnd_def)
qed

lemma yields_includeLines: "yields (\<lambda>_. True) (includeLines fs dir args src num depth)"
  unfolding includeLines_def yields_atLine by (intro yields_if yields_Err bind_file) simp

text \<open>A parser while it collects, at connection block \<open>conn\<close>.\<close>

definition collecting :: "int \<Rightarrow> parser \<Rightarrow> bool" where
  "collecting conn p \<longleftrightarrow> parserOk (o_BaseDir (ps_o p)) (length (ps_conns p)) p \<and> list_all (entryOk (length (ps_conns p))) (ps_entries p) \<and>
     conn < glen (ps_conns p)"

lemma entryOk_mono: "entryOk m e \<Longrightarrow> m \<le> n \<Longrightarrow> entryOk n e"
  by (auto simp: entryOk_def)

lemma collecting_addEntry:
  "collecting conn p \<Longrightarrow> e_args e \<noteq> [] \<Longrightarrow> e_conn e < glen (ps_conns p) \<Longrightarrow> (e_connOpen e \<longrightarrow> 0 \<le> e_conn e) \<Longrightarrow> collecting conn (addEntry e p)"
  by (simp add: collecting_def addEntry_def parserOk_def entryOk_def glen_def)

lemma collecting_block: "collecting conn p \<Longrightarrow> collecting conn (p\<lparr>ps_blocks := b\<rparr>)"
  by (simp add: collecting_def parserOk_def)

lemma collecting_open:
  assumes "collecting conn p" "c_network c = []"
  shows "collecting (glen (ps_conns p)) (p\<lparr>ps_conns := ps_conns p @ [c]\<rparr>)"
  using assms entryOk_mono [of "length (ps_conns p)" _ "Suc (length (ps_conns p))"]
  by (auto simp: collecting_def parserOk_def networkOk_def list_all_iff glen_def)

lemma collecting_leave: "collecting i p' \<Longrightarrow> collecting conn p \<Longrightarrow> length (ps_conns p) \<le> length (ps_conns p') \<Longrightarrow> collecting conn p'"
  by (simp add: collecting_def glen_def)

lemma lineArgs_ne: "args \<noteq> [] \<Longrightarrow> lineArgs args \<noteq> []"
  by (cases args) (auto simp: lineArgs_def)

definition collected :: "int \<Rightarrow> parser \<Rightarrow> parser \<Rightarrow> bool" where
  "collected conn p p' \<longleftrightarrow> collecting conn p' \<and> length (ps_conns p) \<le> length (ps_conns p') \<and> o_BaseDir (ps_o p') = o_BaseDir (ps_o p)"

lemma collected_from: "length (ps_conns p) \<le> length (ps_conns p1) \<and> o_BaseDir (ps_o p1) = o_BaseDir (ps_o p) \<Longrightarrow> yields (collected conn p1) r \<Longrightarrow> yields (collected conn p) r"
  by (erule yields_mono) (auto simp: collected_def)

lemma yields_case_sum: "yields Q m \<Longrightarrow> (\<And>a. m = Inr a \<Longrightarrow> Q a \<Longrightarrow> yields P (f a)) \<Longrightarrow> yields P (case m of Inl e \<Rightarrow> Inl e | Inr a \<Rightarrow> f a)"
  by (cases m) (auto simp: yields_def)

lemma collect_ok: "collecting conn p \<Longrightarrow> yields (collected conn p) (collect fs ls base src depth conn p)"
proof (induction fs ls base src depth conn p rule: collect.induct)
  case (1 fs base src depth conn p)
  then show ?case by (simp add: collected_def)
next
  case (2 fs l ls base src depth conn p)
  note step = 2(1-7) and pre = 2(8)
  show ?case unfolding collect.simps(2) Let_def
  proof (rule yields_case_sum [OF yields_splitArgs [THEN yields_atLine [THEN iffD2]]], rule yields_if, goal_cases)
    case (1 args)
    then show ?case using step(1) [OF refl] pre by simp
  next
    case (2 args)
    note A = refl 2(1,3)
    show ?case
    proof (cases "openTag args")
      case None
      have ne: "lineArgs args \<noteq> []" using 2(3) by (rule lineArgs_ne)
      show ?thesis unfolding None option.case
      proof (rule yields_if, goal_cases)
        case 1
        show ?case
        proof (rule yields_case_sum [OF yields_includeLines], goal_cases)
          case (1 lines)
          note B = A None refl \<open>hd (lineArgs args) = ''config''\<close> 1(1)
          show ?case
          proof (rule yields_case_sum [OF step(2) [OF B pre]], goal_cases)
            case (1 p1)
            then show ?case by (intro collected_from [OF _ step(3) [OF B 1(1)]]) (simp_all add: collected_def)
          qed
        qed
      next
        case 2
        show ?case
          by (rule collected_from [OF _ step(4) [OF A None refl 2]])
            (use pre ne in \<open>auto intro!: collecting_addEntry simp: addEntry_def collecting_def parserOk_def entryOk_def glen_def\<close>)
      qed
    next
      case (Some name)
      show ?thesis unfolding Some option.case
      proof (rule yields_case_sum [OF yields_blockEnd [THEN yields_atLine [THEN iffD2]]], rule yields_case_prod, intro yields_if yields_Err, goal_cases)
        case (1 x n cont)
        let ?c = "\<lparr>c_line = base + 1, c_src = src, c_host = [], c_network = [], c_port = 0\<rparr>"
        let ?p = "addEntry \<lparr>e_src = src, e_line = base + 1, e_args = [name], e_block = False, e_content = None,
            e_conn = glen (ps_conns p), e_connOpen = True\<rparr> (p\<lparr>ps_conns := ps_conns p @ [?c]\<rparr>)"
        note B = A Some 1(1) 1(3) [symmetric] 1(4,5) refl refl refl
        have in': "collecting (glen (ps_conns p)) ?p"
          by (rule collecting_addEntry [OF collecting_open [OF pre]]) simp_all
        show ?case
        proof (rule yields_case_sum [OF step(5) [OF B in']], goal_cases)
          case (1 p1)
          have len: "length (ps_conns p) \<le> length (ps_conns p1) \<and> o_BaseDir (ps_o p1) = o_BaseDir (ps_o p)" using 1(2) by (simp add: collected_def addEntry_def)
          have "collecting conn p1" using collecting_leave [OF _ pre conjunct1 [OF len]] 1(2) by (auto simp: collected_def)
          then show ?case by (rule collected_from [OF len step(6) [OF B 1(1)]])
        qed
      next
        case (2 x n cont)
        show ?case
          by (rule collected_from [OF _ step(7) [OF A Some 2(1) 2(3) [symmetric] 2(4) refl refl]])
            (use pre in \<open>auto intro!: collecting_block collecting_addEntry simp: addEntry_def collecting_def parserOk_def entryOk_def glen_def\<close>)
      qed
    qed
  qed
qed

section \<open>The whole profile\<close>

lemma defaultOptions_ok: "optsOk (defaultOptions dir)"
  by (simp add: optsOk_def defaultOptions_def oneOfI durationOk_def hashesOk_def defaultRenegSec_def Second_def maxSeconds_def
      default_timeout_ok [unfolded durationOk_def maxSeconds_def Second_def, simplified] ModeNone_def)

lemma newParser_collecting: "collecting (-1) (newParser dir)"
  by (simp add: collecting_def newParser_def parserOk_def defaultOptions_ok networkOk_def) (simp add: defaultOptions_def)

lemma makeRemote_ok: "host \<noteq> [] \<Longrightarrow> networkOk net \<Longrightarrow> remoteOk (makeRemote host port net)"
  by (auto simp: remoteOk_def makeRemote_def networkOk_def defaultPort_def networks_def)

lemma connRemotes_ok: "list_all (\<lambda>c. networkOk (c_network c)) cs \<Longrightarrow> yields (list_all remoteOk) (connRemotes cs)"
  by (induction cs) (auto intro!: yields_rbind makeRemote_ok)

lemma specRemote_ok:
  "parserOk dir n p \<Longrightarrow> list_all (\<lambda>r. s_host r \<noteq> [] \<and> networkOk (s_network r)) rs \<Longrightarrow> list_all remoteOk (map (specRemote p) rs)"
  by (auto simp: list_all_iff specRemote_def parserOk_def intro!: makeRemote_ok)

lemma ignore_remotes:
  assumes "optsOk (ps_o p)" "ps_ignored p = set (o_Ignored (ps_o p))" "list_all remoteOk (o_Remotes (ps_o p))"
  shows "yields (\<lambda>p. optsOk (ps_o p) \<and> list_all remoteOk (o_Remotes (ps_o p))) (ignore p name)"
  unfolding ignore_def
  by (rule yields_rbind [OF ignoredName_loggable]) (use assms in \<open>auto simp: optsOk_def setO_def\<close>)

lemma finish_profile_ok:
  assumes p: "parserOk dir n p"
  shows "yields (\<lambda>p. profileOk (ps_o p)) (finish_profile p)"
  unfolding finish_profile_def Let_def
proof (rule yields_rbind [OF connRemotes_ok], goal_cases)
  case 1
  then show ?case using p by (simp add: parserOk_def)
next
  case (2 rs)
  let ?p = "setO (\<lambda>o'. o'\<lparr>o_Remotes := o_Remotes o' @ rs\<rparr>) p"
  have P: "optsOk (ps_o ?p)" "ps_ignored ?p = set (o_Ignored (ps_o ?p))" "list_all remoteOk (o_Remotes (ps_o ?p))"
    using p 2 by (simp_all add: parserOk_def setO_def optsOk_def)
  have R: "list_all remoteOk (map (specRemote ?p) (ps_remotes ?p))"
  proof -
    have "specRemote ?p = specRemote p" "ps_remotes ?p = ps_remotes p" by (auto simp: specRemote_def setO_def)
    then show ?thesis using specRemote_ok [OF p, of "ps_remotes p"] p by (simp add: parserOk_def)
  qed
  have "yields (\<lambda>p. optsOk (ps_o p) \<and> list_all remoteOk (o_Remotes (ps_o p)))
      (if ps_conns ?p \<noteq> [] \<and> ps_remotes ?p \<noteq> [] then ignore ?p ''remote''
       else Inr (setO (\<lambda>o'. o'\<lparr>o_Remotes := o_Remotes o' @ map (specRemote ?p) (ps_remotes ?p)\<rparr>) ?p))"
  proof (rule yields_if, goal_cases)
    case 1
    show ?case by (rule ignore_remotes [OF P])
  next
    case 2
    have "optsOk (o'\<lparr>o_Remotes := rs\<rparr>) = optsOk o'" for o' rs by (simp add: optsOk_def)
    then show ?case using P R by (simp add: setO_def)
  qed
  then show ?case
    by (rule yields_rbind) (intro yields_if yields_unsupported yields_Err, simp add: profileOk_def)
qed


end
