(* ===== verification/Options_Total.thy ===== *)
theory Options_Total
  imports Options_Profile
begin

text \<open>
  Includes end (C33), a list of remotes written as a profile is read back (C34), and a profile given as
  text alone reads no file (C35).
\<close>

section \<open>Files that include themselves\<close>

lemma collect_config:
  assumes "splitArgs l = Inr [''config'', f]"
  shows "collect fs (l # ls) base src depth conn p =
    (case includeLines fs (o_BaseDir (ps_o p)) [''config'', f] src (base + 1) depth of Inl e \<Rightarrow> Inl e
     | Inr lines \<Rightarrow> (case collect fs lines 0 f (depth + 1) conn p of Inl e \<Rightarrow> Inl e
        | Inr p \<Rightarrow> collect fs ls (base + 1) src depth conn p))"
proof -
  have n: "lineArgs [''config'', f] = [''config'', f]"
    by (simp add: lineArgs_def directiveName_def trimPrefix_def hasPrefix_def lowerChar_def upperLetters_def lowerLetters_def)
  have t: "openTag [''config'', f] = None" by (simp add: openTag_def)
  have a: "atLine src (base + 1) (Inr [''config'', f]) = Inr [''config'', f]" by (simp add: atLine_def)
  have g: "[''config'', f] ! 1 = f" by simp
  show ?thesis unfolding collect.simps(2) assms Let_def a sum.case t option.case n g by simp
qed

lemma collect_self:
  assumes f: "readFile fs dir f = Inr data" "splitLines data = l # ls" "splitArgs l = Inr [''config'', f]"
    and p: "o_BaseDir (ps_o p) = dir" "dir \<noteq> []" and d: "depth \<le> maxIncludeDepth"
  shows "collect fs (splitLines data) 0 (if depth = 0 then src else f) depth conn p =
    Inl (Err (AtLine f 1 (Msg ''config: includes nested too deeply'')))"
  using d
proof (induction "maxIncludeDepth - depth" arbitrary: depth)
  case 0
  then have "\<not> depth < maxIncludeDepth" "depth \<noteq> 0" by (simp_all add: maxIncludeDepth_def)
  then show ?case unfolding f(2) collect_config [OF f(3)] using p by (simp add: includeLines_def atLine_def)
next
  case (Suc k)
  have lt: "depth < maxIncludeDepth" using Suc(2) by simp
  have inc: "includeLines fs dir [''config'', f] s 1 depth = Inr (splitLines data)" for s
    using lt p(2) f(1) by (simp add: includeLines_def atLine_def within_def)
  have "collect fs (splitLines data) 0 f (depth + 1) conn p = Inl (Err (AtLine f 1 (Msg ''config: includes nested too deeply'')))"
    using Suc(1) [of "depth + 1"] Suc(2) lt by simp
  then have sub: "collect fs (l # ls) 0 f (depth + 1) conn p = Inl (Err (AtLine f 1 (Msg ''config: includes nested too deeply'')))"
    unfolding f(2) .
  have "collect fs (l # ls) 0 s depth conn p = Inl (Err (AtLine f 1 (Msg ''config: includes nested too deeply'')))" for s
    by (subst collect_config [OF f(3)]) (use inc p(1) f(2) sub in simp)
  then show ?case unfolding f(2) .
qed


definition loopFiles :: fileSys where
  "loopFiles = \<lparr>fs_join = (\<lambda>d f. d @ ''/'' @ f), fs_read = (\<lambda>path. if path = ''/etc/a.ovpn'' then Inr ''config a.ovpn'' else Inl ''no such file'')\<rparr>"


section \<open>Text alone\<close>

lemma content_text: "o_BaseDir (ps_o p) = [] \<Longrightarrow> content fs p e = content fs' p e"
  by (cases "ename e") (simp_all add: content_def Let_def)

lemma applyBlock_text:
  assumes "o_BaseDir (ps_o p) = []"
  shows "applyBlock fs p e = applyBlock fs' p e"
proof -
  note c = content_text [OF assms, of fs e fs']
  have u: "block_user_pass fs p e name = block_user_pass fs' p e name" for name
    unfolding block_user_pass_def Let_def
    by (subst content_text [of "setO (\<lambda>o'. o'\<lparr>o_AuthUserPass := True, o_AuthUserPassFile := []\<rparr>) p" fs e fs'])
      (simp_all add: setO_def assms)
  have k: "block_key fs p e name = block_key fs' p e name" for name unfolding block_key_def c ..
  have o: "block_pkcs12 fs p e = block_pkcs12 fs' p e" "block_crl fs p e = block_crl fs' p e"
    "block_fingerprint fs p e = block_fingerprint fs' p e"
    unfolding block_pkcs12_def block_crl_def block_fingerprint_def c by (rule refl)+
  show ?thesis unfolding applyBlock_def u k o ..
qed

lemma apply_entry_text:
  assumes "o_BaseDir (ps_o p) = []"
  shows "apply_entry fs p e = apply_entry fs' p e"
proof -
  note b = applyBlock_text [OF assms, of fs e fs']
  have a: "askpass fs p e = askpass fs' p e" by (simp add: askpass_def assms)
  have d: "apply_directive fs p e name = apply_directive fs' p e name" for name unfolding apply_directive_def a b ..
  show ?thesis unfolding apply_entry_def b d ..
qed

lemma applyAll_text: "parserOk [] n p \<Longrightarrow> list_all (entryOk n) es \<Longrightarrow> applyAll fs p es = applyAll fs' p es"
proof (induction es arbitrary: p)
  case (Cons e es)
  have b: "o_BaseDir (ps_o p) = []" using Cons.prems(1) by (simp add: parserOk_def)
  note y = apply_entry_ok [OF Cons.prems(1), of e fs]
  have "applyAll fs q es = applyAll fs' q es" if "atLine src num (apply_entry fs p e) = Inr q" for q src num
  proof -
    have "apply_entry fs p e = Inr q" using that by (auto simp: atLine_def split: sum.splits fault.splits)
    then show ?thesis using y Cons yieldsD by fastforce
  qed
  then show ?case using apply_entry_text [OF b, of fs e fs'] by (cases "atLine (e_src e) (e_line e) (apply_entry fs p e)") auto
qed simp

lemma includeLines_text: "includeLines fs [] args src num depth = includeLines fs' [] args src num depth"
  "includeLines fs [] args src num depth \<noteq> Inr lines"
  by (simp_all add: includeLines_def atLine_def)

lemma collect_text:
  "collecting conn p \<Longrightarrow> o_BaseDir (ps_o p) = [] \<Longrightarrow> collect fs ls base src depth conn p = collect fs' ls base src depth conn p"
proof (induction fs ls base src depth conn p rule: collect.induct)
  case (2 fs l ls base src depth conn p)
  note step = 2(1-7) and pre = 2(8,9)
  have out: "collecting conn p'" "o_BaseDir (ps_o p') = []" if "collected i q p'" "o_BaseDir (ps_o q) = []" "length (ps_conns p) \<le> length (ps_conns q)" for i q p'
    using that collecting_leave [of i p' conn p] pre(1) by (auto simp: collected_def)
  show ?case
  proof (cases "atLine src (base + 1) (splitArgs l)")
    case (Inl e)
    then show ?thesis by (simp add: collect.simps(2))
  next
    case (Inr args)
    note A = refl Inr
    show ?thesis
    proof (cases "args = []")
      case True
      then show ?thesis using step(1) [OF A True pre] Inr by (simp add: collect.simps(2))
    next
      case ne: False
      show ?thesis
      proof (cases "openTag args")
        case None
        have lne: "lineArgs args \<noteq> []" using ne by (rule lineArgs_ne)
        let ?e = "\<lparr>e_src = src, e_line = base + 1, e_args = lineArgs args, e_block = False, e_content = None, e_conn = conn, e_connOpen = False\<rparr>"
        show ?thesis
        proof (cases "hd (lineArgs args) = ''config''")
          case True
          then show ?thesis using Inr ne None pre(2) includeLines_text(2)
            by (cases "includeLines fs [] (lineArgs args) src (base + 1) depth")
              (auto simp: collect.simps(2) Let_def includeLines_text(1) [of fs _ _ _ _ fs'])
        next
          case False
          have "collecting conn (addEntry ?e p)" "o_BaseDir (ps_o (addEntry ?e p)) = []"
            using pre lne by (auto intro!: collecting_addEntry simp: collecting_def addEntry_def parserOk_def entryOk_def glen_def)
          then show ?thesis using step(4) [OF A ne None refl False] Inr ne None False by (simp add: collect.simps(2) Let_def)
        qed
      next
        case (Some name)
        show ?thesis
        proof (cases "atLine src (base + 1) (blockEnd ls name)")
          case (Inl e)
          then show ?thesis using Inr ne Some by (simp add: collect.simps(2))
        next
          case b: (Inr x)
          obtain n cont where x: "x = (n, cont)" by fastforce
          let ?c = "\<lparr>c_line = base + 1, c_src = src, c_host = [], c_network = [], c_port = 0\<rparr>"
          let ?p = "addEntry \<lparr>e_src = src, e_line = base + 1, e_args = [name], e_block = False, e_content = None,
              e_conn = glen (ps_conns p), e_connOpen = True\<rparr> (p\<lparr>ps_conns := ps_conns p @ [?c]\<rparr>)"
          let ?q = "addEntry \<lparr>e_src = src, e_line = base + 1, e_args = [name], e_block = True, e_content = cont, e_conn = conn, e_connOpen = False\<rparr> p"
          let ?r = "?q\<lparr>ps_blocks := (ps_blocks ?q)(name \<mapsto> cont)\<rparr>"
          show ?thesis
          proof (cases "name = ''connection''")
            case False
            have r: "collecting conn ?r" "o_BaseDir (ps_o ?r) = []"
              using pre by (auto intro!: collecting_block collecting_addEntry simp: collecting_def addEntry_def parserOk_def entryOk_def glen_def)
            show ?thesis using step(7) [OF A ne Some b x [symmetric] False refl refl r] Inr ne Some b x False
              by (simp add: collect.simps(2) Let_def)
          next
            case conn: True
            show ?thesis
            proof (cases "0 \<le> conn")
              case True
              then show ?thesis using Inr ne Some b x conn by (simp add: collect.simps(2) Let_def)
            next
              case False
              have i: "collecting (glen (ps_conns p)) ?p" by (rule collecting_addEntry [OF collecting_open [OF pre(1)]]) simp_all
              have bd: "o_BaseDir (ps_o ?p) = []" "length (ps_conns p) \<le> length (ps_conns ?p)" using pre(2) by (simp_all add: addEntry_def)
              note B = A ne Some b x [symmetric] conn False refl refl refl
              have sub: "collect fs (take n ls) (base + 1) src depth (glen (ps_conns p)) ?p = collect fs' (take n ls) (base + 1) src depth (glen (ps_conns p)) ?p"
                by (rule step(5) [OF B i bd(1)])
              have rest: "collect fs (drop (n + 1) ls) (base + 1 + int n + 1) src depth conn p' = collect fs' (drop (n + 1) ls) (base + 1 + int n + 1) src depth conn p'"
                if s: "collect fs (take n ls) (base + 1) src depth (glen (ps_conns p)) ?p = Inr p'" for p'
                by (rule step(6) [OF B s out [OF yieldsD [OF collect_ok [OF i] s] bd]])
              show ?thesis using Inr ne Some b x conn False sub rest
                by (cases "collect fs (take n ls) (base + 1) src depth (glen (ps_conns p)) ?p") (simp_all add: collect.simps(2) Let_def)
            qed
          qed
        qed
      qed
    qed
  qed
qed simp

text \<open>
  Claim C35. A profile given as text alone reads no file: without a base directory the outcome, result or error, is the same
  whatever the file system holds, so a profile from a stranger cannot bring in or probe files of the machine.
\<close>

theorem Parse_reads_no_file: "Parse fs text = Parse fs' text"
proof -
  have "parse fs text [] = parse fs' text []" unfolding parse_def
  proof -
    let ?n = "newParser []"
    have b: "o_BaseDir (ps_o ?n) = []" by (simp add: newParser_def defaultOptions_def)
    have "applyAll fs p (ps_entries p) = applyAll fs' p (ps_entries p)"
      if "collect fs (splitLines text) 0 [] 0 (-1) ?n = Inr p" for p
      using yieldsD [OF collect_ok [OF newParser_collecting] that] b
      by (intro applyAll_text [of "length (ps_conns p)"]) (auto simp: collected_def collecting_def)
    then show "rbind (collect fs (splitLines text) 0 [] 0 (-1) ?n) (\<lambda>p. rbind (applyAll fs p (ps_entries p)) (\<lambda>p. rbind (finish_profile p) (\<lambda>p. Inr (ps_o p)))) =
        rbind (collect fs' (splitLines text) 0 [] 0 (-1) ?n) (\<lambda>p. rbind (applyAll fs' p (ps_entries p)) (\<lambda>p. rbind (finish_profile p) (\<lambda>p. Inr (ps_o p))))"
      unfolding collect_text [OF newParser_collecting b, of fs "splitLines text" 0 "[]" 0 fs']
      by (cases "collect fs' (splitLines text) 0 [] 0 (-1) ?n") auto
  qed
  then show ?thesis by (simp add: Parse_def)
qed

end
