(* ===== verification/Options_Push.thy ===== *)
theory Options_Push
  imports Options_Parse Wire
begin

text \<open>
  What a server pushes (\<open>core/proxy/openvpn/ovpn/options/push.go\<close>): the options of its PUSH_REPLY
  messages, filtered and applied one by one, and what is derived from them.

  A call that fails may have changed some of the state: every operation returns its result and the state. The
  source's maps behind \<open>Ignored\<close> and \<open>ProtocolFlags\<close> hold what the lists hold and are not kept apart here.
\<close>

definition maxPushedRoutes :: int where "maxPushedRoutes = 1024"
definition maxPushedDNS :: int where "maxPushedDNS = 32"
definition maxPushedIgnored :: int where "maxPushedIgnored = 256"
definition maxPushedFlags :: int where "maxPushedFlags = 32"

lemmas push_limits = maxPushedRoutes_def maxPushedDNS_def maxPushedIgnored_def maxPushedFlags_def

record dnsServer =
  ds_priority :: int
  ds_addrs :: "addr list"

record pushed =
  p_IPv4 :: prefix
  p_PeerV4 :: addr
  p_GatewayV4 :: addr
  p_IPv6 :: prefix
  p_GatewayV6 :: addr
  p_Routes :: "prefix list"
  p_DNS :: "addr list"
  p_Topology :: string
  p_Cipher :: string
  p_Auth :: string
  p_PeerID :: u32
  p_KeyDerivation :: string
  p_ProtocolFlags :: "string list"
  p_Ping :: duration
  p_PingRestart :: duration
  p_TunMTU :: int
  p_Compression :: mode
  p_CompressionSet :: bool
  p_AuthToken :: string
  p_AuthTokenUser :: string
  p_ExplicitExitNotify :: int
  p_Ignored :: "string list"
  p_ifconfig :: "addr \<times> addr"
  p_hasIfconfig :: bool
  p_dnsServers :: "dnsServer list"
  p_dhcpDNS :: "addr list"

definition NewPushed :: pushed where
  "NewPushed =
    \<lparr>p_IPv4 = NoPrefix, p_PeerV4 = NoAddr, p_GatewayV4 = NoAddr, p_IPv6 = NoPrefix, p_GatewayV6 = NoAddr, p_Routes = [],
     p_DNS = [], p_Topology = [], p_Cipher = [], p_Auth = [], p_PeerID = NoPeerID, p_KeyDerivation = [], p_ProtocolFlags = [],
     p_Ping = 0, p_PingRestart = 0, p_TunMTU = 0, p_Compression = 0, p_CompressionSet = False, p_AuthToken = [],
     p_AuthTokenUser = [], p_ExplicitExitNotify = 0, p_Ignored = [], p_ifconfig = (NoAddr, NoAddr), p_hasIfconfig = False,
     p_dnsServers = [], p_dhcpDNS = []\<rparr>"

type_synonym push_res = "(opt_err, unit) res \<times> pushed"

definition done_push :: "pushed \<Rightarrow> push_res" where "done_push p = (Inr (), p)"
definition fail_push :: "string \<Rightarrow> pushed \<Rightarrow> push_res" where "fail_push msg p = (Inl (Err (Msg msg)), p)"

text \<open>A value that may be missing or malformed, and what is done with it.\<close>

definition push_bind :: "(opt_err, 'a) res \<Rightarrow> pushed \<Rightarrow> ('a \<Rightarrow> push_res) \<Rightarrow> push_res" where
  "push_bind m p f = (case m of Inl e \<Rightarrow> (Inl e, p) | Inr a \<Rightarrow> f a)"

definition push_ignore :: "pushed \<Rightarrow> string \<Rightarrow> push_res" where
  "push_ignore p name =
    push_bind (ignoredName name) p (\<lambda>n.
    done_push (if n \<notin> set (p_Ignored p) \<and> glen (p_Ignored p) < maxPushedIgnored then p\<lparr>p_Ignored := p_Ignored p @ [n]\<rparr> else p))"

fun filterAction :: "string \<Rightarrow> pullFilter list \<Rightarrow> string" where
  "filterAction opt [] = ''accept''"
| "filterAction opt (f # fs) = (if hasPrefix opt (pf_Prefix f) then toLower (pf_Action f) else filterAction opt fs)"

definition pushArg :: "string list \<Rightarrow> nat \<Rightarrow> (opt_err, string) res" where
  "pushArg args i = (if i \<ge> length args then Inl (Err (Msg ''missing argument'')) else Inr (args ! i))"

section \<open>Addresses\<close>

definition leadingZeros32 :: "u32 \<Rightarrow> nat" where
  "leadingZeros32 v = length (takeWhile (\<lambda>i. \<not> bit v i) (rev [0..<32]))"

definition maskBits :: "addr \<Rightarrow> int option" where
  "maskBits m =
    (case m of V4 v \<Rightarrow>
       let ones = leadingZeros32 (NOT v) in if push_bit ones v \<noteq> 0 then None else Some (int ones)
     | _ \<Rightarrow> None)"

definition parseV6Prefix :: "string \<Rightarrow> (opt_err, prefix) res" where
  "parseV6Prefix s =
    (let (a, bitsS, hasBits) = cutChar (CHR ''/'') s in
     case ParseAddr a of None \<Rightarrow> Inl (Err (MsgArg ''bad IPv6 address'' s))
     | Some a \<Rightarrow>
       if \<not> Is6 a \<or> Is4In6 a then Inl (Err (MsgArg ''bad IPv6 address'' s))
       else if \<not> hasBits then Inr (PrefixFrom (noZone a) 64)
       else case atoi bitsS of None \<Rightarrow> Inl (Err (MsgArg ''bad IPv6 prefix length'' s))
         | Some b \<Rightarrow> if b < 0 \<or> b > 128 then Inl (Err (MsgArg ''bad IPv6 prefix length'' s)) else Inr (PrefixFrom (noZone a) b))"

definition parseRoute :: "string list \<Rightarrow> prefix option" where
  "parseRoute args =
    (if args = [] then None
     else case ParseAddr (args ! 0) of None \<Rightarrow> None | Some n \<Rightarrow>
     if \<not> Is4 n then None
     else if length args > 1 \<and> toLower (args ! 1) \<noteq> ''default'' then
       (case ParseAddr (args ! 1) of None \<Rightarrow> None | Some m \<Rightarrow>
        if \<not> Is4 m then None
        else case maskBits m of None \<Rightarrow> None | Some b \<Rightarrow> Some (Masked (PrefixFrom n b)))
     else Some (Masked (PrefixFrom n 32)))"

definition parseDNSAddr :: "string \<Rightarrow> addr option" where
  "parseDNSAddr s =
    (case ParseAddrPort s of Some (a, _) \<Rightarrow> Some (noZone a)
     | None \<Rightarrow> map_option noZone (ParseAddr (trimSuffix (trimPrefix s ''['') '']'')))"

section \<open>Options\<close>

text \<open>The index of the last server of a priority; all addresses stored.\<close>

definition serverOf :: "dnsServer list \<Rightarrow> int \<Rightarrow> nat option" where
  "serverOf ss prio =
    (let is = filter (\<lambda>i. ds_priority (ss ! i) = prio) [0..<length ss] in if is = [] then None else Some (last is))"

definition storedDNS :: "dnsServer list \<Rightarrow> int" where
  "storedDNS ss = sum_list (map (\<lambda>s. glen (ds_addrs s)) ss)"

definition addDNSServer :: "pushed \<Rightarrow> int \<Rightarrow> addr \<Rightarrow> push_res" where
  "addDNSServer p prio a =
    (let ss = p_dnsServers p; full = storedDNS ss \<ge> maxPushedDNS in
     case serverOf ss prio of
       Some i \<Rightarrow>
         if a \<in> set (ds_addrs (ss ! i)) then done_push p
         else if full then push_ignore p ''dns''
         else done_push (p\<lparr>p_dnsServers := ss[i := (ss ! i)\<lparr>ds_addrs := ds_addrs (ss ! i) @ [a]\<rparr>]\<rparr>)
     | None \<Rightarrow>
         if full then push_ignore p ''dns''
         else done_push (p\<lparr>p_dnsServers := ss @ [\<lparr>ds_priority = prio, ds_addrs = [a]\<rparr>]\<rparr>))"

fun dnsAddrs :: "pushed \<Rightarrow> int \<Rightarrow> string list \<Rightarrow> bool \<Rightarrow> (opt_err, bool) res \<times> pushed" where
  "dnsAddrs p prio [] parsed = (Inr parsed, p)"
| "dnsAddrs p prio (s # ss) parsed =
    (case parseDNSAddr s of None \<Rightarrow> dnsAddrs p prio ss parsed
     | Some a \<Rightarrow> (case addDNSServer p prio a of (Inl e, p) \<Rightarrow> (Inl e, p) | (Inr _, p) \<Rightarrow> dnsAddrs p prio ss True))"

definition push_dns :: "pushed \<Rightarrow> string list \<Rightarrow> (opt_err, bool) res \<times> pushed" where
  "push_dns p args =
    (if length args < 4 \<or> toLower (args ! 0) \<noteq> ''server'' \<or> toLower (args ! 2) \<noteq> ''address'' then (Inr False, p)
     else case atoi (args ! 1) of None \<Rightarrow> (Inr False, p)
     | Some prio \<Rightarrow> if prio < -128 \<or> prio > 127 then (Inr False, p) else dnsAddrs p prio (drop 3 args) False)"

definition push_ifconfig :: "pushed \<Rightarrow> string list \<Rightarrow> push_res" where
  "push_ifconfig p args =
    (if length args < 2 then fail_push ''needs an address and a netmask or peer'' p
     else case (ParseAddr (args ! 0), ParseAddr (args ! 1)) of
       (Some local, Some x) \<Rightarrow>
         if \<not> Is4 local \<or> \<not> Is4 x then fail_push ''bad IPv4 address'' p
         else done_push (p\<lparr>p_ifconfig := (local, x), p_hasIfconfig := True\<rparr>)
     | _ \<Rightarrow> fail_push ''bad IPv4 address'' p)"

definition push_ifconfig6 :: "pushed \<Rightarrow> string list \<Rightarrow> push_res" where
  "push_ifconfig6 p args =
    push_bind (pushArg args 0) p (\<lambda>a. push_bind (parseV6Prefix a) p (\<lambda>pfx.
    let p = p\<lparr>p_IPv6 := pfx, p_GatewayV6 := NoAddr\<rparr> in
    if length args > 1 then
      (case ParseAddr (args ! 1) of None \<Rightarrow> fail_push ''bad IPv6 gateway'' p
       | Some gw \<Rightarrow> if \<not> Is6 gw \<or> Is4In6 gw then fail_push ''bad IPv6 gateway'' p else done_push (p\<lparr>p_GatewayV6 := noZone gw\<rparr>))
    else done_push p))"

definition push_route_gateway :: "pushed \<Rightarrow> string \<Rightarrow> string list \<Rightarrow> push_res" where
  "push_route_gateway p name args =
    (case (if args = [] then None else ParseAddr (args ! 0)) of
       Some a \<Rightarrow> if Is4 a then done_push (p\<lparr>p_GatewayV4 := a\<rparr>) else push_ignore p name
     | None \<Rightarrow> push_ignore p name)"

definition addRoute :: "pushed \<Rightarrow> string \<Rightarrow> prefix option \<Rightarrow> push_res" where
  "addRoute p name r =
    (case r of Some pfx \<Rightarrow> if glen (p_Routes p) < maxPushedRoutes then done_push (p\<lparr>p_Routes := p_Routes p @ [pfx]\<rparr>) else push_ignore p name
     | None \<Rightarrow> push_ignore p name)"

definition route6 :: "string list \<Rightarrow> prefix option" where
  "route6 args = (if args = [] then None else case parseV6Prefix (args ! 0) of Inr pfx \<Rightarrow> Some (Masked pfx) | Inl _ \<Rightarrow> None)"

definition push_dhcp :: "pushed \<Rightarrow> string \<Rightarrow> string list \<Rightarrow> push_res" where
  "push_dhcp p name args =
    (case (if length args > 1 \<and> toUpper (args ! 0) \<in> set [''DNS'', ''DNS6''] then ParseAddr (args ! 1) else None) of
       Some a \<Rightarrow>
         let a = noZone a in
         if a \<in> set (p_dhcpDNS p) then done_push p
         else if glen (p_dhcpDNS p) < maxPushedDNS then done_push (p\<lparr>p_dhcpDNS := p_dhcpDNS p @ [a]\<rparr>)
         else push_ignore p name
     | None \<Rightarrow> push_ignore p name)"

definition push_topology :: "pushed \<Rightarrow> string list \<Rightarrow> push_res" where
  "push_topology p args =
    push_bind (pushArg args 0) p (\<lambda>a.
    if toLower a \<in> set [''net30'', ''p2p'', ''subnet''] then done_push (p\<lparr>p_Topology := toLower a\<rparr>)
    else (Inl (Err (MsgArg ''unknown topology'' a)), p))"

definition push_cipher :: "pushed \<Rightarrow> string \<Rightarrow> string list \<Rightarrow> push_res" where
  "push_cipher p name args =
    push_bind (pushArg args 0) p (\<lambda>a.
    if a = [] then fail_push ''empty name'' p
    else if name = ''cipher'' then done_push (p\<lparr>p_Cipher := toUpper a\<rparr>) else done_push (p\<lparr>p_Auth := toUpper a\<rparr>))"

definition push_peer_id :: "pushed \<Rightarrow> string list \<Rightarrow> push_res" where
  "push_peer_id p args =
    push_bind (pushArg args 0) p (\<lambda>a.
    case parseUint10 32 a of None \<Rightarrow> (Inl (Err (MsgArg ''bad peer id'' a)), p)
    | Some n \<Rightarrow> if n > 0xFFFFFF then (Inl (Err (MsgArg ''bad peer id'' a)), p) else done_push (p\<lparr>p_PeerID := of_nat n\<rparr>))"

definition push_key_derivation :: "pushed \<Rightarrow> string list \<Rightarrow> push_res" where
  "push_key_derivation p args =
    push_bind (pushArg args 0) p (\<lambda>a.
    if toLower a \<noteq> ''tls-ekm'' then (Inl (Err (MsgArg ''unsupported method'' a)), p) else done_push (p\<lparr>p_KeyDerivation := ''tls-ekm''\<rparr>))"

definition addFlag :: "pushed \<Rightarrow> string \<Rightarrow> pushed" where
  "addFlag p f =
    (let f = toLower f;
         p = (if f = ''tls-ekm'' then p\<lparr>p_KeyDerivation := ''tls-ekm''\<rparr> else p)
     in if f \<notin> set (p_ProtocolFlags p) \<and> glen (p_ProtocolFlags p) < maxPushedFlags
        then p\<lparr>p_ProtocolFlags := p_ProtocolFlags p @ [f]\<rparr> else p)"

definition push_ping :: "pushed \<Rightarrow> string \<Rightarrow> string list \<Rightarrow> push_res" where
  "push_ping p name args =
    push_bind (pushArg args 0) p (\<lambda>a. push_bind (parseSeconds a) p (\<lambda>d.
    if name = ''ping'' then done_push (p\<lparr>p_Ping := d\<rparr>) else done_push (p\<lparr>p_PingRestart := d\<rparr>)))"

definition push_keepalive :: "pushed \<Rightarrow> string list \<Rightarrow> push_res" where
  "push_keepalive p args =
    (if length args < 2 then fail_push ''needs two arguments'' p
     else push_bind (parseSeconds (args ! 0)) p (\<lambda>ping. push_bind (parseSeconds (args ! 1)) p (\<lambda>restart.
     done_push (p\<lparr>p_Ping := ping, p_PingRestart := restart\<rparr>))))"

definition push_mtu :: "pushed \<Rightarrow> string list \<Rightarrow> push_res" where
  "push_mtu p args = push_bind (pushArg args 0) p (\<lambda>a. push_bind (parseMTU a) p (\<lambda>mtu. done_push (p\<lparr>p_TunMTU := mtu\<rparr>)))"

definition push_compression :: "pushed \<Rightarrow> string \<Rightarrow> string list \<Rightarrow> push_res" where
  "push_compression p name args =
    push_bind (parseCompression name (if args \<noteq> [] then args ! 0 else [])) p (\<lambda>m. done_push (p\<lparr>p_Compression := m, p_CompressionSet := True\<rparr>))"

definition push_token_user :: "pushed \<Rightarrow> string \<Rightarrow> string list \<Rightarrow> push_res" where
  "push_token_user p name args =
    (case (if args = [] then None else decodeBase64 (args ! 0)) of
       Some u \<Rightarrow> done_push (p\<lparr>p_AuthTokenUser := string_of u\<rparr>) | None \<Rightarrow> push_ignore p name)"

definition applyOption :: "pushed \<Rightarrow> string \<Rightarrow> string list \<Rightarrow> push_res" where
  "applyOption p name args =
    (if name = ''ifconfig'' then push_ifconfig p args
     else if name = ''ifconfig-ipv6'' then push_ifconfig6 p args
     else if name = ''route-gateway'' then push_route_gateway p name args
     else if name = ''route'' then addRoute p name (parseRoute args)
     else if name = ''route-ipv6'' then addRoute p name (route6 args)
     else if name = ''dhcp-option'' then push_dhcp p name args
     else if name = ''dns'' then
       (case push_dns p args of (Inl e, p) \<Rightarrow> (Inl e, p) | (Inr used, p) \<Rightarrow> if used then done_push p else push_ignore p name)
     else if name = ''topology'' then push_topology p args
     else if name \<in> set [''cipher'', ''auth''] then push_cipher p name args
     else if name = ''peer-id'' then push_peer_id p args
     else if name = ''key-derivation'' then push_key_derivation p args
     else if name = ''protocol-flags'' then done_push (foldl addFlag p args)
     else if name \<in> set [''ping'', ''ping-restart''] then push_ping p name args
     else if name = ''keepalive'' then push_keepalive p args
     else if name = ''tun-mtu'' then push_mtu p args
     else if name \<in> set [''comp-lzo'', ''compress''] then push_compression p name args
     else if name = ''auth-token'' then push_bind (pushArg args 0) p (\<lambda>a. done_push (p\<lparr>p_AuthToken := a\<rparr>))
     else if name = ''auth-token-user'' then push_token_user p name args
     else if name = ''explicit-exit-notify'' then push_bind (exitCount args) p (\<lambda>n. done_push (p\<lparr>p_ExplicitExitNotify := n\<rparr>))
     else push_ignore p name)"

section \<open>Messages\<close>

definition dedup :: "addr list \<Rightarrow> addr list" where
  "dedup as = foldl (\<lambda>ds a. if a \<in> set ds then ds else ds @ [a]) [] as"

text \<open>The address from \<open>ifconfig\<close> and the topology.\<close>

definition settleIPv4 :: "pushed \<Rightarrow> push_res" where
  "settleIPv4 p =
    (if \<not> p_hasIfconfig p then done_push p
     else
     let (local, x) = p_ifconfig p; n = maskBits x in
     if p_Topology p = ''subnet'' \<and> n = None then fail_push ''ifconfig: not a netmask (topology subnet)'' p
     else case n of
       Some b \<Rightarrow> if p_Topology p = ''subnet'' \<or> b > 0 then done_push (p\<lparr>p_IPv4 := PrefixFrom local b, p_PeerV4 := NoAddr\<rparr>)
         else done_push (p\<lparr>p_IPv4 := PrefixFrom local 32, p_PeerV4 := x\<rparr>)
     | None \<Rightarrow> done_push (p\<lparr>p_IPv4 := PrefixFrom local 32, p_PeerV4 := x\<rparr>))"

definition settle :: "pushed \<Rightarrow> push_res" where
  "settle p =
    (case settleIPv4 p of (Inl e, p) \<Rightarrow> (Inl e, p)
     | (Inr _, p) \<Rightarrow> done_push (p\<lparr>p_DNS := dedup (concat (map ds_addrs (sort_key ds_priority (p_dnsServers p))) @ p_dhcpDNS p)\<rparr>))"

fun applyOptions :: "pullFilter list \<Rightarrow> string list \<Rightarrow> bool \<Rightarrow> pushed \<Rightarrow> (opt_err, bool) res \<times> pushed" where
  "applyOptions filters [] cont p = (case settle p of (Inl Panic, p) \<Rightarrow> (Inl Panic, p)
     | (Inl (Err e), p) \<Rightarrow> (Inl (Err (Within ''PUSH_REPLY'' e)), p) | (Inr _, p) \<Rightarrow> (Inr cont, p))"
| "applyOptions filters (raw # opts) cont p =
    (let opt = trimSpace raw in
     if opt = [] then applyOptions filters opts cont p
     else case splitArgs opt of
       Inl Panic \<Rightarrow> (Inl Panic, p)
     | Inl (Err e) \<Rightarrow> (Inl (Err (Within ''PUSH_REPLY'' e)), p)
     | Inr [] \<Rightarrow> applyOptions filters opts cont p
     | Inr (a0 # args) \<Rightarrow>
       let name = directiveName a0 in
       if name = ''push-continuation'' then applyOptions filters opts (args \<noteq> [] \<and> hd args = ''2'') p
       else if filterAction opt filters = ''reject'' then (Inl (Err (MsgArg ''PUSH_REPLY: rejected by pull-filter'' name)), p)
       else if filterAction opt filters = ''ignore'' then
         (case push_ignore p name of (Inl e, p) \<Rightarrow> (Inl e, p) | (Inr _, p) \<Rightarrow> applyOptions filters opts cont p)
       else (case applyOption p name args of
           (Inl Panic, p) \<Rightarrow> (Inl Panic, p)
         | (Inl (Err e), p) \<Rightarrow> (Inl (Err (Within ''PUSH_REPLY'' (Within name e))), p)
         | (Inr _, p) \<Rightarrow> applyOptions filters opts cont p))"

definition ApplyPushReply :: "pushed \<Rightarrow> string \<Rightarrow> pullFilter list \<Rightarrow> (opt_err, bool) res \<times> pushed" where
  "ApplyPushReply p msg filters =
    (let msg = trimSet [CHR 0x00, CHR '' '', CHR 0x09, CHR 0x0D, CHR 0x0A] msg;
         rest = drop 10 msg
     in if \<not> hasPrefix msg ''PUSH_REPLY'' \<or> (rest \<noteq> [] \<and> hd rest \<noteq> CHR '','') then (Inl (Err (Msg ''not a PUSH_REPLY message'')), p)
        else applyOptions filters (splitChar (CHR '','') rest) False p)"

end
