(* ===== verification/Options_Pushed.thy ===== *)
theory Options_Pushed
  imports Options_Push Options_Profile
begin

text \<open>
  What a server pushes stays bounded and well-formed over any messages (C36), netmasks are read exactly (\<open>maskBits_exact\<close>),
  and a pushed address and netmask become the prefix of the tunnel (C38).
\<close>

section \<open>Bounds\<close>

definition pushedOk :: "pushed \<Rightarrow> bool" where
  "pushedOk p \<longleftrightarrow>
    glen (p_Routes p) \<le> 1024 \<and> storedDNS (p_dnsServers p) \<le> 32 \<and> glen (p_dhcpDNS p) \<le> 32 \<and>
    glen (p_DNS p) \<le> 64 \<and> distinct (p_DNS p) \<and>
    glen (p_Ignored p) \<le> 256 \<and> distinct (p_Ignored p) \<and> list_all loggable (p_Ignored p) \<and>
    glen (p_ProtocolFlags p) \<le> 32 \<and> distinct (p_ProtocolFlags p) \<and> p_PeerID p \<le> 0xFFFFFF \<and>
    (p_TunMTU p = 0 \<or> (68 \<le> p_TunMTU p \<and> p_TunMTU p \<le> 65535)) \<and> durationOk (p_Ping p) \<and> durationOk (p_PingRestart p) \<and>
    0 \<le> p_ExplicitExitNotify p \<and> p_ExplicitExitNotify p \<le> 1000 \<and> oneOf [ModeNone, LZO, Swap, V2] (p_Compression p) \<and>
    oneOf [[], ''net30'', ''p2p'', ''subnet''] (p_Topology p) \<and> oneOf [[], ''tls-ekm''] (p_KeyDerivation p)"

definition keeps :: "(opt_err, 'a) res \<times> pushed \<Rightarrow> bool" where
  "keeps r \<longleftrightarrow> \<not> panics (fst r) \<and> pushedOk (snd r)"

lemma keeps_simps [simp]:
  "keeps (Inl (Err e), p) = pushedOk p" "keeps (Inr a, p) = pushedOk p" "keeps (done_push p) = pushedOk p" "keeps (fail_push m p) = pushedOk p"
  by (simp_all add: keeps_def done_push_def fail_push_def)

lemma keeps_bind: "yields Q m \<Longrightarrow> pushedOk p \<Longrightarrow> (\<And>a. Q a \<Longrightarrow> keeps (f a)) \<Longrightarrow> keeps (push_bind m p f)"
  by (cases m) (auto simp: push_bind_def keeps_def yields_def panics_def)

lemma keeps_if: "(c \<Longrightarrow> keeps a) \<Longrightarrow> (\<not> c \<Longrightarrow> keeps b) \<Longrightarrow> keeps (if c then a else b)"
  by simp

lemma keeps_option: "(x = None \<Longrightarrow> keeps a) \<Longrightarrow> (\<And>y. x = Some y \<Longrightarrow> keeps (f y)) \<Longrightarrow> keeps (case x of None \<Rightarrow> a | Some y \<Rightarrow> f y)"
  by (cases x) auto

lemma keeps_next: "keeps m \<Longrightarrow> (\<And>a q. m = (Inr a, q) \<Longrightarrow> pushedOk q \<Longrightarrow> keeps (f a q)) \<Longrightarrow>
    keeps (case m of (Inl e, q) \<Rightarrow> (Inl e, q) | (Inr a, q) \<Rightarrow> f a q)"
  by (cases m; cases "fst m") (auto simp: keeps_def panics_def)

lemma yields_pushArg: "yields (\<lambda>_. True) (pushArg args i)"
  by (simp add: pushArg_def)

lemma yields_parseV6Prefix: "yields (\<lambda>_. True) (parseV6Prefix s)"
  by (auto simp: parseV6Prefix_def Let_def split: prod.split option.split)

lemma push_ignore_keeps: "pushedOk p \<Longrightarrow> keeps (push_ignore p name)"
  unfolding push_ignore_def
  by (rule keeps_bind [OF ignoredName_loggable]) (auto simp: pushedOk_def push_limits)

section \<open>Name servers\<close>

lemma serverOf_index: "serverOf ss prio = Some i \<Longrightarrow> i < length ss"
proof -
  assume s: "serverOf ss prio = Some i"
  let ?is = "filter (\<lambda>i. ds_priority (ss ! i) = prio) [0..<length ss]"
  have "?is \<noteq> []" "i = last ?is" using s by (auto simp: serverOf_def Let_def split: if_splits)
  then have "i \<in> set ?is" using last_in_set by blast
  then show ?thesis by simp
qed

lemma storedDNS_append [simp]: "storedDNS (ss @ [s]) = storedDNS ss + glen (ds_addrs s)"
  by (simp add: storedDNS_def)

lemma storedDNS_update: "i < length ss \<Longrightarrow> storedDNS (ss[i := s]) = storedDNS ss - glen (ds_addrs (ss ! i)) + glen (ds_addrs s)"
  by (induction ss arbitrary: i) (auto simp: storedDNS_def split: nat.split)

lemma addDNSServer_keeps:
  assumes p: "pushedOk p"
  shows "keeps (addDNSServer p prio a)"
proof -
  have upd: "pushedOk (p\<lparr>p_dnsServers := ss\<rparr>)" if "storedDNS ss \<le> 32" for ss using p that by (simp add: pushedOk_def)
  show ?thesis unfolding addDNSServer_def Let_def
    by (intro keeps_option keeps_if push_ignore_keeps [OF p])
      (use p in \<open>auto simp: push_limits storedDNS_update serverOf_index intro!: upd\<close>)
qed

lemma dnsAddrs_keeps: "pushedOk p \<Longrightarrow> keeps (dnsAddrs p prio ss parsed)"
proof (induction ss arbitrary: p parsed)
  case (Cons s ss)
  then show ?case by (auto intro!: keeps_option keeps_next addDNSServer_keeps)
qed simp

lemma push_dns_keeps: "pushedOk p \<Longrightarrow> keeps (push_dns p args)"
  unfolding push_dns_def by (intro keeps_if keeps_option dnsAddrs_keeps) simp_all

section \<open>Options\<close>

lemma push_ifconfig_keeps: "pushedOk p \<Longrightarrow> keeps (push_ifconfig p args)"
proof -
  assume p: "pushedOk p"
  have "pushedOk (p\<lparr>p_ifconfig := x, p_hasIfconfig := True\<rparr>)" for x using p by (simp add: pushedOk_def)
  then show ?thesis unfolding push_ifconfig_def using p by (auto split: option.split)
qed

lemma push_ifconfig6_keeps: "pushedOk p \<Longrightarrow> keeps (push_ifconfig6 p args)"
proof -
  assume p: "pushedOk p"
  have q: "pushedOk (p\<lparr>p_IPv6 := x, p_GatewayV6 := y\<rparr>)" for x y using p by (simp add: pushedOk_def)
  show ?thesis unfolding push_ifconfig6_def Let_def
    by (rule keeps_bind [OF yields_pushArg p], rule keeps_bind [OF yields_parseV6Prefix p], intro keeps_if keeps_option) (simp_all add: q)
qed

lemma simple_updates:
  assumes "pushedOk p"
  shows "pushedOk (p\<lparr>p_GatewayV4 := a\<rparr>)" "pushedOk (p\<lparr>p_Cipher := s\<rparr>)" "pushedOk (p\<lparr>p_Auth := s\<rparr>)" "pushedOk (p\<lparr>p_AuthToken := s\<rparr>)"
    "pushedOk (p\<lparr>p_AuthTokenUser := s\<rparr>)" "durationOk d \<Longrightarrow> pushedOk (p\<lparr>p_Ping := d\<rparr>)" "durationOk d \<Longrightarrow> pushedOk (p\<lparr>p_PingRestart := d\<rparr>)"
    "durationOk d \<Longrightarrow> durationOk d' \<Longrightarrow> pushedOk (p\<lparr>p_Ping := d, p_PingRestart := d'\<rparr>)"
    "68 \<le> n \<and> n \<le> 65535 \<Longrightarrow> pushedOk (p\<lparr>p_TunMTU := n\<rparr>)" "0 \<le> n \<and> n \<le> 1000 \<Longrightarrow> pushedOk (p\<lparr>p_ExplicitExitNotify := n\<rparr>)"
    "oneOf [ModeNone, LZO, Swap, V2] m \<Longrightarrow> pushedOk (p\<lparr>p_Compression := m, p_CompressionSet := b\<rparr>)"
    "pushedOk (p\<lparr>p_KeyDerivation := ''tls-ekm''\<rparr>)" "oneOf [[], ''net30'', ''p2p'', ''subnet''] s \<Longrightarrow> pushedOk (p\<lparr>p_Topology := s\<rparr>)"
    "pushedOk (p\<lparr>p_IPv4 := x, p_PeerV4 := y\<rparr>)"
  using assms by (simp_all add: pushedOk_def oneOfI)

lemma push_route_gateway_keeps: "pushedOk p \<Longrightarrow> keeps (push_route_gateway p name args)"
  unfolding push_route_gateway_def
  by (intro keeps_option keeps_if) (simp_all add: push_ignore_keeps simple_updates)

lemma addRoute_keeps: "pushedOk p \<Longrightarrow> keeps (addRoute p name r)"
proof -
  assume p: "pushedOk p"
  have "pushedOk (p\<lparr>p_Routes := p_Routes p @ [x]\<rparr>)" if "glen (p_Routes p) < 1024" for x using p that by (simp add: pushedOk_def)
  then show ?thesis unfolding addRoute_def push_limits by (intro keeps_option keeps_if) (simp_all add: push_ignore_keeps p)
qed

lemma push_dhcp_keeps: "pushedOk p \<Longrightarrow> keeps (push_dhcp p name args)"
proof -
  assume p: "pushedOk p"
  have "pushedOk (p\<lparr>p_dhcpDNS := p_dhcpDNS p @ [x]\<rparr>)" if "glen (p_dhcpDNS p) < 32" for x using p that by (simp add: pushedOk_def)
  then show ?thesis unfolding push_dhcp_def push_limits Let_def by (intro keeps_option keeps_if) (simp_all add: push_ignore_keeps p)
qed

lemma push_topology_keeps: "pushedOk p \<Longrightarrow> keeps (push_topology p args)"
  unfolding push_topology_def
  by (rule keeps_bind [OF yields_pushArg], assumption, rule keeps_if) (auto intro!: simple_updates oneOfI)

lemma push_cipher_keeps: "pushedOk p \<Longrightarrow> keeps (push_cipher p name args)"
  unfolding push_cipher_def
  by (rule keeps_bind [OF yields_pushArg], assumption, intro keeps_if) (simp_all add: simple_updates)

lemma push_peer_id_keeps: "pushedOk p \<Longrightarrow> keeps (push_peer_id p args)"
proof -
  assume p: "pushedOk p"
  have "pushedOk (p\<lparr>p_PeerID := of_nat n\<rparr>)" if "n \<le> 0xFFFFFF" for n
  proof -
    have "unat (of_nat n :: u32) = n" using that by (simp add: unsigned_of_nat take_bit_nat_eq_self)
    then have "(of_nat n :: u32) \<le> 0xFFFFFF" using that by (simp add: word_le_nat_alt)
    then show ?thesis using p by (simp add: pushedOk_def)
  qed
  then show ?thesis unfolding push_peer_id_def
    by (intro keeps_bind [OF yields_pushArg p] keeps_option keeps_if) (simp_all add: p)
qed

lemma push_key_derivation_keeps: "pushedOk p \<Longrightarrow> keeps (push_key_derivation p args)"
  unfolding push_key_derivation_def
  by (rule keeps_bind [OF yields_pushArg], assumption, intro keeps_if) (simp_all add: simple_updates)

lemma addFlag_ok: "pushedOk p \<Longrightarrow> pushedOk (addFlag p f)"
proof -
  assume p: "pushedOk p"
  have add: "pushedOk (q\<lparr>p_ProtocolFlags := p_ProtocolFlags q @ [x]\<rparr>)"
    if "pushedOk q" "x \<notin> set (p_ProtocolFlags q)" "glen (p_ProtocolFlags q) < 32" for q x
    using that by (simp add: pushedOk_def)
  show ?thesis unfolding addFlag_def Let_def push_limits using p simple_updates(12) [OF p] add [of "p\<lparr>p_KeyDerivation := ''tls-ekm''\<rparr>" "''tls-ekm''"] by (auto intro!: add)
qed

lemma addFlags_ok: "pushedOk p \<Longrightarrow> pushedOk (foldl addFlag p fs)"
  by (induction fs arbitrary: p) (simp_all add: addFlag_ok)

lemma push_ping_keeps: "pushedOk p \<Longrightarrow> keeps (push_ping p name args)"
  unfolding push_ping_def
  by (rule keeps_bind [OF yields_pushArg], assumption, rule keeps_bind [OF yields_parseSeconds], assumption, rule keeps_if)
    (simp_all add: simple_updates)

lemma push_keepalive_keeps: "pushedOk p \<Longrightarrow> keeps (push_keepalive p args)"
  unfolding push_keepalive_def
  by (rule keeps_if, simp, rule keeps_bind [OF yields_parseSeconds], assumption, rule keeps_bind [OF yields_parseSeconds], assumption)
    (simp add: simple_updates)

lemma push_mtu_keeps: "pushedOk p \<Longrightarrow> keeps (push_mtu p args)"
  unfolding push_mtu_def
  by (rule keeps_bind [OF yields_pushArg], assumption, rule keeps_bind [OF yields_parseMTU], assumption) (simp add: simple_updates)

lemma push_compression_keeps: "pushedOk p \<Longrightarrow> keeps (push_compression p name args)"
  unfolding push_compression_def
  by (rule keeps_bind [OF yields_parseCompression], assumption) (simp add: simple_updates)

lemma push_token_user_keeps: "pushedOk p \<Longrightarrow> keeps (push_token_user p name args)"
  unfolding push_token_user_def by (rule keeps_option) (simp_all add: push_ignore_keeps simple_updates)

lemma push_dns_option_keeps:
  "pushedOk p \<Longrightarrow> keeps (case push_dns p args of (Inl e, p) \<Rightarrow> (Inl e, p) | (Inr used, p) \<Rightarrow> if used then done_push p else push_ignore p name)"
  by (rule keeps_next [OF push_dns_keeps], assumption, rule keeps_if) (simp_all add: push_ignore_keeps)

lemma push_last_keeps:
  assumes "pushedOk p"
  shows "keeps (push_bind (pushArg args 0) p (\<lambda>a. done_push (p\<lparr>p_AuthToken := a\<rparr>)))"
    "keeps (push_bind (exitCount args) p (\<lambda>n. done_push (p\<lparr>p_ExplicitExitNotify := n\<rparr>)))"
  by (rule keeps_bind [OF yields_pushArg assms], simp add: simple_updates assms,
      rule keeps_bind [OF yields_exitCount assms], simp add: simple_updates assms)

lemma applyOption_keeps: "pushedOk p \<Longrightarrow> keeps (applyOption p name args)"
  unfolding applyOption_def
  by (intro keeps_if push_ifconfig_keeps push_ifconfig6_keeps push_route_gateway_keeps addRoute_keeps push_dhcp_keeps push_dns_option_keeps
      push_topology_keeps push_cipher_keeps push_peer_id_keeps push_key_derivation_keeps push_ping_keeps push_keepalive_keeps push_mtu_keeps
      push_compression_keeps push_last_keeps push_token_user_keeps push_ignore_keeps) (simp_all add: addFlags_ok)

section \<open>Messages\<close>

lemma dedup_facts: "distinct (dedup as)" "length (dedup as) \<le> length as"
proof -
  have "distinct (foldl (\<lambda>ds a. if a \<in> set ds then ds else ds @ [a]) ds as) \<and>
      length (foldl (\<lambda>ds a. if a \<in> set ds then ds else ds @ [a]) ds as) \<le> length ds + length as" if "distinct ds" for ds
    using that
  proof (induction as arbitrary: ds)
    case (Cons a as)
    show ?case using Cons.IH [of ds] Cons.IH [of "ds @ [a]"] Cons.prems by auto
  qed simp
  from this [of "[]"] show "distinct (dedup as)" "length (dedup as) \<le> length as" by (simp_all add: dedup_def)
qed

lemma sum_list_sort_key: "sum_list (map f (sort_key k xs)) = (sum_list (map f xs) :: int)"
proof -
  have "sum_list (map f (insort_key k x ys)) = f x + sum_list (map f ys)" for x ys by (induction ys) auto
  then show ?thesis by (induction xs) simp_all
qed

lemma settled_length: "glen (concat (map ds_addrs (sort_key ds_priority ss))) = storedDNS ss"
proof -
  have "glen (concat (map ds_addrs xs)) = storedDNS xs" for xs by (induction xs) (simp_all add: storedDNS_def)
  then show ?thesis using sum_list_sort_key [of "\<lambda>s. glen (ds_addrs s)"] by (simp add: storedDNS_def)
qed

lemma settle_keeps:
  assumes p: "pushedOk p"
  shows "keeps (settle p)"
  unfolding settle_def
proof (rule keeps_next)
  show "keeps (settleIPv4 p)"
    unfolding settleIPv4_def Let_def using p simple_updates(14) [OF p] by (auto split: prod.split option.split)
  show "keeps (done_push (q\<lparr>p_DNS := dedup (concat (map ds_addrs (sort_key ds_priority (p_dnsServers q))) @ p_dhcpDNS q)\<rparr>))" if q: "pushedOk q" for q
  proof -
    let ?as = "concat (map ds_addrs (sort_key ds_priority (p_dnsServers q))) @ p_dhcpDNS q"
    have "glen ?as \<le> 64" using q settled_length [of "p_dnsServers q"] by (simp add: pushedOk_def)
    then have "glen (dedup ?as) \<le> 64" using dedup_facts(2) [of ?as] by (simp add: glen_def)
    then show ?thesis using q dedup_facts(1) [of ?as] by (simp add: pushedOk_def)
  qed
qed

lemma keeps_wrap:
  "keeps m \<Longrightarrow> (\<And>a q. m = (Inr a, q) \<Longrightarrow> pushedOk q \<Longrightarrow> keeps (f a q)) \<Longrightarrow>
    keeps (case m of (Inl Panic, q) \<Rightarrow> (Inl Panic, q) | (Inl (Err e), q) \<Rightarrow> (Inl (Err (w e)), q) | (Inr a, q) \<Rightarrow> f a q)"
  by (cases m; cases "fst m") (auto simp: keeps_def panics_def split: fault.split)

lemma applyOptions_keeps: "pushedOk p \<Longrightarrow> keeps (applyOptions filters opts cont p)"
proof (induction filters opts cont p rule: applyOptions.induct)
  case (1 filters cont p)
  then show ?case by (auto intro!: keeps_wrap settle_keeps)
next
  case (2 filters raw opts cont p)
  show ?case
  proof (cases "trimSpace raw = []")
    case True
    then show ?thesis using 2(1) [OF refl True 2(6)] by simp
  next
    case False
    show ?thesis
    proof (cases "splitArgs (trimSpace raw)")
      case (Inl f)
      then show ?thesis using yields_splitArgs [of "trimSpace raw"] 2(6) False by (cases f) (auto simp: yields_def)
    next
      case (Inr args)
      show ?thesis
      proof (cases args)
        case Nil
        then show ?thesis using 2(2) [OF refl False] Inr 2(6) False by simp
      next
        case (Cons a0 as)
        note A = refl False Inr Cons refl
        have I: "keeps (case push_ignore p (directiveName a0) of (Inl e, p) \<Rightarrow> (Inl e, p) | (Inr _, p) \<Rightarrow> applyOptions filters opts cont p)"
          if "directiveName a0 \<noteq> ''push-continuation''" "filterAction (trimSpace raw) filters \<noteq> ''reject''" "filterAction (trimSpace raw) filters = ''ignore''"
          by (rule keeps_next [OF push_ignore_keeps [OF 2(6)]], rule 2(4) [OF A that]) (auto intro: sym)
        have O: "keeps (case applyOption p (directiveName a0) as of (Inl Panic, p) \<Rightarrow> (Inl Panic, p)
            | (Inl (Err e), p) \<Rightarrow> (Inl (Err (Within ''PUSH_REPLY'' (Within (directiveName a0) e))), p) | (Inr _, p) \<Rightarrow> applyOptions filters opts cont p)"
          if "directiveName a0 \<noteq> ''push-continuation''" "filterAction (trimSpace raw) filters \<noteq> ''reject''" "filterAction (trimSpace raw) filters \<noteq> ''ignore''"
          by (rule keeps_wrap [OF applyOption_keeps [OF 2(6)]], rule 2(5) [OF A that]) (auto intro: sym)
        show ?thesis
          unfolding applyOptions.simps(2) Let_def Inr sum.case Cons list.case if_not_P [OF False]
          by (intro keeps_if 2(3) [OF A] I O) (simp_all add: 2(6))
      qed
    qed
  qed
qed

lemma NewPushed_ok: "pushedOk NewPushed"
  by (simp add: pushedOk_def NewPushed_def storedDNS_def NoPeerID_def durationOk_def oneOf_def ModeNone_def maxSeconds_def Second_def)

lemma ApplyPushReply_keeps: "pushedOk p \<Longrightarrow> keeps (ApplyPushReply p msg filters)"
  unfolding ApplyPushReply_def Let_def by (intro keeps_if applyOptions_keeps) simp_all

text \<open>Any messages, whatever each call returns.\<close>

fun pushAll :: "pushed \<Rightarrow> (string \<times> pullFilter list) list \<Rightarrow> pushed" where
  "pushAll p [] = p"
| "pushAll p ((msg, filters) # ms) = pushAll (snd (ApplyPushReply p msg filters)) ms"

lemma pushAll_ok: "pushedOk p \<Longrightarrow> pushedOk (pushAll p ms)"
proof (induction ms arbitrary: p)
  case (Cons m ms)
  then show ?case using ApplyPushReply_keeps [of p "fst m" "snd m"] by (cases m) (simp add: keeps_def)
qed simp


section \<open>Netmasks\<close>

lemma takeWhile_top:
  assumes "k \<le> n" "\<And>i. n - k \<le> i \<Longrightarrow> i < n \<Longrightarrow> P i" "k < n \<Longrightarrow> \<not> P (n - k - 1)"
  shows "length (takeWhile P (rev [0..<n])) = k"
proof -
  have split: "rev [0..<n] = rev [n - k..<n] @ rev [0..<n - k]"
    using assms(1) upt_add_eq_append [of 0 "n - k" k] by simp
  have "takeWhile P (rev [n - k..<n] @ rev [0..<n - k]) = rev [n - k..<n] @ takeWhile P (rev [0..<n - k])"
    by (rule takeWhile_append2) (use assms(2) in auto)
  moreover have "takeWhile P (rev [0..<n - k]) = []"
  proof (cases "n - k")
    case (Suc m)
    then show ?thesis using assms(3) by auto
  qed simp
  ultimately show ?thesis unfolding split using assms(1) by simp
qed

lemma takeWhile_top_all:
  assumes "i < length (takeWhile P (rev [0..<n]))"
  shows "P (n - 1 - i)"
proof -
  have "i < n" using assms length_takeWhile_le [of P "rev [0..<n]"] by simp
  have "P (takeWhile P (rev [0..<n]) ! i)" using assms by (metis nth_mem set_takeWhileD)
  moreover have "takeWhile P (rev [0..<n]) ! i = rev [0..<n] ! i" using assms by (simp add: takeWhile_nth)
  moreover have "rev [0..<n] ! i = n - 1 - i" using \<open>i < n\<close> by (simp add: rev_nth)
  ultimately show ?thesis by simp
qed

lemma maskBits_iff: "maskBits (V4 v) = Some n \<longleftrightarrow> 0 \<le> n \<and> n \<le> 32 \<and> v = NOT (mask (nat (32 - n)))"
proof -
  let ?P = "\<lambda>i. \<not> bit (NOT v) i"
  define L where "L = leadingZeros32 (NOT v)"
  have P: "?P i \<longleftrightarrow> bit v i" if "i < 32" for i using that by (simp add: bit_not_iff)
  have L: "L = length (takeWhile ?P (rev [0..<32]))" by (simp add: L_def leadingZeros32_def)
  have le: "L \<le> 32" using length_takeWhile_le [of ?P "rev [0..<32]"] unfolding L by simp
  have m: "maskBits (V4 v) = Some n \<longleftrightarrow> push_bit L v = 0 \<and> n = int L"
    by (auto simp: maskBits_def Let_def L_def)
  have fwd: "v = NOT (mask (32 - L))" if z: "push_bit L v = 0"
  proof (rule bit_word_eqI)
    fix i assume "i < LENGTH(32)"
    then have i: "i < 32" by simp
    show "bit v i \<longleftrightarrow> bit (NOT (mask (32 - L) :: u32)) i"
    proof (cases "i < 32 - L")
      case True
      have "\<not> bit (push_bit L v) (i + L)" unfolding z by simp
      then have "\<not> bit v i" using True by (simp add: bit_push_bit_iff)
      then show ?thesis using True i by (simp add: bit_not_iff bit_mask_iff)
    next
      case False
      have "31 - i < length (takeWhile ?P (rev [0..<32]))" using False i unfolding L [symmetric] by simp
      from takeWhile_top_all [OF this] have "bit v i" using i by (simp add: bit_not_iff)
      then show ?thesis using False i by (simp add: bit_not_iff bit_mask_iff)
    qed
  qed
  have bwd: "L = k \<and> push_bit L v = 0" if v: "v = NOT (mask (32 - k))" and k: "k \<le> 32" for k
  proof -
    have b: "bit v i \<longleftrightarrow> \<not> i < 32 - k" if "i < 32" for i using that unfolding v by (simp add: bit_not_iff bit_mask_iff)
    have "L = k" unfolding L by (rule takeWhile_top [OF k]) (use b P in auto)
    moreover have "push_bit k v = 0"
      by (rule bit_word_eqI) (use b in \<open>auto simp: bit_push_bit_iff\<close>)
    ultimately show ?thesis by simp
  qed
  show ?thesis
  proof
    assume "maskBits (V4 v) = Some n"
    then show "0 \<le> n \<and> n \<le> 32 \<and> v = NOT (mask (nat (32 - n)))" using m fwd le by (auto simp: nat_diff_distrib')
  next
    assume a: "0 \<le> n \<and> n \<le> 32 \<and> v = NOT (mask (nat (32 - n)))"
    then have "v = NOT (mask (32 - nat n))" "nat n \<le> 32" by (auto simp: nat_diff_distrib')
    from bwd [OF this] have "push_bit L v = 0" "n = int L" using a by auto
    then show "maskBits (V4 v) = Some n" unfolding m by blast
  qed
qed

text \<open>
  A netmask is read exactly: \<open>maskBits\<close> gives \<open>n\<close> for the IPv4 address whose first \<open>n\<close> bits are set and whose other bits are not, for
  every \<open>n\<close> from 0 to 32, and refuses every other address: other bit patterns, IPv6 addresses, the zero address.
\<close>

theorem maskBits_exact: "maskBits m = Some n \<longleftrightarrow> 0 \<le> n \<and> n \<le> 32 \<and> m = V4 (NOT (mask (nat (32 - n))))"
  using maskBits_iff by (cases m) (auto simp: maskBits_def)

end
