(* ===== verification/Options_Remotes.thy ===== *)
theory Options_Remotes
  imports Options_Profile
begin

text \<open>A profile that lists remotes, one directive a line, is read back (C34).\<close>

definition newline :: char where "newline = CHR 0x0A"

definition remoteArgs :: "remote \<Rightarrow> (bool \<times> string) list" where
  "remoteArgs r = [(False, ''remote''), (True, r_Host r), (False, formatUint (unat (r_Port r))), (False, r_Network r)]"

text \<open>The text: the host in quotes, the port and the network.\<close>

definition remotesText :: "remote list \<Rightarrow> string" where
  "remotesText rs = concat (map (\<lambda>r. printArgs (remoteArgs r) @ [newline]) rs)"

text \<open>A remote that can be written: as the parser would make it, with a host on one line that is not in brackets.\<close>

definition writable :: "remote \<Rightarrow> bool" where
  "writable r \<longleftrightarrow> remoteOk r \<and> newline \<notin> set (r_Host r) \<and> hd (r_Host r) \<noteq> CHR ''[''"

section \<open>Lines\<close>

lemma splitChar_lines:
  assumes "list_all (\<lambda>l. c \<notin> set l) ls"
  shows "splitChar c (concat (map (\<lambda>l. l @ [c]) ls)) = ls @ [[]]"
proof -
  have one: "splitChar c (l @ c # s) = l # splitChar c s" if "c \<notin> set l" for l s
    using that by (induction l) auto
  show ?thesis using assms by (induction ls) (auto simp: one)
qed

lemma digits_plain:
  assumes "list_all isDigit s"
  shows "newline \<notin> set s" "list_all (\<lambda>c. \<not> isSpace c \<and> c \<noteq> backslash) s" "s \<noteq> [] \<Longrightarrow> hd s \<notin> {CHR ''#'', CHR '';'', quot, apostrophe}"
proof -
  have "\<not> isDigit newline" "isDigit c \<Longrightarrow> \<not> isSpace c \<and> c \<noteq> backslash \<and> c \<notin> {CHR ''#'', CHR '';'', quot, apostrophe}" for c
    by (auto simp: isDigit_def isSpace_def newline_def backslash_def quot_def apostrophe_def)
  then show "newline \<notin> set s" "list_all (\<lambda>c. \<not> isSpace c \<and> c \<noteq> backslash) s" "s \<noteq> [] \<Longrightarrow> hd s \<notin> {CHR ''#'', CHR '';'', quot, apostrophe}"
    using assms by (auto simp: list_all_iff)
qed

lemma formatUint_digits: "list_all isDigit (formatUint n) \<and> formatUint n \<noteq> []"
  using parseDigits_formatUint [of n] by (auto simp: parseDigits_def split: if_splits)

lemma networks_plain: "n \<in> set networks \<Longrightarrow> bareOk n \<and> newline \<notin> set n"
proof -
  assume "n \<in> set networks"
  moreover have "list_all (\<lambda>n. bareOk n \<and> newline \<notin> set n) networks" by code_simp
  ultimately show ?thesis by (simp add: list_all_iff)
qed

lemma escapeArg_newline: "newline \<notin> set a \<Longrightarrow> newline \<notin> set (escapeArg a)"
  by (auto simp: escapeArg_def newline_def backslash_def quot_def)

lemma remoteArgs_line:
  assumes "writable r"
  shows "newline \<notin> set (printArgs (remoteArgs r))" "splitArgs (printArgs (remoteArgs r)) = Inr (map snd (remoteArgs r))"
proof -
  let ?port = "formatUint (unat (r_Port r))"
  have net: "bareOk (r_Network r)" "newline \<notin> set (r_Network r)" using networks_plain assms by (auto simp: writable_def remoteOk_def)
  have port: "bareOk ?port" "newline \<notin> set ?port"
    using digits_plain [of ?port] formatUint_digits [of "unat (r_Port r)"] by (auto simp: bareOk_def)
  have kw: "bareOk ''remote''" "newline \<notin> set ''remote''" by code_simp+
  show "newline \<notin> set (printArgs (remoteArgs r))"
    using net port kw assms escapeArg_newline [of "r_Host r"]
    by (auto simp: printArgs_def printArg_def remoteArgs_def quoteArg_def writable_def newline_def quot_def)
  have "splitArgs (printArgs (remoteArgs r) @ []) = Inr (map snd (remoteArgs r))"
    unfolding splitArgs_def
    by (subst argLoop_printArgs) (use net port kw in \<open>simp_all add: remoteArgs_def argLoop_comment isComment_def\<close>)
  then show "splitArgs (printArgs (remoteArgs r)) = Inr (map snd (remoteArgs r))" by simp
qed

lemma hasSuffix_last: "hasSuffix s [c] \<Longrightarrow> last s = c"
proof -
  assume "hasSuffix s [c]"
  then have "drop (length s - 1) s = [c]" by (simp add: hasSuffix_def)
  then have "s = take (length s - 1) s @ [c]" by (metis append_take_drop_id)
  then show ?thesis by (metis last_snoc)
qed

lemma splitLines_remotes:
  assumes "list_all writable rs"
  shows "splitLines (remotesText rs) = map (\<lambda>r. printArgs (remoteArgs r)) rs @ [[]]"
proof -
  have bom: "trimPrefix (remotesText rs) byteOrderMark = remotesText rs"
    by (cases rs) (simp_all add: remotesText_def trimPrefix_def hasPrefix_def byteOrderMark_def printArgs_def printArg_def remoteArgs_def)
  have "remotesText rs = concat (map (\<lambda>l. l @ [newline]) (map (\<lambda>r. printArgs (remoteArgs r)) rs))"
    by (simp add: remotesText_def comp_def)
  then have s: "splitChar newline (remotesText rs) = map (\<lambda>r. printArgs (remoteArgs r)) rs @ [[]]"
    using splitChar_lines [of newline "map (\<lambda>r. printArgs (remoteArgs r)) rs"] assms remoteArgs_line(1) by (auto simp: list_all_iff)
  have cr: "trimSuffix (printArgs (remoteArgs r)) [CHR 0x0D] = printArgs (remoteArgs r)" for r
  proof -
    have "last (printArgs (remoteArgs r)) = CHR '' ''" "printArgs (remoteArgs r) \<noteq> []" by (simp_all add: printArgs_def remoteArgs_def)
    then have "\<not> hasSuffix (printArgs (remoteArgs r)) [CHR 0x0D]" using hasSuffix_last by fastforce
    then show ?thesis by (simp add: trimSuffix_def)
  qed
  show ?thesis
    unfolding splitLines_def bom newline_def [symmetric] s map_append map_map comp_def cr
    by (simp add: trimSuffix_def hasSuffix_def)
qed

section \<open>Entries\<close>

definition remoteEntry :: "int \<Rightarrow> remote \<Rightarrow> entry" where
  "remoteEntry num r = \<lparr>e_src = [], e_line = num, e_args = map snd (remoteArgs r), e_block = False, e_content = None,
     e_conn = -1, e_connOpen = False\<rparr>"

fun remoteEntries :: "int \<Rightarrow> remote list \<Rightarrow> entry list" where
  "remoteEntries base [] = []"
| "remoteEntries base (r # rs) = remoteEntry (base + 1) r # remoteEntries (base + 1) rs"

lemma collect_remotes:
  assumes "list_all writable rs"
  shows "collect fs (map (\<lambda>r. printArgs (remoteArgs r)) rs @ [[]]) base [] depth (-1) p = Inr (p\<lparr>ps_entries := ps_entries p @ remoteEntries base rs\<rparr>)"
  using assms
proof (induction rs arbitrary: base p)
  case Nil
  have e: "splitArgs [] = Inr []" by code_simp
  show ?case by (simp add: collect.simps(2) e atLine_def)
next
  case (Cons r rs)
  let ?a = "map snd (remoteArgs r)"
  have s: "splitArgs (printArgs (remoteArgs r)) = Inr ?a" using remoteArgs_line(2) Cons.prems by simp
  have d: "directiveName ''remote'' = ''remote''" by code_simp
  have l: "lineArgs ?a = ?a" by (simp add: lineArgs_def remoteArgs_def d)
  have "collect fs (map (\<lambda>r. printArgs (remoteArgs r)) (r # rs) @ [[]]) base [] depth (-1) p =
      collect fs (map (\<lambda>r. printArgs (remoteArgs r)) rs @ [[]]) (base + 1) [] depth (-1) (addEntry (remoteEntry (base + 1) r) p)"
    unfolding list.map append_Cons collect.simps(2) s
    by (simp add: atLine_def openTag_def l remoteEntry_def Let_def) (simp add: remoteArgs_def openTag_def l [unfolded remoteArgs_def, simplified] Let_def)
  also have "\<dots> = Inr ((addEntry (remoteEntry (base + 1) r) p)\<lparr>ps_entries := ps_entries (addEntry (remoteEntry (base + 1) r) p) @ remoteEntries (base + 1) rs\<rparr>)"
    by (rule Cons.IH) (use Cons.prems in simp)
  finally show ?case by (simp add: addEntry_def)
qed

definition specOf :: "remote \<Rightarrow> remoteSpec" where
  "specOf r = \<lparr>s_host = r_Host r, s_port = r_Port r, s_network = r_Network r\<rparr>"

lemma parseProto_network: "n \<in> set networks \<Longrightarrow> parseProto n = Inr n"
proof -
  have "list_all (\<lambda>n. parseProto n = Inr n) networks" by code_simp
  then show "n \<in> set networks \<Longrightarrow> parseProto n = Inr n" by (simp add: list_all_iff)
qed

lemma parsePort_format: "v \<noteq> 0 \<Longrightarrow> parsePort (formatUint (unat (v :: u16))) = Inr v"
  using unsigned_less [of v, where 'a = nat] by (simp add: parsePort_def parseUint10_def unat_eq_zero)

lemma apply_remote:
  assumes "writable r"
  shows "apply_entry fs p (remoteEntry num r) = Inr (p\<lparr>ps_remotes := ps_remotes p @ [specOf r]\<rparr>)"
proof -
  let ?e = "remoteEntry num r"
  have r: "r_Host r \<noteq> []" "r_Port r \<noteq> 0" "r_Network r \<in> set networks" "hd (r_Host r) \<noteq> CHR ''[''"
    using assms by (simp_all add: writable_def remoteOk_def)
  have args: "e_args ?e = [''remote'', r_Host r, formatUint (unat (r_Port r)), r_Network r]" by (simp add: remoteEntry_def remoteArgs_def)
  have a1: "arg ?e 1 = Inr (r_Host r)" by (simp add: arg_def args)
  have g: "gfrom (e_args ?e) 2 = (Inr [formatUint (unat (r_Port r)), r_Network r] :: (opt_err, string list) res)" by (simp add: args)
  have rp: "remotePort [formatUint (unat (r_Port r)), r_Network r] = Inr (r_Port r, [r_Network r])"
    by (simp add: remotePort_def parsePort_format [OF r(2)])
  have rn: "remoteNetwork [r_Network r] = Inr (r_Network r)" by (simp add: remoteNetwork_def parseProto_network [OF r(3)] within_def)
  have "do_remote p ?e = Inr (p\<lparr>ps_remotes := ps_remotes p @ [specOf r]\<rparr>)"
    unfolding do_remote_def a1 rbind_Inr Let_def using r(1,4) g rp rn by (simp add: remoteEntry_def specOf_def)
  moreover have "apply_entry fs p ?e = do_remote p ?e"
    by (simp add: apply_entry_def ename_def args apply_directive_def) (simp add: remoteEntry_def)
  ultimately show ?thesis by simp
qed

lemma applyAll_remotes:
  "list_all writable rs \<Longrightarrow> applyAll fs p (remoteEntries base rs) = Inr (p\<lparr>ps_remotes := ps_remotes p @ map specOf rs\<rparr>)"
  by (induction rs arbitrary: base p) (simp_all add: apply_remote atLine_def)

text \<open>
  Claim C34. A profile written as a list of remotes is read as exactly these remotes, in their order, with
  every other option at its default, whatever the base directory and the files.
\<close>

theorem parse_remotesText:
  assumes "list_all writable rs"
  shows "parse fs (remotesText rs) dir = Inr ((defaultOptions dir)\<lparr>o_Remotes := rs\<rparr>)"
proof -
  define p where "p = (newParser dir)\<lparr>ps_entries := remoteEntries 0 rs\<rparr>"
  define q where "q = p\<lparr>ps_remotes := map specOf rs\<rparr>"
  have c: "collect fs (splitLines (remotesText rs)) 0 [] 0 (-1) (newParser dir) = Inr p"
    unfolding splitLines_remotes [OF assms] collect_remotes [OF assms] by (simp add: p_def newParser_def)
  have a: "applyAll fs p (ps_entries p) = Inr q"
    using applyAll_remotes [OF assms, of fs p 0] by (simp add: p_def q_def newParser_def)
  have m: "map (specRemote q) (map specOf rs) = rs"
    using assms by (intro map_idI [of rs "specRemote q \<circ> specOf", unfolded map_map [symmetric]])
      (auto simp: list_all_iff specRemote_def specOf_def makeRemote_def writable_def remoteOk_def)
  have "finish_profile q = Inr (setO (\<lambda>o'. o'\<lparr>o_Remotes := rs\<rparr>) q)"
    using m by (simp add: finish_profile_def setO_def q_def p_def newParser_def defaultOptions_def hasPrefix_def specRemote_def)
  then show ?thesis unfolding parse_def c rbind_Inr a by (simp add: setO_def q_def p_def newParser_def)
qed

definition noFiles :: fileSys where
  "noFiles = \<lparr>fs_join = (\<lambda>d f. d @ f), fs_read = (\<lambda>_. Inl ''no such file'')\<rparr>"

theorem parse_remotesText_witness:
  "parse noFiles (remotesText [\<lparr>r_Host = ''vpn.example.org'', r_Port = 1194, r_Network = ''udp''\<rparr>, \<lparr>r_Host = ''10.0.0.1'', r_Port = 443, r_Network = ''tcp''\<rparr>]) [] =
     Inr ((defaultOptions [])\<lparr>o_Remotes := [\<lparr>r_Host = ''vpn.example.org'', r_Port = 1194, r_Network = ''udp''\<rparr>, \<lparr>r_Host = ''10.0.0.1'', r_Port = 443, r_Network = ''tcp''\<rparr>]\<rparr>)"
  by (rule parse_remotesText) (simp add: writable_def remoteOk_def newline_def networks_def)

end
