(* ===== verification/Options_Address.thy ===== *)
theory Options_Address
  imports Options_Pushed Options_Remotes
begin

text \<open>IPv4 addresses are read back as they are written, and a pushed address and netmask become the prefix of the tunnel (C38).\<close>

section \<open>Dotted addresses\<close>

definition octet :: "u32 \<Rightarrow> nat \<Rightarrow> nat" where
  "octet v i = unat v div 2 ^ i mod 256"

definition octets :: "u32 \<Rightarrow> nat list" where
  "octets v = map (octet v) [24, 16, 8, 0]"

definition showV4 :: "u32 \<Rightarrow> string" where
  "showV4 v = joinWith ''.'' (map formatUint (octets v))"

lemma formatUint_zero: "hd (formatUint n) = CHR ''0'' \<Longrightarrow> n = 0"
proof (induction n rule: formatUint.induct)
  case (1 n)
  show ?case
  proof (cases "n < 10")
    case True
    then have "formatUint n = [char_of (48 + n)]" by (subst formatUint.simps) simp
    then have "digitVal (hd (formatUint n)) = n" using digit_char [OF True] by simp
    then show ?thesis using 1(2) by (simp add: digitVal_def)
  next
    case False
    have "formatUint n = formatUint (n div 10) @ [char_of (48 + n mod 10)]" using False by (subst formatUint.simps) simp
    then have "hd (formatUint (n div 10)) = CHR ''0''" using 1(2) formatUint_digits [of "n div 10"] by simp
    then have "n div 10 = 0" using 1(1) False by simp
    then show ?thesis using False by simp
  qed
qed

lemma parseOctet_format: "n < 256 \<Longrightarrow> parseOctet (formatUint n) = Some n"
proof -
  assume n: "n < 256"
  have "\<not> (length (formatUint n) > 1 \<and> hd (formatUint n) = CHR ''0'')"
  proof
    assume a: "length (formatUint n) > 1 \<and> hd (formatUint n) = CHR ''0''"
    then have "n = 0" using formatUint_zero by blast
    then have "formatUint n = [char_of (48 :: nat)]" by (simp add: formatUint.simps [of 0])
    then show False using a by simp
  qed
  then show ?thesis using n by (auto simp: parseOctet_def)
qed

lemma splitChar_joinWith:
  assumes "ls \<noteq> []" "list_all (\<lambda>l. c \<notin> set l) ls"
  shows "splitChar c (joinWith [c] ls) = ls"
proof -
  have one: "splitChar c (l @ c # s) = l # splitChar c s" if "c \<notin> set l" for l s
    using that by (induction l) auto
  have end': "splitChar c l = [l]" if "c \<notin> set l" for l using that by (induction l) auto
  show ?thesis using assms
  proof (induction ls)
    case (Cons l ls)
    then show ?case by (cases ls) (auto simp: one end')
  qed simp
qed

lemma octet_digits: "list_all isDigit (formatUint n)" "CHR ''.'' \<notin> set (formatUint n)" "CHR '','' \<notin> set (formatUint n)"
  using formatUint_digits [of n] by (auto simp: list_all_iff isDigit_def)

lemma parseIPv4_show: "parseIPv4 (showV4 v) = Some (octets v)"
proof -
  have "splitChar (CHR ''.'') (showV4 v) = map formatUint (octets v)"
    unfolding showV4_def by (rule splitChar_joinWith) (simp_all add: octets_def octet_digits)
  then show ?thesis by (simp add: parseIPv4_def Let_def octets_def parseOctet_format octet_def)
qed

lemma nat_octets: "foldl (\<lambda>v b. v * 256 + b) 0 (octets v) = unat v"
proof -
  let ?x = "unat v"
  have lt: "?x < 256 * 16777216" using unsigned_less [of v, where 'a = nat] by simp
  have "?x div 16777216 mod 256 = ?x div 16777216" using lt by (simp add: less_mult_imp_div_less)
  moreover have "?x div 16777216 * 256 + ?x div 65536 mod 256 = ?x div 65536"
    using div_mult_mod_eq [of "?x div 65536" 256] by (simp add: div_mult2_eq [of ?x 65536 256, symmetric])
  moreover have "?x div 65536 * 256 + ?x div 256 mod 256 = ?x div 256"
    using div_mult_mod_eq [of "?x div 256" 256] by (simp add: div_mult2_eq [of ?x 256 256, symmetric])
  moreover have "?x div 256 * 256 + ?x mod 256 = ?x" by (rule div_mult_mod_eq)
  ultimately show ?thesis by (simp add: octets_def octet_def)
qed

lemma word_octets: "foldl (\<lambda>v b. v * 256 + of_nat b) 0 (octets v) = v"
proof -
  have "foldl (\<lambda>v b. v * 256 + of_nat b) (of_nat a) bs = (of_nat (foldl (\<lambda>v b. v * 256 + b) a bs) :: u32)" for a bs
  proof (induction bs arbitrary: a)
    case (Cons b bs)
    have e: "of_nat a * 256 + of_nat b = (of_nat (a * 256 + b) :: u32)" by simp
    show ?case unfolding foldl.simps e by (rule Cons.IH)
  qed simp
  from this [of 0 "octets v"] show ?thesis by (simp add: nat_octets)
qed

lemma find_first: "list_all (\<lambda>x. \<not> P x) xs \<Longrightarrow> P y \<Longrightarrow> find P (xs @ y # ys) = Some y"
  by (induction xs) auto

lemma ParseAddr_show: "ParseAddr (showV4 v) = Some (V4 v)"
proof -
  obtain rest where s: "showV4 v = formatUint (octet v 24) @ CHR ''.'' # rest" by (simp add: showV4_def octets_def)
  have "list_all (\<lambda>c. c \<notin> {CHR ''.'', CHR '':'', CHR ''%''}) (formatUint (octet v 24))"
    using octet_digits(1) [of "octet v 24"] by (auto simp: list_all_iff isDigit_def)
  then have "find (\<lambda>c. c \<in> {CHR ''.'', CHR '':'', CHR ''%''}) (showV4 v) = Some (CHR ''.'')"
    unfolding s by (intro find_first) simp_all
  then show ?thesis by (simp add: ParseAddr_def parseIPv4_show word_octets)
qed

section \<open>A pushed address\<close>

text \<open>The characters of an address.\<close>

lemma showV4_chars: "c \<in> set (showV4 v) \<Longrightarrow> isDigit c \<or> c = CHR ''.''"
  using formatUint_digits by (auto simp: showV4_def octets_def list_all_iff)

lemma showV4_ends: "showV4 v \<noteq> []" "isDigit (hd (showV4 v))" "isDigit (last (showV4 v))"
proof -
  have d: "formatUint n \<noteq> []" "isDigit (hd (formatUint n))" "isDigit (last (formatUint n))" for n
    using formatUint_digits [of n] by (auto simp: list_all_iff)
  then show "showV4 v \<noteq> []" "isDigit (hd (showV4 v))" "isDigit (last (showV4 v))" by (simp_all add: showV4_def octets_def)
qed

lemma showV4_bare: "bareOk (showV4 v)"
proof -
  have "\<not> isSpace c \<and> c \<noteq> backslash" if "isDigit c \<or> c = CHR ''.''" for c
    using that by (auto simp: isDigit_def isSpace_def backslash_def)
  moreover have "hd (showV4 v) \<notin> {CHR ''#'', CHR '';'', quot, apostrophe}"
    using showV4_ends(2) [of v] by (auto simp: isDigit_def quot_def apostrophe_def)
  ultimately show ?thesis using showV4_chars showV4_ends(1) by (simp add: bareOk_def list_all_iff)
qed

lemma trimSpace_id:
  assumes "s \<noteq> []" "list_all (\<lambda>sp. hd sp \<noteq> hd s \<and> last sp \<noteq> last s) spaces"
  shows "trimSpace s = s"
proof -
  have "\<not> hasPrefix s sp" "\<not> hasSuffix s sp" if "sp \<in> set spaces" for sp
  proof -
    have sp: "sp \<noteq> []" "hd sp \<noteq> hd s" "last sp \<noteq> last s" using that assms(2) spaces_nonempty [OF that] by (auto simp: list_all_iff)
    show "\<not> hasPrefix s sp" using sp assms(1) unfolding hasPrefix_def by (cases s; cases sp) auto
    show "\<not> hasSuffix s sp"
    proof
      assume "hasSuffix s sp"
      then have "s = take (length s - length sp) s @ sp" unfolding hasSuffix_def by (metis append_take_drop_id)
      then show False using sp by (metis last_appendR)
    qed
  qed
  then have "leadingSpace s = None" "trailingSpace s = None" by (auto simp: leadingSpace_def trailingSpace_def find_None_iff)
  then show ?thesis by (simp add: trimSpace_def trimLeft.simps trimRight.simps)
qed

lemma spaces_not_digit: "isDigit c \<Longrightarrow> list_all (\<lambda>sp. last sp \<noteq> c) spaces"
  by (auto simp: spaces_def isDigit_def)

definition ifconfigOption :: "u32 \<Rightarrow> u32 \<Rightarrow> string" where
  "ifconfigOption a m = ''ifconfig '' @ showV4 a @ '' '' @ showV4 m"

lemma ifconfig_option:
  "trimSpace (ifconfigOption a m) = ifconfigOption a m" "splitArgs (ifconfigOption a m) = Inr [''ifconfig'', showV4 a, showV4 m]"
  "CHR '','' \<notin> set (ifconfigOption a m)" "ifconfigOption a m \<noteq> []" "isDigit (last (ifconfigOption a m))"
proof -
  show e: "ifconfigOption a m \<noteq> []" "isDigit (last (ifconfigOption a m))" using showV4_ends [of m] by (simp_all add: ifconfigOption_def)
  have "list_all (\<lambda>sp. hd sp \<noteq> CHR ''i'') spaces" by code_simp
  then show "trimSpace (ifconfigOption a m) = ifconfigOption a m"
    using spaces_not_digit [OF e(2)] by (intro trimSpace_id [OF e(1)]) (auto simp: list_all_iff ifconfigOption_def)
  have kw: "bareOk ''ifconfig''" by code_simp
  have "argLoop [] [] False (''ifconfig'' @ CHR '' '' # showV4 a @ CHR '' '' # showV4 m) = Inr [''ifconfig'', showV4 a, showV4 m]"
    using argLoop_bare [OF kw, of "CHR '' '' # showV4 a @ CHR '' '' # showV4 m" "[]"]
      argLoop_bare [OF showV4_bare [of a], of "CHR '' '' # showV4 m" "[''ifconfig'']"]
      argLoop_bare [OF showV4_bare [of m], of "[]" "[''ifconfig'', showV4 a]"] argLoop_comment [of "[]"]
    by (simp add: isSpace_def isComment_def)
  then show "splitArgs (ifconfigOption a m) = Inr [''ifconfig'', showV4 a, showV4 m]" by (simp add: splitArgs_def ifconfigOption_def)
  show "CHR '','' \<notin> set (ifconfigOption a m)" using showV4_chars by (fastforce simp: ifconfigOption_def isDigit_def)
qed

definition addressMessage :: "u32 \<Rightarrow> u32 \<Rightarrow> string" where
  "addressMessage a m = ''PUSH_REPLY,topology subnet,'' @ ifconfigOption a m"

lemma addressMessage_options:
  "trimSet [CHR 0x00, CHR '' '', CHR 0x09, CHR 0x0D, CHR 0x0A] (addressMessage a m) = addressMessage a m"
  "hasPrefix (addressMessage a m) ''PUSH_REPLY''"
  "drop 10 (addressMessage a m) = CHR '','' # ''topology subnet,'' @ ifconfigOption a m"
  "splitChar (CHR '','') (drop 10 (addressMessage a m)) = [[], ''topology subnet'', ifconfigOption a m]"
proof -
  let ?ws = "[CHR 0x00, CHR '' '', CHR 0x09, CHR 0x0D, CHR 0x0A]"
  have "last (addressMessage a m) \<notin> set ?ws" "addressMessage a m \<noteq> []"
    using ifconfig_option(4,5) [of a m] by (auto simp: addressMessage_def isDigit_def)
  then have "dropWhile (\<lambda>c. c \<in> set ?ws) (rev (addressMessage a m)) = rev (addressMessage a m)"
    by (cases "rev (addressMessage a m)") (auto simp: last_rev [symmetric])
  moreover have "dropWhile (\<lambda>c. c \<in> set ?ws) (addressMessage a m) = addressMessage a m" by (simp add: addressMessage_def)
  ultimately show "trimSet ?ws (addressMessage a m) = addressMessage a m" by (simp add: trimSet_def trimRightSet_def)
  show "hasPrefix (addressMessage a m) ''PUSH_REPLY''" by (simp add: hasPrefix_def addressMessage_def)
  show d: "drop 10 (addressMessage a m) = CHR '','' # ''topology subnet,'' @ ifconfigOption a m" by (simp add: addressMessage_def)
  have "joinWith '','' [[], ''topology subnet'', ifconfigOption a m] = drop 10 (addressMessage a m)" unfolding d by simp
  then show "splitChar (CHR '','') (drop 10 (addressMessage a m)) = [[], ''topology subnet'', ifconfigOption a m]"
    using splitChar_joinWith [of "[[], ''topology subnet'', ifconfigOption a m]" "CHR '',''"] ifconfig_option(3) by simp
qed

lemma applyOption_ifconfig:
  "applyOption p ''ifconfig'' [showV4 a, showV4 m] = done_push (p\<lparr>p_ifconfig := (V4 a, V4 m), p_hasIfconfig := True\<rparr>)"
  by (simp add: applyOption_def push_ifconfig_def ParseAddr_show Is4_def)

lemma applyOption_subnet: "applyOption p ''topology'' [''subnet''] = done_push (p\<lparr>p_Topology := ''subnet''\<rparr>)"
proof -
  have "toLower ''subnet'' = ''subnet''" by code_simp
  then show ?thesis by (simp add: applyOption_def push_topology_def pushArg_def push_bind_def)
qed

lemma netmask_bits: "n \<le> 32 \<Longrightarrow> maskBits (V4 (NOT (mask (32 - n)))) = Some (int n)"
  by (simp add: maskBits_iff nat_diff_distrib')

lemma applyOptions_address:
  "applyOptions [] [[], ''topology subnet'', ifconfigOption a m] False p =
    applyOptions [] [] False (p\<lparr>p_Topology := ''subnet'', p_ifconfig := (V4 a, V4 m), p_hasIfconfig := True\<rparr>)"
proof -
  have "trimSpace ''topology subnet'' = ''topology subnet''" "splitArgs ''topology subnet'' = Inr [''topology'', ''subnet'']"
      "trimSpace [] = []" "directiveName ''topology'' = ''topology''" "directiveName ''ifconfig'' = ''ifconfig''"
    by code_simp+
  then show ?thesis by (simp add: ifconfig_option applyOption_subnet applyOption_ifconfig done_push_def Let_def)
qed

lemma settle_subnet:
  assumes "maskBits (V4 m) = Some n" "p_hasIfconfig q" "p_Topology q = ''subnet''" "p_ifconfig q = (V4 a, V4 m)"
  shows "case applyOptions [] [] False q of
    (r, q) \<Rightarrow> r = Inr False \<and> p_IPv4 q = Prefix (V4 a) n \<and> p_PeerV4 q = NoAddr \<and> p_Topology q = ''subnet''"
proof -
  have "0 \<le> n" "n \<le> 32" using assms(1) by (auto simp: maskBits_iff)
  then have "settleIPv4 q = done_push (q\<lparr>p_IPv4 := Prefix (V4 a) n, p_PeerV4 := NoAddr\<rparr>)"
    using assms by (simp add: settleIPv4_def PrefixFrom_def noZone_def)
  then show ?thesis using assms(3) by (simp add: settle_def done_push_def)
qed

lemma ApplyPushReply_address:
  "ApplyPushReply p (addressMessage a m) [] = applyOptions [] [[], ''topology subnet'', ifconfigOption a m] False p"
proof -
  have "length ''PUSH_REPLY'' = 10" by simp
  then show ?thesis unfolding ApplyPushReply_def Let_def addressMessage_options(1)
    using addressMessage_options(2,4) [of a m] addressMessage_options(3) [of a m] by (simp del: applyOptions.simps splitChar.simps)
qed

text \<open>
  Claim C38. A pushed address and netmask become the address of the tunnel: in topology subnet, for every IPv4 address and every netmask of \<open>n\<close> bits
  in dotted form, the reply is accepted, whatever was pushed before, and the client has that address with prefix length \<open>n\<close> and no peer.
\<close>

theorem pushed_address:
  assumes "n \<le> 32"
  shows "case ApplyPushReply p (addressMessage a (NOT (mask (32 - n)))) [] of
    (r, q) \<Rightarrow> r = Inr False \<and> p_IPv4 q = Prefix (V4 a) (int n) \<and> p_PeerV4 q = NoAddr \<and> p_Topology q = ''subnet''"
  using settle_subnet [OF netmask_bits [OF assms]] by (simp add: ApplyPushReply_address applyOptions_address del: applyOptions.simps)

theorem pushed_address_witness:
  "p_IPv4 (snd (ApplyPushReply NewPushed (addressMessage 0x0A080002 (NOT (mask (32 - 24)))) [])) = Prefix (V4 0x0A080002) 24"
  using pushed_address [where n = 24 and p = NewPushed and a = "0x0A080002"] by (auto split: prod.splits)

end
