(* ===== verification/Client_Text.thy ===== *)
theory Client_Text
  imports Datachan Options_Push
begin

text \<open>
  The decisions of the client session that are functions of texts (\<open>core/proxy/openvpn/ovpn/client\<close>): the
  control messages of a TLS stream, the ciphers offered and the one chosen, what is announced to the server, what
  may be logged, the order of the remotes. \<open>printable\<close>, which shortens texts of the server for errors, is not
  applied: the errors here carry the text itself.
\<close>

section \<open>Control messages\<close>

text \<open>The terminated messages of a stream, without the empty ones, and the unterminated tail.\<close>

function splitControlMessages :: "bytes \<Rightarrow> string list \<times> bytes" where
  "splitControlMessages b =
    (if 0 \<notin> set b then ([], b)
     else let m = takeWhile (\<lambda>x. x \<noteq> 0) b; (ms, rest) = splitControlMessages (drop (length m + 1) b)
          in (if m \<noteq> [] then string_of m # ms else ms, rest))"
  by auto
termination
  by (relation "measure length") (auto dest: length_pos_if_in_set)

declare splitControlMessages.simps [simp del]

text \<open>The seconds of \<open>timeout N\<close> in the arguments of AUTH_PENDING.\<close>

fun pendingSeconds :: "string list \<Rightarrow> nat option" where
  "pendingSeconds [] = None"
| "pendingSeconds (kw # kws) =
    (let (k, v, found) = cutChar (CHR '' '') (trimSpace kw);
         (k, v, found) = (if found then (k, v, found) else cutChar (CHR ''='') (trimSpace kw))
     in if \<not> found \<or> k \<noteq> ''timeout'' then pendingSeconds kws
        else case parseUint10 32 (trimSpace v) of None \<Rightarrow> None | Some n \<Rightarrow> if n = 0 then None else Some n)"

definition authPendingTimeout :: "string \<Rightarrow> Options.duration option" where
  "authPendingTimeout s = map_option (\<lambda>n. int n * Second) (pendingSeconds (splitChar (CHR '','') s))"

section \<open>Ciphers\<close>

fun optionsEntry :: "string list \<Rightarrow> string" where
  "optionsEntry [] = []"
| "optionsEntry (e # es) = (if hasPrefix e ''cipher '' then trimSpace (drop 7 e) else optionsEntry es)"

definition optionsCipher :: "string \<Rightarrow> string" where
  "optionsCipher s = optionsEntry (splitChar (CHR '','') s)"

definition sameDigest :: "string \<Rightarrow> string \<Rightarrow> bool" where
  "sameDigest a b \<longleftrightarrow> CanonicalDigest a \<noteq> None \<and> CanonicalDigest a = CanonicalDigest b"

definition addCipher :: "string list \<Rightarrow> string \<Rightarrow> string list" where
  "addCipher have name =
    (case CanonicalCipher name of None \<Rightarrow> have | Some cn \<Rightarrow> if cn \<in> set have then have else have @ [cn])"

definition fallbackCipher :: "ovpnOptions \<Rightarrow> string" where
  "fallbackCipher opt = (if o_DataCiphersFallback opt \<noteq> [] then o_DataCiphersFallback opt else o_Cipher opt)"

definition cipherList :: "ovpnOptions \<Rightarrow> string list \<times> string" where
  "cipherList opt =
    (let names = (if o_DataCiphers opt = [] then [''AES-256-GCM'', ''AES-128-GCM'', ''CHACHA20-POLY1305''] else o_DataCiphers opt);
         have = foldl addCipher [] names;
         fb = fallbackCipher opt
     in (if fb \<noteq> [] then addCipher have fb else have, fb))"

datatype cipher_err =
  PushedUnsupported string
| PushedNotOffered string
| FallbackUnsupported string
| ServerCipherNotOffered string
| NoCipher

definition chooseCipher :: "string list \<Rightarrow> string \<Rightarrow> string \<Rightarrow> string \<Rightarrow> (cipher_err, string) res" where
  "chooseCipher offered fb pushed' serverOptions =
    (if pushed' \<noteq> [] then
       (case CanonicalCipher pushed' of None \<Rightarrow> Inl (Err (PushedUnsupported pushed'))
        | Some cn \<Rightarrow> if cn \<notin> set offered then Inl (Err (PushedNotOffered cn)) else Inr cn)
     else
     let theirs = optionsCipher serverOptions in
     case (case CanonicalCipher theirs of Some cn \<Rightarrow> if cn \<in> set offered then Some cn else None | None \<Rightarrow> None) of
       Some cn \<Rightarrow> Inr cn
     | None \<Rightarrow>
       if fb \<noteq> [] then
         (case CanonicalCipher fb of None \<Rightarrow> Inl (Err (FallbackUnsupported fb)) | Some cn \<Rightarrow> Inr cn)
       else if theirs \<noteq> [] then Inl (Err (ServerCipherNotOffered theirs))
       else Inl (Err NoCipher))"

section \<open>What is announced\<close>

definition isTCPNetwork :: "string \<Rightarrow> bool" where
  "isTCPNetwork n \<longleftrightarrow> n \<in> set [''tcp'', ''tcp4'', ''tcp6'', ''tcp-client'', ''tcp4-client'', ''tcp6-client'']"

definition occString :: "ovpnOptions \<Rightarrow> string \<Rightarrow> remote \<Rightarrow> string" where
  "occString opt fb r =
    (let known = CanonicalCipher fb \<noteq> None;
         cipher = (case CanonicalCipher fb of Some cn \<Rightarrow> cn | None \<Rightarrow> fb);
         auth = (case CanonicalDigest (o_Auth opt) of Some d \<Rightarrow> d | None \<Rightarrow> o_Auth opt);
         auth = (if auth = [] then ''SHA1'' else auth);
         keySize = (if known then KeyBits cipher else 0);
         auth = (if known \<and> IsAEAD cipher then ''[null-digest]'' else auth)
     in OptionsString \<lparr>oTCP = isTCPNetwork (r_Network r), oIPv6 = hasSuffix (r_Network r) ''6'', oTunMTU = o_TunMTU opt,
          oLinkMTU = 0, oCipher = cipher, oAuth = auth, oKeySize = keySize,
          oCompLZO = (o_CompressionSet opt \<and> ovpnOptions.o_Compression opt = LZO),
          oTLSAuth = (case o_TLSAuth opt of None \<Rightarrow> False | Some k \<Rightarrow> k \<noteq> []), oKeyDir = []\<rparr>)"

definition IVProtoDataV2 :: u32 where "IVProtoDataV2 = 2"
definition IVProtoRequestPush :: u32 where "IVProtoRequestPush = 4"
definition IVProtoTLSKeyExport :: u32 where "IVProtoTLSKeyExport = 8"
definition IVProtoAuthPendingKW :: u32 where "IVProtoAuthPendingKW = 16"
definition IVProtoDNSOption :: u32 where "IVProtoDNSOption = 64"
definition IVProtoCCExitNotify :: u32 where "IVProtoCCExitNotify = 128"

definition peerInfoText :: "string \<Rightarrow> bool \<Rightarrow> string list \<Rightarrow> bool \<Rightarrow> string" where
  "peerInfoText platform disableV2 offered canEKM =
    (let proto = IVProtoRequestPush OR IVProtoCCExitNotify OR IVProtoDNSOption OR IVProtoAuthPendingKW;
         proto = (if \<not> disableV2 then proto OR IVProtoDataV2 else proto);
         proto = (if canEKM then proto OR IVProtoTLSKeyExport else proto)
     in PeerInfo_String \<lparr>Version = ''2.6.12'', Platform = (if platform = [] then ''linux'' else platform), Proto = proto,
          Ciphers = offered, MTU = 1600, Stubs = True, Decompress = True, Extra = []\<rparr>)"

section \<open>Logging\<close>

text \<open>The first of \<open>strings.Fields\<close>.\<close>

fun untilSpace :: "string \<Rightarrow> string" where
  "untilSpace [] = []"
| "untilSpace (c # s) = (if leadingSpace (c # s) \<noteq> None then [] else c # untilSpace s)"

definition redactOption :: "string \<Rightarrow> string" where
  "redactOption p =
    (let f = untilSpace (trimLeft p)
     in if f \<in> set [''auth-token'', ''auth-token-user''] then f @ '' [redacted]'' else p)"

definition redactPush :: "string \<Rightarrow> string" where
  "redactPush msg = joinWith '','' (map redactOption (splitChar (CHR '','') msg))"

section \<open>The order of the remotes\<close>

text \<open>The shuffle, from the last remote down; \<open>i\<close> is the next index and \<open>rnd\<close> what is left of the random source.\<close>

definition swapAt :: "'a list \<Rightarrow> nat \<Rightarrow> nat \<Rightarrow> 'a list" where
  "swapAt rs i j = rs[i := rs ! j, j := rs ! i]"

definition beNat :: "bytes \<Rightarrow> nat" where
  "beNat b = foldl (\<lambda>v x. v * 256 + unat x) 0 b"

fun shuffleLoop :: "'a list \<Rightarrow> nat \<Rightarrow> bytes \<Rightarrow> (io_err + 'a list) \<times> bytes" where
  "shuffleLoop rs 0 rnd = (Inr rs, rnd)"
| "shuffleLoop rs (Suc i) rnd =
    (case ReadFull rnd 8 of (Inl e, rnd) \<Rightarrow> (Inl e, rnd)
     | (Inr b, rnd) \<Rightarrow> shuffleLoop (swapAt rs (Suc i) (beNat b mod (Suc i + 1))) i rnd)"

definition shuffleRemotes :: "'a list \<Rightarrow> bytes \<Rightarrow> (io_err + 'a list) \<times> bytes" where
  "shuffleRemotes rs rnd = shuffleLoop rs (length rs - 1) rnd"

end
