(* ===== verification/Clientproof.thy ===== *)
theory Clientproof
  imports Go_Strings Handshake
begin

text \<open>
  The client proof (\<open>core/proxy/openvpn/ovpn/clientproof/proof.go\<close>): a keyed hash over the keying material exported from a TLS session,
  sent as a line of the peer information. HMAC is a parameter; Go's \<open>base64.RawURLEncoding\<close> is modelled, its decoder
  skipping line ends and, in strict mode, refusing stray bits. The wiping of buffers is not modelled.
\<close>

section \<open>Base64\<close>

definition base64Alphabet :: string where
  "base64Alphabet = ''ABCDEFGHIJKLMNOPQRSTUVWXYZabcdefghijklmnopqrstuvwxyz0123456789-_''"

definition sextetChar :: "nat \<Rightarrow> char" where
  "sextetChar n = base64Alphabet ! (n mod 64)"

definition charSextet :: "char \<Rightarrow> nat option" where
  "charSextet c = (if c \<in> set base64Alphabet then Some (length (takeWhile (\<lambda>x. x \<noteq> c) base64Alphabet)) else None)"

fun base64Sextets :: "bytes \<Rightarrow> nat list" where
  "base64Sextets [] = []"
| "base64Sextets [a] = [unat a div 4, unat a mod 4 * 16]"
| "base64Sextets [a, b] = [unat a div 4, unat a mod 4 * 16 + unat b div 16, unat b mod 16 * 4]"
| "base64Sextets (a # b # c # r) =
    [unat a div 4, unat a mod 4 * 16 + unat b div 16, unat b mod 16 * 4 + unat c div 64, unat c mod 64] @ base64Sextets r"

definition base64Encode :: "bytes \<Rightarrow> string" where
  "base64Encode b = map sextetChar (base64Sextets b)"

fun sextetsBytes :: "nat list \<Rightarrow> bytes option" where
  "sextetsBytes [] = Some []"
| "sextetsBytes [a] = None"
| "sextetsBytes [a, b] = (if b mod 16 \<noteq> 0 then None else Some [word_of_nat (a * 4 + b div 16)])"
| "sextetsBytes [a, b, c] =
    (if c mod 4 \<noteq> 0 then None else Some [word_of_nat (a * 4 + b div 16), word_of_nat (b mod 16 * 16 + c div 4)])"
| "sextetsBytes (a # b # c # d # r) =
    map_option (\<lambda>bs. [word_of_nat (a * 4 + b div 16), word_of_nat (b mod 16 * 16 + c div 4), word_of_nat (c mod 4 * 64 + d)] @ bs) (sextetsBytes r)"

definition base64Decode :: "string \<Rightarrow> bytes option" where
  "base64Decode s =
    (let cs = map charSextet (filter (\<lambda>c. c \<noteq> CHR 0x0D \<and> c \<noteq> CHR 0x0A) s)
     in if None \<in> set cs then None else sextetsBytes (map the cs))"

section \<open>Keys and proofs\<close>

definition ExporterLabel :: string where "ExporterLabel = ''EXPORTER-OpenVPN-Client-Proof-v1''"
definition proof_ExporterLength :: int where "proof_ExporterLength = 32"
definition PeerInfoKey :: string where "PeerInfoKey = ''UV_CORE_PROOF''"
definition SecretLength :: int where "SecretLength = 32"
definition MaxKeyIDLength :: int where "MaxKeyIDLength = 64"

definition proofDomain :: bytes where "proofDomain = bytes_of ''openvpn-client-proof-v1'' @ [0]"

record proofKey =
  pk_id :: string
  pk_secret :: bytes

datatype proof_err = KeyIDLength | InvalidKeyID | KeyLength | NoValidKey | ExporterNot32 | InvalidProof | InvalidLengths | ProofRefused

definition byteWithin :: "char \<Rightarrow> char \<Rightarrow> u8 \<Rightarrow> bool" where
  "byteWithin lo hi b \<longleftrightarrow> byte_of lo \<le> b \<and> b \<le> byte_of hi"

definition keyIDByte :: "u8 \<Rightarrow> bool" where
  "keyIDByte b \<longleftrightarrow> byteWithin (CHR ''A'') (CHR ''Z'') b \<or> byteWithin (CHR ''a'') (CHR ''z'') b \<or> byteWithin (CHR ''0'') (CHR ''9'') b \<or>
    b = byte_of (CHR ''_'') \<or> b = byte_of (CHR ''-'')"

definition ValidateKeyID :: "string \<Rightarrow> proof_err option" where
  "ValidateKeyID i =
    (if i = [] \<or> glen i > MaxKeyIDLength then Some KeyIDLength
     else if list_all keyIDByte (bytes_of i) then None else Some InvalidKeyID)"

definition New_proofKey :: "string \<Rightarrow> bytes \<Rightarrow> proof_err + proofKey" where
  "New_proofKey keyID secret =
    (case ValidateKeyID keyID of Some e \<Rightarrow> Inl e
     | None \<Rightarrow> if glen secret \<noteq> SecretLength then Inl KeyLength else Inr \<lparr>pk_id = keyID, pk_secret = secret\<rparr>)"

definition macText :: "string \<Rightarrow> bytes \<Rightarrow> bytes" where
  "macText i exporter = proofDomain @ be16 (word_of_nat (length i)) @ bytes_of i @ exporter"

definition proofMac :: "hmac_fn \<Rightarrow> string \<Rightarrow> bytes \<Rightarrow> bytes \<Rightarrow> bytes" where
  "proofMac hmac i exporter secret = hmac ''SHA256'' secret (macText i exporter)"

definition Generate :: "hmac_fn \<Rightarrow> proofKey option \<Rightarrow> bytes \<Rightarrow> proof_err + string" where
  "Generate hmac ko exporter =
    (case ko of None \<Rightarrow> Inl NoValidKey
     | Some k \<Rightarrow>
       if ValidateKeyID (pk_id k) \<noteq> None then Inl NoValidKey
       else if glen exporter \<noteq> proof_ExporterLength then Inl ExporterNot32
       else Inr (''1:'' @ pk_id k @ '':'' @ base64Encode (proofMac hmac (pk_id k) exporter (pk_secret k))))"

definition Parse_proof :: "string \<Rightarrow> proof_err + string \<times> bytes" where
  "Parse_proof p =
    (if glen p > 2 + MaxKeyIDLength + 1 + 43 then Inl InvalidProof
     else case splitChar (CHR '':'') p of
       [v, i, t] \<Rightarrow>
         if v \<noteq> ''1'' \<or> ValidateKeyID i \<noteq> None \<or> glen t \<noteq> 43 then Inl InvalidProof
         else (case base64Decode t of None \<Rightarrow> Inl InvalidProof
           | Some tg \<Rightarrow> if glen tg \<noteq> 32 \<or> base64Encode tg \<noteq> t then Inl InvalidProof else Inr (i, tg))
     | _ \<Rightarrow> Inl InvalidProof)"

text \<open>\<open>None\<close>: the proof holds.\<close>

definition Verify :: "hmac_fn \<Rightarrow> string \<Rightarrow> bytes \<Rightarrow> bytes \<Rightarrow> proof_err option" where
  "Verify hmac p exporter secret =
    (if glen exporter \<noteq> proof_ExporterLength \<or> glen secret \<noteq> SecretLength then Some InvalidLengths
     else case Parse_proof p of Inl e \<Rightarrow> Some e
     | Inr (i, tg) \<Rightarrow> if tg = proofMac hmac i exporter secret then None else Some ProofRefused)"

definition redactLine :: "string \<Rightarrow> string" where
  "redactLine l = (if hasPrefix l (PeerInfoKey @ ''='') then PeerInfoKey @ ''=<redacted>'' else l)"

definition RedactPeerInfo :: "string \<Rightarrow> string" where
  "RedactPeerInfo info = joinWith [CHR 0x0A] (map redactLine (splitChar (CHR 0x0A) info))"

section \<open>Base64 is read back\<close>

lemma alphabet_facts: "length base64Alphabet = 64" "distinct base64Alphabet"
  "CHR '':'' \<notin> set base64Alphabet" "CHR 0x0D \<notin> set base64Alphabet" "CHR 0x0A \<notin> set base64Alphabet"
  by code_simp+

lemma takeWhile_nth: "distinct xs \<Longrightarrow> n < length xs \<Longrightarrow> length (takeWhile (\<lambda>x. x \<noteq> xs ! n) xs) = n"
proof (induction xs arbitrary: n)
  case (Cons x xs)
  then show ?case by (cases n) (auto simp: nth_mem)
qed simp

lemma charSextet_sextetChar: "n < 64 \<Longrightarrow> charSextet (sextetChar n) = Some n"
  using takeWhile_nth [OF alphabet_facts(2), of n] alphabet_facts(1) by (simp add: charSextet_def sextetChar_def)

lemma sextetChar_mem: "sextetChar n \<in> set base64Alphabet"
  by (simp add: sextetChar_def alphabet_facts(1))

lemma unat_u8: "unat (b :: u8) < 256"
  using unsigned_less [of b] by simp

lemma sextets_bound: "list_all (\<lambda>n. n < 64) (base64Sextets b)"
proof -
  have d: "unat a div 4 < 64" "unat a div 16 < 16" "unat a div 64 < 4" for a :: u8 using unat_u8 [of a] by simp_all
  have "x mod 4 * 16 + y < 64" if "y < 16" for x y :: nat using that mod_less_divisor [of 4 x] by linarith
  moreover have "x mod 16 * 4 + y < 64" if "y < 4" for x y :: nat using that mod_less_divisor [of 16 x] by linarith
  moreover note calculation(1) [of 0] calculation(2) [of 0]
  ultimately show ?thesis using d by (induction b rule: base64Sextets.induct) simp_all
qed

lemma word8_eq: "n = unat (a :: u8) \<Longrightarrow> word_of_nat n = a"
  by simp

lemma sextet_arith:
  fixes x y z :: nat
  shows "x div 4 * 4 + x mod 4 * 16 div 16 = x" "y < 256 \<Longrightarrow> x div 4 * 4 + (x mod 4 * 16 + y div 16) div 16 = x"
    "y < 256 \<Longrightarrow> (x mod 4 * 16 + y div 16) mod 16 * 16 + y mod 16 * 4 div 4 = y"
    "y < 256 \<Longrightarrow> z < 256 \<Longrightarrow> (x mod 4 * 16 + y div 16) mod 16 * 16 + (y mod 16 * 4 + z div 64) div 4 = y"
    "z < 256 \<Longrightarrow> (y mod 16 * 4 + z div 64) mod 4 * 64 + z mod 64 = z" "x mod 4 * 16 mod 16 = 0" "y mod 16 * 4 mod 4 = 0"
proof -
  have m: "n < 256 \<Longrightarrow> n div 16 mod 16 = n div 16" "n < 256 \<Longrightarrow> n div 16 div 16 = 0" "n < 256 \<Longrightarrow> n div 64 mod 4 = n div 64" "n < 256 \<Longrightarrow> n div 64 div 4 = 0"
    for n :: nat by (simp_all add: div_mult2_eq [symmetric] less_mult_imp_div_less)
  show "x div 4 * 4 + x mod 4 * 16 div 16 = x" "x mod 4 * 16 mod 16 = 0" "y mod 16 * 4 mod 4 = 0" by simp_all
  show "y < 256 \<Longrightarrow> x div 4 * 4 + (x mod 4 * 16 + y div 16) div 16 = x"
    "y < 256 \<Longrightarrow> (x mod 4 * 16 + y div 16) mod 16 * 16 + y mod 16 * 4 div 4 = y"
    "y < 256 \<Longrightarrow> z < 256 \<Longrightarrow> (x mod 4 * 16 + y div 16) mod 16 * 16 + (y mod 16 * 4 + z div 64) div 4 = y"
    "z < 256 \<Longrightarrow> (y mod 16 * 4 + z div 64) mod 4 * 64 + z mod 64 = z" using m by simp_all
qed

lemma sextetsBytes_sextets: "sextetsBytes (base64Sextets b) = Some b"
proof (induction b rule: base64Sextets.induct)
  case (2 a)
  show ?case by (simp only: base64Sextets.simps sextetsBytes.simps sextet_arith word8_eq refl not_True_eq_False if_False)
next
  case (3 a b)
  show ?case
    by (simp only: base64Sextets.simps sextetsBytes.simps sextet_arith unat_u8 word8_eq refl not_True_eq_False if_False)
next
  case (4 a b c r)
  then show ?case
    by (simp only: base64Sextets.simps sextetsBytes.simps append.simps sextet_arith unat_u8 word8_eq refl option.map)
qed simp

lemma base64_roundtrip: "base64Decode (base64Encode b) = Some b"
proof -
  have "sextetChar n \<noteq> CHR 0x0D" "sextetChar n \<noteq> CHR 0x0A" for n using sextetChar_mem alphabet_facts(4,5) by metis+
  then have "filter (\<lambda>c. c \<noteq> CHR 0x0D \<and> c \<noteq> CHR 0x0A) (base64Encode b) = base64Encode b" by (simp add: base64Encode_def filter_id_conv)
  moreover have "map charSextet (base64Encode b) = map Some (base64Sextets b)"
    using sextets_bound [of b] by (simp add: base64Encode_def charSextet_sextetChar list_all_iff)
  ultimately show ?thesis using sextetsBytes_sextets [of b] by (simp add: base64Decode_def Let_def comp_def image_iff)
qed

lemma base64_length: "length (base64Encode b) = (4 * length b + 2) div 3"
proof -
  have "length (base64Sextets b) = (4 * length b + 2) div 3" by (induction b rule: base64Sextets.induct) simp_all
  then show ?thesis by (simp add: base64Encode_def)
qed

lemma base64_chars: "set (base64Encode b) \<subseteq> set base64Alphabet"
  using sextetChar_mem by (auto simp: base64Encode_def)

section \<open>Proofs are exact\<close>

lemma splitChar_none: "sep \<notin> set s \<Longrightarrow> splitChar sep s = [s]"
  by (induction s) (auto simp: Let_def)

lemma splitChar_append: "sep \<notin> set s \<Longrightarrow> splitChar sep (s @ sep # t) = s # splitChar sep t"
  by (induction s) (auto simp: Let_def)

lemma keyID_no_colon: "ValidateKeyID i = None \<Longrightarrow> CHR '':'' \<notin> set i"
proof
  assume v: "ValidateKeyID i = None" and "CHR '':'' \<in> set i"
  then have "keyIDByte (byte_of (CHR '':''))" by (auto simp: ValidateKeyID_def bytes_of_def list_all_iff split: if_splits)
  moreover have "\<not> keyIDByte (byte_of (CHR '':''))" by code_simp
  ultimately show False by simp
qed

lemma split_proof: "splitChar (CHR '':'') p = [v, i, t] \<Longrightarrow> p = v @ [CHR '':''] @ i @ [CHR '':''] @ t"
  using join_split [of "CHR '':''" p] by simp

lemma parse_exact:
  "Parse_proof p = Inr (i, tg) \<longleftrightarrow> ValidateKeyID i = None \<and> length tg = 32 \<and> p = ''1:'' @ i @ '':'' @ base64Encode tg"
proof
  assume "Parse_proof p = Inr (i, tg)"
  then obtain t where "splitChar (CHR '':'') p = [''1'', i, t]" "ValidateKeyID i = None" "glen tg = 32" "base64Encode tg = t"
    by (auto simp: Parse_proof_def split: if_splits list.splits option.splits)
  then show "ValidateKeyID i = None \<and> length tg = 32 \<and> p = ''1:'' @ i @ '':'' @ base64Encode tg"
    using split_proof [of p "''1''" i t] by (simp add: glen_def)
next
  assume a: "ValidateKeyID i = None \<and> length tg = 32 \<and> p = ''1:'' @ i @ '':'' @ base64Encode tg"
  have "CHR '':'' \<notin> set (base64Encode tg)" using base64_chars alphabet_facts(3) by blast
  then have "splitChar (CHR '':'') p = [''1'', i, base64Encode tg]"
    using a keyID_no_colon [of i] by (simp add: splitChar_append splitChar_none Let_def)
  moreover have "glen i \<le> 64" using a by (auto simp: ValidateKeyID_def MaxKeyIDLength_def split: if_splits)
  ultimately show "Parse_proof p = Inr (i, tg)"
    using a by (simp add: Parse_proof_def base64_roundtrip MaxKeyIDLength_def glen_def base64_length)
qed

text \<open>The hashed text tells the key id and the exported material apart.\<close>

lemma macText_unique:
  assumes "macText i x = macText j y" "ValidateKeyID i = None" "ValidateKeyID j = None"
  shows "i = j \<and> x = y"
proof -
  have n: "be16 (word_of_nat (length i)) @ bytes_of i @ x = be16 (word_of_nat (length j)) @ bytes_of j @ y"
    using assms(1) by (simp add: macText_def)
  then have w: "(word_of_nat (length i) :: u16) = word_of_nat (length j)" by (metis getU16_be16 sum.inject(2))
  have u: "unat (word_of_nat (length k) :: u16) = length k" if "ValidateKeyID k = None" for k
  proof -
    have "length k < 2 ^ 16" using that by (auto simp: ValidateKeyID_def MaxKeyIDLength_def glen_def split: if_splits)
    then show ?thesis by (simp only: unat_of_nat) simp
  qed
  have l: "length i = length j" using arg_cong [OF w, of unat] unfolding u [OF assms(2)] u [OF assms(3)] .
  then have "bytes_of i @ x = bytes_of j @ y" using n by simp
  then have "bytes_of i = bytes_of j" "x = y" using l by simp_all
  then show ?thesis by (metis string_of_bytes_of)
qed

text \<open>
  Claim C6. A proof is accepted for a TLS session and a secret exactly when it is the text the client with that secret makes for that
  session, for some key id: one text only, in the canonical form, is accepted for a key id, and the hashed text is
  a different one for every other key id or session.
\<close>

theorem client_proof_exact:
  assumes "\<And>k x. length (hmac ''SHA256'' k x) = 32"
  shows "(Verify hmac p x s = None \<longleftrightarrow> (\<exists>i k. New_proofKey i s = Inr k \<and> Generate hmac (Some k) x = Inr p)) \<and>
    (ValidateKeyID i = None \<and> ValidateKeyID j = None \<longrightarrow> (macText i x = macText j y \<longleftrightarrow> i = j \<and> x = y))"
proof -
  have g: "(New_proofKey i s = Inr k \<and> Generate hmac (Some k) x = Inr p) \<longleftrightarrow>
      ValidateKeyID i = None \<and> length s = 32 \<and> k = \<lparr>pk_id = i, pk_secret = s\<rparr> \<and> length x = 32 \<and> p = ''1:'' @ i @ '':'' @ base64Encode (proofMac hmac i x s)" for i k
    by (auto simp: New_proofKey_def Generate_def SecretLength_def proof_ExporterLength_def glen_def split: option.splits if_splits)
  have "Verify hmac p x s = None \<longleftrightarrow> length x = 32 \<and> length s = 32 \<and> (\<exists>i. Parse_proof p = Inr (i, proofMac hmac i x s))"
    by (auto simp: Verify_def SecretLength_def proof_ExporterLength_def glen_def split: sum.splits if_splits)
  then have "Verify hmac p x s = None \<longleftrightarrow> (\<exists>i k. New_proofKey i s = Inr k \<and> Generate hmac (Some k) x = Inr p)"
    unfolding g parse_exact using assms by (auto simp: proofMac_def)
  then show ?thesis using macText_unique by blast
qed

definition demoProofTag :: hmac_fn where
  "demoProofTag n k x = take 32 (k @ replicate 32 0)"

theorem client_proof_exact_witness:
  "Verify demoProofTag (''1:ab:'' @ base64Encode (replicate 32 7)) (replicate 32 1) (replicate 32 7) = None \<and> macText ''a'' [1] \<noteq> macText ''b'' [1]"
proof -
  have l: "length (demoProofTag ''SHA256'' k x) = 32" for k x by (simp add: demoProofTag_def)
  note ex = client_proof_exact [where hmac = demoProofTag, OF l]
  have v: "ValidateKeyID ''a'' = None" "ValidateKeyID ''b'' = None" by code_simp+
  have "New_proofKey ''ab'' (replicate 32 7) = Inr \<lparr>pk_id = ''ab'', pk_secret = replicate 32 7\<rparr>"
    "Generate demoProofTag (Some \<lparr>pk_id = ''ab'', pk_secret = replicate 32 7\<rparr>) (replicate 32 1) = Inr (''1:ab:'' @ base64Encode (replicate 32 7))" by code_simp+
  then have "Verify demoProofTag (''1:ab:'' @ base64Encode (replicate 32 7)) (replicate 32 1) (replicate 32 7) = None" using ex by blast
  moreover have "macText ''a'' [1] \<noteq> macText ''b'' [1]" using ex v by blast
  ultimately show ?thesis by simp
qed

end
