(* ===== verification/Client.thy ===== *)
theory Client
  imports Client_Text Clientproof Ctlwrap Reliable
begin

text \<open>
  The client session (\<open>core/proxy/openvpn/ovpn/client\<close>): the control loop with its key states and timers
  (\<open>control.go\<close>), the messages of the server and the setup of the tunnel (\<open>keyexchange.go\<close>), the keepalive clock
  (\<open>liveness.go\<close>), the adapter TLS runs over (\<open>adapter.go\<close>), reading and writing packets (\<open>transport.go\<close>).

  Key states are shared by pointer; a pointer is the index in \<open>cl_ks\<close>, the list of all key states made. \<open>loopState\<close> is
  embedded in \<open>client\<close>. Each handler runs to its end at one time, given as \<open>now\<close>, the value of every \<open>time.Now()\<close> in it:
  the loop's state has one owner, and what it shares with other goroutines are atomic values.
  TLS (\<open>crypto/tls\<close>) is outside: its goroutine reports events, writes to the adapter and reads from it, at any time, and what
  \<open>ExportKeyingMaterial\<close> gives is part of an event. What TLS is given to encrypt is kept in a list. The outcomes of
  writes to the connection come from a list, as does the wall clock from a function of the monotonic one. Log lines are not modelled.
\<close>

section \<open>The adapter\<close>

datatype adapter_err = NetClosed | AdapterOverflow

record tlsAdapter =
  ad_chunk :: int
  ad_in :: bytes
  ad_out :: "bytes list"
  ad_closed :: bool
  ad_err :: "adapter_err option"

definition maxAdapterBuffer :: int where "maxAdapterBuffer = 4 * 2 ^ 20"

definition newTLSAdapter :: "int \<Rightarrow> tlsAdapter" where
  "newTLSAdapter chunk = \<lparr>ad_chunk = (if chunk < 1 then 1 else chunk), ad_in = [], ad_out = [], ad_closed = False, ad_err = None\<rparr>"

text \<open>\<open>Read\<close> of at most \<open>n\<close> bytes; \<open>None\<close>: it waits. (Deadlines, which TLS does not set here, are left out.)\<close>

definition adapter_Read :: "tlsAdapter \<Rightarrow> nat \<Rightarrow> (adapter_err + bytes) option \<times> tlsAdapter" where
  "adapter_Read a n =
    (if ad_in a \<noteq> [] then (Some (Inr (take n (ad_in a))), a\<lparr>ad_in := drop n (ad_in a)\<rparr>)
     else if ad_closed a then (map_option Inl (ad_err a), a)
     else (None, a))"

function chunksOf :: "nat \<Rightarrow> bytes \<Rightarrow> bytes list" where
  "chunksOf n p = (if p = [] \<or> n = 0 then [] else take n p # chunksOf n (drop n p))"
  by auto
termination
  by (relation "measure (\<lambda>(n, p). length p)") auto

declare chunksOf.simps [simp del]

definition adapter_Write :: "tlsAdapter \<Rightarrow> bytes \<Rightarrow> (adapter_err option + int) \<times> tlsAdapter" where
  "adapter_Write a b =
    (if ad_closed a then (Inl (ad_err a), a)
     else (Inr (glen b), a\<lparr>ad_out := ad_out a @ chunksOf (nat (ad_chunk a)) b\<rparr>))"

definition closeWith :: "adapter_err \<Rightarrow> tlsAdapter \<Rightarrow> tlsAdapter" where
  "closeWith e a = (if ad_closed a then a else a\<lparr>ad_closed := True, ad_err := Some e, ad_in := [], ad_out := []\<rparr>)"

definition deliver :: "bytes \<Rightarrow> tlsAdapter \<Rightarrow> tlsAdapter" where
  "deliver p a =
    (if p = [] then a
     else if ad_closed a then a
     else if glen (ad_in a) + glen p > maxAdapterBuffer then closeWith AdapterOverflow a
     else a\<lparr>ad_in := ad_in a @ p\<rparr>)"

definition pendingOut :: "tlsAdapter \<Rightarrow> int" where
  "pendingOut a = glen (ad_out a)"

section \<open>State\<close>

text \<open>A TLS session: its version and what \<open>ExportKeyingMaterial\<close> gives for a label and a length.\<close>

record tlsState =
  tls_Version :: u16
  tls_Export :: "string \<Rightarrow> int \<Rightarrow> bytes option"

definition EKMLabel :: string where "EKMLabel = ''EXPORTER-OpenVPN-datakeys''"

text \<open>Why the TLS goroutine of a key ends.\<close>

datatype tls_fail =
  HandshakeFailed string
| TLS10
| ProofTLSVersion
| ProofExport
| ProofGeneration
| SendingMessage string
| ReadingMessage hs_err
| ReadingStopped string
| MessageTooLong
| ControlTooLong
| ControlChannel string

datatype client_err =
  AuthFailure "string option"
| AuthTokenRejected "string option"
| HandshakeTimeout string
| RenegotiationTimeout u8
| PingTimeout
| ServerRestart
| ServerExit
| ServerExitNotify
| ServerHalt
| SessionClosed
| ReadFailed string
| ReadFailedNoTLS string
| WriteFailed
| KeySource hs_err
| TLSFailed u8 tls_fail
| RenegotiationFailed u8 tls_fail
| PushReply opt_err
| CipherChoice cipher_err
| DataDigest string
| CannotExport u8
| ExportFailed
| EKMKeys hs_err
| DataKey u8 string string dc_err

type_synonym kptr = nat

record keyCtl =
  k_id :: u8
  k_layer :: layer
  k_adapter :: tlsAdapter
  k_login :: "(string \<times> string) option"
  k_source :: clientKeySource
  k_peerReset :: bool
  k_tlsStarted :: bool
  k_tlsIn :: int
  k_tlsDone :: bool
  k_exchanged :: bool
  k_dropped :: bool
  k_server :: "serverMessage option"
  k_cs :: tlsState
  k_canEKM :: bool
  k_deadline :: time
  k_established :: time
  k_expires :: time
  k_told :: "bytes list"

text \<open>\<open>k_login\<close> is what the key's TLS goroutine was started with (\<open>tls\<close> is set from then on), \<open>k_told\<close> what was written to its TLS session.\<close>

type_synonym stamp = "int \<times> int"

record loopState =
  l_ourSID :: session_id
  l_serverSID :: session_id
  l_haveServerSID :: bool
  l_keys :: "kptr list"
  l_primary :: "kptr option"
  l_lame :: "kptr option"
  l_negotiating :: "kptr option"
  l_lastKeyID :: u8
  l_start :: time
  l_hsDeadline :: time
  l_connectDeadline :: time
  l_pushed :: pushed
  l_pushing :: bool
  l_gotPush :: bool
  l_pushNext :: time
  l_pending :: bool
  l_up :: bool
  l_cipher :: string
  l_digest :: string
  l_keyDerivation :: string
  l_ping :: duration
  l_pingRestart :: duration
  l_probe :: bool
  l_probeTried :: stamp
  l_ccExit :: bool
  l_exitNotify :: int
  l_authUserPass :: bool
  l_username :: string
  l_password :: string
  l_authToken :: string
  l_authTokenUser :: string
  l_closing :: bool
  l_closeDeadline :: time
  l_exitSent :: bool
  l_readErr :: "string option"
  l_readErrDeadline :: time

record tunnelInfo =
  ti_IPv4 :: prefix
  ti_IPv6 :: prefix
  ti_MTU :: int
  ti_DNS :: "Go_Std.addr list"
  ti_Remote :: remote
  ti_Cipher :: string
  ti_KeyDerivation :: string
  ti_TLSVersion :: u16

datatype wrapper = WPlain | WAuth tlsAuth | WCrypt tlsCrypt

definition wrapper_Wrap :: "wrapper \<Rightarrow> control_packet option \<Rightarrow> (ctl_err, bytes) res \<times> wrapper" where
  "wrapper_Wrap w p =
    (case w of WPlain \<Rightarrow> (plain_Wrap p, WPlain)
     | WAuth a \<Rightarrow> (case auth_Wrap a p of (x, a) \<Rightarrow> (x, WAuth a))
     | WCrypt t \<Rightarrow> (case crypt_Wrap t p of (x, t) \<Rightarrow> (x, WCrypt t)))"

definition wrapper_Unwrap :: "wrapper \<Rightarrow> bytes \<Rightarrow> (ctl_err, control_packet) res \<times> wrapper" where
  "wrapper_Unwrap w b =
    (case w of WPlain \<Rightarrow> (plain_Unwrap b, WPlain)
     | WAuth a \<Rightarrow> (case auth_Unwrap a b of (x, a) \<Rightarrow> (x, WAuth a))
     | WCrypt t \<Rightarrow> (case crypt_Unwrap t b of (x, t) \<Rightarrow> (x, WCrypt t)))"

definition Overhead :: "wrapper \<Rightarrow> int" where
  "Overhead w =
    (case w of WPlain \<Rightarrow> 0 | WAuth a \<Rightarrow> int (ta_size a + pidLen)
     | WCrypt t \<Rightarrow> int (pidLen + cryptTag) + (case tc_wkc t of None \<Rightarrow> 0 | Some k \<Rightarrow> glen k))"

text \<open>\<open>wrapKind\<close> with the keys it needs.\<close>

datatype wrapSpec = WrapPlain | WrapTLSAuth staticKey | WrapTLSCrypt staticKey | WrapTLSCryptV2 staticKey bytes

record dialer =
  d_opts :: ovpnOptions
  d_wrap :: wrapSpec
  d_platform :: string
  d_clientProof :: "proofKey option"
  d_disableEKM :: bool
  d_disableDataV2 :: bool
  d_resetOp :: opcode
  d_ciphers :: "string list"
  d_fallback :: string
  d_authUserPass :: bool
  d_username :: string
  d_password :: string
  d_timeout :: duration
  d_connectTimeout :: duration
  d_pushInterval :: duration
  d_transition :: duration
  d_defaultPingRestart :: duration
  d_maxSleep :: duration
  d_relUDP :: rel_options
  d_relTCP :: rel_options

text \<open>What the session takes from outside: ciphers and keyed hashes, the random bytes a data key draws IVs from, the wall clock.\<close>

record world =
  w_crypto :: crypto
  w_ivs :: "Datachan.addr \<Rightarrow> bytes"
  w_wall :: "time \<Rightarrow> int"

text \<open>The outcome of a write: done; another write is in progress (for \<open>TryLock\<close>; a waiting write is then done); failed; the connection is closed.\<close>

datatype wres = WOk | WBusy | WLost | WGone

record client = loopState +
  cl_world :: world
  cl_d :: dialer
  cl_remote :: remote
  cl_tcp :: bool
  cl_rand :: bytes
  cl_wrapper :: wrapper
  cl_chunk :: int
  cl_occ :: string
  cl_ks :: "keyCtl list"
  cl_store :: store
  cl_nextAddr :: Datachan.addr
  cl_data :: "channel option"
  cl_epoch :: time
  cl_lastSend :: stamp
  cl_lastRecv :: stamp
  cl_pingTried :: stamp
  cl_established :: bool
  cl_pingNs :: duration
  cl_pingRestartNs :: duration
  cl_hsDeadlineNs :: int
  cl_maxPacket :: int
  cl_packets :: "bytes list"
  cl_dropped :: nat
  cl_ctlIn :: "control_packet list"
  cl_ready :: bool
  cl_info :: "tunnelInfo option"
  cl_writes :: "wres list"
  cl_wire :: "bytes list"
  cl_err :: "client_err option"

type_synonym 'a act = "(client_err, 'a) res \<times> client"

definition ok :: "client \<Rightarrow> unit act" where "ok c = (Inr (), c)"
definition failed :: "client_err \<Rightarrow> client \<Rightarrow> 'a act" where "failed e c = (Inl (Err e), c)"

definition andThen :: "'a act \<Rightarrow> ('a \<Rightarrow> client \<Rightarrow> 'b act) \<Rightarrow> 'b act" where
  "andThen m f = (case m of (Inl e, c) \<Rightarrow> (Inl e, c) | (Inr a, c) \<Rightarrow> f a c)"

definition ksAt :: "client \<Rightarrow> kptr \<Rightarrow> keyCtl" where
  "ksAt c p = cl_ks c ! p"

definition setKs :: "kptr \<Rightarrow> (keyCtl \<Rightarrow> keyCtl) \<Rightarrow> client \<Rightarrow> client" where
  "setKs p f c = c\<lparr>cl_ks := (cl_ks c)[p := f (cl_ks c ! p)]\<rparr>"

text \<open>Integer division of Go.\<close>

definition goQuot :: "int \<Rightarrow> int \<Rightarrow> int" where
  "goQuot a b = sgn a * sgn b * (\<bar>a\<bar> div \<bar>b\<bar>)"

section \<open>Liveness\<close>

definition since :: "stamp \<Rightarrow> stamp \<Rightarrow> duration" where
  "since now t = max (max (fst now - fst t) (snd now - snd t)) 0"

definition stampAt :: "client \<Rightarrow> time \<Rightarrow> stamp" where
  "stampAt c t = (int t - int (cl_epoch c), w_wall (cl_world c) t)"

definition markRecv :: "time \<Rightarrow> client \<Rightarrow> client" where
  "markRecv now c = c\<lparr>cl_lastRecv := stampAt c now\<rparr>"

definition markSend :: "time \<Rightarrow> client \<Rightarrow> client" where
  "markSend now c = c\<lparr>cl_lastSend := stampAt c now\<rparr>"

definition sinceRecv :: "client \<Rightarrow> time \<Rightarrow> duration" where
  "sinceRecv c now = since (stampAt c now) (cl_lastRecv c)"

definition sinceSendAt :: "client \<Rightarrow> stamp \<Rightarrow> duration" where
  "sinceSendAt c st = min (since st (cl_lastSend c)) (since st (cl_pingTried c))"

definition setHandshakeDeadline :: "time \<Rightarrow> client \<Rightarrow> client" where
  "setHandshakeDeadline t c = c\<lparr>l_hsDeadline := t, cl_hsDeadlineNs := int t - int (cl_epoch c)\<rparr>"

definition watchdogGrace :: duration where "watchdogGrace = Second"

text \<open>\<open>watch\<close>: the error that ends the session, or how long until the next check. \<open>closing'\<close>: \<open>Close\<close> was called.\<close>

definition watch :: "client \<Rightarrow> bool \<Rightarrow> time \<Rightarrow> (client_err, duration) res" where
  "watch c closing' now =
    (let wait = d_maxSleep (cl_d c) in
     if closing' then Inr wait
     else if \<not> cl_established c then
       (let left = cl_hsDeadlineNs c - (int now - int (cl_epoch c)) + watchdogGrace
        in if left \<le> 0 then Inl (Err (HandshakeTimeout ''the session stalled'')) else Inr (min wait left))
     else
       let pr = cl_pingRestartNs c in
       if pr > 0 then
         (let left = pr - sinceRecv c now in if left \<le> 0 then Inl (Err PingTimeout) else Inr (min wait left))
       else Inr wait)"

section \<open>Writing to the connection\<close>

definition cl_fail :: "client_err \<Rightarrow> client \<Rightarrow> client" where
  "cl_fail e c = (if cl_err c = None then c\<lparr>cl_err := Some e\<rparr> else c)"

definition isDone :: "client \<Rightarrow> bool" where
  "isDone c \<longleftrightarrow> cl_err c \<noteq> None"

datatype write_err = TooLarge | SendFailed | ConnClosed | SessionOver client_err

definition connWrite :: "bytes \<Rightarrow> client \<Rightarrow> write_err option \<times> client" where
  "connWrite b c =
    (case cl_writes c of [] \<Rightarrow> (None, c\<lparr>cl_wire := cl_wire c @ [b]\<rparr>)
     | w # ws \<Rightarrow>
       let c = c\<lparr>cl_writes := ws\<rparr> in
       case w of WLost \<Rightarrow> (Some SendFailed, c) | WGone \<Rightarrow> (Some ConnClosed, c) | _ \<Rightarrow> (None, c\<lparr>cl_wire := cl_wire c @ [b]\<rparr>))"

definition writeLocked :: "bytes \<Rightarrow> client \<Rightarrow> write_err option \<times> client" where
  "writeLocked pkt c =
    (if \<not> cl_tcp c then connWrite pkt c
     else case AppendFrame [] pkt of (_, Some _) \<Rightarrow> (Some TooLarge, c) | (fr, None) \<Rightarrow> connWrite fr c)"

definition afterWrite :: "time \<Rightarrow> write_err option \<times> client \<Rightarrow> write_err option \<times> client" where
  "afterWrite now r =
    (case r of (None, c) \<Rightarrow> (None, markSend now c)
     | (Some e, c) \<Rightarrow>
       case cl_err c of Some e' \<Rightarrow> (Some (SessionOver e'), c)
       | None \<Rightarrow>
         if e = TooLarge then (Some e, c)
         else if \<not> cl_tcp c \<and> e \<noteq> ConnClosed then (Some e, c)
         else (Some (SessionOver WriteFailed), cl_fail WriteFailed c))"

definition writeRaw :: "time \<Rightarrow> bytes \<Rightarrow> client \<Rightarrow> write_err option \<times> client" where
  "writeRaw now pkt c = afterWrite now (writeLocked pkt c)"

definition tryWriteRaw :: "time \<Rightarrow> bytes \<Rightarrow> client \<Rightarrow> client" where
  "tryWriteRaw now pkt c =
    (case cl_writes c of WBusy # ws \<Rightarrow> c\<lparr>cl_writes := ws\<rparr> | _ \<Rightarrow> snd (afterWrite now (writeLocked pkt c)))"

datatype keepalive = Ping | OCCRequest

definition occRequest :: u8 where "occRequest = 0"

text \<open>The random source of a key and its counters are in the store.\<close>

definition sealKeepalive :: "keepalive \<Rightarrow> store \<Rightarrow> channel \<Rightarrow> (dc_err, bytes) res \<times> store" where
  "sealKeepalive k st ch = (case k of Ping \<Rightarrow> SealPing st ch [] | OCCRequest \<Rightarrow> SealOCC st ch [] occRequest)"

definition sendKeepalive :: "time \<Rightarrow> keepalive \<Rightarrow> client \<Rightarrow> unit act" where
  "sendKeepalive now k c =
    (case cl_data c of None \<Rightarrow> ok c
     | Some ch \<Rightarrow>
       case sealKeepalive k (cl_store c) ch of
         (Inl Panic, st) \<Rightarrow> (Inl Panic, c\<lparr>cl_store := st\<rparr>)
       | (Inl (Err _), st) \<Rightarrow> ok (c\<lparr>cl_store := st\<rparr>)
       | (Inr pkt, st) \<Rightarrow> ok (tryWriteRaw now pkt (c\<lparr>cl_store := st\<rparr>)))"

section \<open>Key states\<close>

definition nextKeyID :: "u8 \<Rightarrow> u8" where
  "nextKeyID i = (let i = (i + 1) AND KeyIDMask in if i = 0 then 1 else i)"

definition relOptions :: "client \<Rightarrow> rel_options" where
  "relOptions c = (if cl_tcp c then d_relTCP (cl_d c) else d_relUDP (cl_d c))"

definition noTLS :: tlsState where
  "noTLS = \<lparr>tls_Version = 0, tls_Export = (\<lambda>_ _. None)\<rparr>"

definition newKeyState :: "u8 \<Rightarrow> opcode \<Rightarrow> client \<Rightarrow> kptr act" where
  "newKeyState i resetOp c =
    (case NewClientKeySource (cl_rand c) of
       (Inl Panic, r) \<Rightarrow> (Inl Panic, c\<lparr>cl_rand := r\<rparr>)
     | (Inl (Err e), r) \<Rightarrow> failed (KeySource e) (c\<lparr>cl_rand := r\<rparr>)
     | (Inr src, r) \<Rightarrow>
       let ks = \<lparr>k_id = i, k_layer = snd (Send (New (relOptions c)) resetOp []), k_adapter = newTLSAdapter (cl_chunk c),
              k_login = None, k_source = src, k_peerReset = False, k_tlsStarted = False, k_tlsIn = 0, k_tlsDone = False,
              k_exchanged = False, k_dropped = False, k_server = None, k_cs = noTLS, k_canEKM = False,
              k_deadline = 0, k_established = 0, k_expires = 0, k_told = []\<rparr>;
           p = length (cl_ks c)
       in (Inr p, c\<lparr>cl_rand := r, cl_ks := cl_ks c @ [ks], l_keys := l_keys c @ [p], l_lastKeyID := i\<rparr>))"

definition keyByID :: "client \<Rightarrow> u8 \<Rightarrow> kptr option" where
  "keyByID c i = find (\<lambda>p. k_id (ksAt c p) = i) (l_keys c)"

text \<open>The key's data key goes, its adapter is closed, and the loop forgets it.\<close>

definition dropDataKey :: "u8 \<Rightarrow> client \<Rightarrow> client" where
  "dropDataKey i c = (case cl_data c of None \<Rightarrow> c | Some ch \<Rightarrow> c\<lparr>cl_data := Some (DropKey ch i)\<rparr>)"

definition forgetKey :: "kptr \<Rightarrow> client \<Rightarrow> client" where
  "forgetKey p c =
    (let c = c\<lparr>l_keys := remove1 p (l_keys c)\<rparr>;
         c = (if l_lame c = Some p then c\<lparr>l_lame := None\<rparr> else c)
     in if l_negotiating c = Some p then c\<lparr>l_negotiating := None\<rparr> else c)"

definition dropKey :: "kptr option \<Rightarrow> client \<Rightarrow> client" where
  "dropKey po c =
    (case po of None \<Rightarrow> c
     | Some p \<Rightarrow>
       if k_dropped (ksAt c p) then c
       else
       let c = setKs p (\<lambda>k. k\<lparr>k_dropped := True\<rparr>) c;
           c = (if k_exchanged (ksAt c p) then dropDataKey (k_id (ksAt c p)) c else c);
           c = setKs p (\<lambda>k. k\<lparr>k_adapter := closeWith NetClosed (k_adapter k)\<rparr>) c
       in forgetKey p c)"

definition closeKeys :: "client \<Rightarrow> client" where
  "closeKeys c = foldl (\<lambda>c p. setKs p (\<lambda>k. k\<lparr>k_adapter := closeWith NetClosed (k_adapter k)\<rparr>) c) c (l_keys c)"

text \<open>A message and its terminating zero, written to the TLS session of a key that is set up.\<close>

definition sendControlMessage :: "kptr option \<Rightarrow> string \<Rightarrow> client \<Rightarrow> client" where
  "sendControlMessage po msg c =
    (case po of None \<Rightarrow> c
     | Some p \<Rightarrow>
       if \<not> k_tlsStarted (ksAt c p) \<or> \<not> k_exchanged (ksAt c p) then c
       else setKs p (\<lambda>k. k\<lparr>k_told := k_told k @ [bytes_of msg @ [0]]\<rparr>) c)"

definition serverRenegotiation :: "u8 \<Rightarrow> time \<Rightarrow> client \<Rightarrow> kptr act" where
  "serverRenegotiation i now c =
    (let c = dropKey (l_negotiating c) c in
     andThen (newKeyState i ControlSoftResetV1 c) (\<lambda>p c.
     (Inr p, (setKs p (\<lambda>k. k\<lparr>k_deadline := time_add now (d_timeout (cl_d c))\<rparr>) c)\<lparr>l_negotiating := Some p\<rparr>)))"

definition startRenegotiation :: "time \<Rightarrow> client \<Rightarrow> unit act" where
  "startRenegotiation now c =
    (let i = nextKeyID (l_lastKeyID c);
         c = dropKey (keyByID c i) c
     in andThen (newKeyState i ControlSoftResetV1 c) (\<lambda>p c.
        ok ((setKs p (\<lambda>k. k\<lparr>k_deadline := time_add now (d_timeout (cl_d c))\<rparr>) c)\<lparr>l_negotiating := Some p\<rparr>)))"

section \<open>Timers\<close>

text \<open>\<open>noTLSReply\<close> and \<open>stage\<close> look at the primary key.\<close>

definition noTLSReply :: "client \<Rightarrow> bool" where
  "noTLSReply c =
    (case l_primary c of None \<Rightarrow> False
     | Some p \<Rightarrow> k_tlsStarted (ksAt c p) \<and> k_tlsIn (ksAt c p) = 0 \<and> \<not> k_tlsDone (ksAt c p))"

definition noTLSReplyHint :: string where
  "noTLSReplyHint = ''the server sent no TLS reply: likely no TLS version or cipher suite in common (this client cannot use DHE-only cipher suites)''"

definition stage :: "client \<Rightarrow> string" where
  "stage c =
    (if \<not> l_haveServerSID c then ''no reply from the server''
     else case l_primary c of None \<Rightarrow> ''waiting for the server's reset''
     | Some p \<Rightarrow>
       let ks = ksAt c p in
       if \<not> k_tlsStarted ks then ''waiting for the server's reset''
       else if noTLSReply c then ''TLS handshake: '' @ noTLSReplyHint
       else if \<not> k_tlsDone ks then ''the TLS handshake did not finish''
       else if \<not> k_exchanged ks then ''the key exchange did not finish (no key-method 2 message from the server)''
       else if l_pending c then ''authentication still pending''
       else ''no PUSH_REPLY'')"

definition pingWait :: "client \<Rightarrow> time \<Rightarrow> duration" where
  "pingWait c now = l_ping c - sinceSendAt c (stampAt c now)"

definition probeWait :: "client \<Rightarrow> time \<Rightarrow> duration" where
  "probeWait c now =
    (let st = stampAt c now
     in max (goQuot (l_pingRestart c) 4 - since st (cl_lastRecv c)) (goQuot (l_pingRestart c) 12 - since st (l_probeTried c)))"

definition renegotiationDue :: "client \<Rightarrow> time \<Rightarrow> bool" where
  "renegotiationDue c now =
    (case l_primary c of None \<Rightarrow> False
     | Some p \<Rightarrow>
       let r = o_RenegSec (d_opts (cl_d c)) in
       (r > 0 \<and> time_add (k_established (ksAt c p)) r \<le> now) \<or>
       (case cl_data c of None \<Rightarrow> False | Some ch \<Rightarrow> NeedsRenegotiation (cl_store c) ch))"

definition tick_setup :: "time \<Rightarrow> client \<Rightarrow> unit act" where
  "tick_setup now c =
    (if l_hsDeadline c \<le> now then failed (HandshakeTimeout (stage c)) c
     else if \<not> l_haveServerSID c \<and> l_connectDeadline c \<le> now then failed (HandshakeTimeout ''no reply from the server'') c
     else if l_pushing c \<and> \<not> l_gotPush c \<and> l_pushNext c \<le> now then
       ok ((sendControlMessage (l_primary c) ''PUSH_REQUEST'' c)\<lparr>l_pushNext := time_add now (d_pushInterval (cl_d c))\<rparr>)
     else ok c)"

definition tick_closing :: "time \<Rightarrow> client \<Rightarrow> unit act" where
  "tick_closing now c =
    (if l_closeDeadline c \<le> now then failed SessionClosed c
     else case l_primary c of None \<Rightarrow> ok c
     | Some p \<Rightarrow>
       if l_exitSent c \<and> pendingOut (k_adapter (ksAt c p)) = 0 \<and> Unacked (k_layer (ksAt c p)) = 0 then failed SessionClosed c
       else ok c)"

definition tick_ping :: "time \<Rightarrow> client \<Rightarrow> unit act" where
  "tick_ping now c =
    (if l_ping c > 0 \<and> pingWait c now \<le> 0 then sendKeepalive now Ping (c\<lparr>cl_pingTried := stampAt c now\<rparr>) else ok c)"

definition tick_probe :: "time \<Rightarrow> client \<Rightarrow> unit act" where
  "tick_probe now c =
    (if l_probe c \<and> probeWait c now \<le> 0 then sendKeepalive now OCCRequest (c\<lparr>l_probeTried := stampAt c now\<rparr>) else ok c)"

definition tick_lame :: "time \<Rightarrow> client \<Rightarrow> client" where
  "tick_lame now c =
    (case l_lame c of None \<Rightarrow> c | Some p \<Rightarrow> if k_expires (ksAt c p) \<le> now then dropKey (Some p) c else c)"

definition tick_negotiation :: "time \<Rightarrow> client \<Rightarrow> unit act" where
  "tick_negotiation now c =
    (case l_negotiating c of
       Some p \<Rightarrow> if k_deadline (ksAt c p) \<le> now then failed (RenegotiationTimeout (k_id (ksAt c p))) c else ok c
     | None \<Rightarrow> if renegotiationDue c now then startRenegotiation now c else ok c)"

definition tick_up :: "time \<Rightarrow> client \<Rightarrow> unit act" where
  "tick_up now c =
    (if l_pingRestart c > 0 \<and> sinceRecv c now \<ge> l_pingRestart c then failed PingTimeout c
     else andThen (tick_ping now c) (\<lambda>_ c. andThen (tick_probe now c) (\<lambda>_ c. tick_negotiation now (tick_lame now c))))"

definition tick :: "time \<Rightarrow> client \<Rightarrow> unit act" where
  "tick now c =
    (case l_readErr c of
       Some e \<Rightarrow>
         if l_readErrDeadline c \<le> now then failed (if \<not> l_up c \<and> noTLSReply c then ReadFailedNoTLS e else ReadFailed e) c else ok c
     | None \<Rightarrow>
         if \<not> l_up c then tick_setup now c
         else if l_closing c then tick_closing now c
         else tick_up now c)"

text \<open>\<open>consider\<close>: the zero time is no deadline.\<close>

definition considerTime :: "time \<Rightarrow> time \<Rightarrow> time" where
  "considerTime t next = (if t \<noteq> 0 \<and> t < next then t else next)"

definition deadlines :: "client \<Rightarrow> time \<Rightarrow> time list" where
  "deadlines c now =
    (if l_readErr c \<noteq> None then [l_readErrDeadline c]
     else map (\<lambda>p. NextDeadline (k_layer (ksAt c p))) (l_keys c) @
     (if \<not> l_up c then
        [l_hsDeadline c] @ (if \<not> l_haveServerSID c then [l_connectDeadline c] else []) @
        (if l_pushing c \<and> \<not> l_gotPush c then [l_pushNext c] else [])
      else if l_closing c then [l_closeDeadline c]
      else
        (if l_pingRestart c > 0 then [time_add now (l_pingRestart c - sinceRecv c now)] else []) @
        (if l_ping c > 0 then [time_add now (pingWait c now)] else []) @
        (if l_probe c then [time_add now (probeWait c now)] else []) @
        (case l_lame c of Some p \<Rightarrow> [k_expires (ksAt c p)] | None \<Rightarrow> []) @
        (case l_negotiating c of Some p \<Rightarrow> [k_deadline (ksAt c p)]
         | None \<Rightarrow>
           (case l_primary c of
              Some p \<Rightarrow> if o_RenegSec (d_opts (cl_d c)) > 0 then [time_add (k_established (ksAt c p)) (o_RenegSec (d_opts (cl_d c)))] else []
            | None \<Rightarrow> []))))"

definition nextDeadline :: "client \<Rightarrow> time \<Rightarrow> time" where
  "nextDeadline c now = foldl (\<lambda>n t. considerTime t n) (time_add now (d_maxSleep (cl_d c))) (deadlines c now)"

section \<open>Sending control packets\<close>

fun flushPackets :: "time \<Rightarrow> u8 \<Rightarrow> control_packet option list \<Rightarrow> client \<Rightarrow> bool act" where
  "flushPackets now i [] c = (Inr False, c)"
| "flushPackets now i (None # ps) c = (Inl Panic, c)"
| "flushPackets now i (Some p # ps) c =
    (case wrapper_Wrap (cl_wrapper c) (Some (p\<lparr>KeyID := i, SessionID := l_ourSID c, RemoteSessionID := l_serverSID c\<rparr>)) of
       (Inl Panic, w) \<Rightarrow> (Inl Panic, c)
     | (Inl (Err _), w) \<Rightarrow> flushPackets now i ps (c\<lparr>cl_wrapper := w\<rparr>)
     | (Inr b, w) \<Rightarrow>
       case writeRaw now b (c\<lparr>cl_wrapper := w\<rparr>) of (e, c) \<Rightarrow>
       if e \<noteq> None \<and> isDone c then (Inr True, c) else flushPackets now i ps c)"

text \<open>The bytes TLS wrote go to the layer, then what is due goes out; \<open>True\<close>: the session is over.\<close>

definition flushKey :: "time \<Rightarrow> kptr \<Rightarrow> client \<Rightarrow> bool act" where
  "flushKey now p c =
    (let chunks = ad_out (k_adapter (ksAt c p));
         l = foldl (\<lambda>l b. snd (Send l ControlV1 b)) (k_layer (ksAt c p)) chunks
     in case Poll l now of
          (Inl _, l) \<Rightarrow> (Inl Panic, c)
        | (Inr ps, l) \<Rightarrow>
          flushPackets now (k_id (ksAt c p)) ps
            (setKs p (\<lambda>k. k\<lparr>k_layer := l, k_adapter := (k_adapter k)\<lparr>ad_out := []\<rparr>\<rparr>) c))"

fun flushKeys :: "time \<Rightarrow> kptr list \<Rightarrow> client \<Rightarrow> unit act" where
  "flushKeys now [] c = ok c"
| "flushKeys now (p # ps) c = andThen (flushKey now p c) (\<lambda>over c. if over then ok c else flushKeys now ps c)"

definition flush :: "time \<Rightarrow> client \<Rightarrow> unit act" where
  "flush now c = (if l_readErr c \<noteq> None then ok c else flushKeys now (l_keys c) c)"

section \<open>Control packets\<close>

definition credentials :: "client \<Rightarrow> string \<times> string" where
  "credentials c =
    (if \<not> l_authUserPass c then ([], [])
     else if l_authToken c \<noteq> [] then (if l_authTokenUser c \<noteq> [] then l_authTokenUser c else l_username c, l_authToken c)
     else (l_username c, l_password c))"

definition maybeStartTLS :: "kptr \<Rightarrow> client \<Rightarrow> client" where
  "maybeStartTLS p c =
    (let ks = ksAt c p in
     if k_tlsStarted ks \<or> k_dropped ks then c
     else if \<not> k_peerReset ks \<and> (k_id ks = 0 \<or> Unacked (k_layer ks) \<noteq> 0) then c
     else setKs p (\<lambda>k. k\<lparr>k_tlsStarted := True, k_login := Some (credentials c)\<rparr>) c)"

text \<open>A message of the layer: TLS bytes, or the peer's reset.\<close>

definition takeMessage :: "keyCtl \<Rightarrow> message \<Rightarrow> keyCtl" where
  "takeMessage k m =
    (if msgOpcode m = ControlV1 then k\<lparr>k_tlsIn := k_tlsIn k + glen (msgPayload m), k_adapter := deliver (msgPayload m) (k_adapter k)\<rparr>
     else if IsReset (msgOpcode m) then (if msgID m = 0 then k\<lparr>k_peerReset := True\<rparr> else k)
     else k)"

definition feedKey :: "control_packet \<Rightarrow> time \<Rightarrow> keyCtl \<Rightarrow> keyCtl" where
  "feedKey p now k = (case Receive (k_layer k) (Some p) now of (ms, l) \<Rightarrow> foldl takeMessage (k\<lparr>k_layer := l\<rparr>) ms)"

text \<open>The session ids: \<open>None\<close> when the packet is dropped.\<close>

definition checkSession :: "control_packet \<Rightarrow> client \<Rightarrow> client option" where
  "checkSession p c =
    (if \<not> l_haveServerSID c then
       if KeyID p \<noteq> 0 \<or> Opcode p \<noteq> ControlHardResetServerV2 then None
       else if Acks p \<noteq> [] \<and> RemoteSessionID p \<noteq> l_ourSID c then None
       else Some (c\<lparr>l_serverSID := SessionID p, l_haveServerSID := True\<rparr>)
     else if SessionID p \<noteq> l_serverSID c then None
     else if Acks p \<noteq> [] \<and> RemoteSessionID p \<noteq> l_ourSID c then None
     else Some c)"

definition handleControlPacket :: "control_packet \<Rightarrow> time \<Rightarrow> client \<Rightarrow> unit act" where
  "handleControlPacket p now c =
    (case checkSession p c of None \<Rightarrow> ok c
     | Some c \<Rightarrow>
       let receive = (\<lambda>q c. ok (maybeStartTLS q (setKs q (feedKey p now) (markRecv now c)))) in
       case keyByID c (KeyID p) of
         Some q \<Rightarrow> receive q c
       | None \<Rightarrow>
         if Opcode p \<noteq> ControlSoftResetV1 \<or> \<not> l_up c \<or> l_closing c then ok c
         else andThen (serverRenegotiation (KeyID p) now c) receive)"

section \<open>Data keys and the setup of the tunnel\<close>

text \<open>\<open>clear\<close> of the premaster secret.\<close>

definition wipe :: "kptr \<Rightarrow> client \<Rightarrow> client" where
  "wipe p c = setKs p (\<lambda>k. k\<lparr>k_source := (k_source k)\<lparr>PreMaster := replicate (length (PreMaster (k_source k))) 0\<rparr>\<rparr>) c"

definition key2Of :: "kptr \<Rightarrow> client \<Rightarrow> (client_err, key2) res" where
  "key2Of p c =
    (let ks = ksAt c p in
     if l_keyDerivation c = ''tls-ekm'' then
       if \<not> k_canEKM ks then Inl (Err (CannotExport (k_id ks)))
       else (case tls_Export (k_cs ks) EKMLabel EKMLength of None \<Rightarrow> Inl (Err ExportFailed)
         | Some ekm \<Rightarrow> (case Key2FromEKM ekm of Inl Panic \<Rightarrow> Inl Panic | Inl (Err e) \<Rightarrow> Inl (Err (EKMKeys e)) | Inr k \<Rightarrow> Inr k))
     else case k_server ks of None \<Rightarrow> Inl Panic
       | Some sm \<Rightarrow> Inr (DeriveKey2PRF (cr_hmac (w_crypto (cl_world c))) (k_source ks) (sSource sm) (l_ourSID c) (l_serverSID c)))"

text \<open>A new key in the store; its address.\<close>

definition dataKey :: "kptr \<Rightarrow> client \<Rightarrow> Datachan.addr act" where
  "dataKey p c =
    (case key2Of p c of Inl e \<Rightarrow> (Inl e, c)
     | Inr k2 \<Rightarrow>
       let c = wipe p c; i = k_id (ksAt c p); a = cl_nextAddr c in
       case NewKeyState (w_crypto (cl_world c)) (w_ivs (cl_world c) a) i (l_cipher c) (l_digest c) (Some (ClientSend k2)) (Some (ClientRecv k2)) of
         Inl Panic \<Rightarrow> (Inl Panic, c)
       | Inl (Err e) \<Rightarrow> failed (DataKey i (l_cipher c) (l_digest c) e) c
       | Inr dk \<Rightarrow> (Inr a, c\<lparr>cl_store := (cl_store c)(a \<mapsto> dk), cl_nextAddr := a + 1\<rparr>))"

definition installKey :: "Datachan.addr \<Rightarrow> channel \<Rightarrow> client \<Rightarrow> client" where
  "installKey a ch c = (case SetPrimary (cl_store c) ch (Some a) of (st, ch) \<Rightarrow> c\<lparr>cl_store := st, cl_data := Some ch\<rparr>)"

definition takeOver :: "kptr \<Rightarrow> time \<Rightarrow> Datachan.addr \<Rightarrow> client \<Rightarrow> unit act" where
  "takeOver p now a c =
    (case cl_data c of None \<Rightarrow> (Inl Panic, c)
     | Some ch \<Rightarrow>
       let c = installKey a ch c;
           c = (if l_lame c \<noteq> None then dropKey (l_lame c) c else c)
       in case l_primary c of None \<Rightarrow> (Inl Panic, c)
          | Some old \<Rightarrow>
            let c = setKs old (\<lambda>k. k\<lparr>k_expires := time_add now (d_transition (cl_d c))\<rparr>) c;
                c = c\<lparr>l_lame := Some old, l_primary := Some p, l_negotiating := None\<rparr>
            in ok (setKs p (\<lambda>k. k\<lparr>k_established := now\<rparr>) c))"

definition activateKey :: "kptr \<Rightarrow> time \<Rightarrow> client \<Rightarrow> unit act" where
  "activateKey p now c = andThen (dataKey p c) (takeOver p now)"

definition packetSlack :: int where "packetSlack = 256"

definition setPacketCeiling :: "int \<Rightarrow> client \<Rightarrow> client" where
  "setPacketCeiling mtu c = c\<lparr>cl_maxPacket := max mtu 1500 + packetSlack\<rparr>"

text \<open>The digest of the data channel: \<open>None\<close> when a CBC cipher has none that is known.\<close>

definition dataDigest :: "ovpnOptions \<Rightarrow> string \<Rightarrow> (client_err, string) res" where
  "dataDigest opt cipher =
    (let name = (if o_Auth opt = [] then ''SHA1'' else o_Auth opt) in
     case CanonicalDigest name of Some d \<Rightarrow> Inr d
     | None \<Rightarrow> if \<not> IsAEAD cipher then Inl (Err (DataDigest name)) else Inr ''SHA1'')"

definition tunnelMTU :: "ovpnOptions \<Rightarrow> pushed \<Rightarrow> int" where
  "tunnelMTU opt p =
    (let mtu = (if p_TunMTU p > 0 then p_TunMTU p else o_TunMTU opt) in if mtu \<le> 0 then 1500 else mtu)"

text \<open>Keepalive, exit notification and token, from the profile and what was pushed.\<close>

definition settleSession :: "client \<Rightarrow> client" where
  "settleSession c =
    (let opt = d_opts (cl_d c); p = l_pushed c;
         c = c\<lparr>l_ping := (if p_Ping p > 0 then p_Ping p else o_Ping opt), l_pingRestart := o_PingRestart opt\<rparr>;
         c = (if p_PingRestart p > 0 then c\<lparr>l_pingRestart := p_PingRestart p\<rparr>
              else if o_PingRestart opt = 0 \<and> \<not> o_PingRestartSet opt
              then c\<lparr>l_pingRestart := d_defaultPingRestart (cl_d c), l_probe := True\<rparr> else c);
         c = c\<lparr>l_exitNotify := (if p_ExplicitExitNotify p > 0 then p_ExplicitExitNotify p else o_ExplicitExitNotify opt)\<rparr>;
         c = (if ''cc-exit'' \<in> set (p_ProtocolFlags p) then c\<lparr>l_ccExit := True\<rparr> else c)
     in if p_AuthToken p \<noteq> [] then c\<lparr>l_authToken := p_AuthToken p, l_authTokenUser := p_AuthTokenUser p\<rparr> else c)"

definition openChannel :: "Datachan.addr \<Rightarrow> client \<Rightarrow> client" where
  "openChannel a c =
    (let opt = d_opts (cl_d c); p = l_pushed c;
         peerID = (if d_disableDataV2 (cl_d c) then NoPeerID else p_PeerID p);
         comp = (if p_CompressionSet p then p_Compression p else ovpnOptions.o_Compression opt)
     in installKey a (NewChannel (Datachan.options.make peerID comp 0 0)) c)"

text \<open>Closing \<open>ready\<close> a second time would panic.\<close>

definition markUp :: "kptr \<Rightarrow> time \<Rightarrow> client \<Rightarrow> unit act" where
  "markUp p now c =
    (let c = setKs p (\<lambda>k. k\<lparr>k_established := now\<rparr>) (c\<lparr>l_up := True, l_pushing := False\<rparr>);
         c = markSend now (markRecv now c);
         c = c\<lparr>cl_pingNs := l_ping c, cl_pingRestartNs := l_pingRestart c, cl_established := True\<rparr>
     in if cl_ready c then (Inl Panic, c) else ok (c\<lparr>cl_ready := True\<rparr>))"

definition completeSetup :: "time \<Rightarrow> client \<Rightarrow> unit act" where
  "completeSetup now c =
    (let opt = d_opts (cl_d c); ps = l_pushed c in
     case l_primary c of None \<Rightarrow> (Inl Panic, c)
     | Some p \<Rightarrow>
       case k_server (ksAt c p) of None \<Rightarrow> (Inl Panic, c)
       | Some sm \<Rightarrow>
         case chooseCipher (d_ciphers (cl_d c)) (d_fallback (cl_d c)) (p_Cipher ps) (sOptions sm) of
           Inl Panic \<Rightarrow> (Inl Panic, c)
         | Inl (Err e) \<Rightarrow> failed (CipherChoice e) c
         | Inr cipher \<Rightarrow>
           case dataDigest opt cipher of Inl e \<Rightarrow> (Inl e, c)
           | Inr digest \<Rightarrow>
             let kd = (if p_KeyDerivation ps = ''tls-ekm'' then ''tls-ekm'' else ''prf'');
                 c = c\<lparr>l_cipher := cipher, l_digest := digest, l_keyDerivation := kd\<rparr>
             in andThen (dataKey p c) (\<lambda>a c.
                let mtu = tunnelMTU opt ps;
                    c = openChannel a (setPacketCeiling (max mtu (o_TunMTU opt)) c);
                    c = settleSession c;
                    c = c\<lparr>cl_info := Some \<lparr>ti_IPv4 = p_IPv4 ps, ti_IPv6 = p_IPv6 ps, ti_MTU = mtu, ti_DNS = p_DNS ps, ti_Remote = cl_remote c,
                      ti_Cipher = cipher, ti_KeyDerivation = kd, ti_TLSVersion = tls_Version (k_cs (ksAt c p))\<rparr>\<rparr>
                in markUp p now c))"

section \<open>Messages of the server\<close>

definition maxAuthPending :: duration where "maxAuthPending = 600 * Second"

definition updateAuthToken :: "string \<Rightarrow> client \<Rightarrow> unit act" where
  "updateAuthToken msg c =
    (case ApplyPushReply NewPushed msg (o_PullFilters (d_opts (cl_d c))) of
       (Inl Panic, _) \<Rightarrow> (Inl Panic, c)
     | (Inl (Err _), _) \<Rightarrow> ok c
     | (Inr _, p) \<Rightarrow>
       if p_AuthToken p = [] then ok c
       else ok (c\<lparr>l_authToken := p_AuthToken p, l_authTokenUser := (if p_AuthTokenUser p \<noteq> [] then p_AuthTokenUser p else l_authTokenUser c)\<rparr>))"

definition on_push_reply :: "string \<Rightarrow> time \<Rightarrow> client \<Rightarrow> unit act" where
  "on_push_reply msg now c =
    (if l_up c \<or> \<not> l_pushing c then updateAuthToken msg c
     else case ApplyPushReply (l_pushed c) msg (o_PullFilters (d_opts (cl_d c))) of
       (Inl Panic, p) \<Rightarrow> (Inl Panic, c\<lparr>l_pushed := p\<rparr>)
     | (Inl (Err e), p) \<Rightarrow> failed (PushReply e) (c\<lparr>l_pushed := p\<rparr>)
     | (Inr cont, p) \<Rightarrow>
       let c = c\<lparr>l_pushed := p, l_gotPush := True\<rparr> in if cont then ok c else completeSetup now c)"

definition on_auth_failed :: "string option \<Rightarrow> client \<Rightarrow> unit act" where
  "on_auth_failed reason c =
    (if l_up c \<and> l_authToken c \<noteq> [] then failed (AuthTokenRejected reason) (c\<lparr>l_authToken := [], l_authTokenUser := []\<rparr>)
     else failed (AuthFailure reason) c)"

definition on_auth_pending :: "string \<Rightarrow> time \<Rightarrow> client \<Rightarrow> client" where
  "on_auth_pending s now c =
    (if l_up c then c
     else
     let c = c\<lparr>l_pending := True\<rparr> in
     case authPendingTimeout s of None \<Rightarrow> c
     | Some d \<Rightarrow>
       let dl = time_add now (min d maxAuthPending) in if l_hsDeadline c < dl then setHandshakeDeadline dl c else c)"

definition handleControlMessage :: "string \<Rightarrow> time \<Rightarrow> client \<Rightarrow> unit act" where
  "handleControlMessage msg now c =
    (let msg = trimRightSet [CHR 0x0D, CHR 0x0A, CHR 0x09, CHR '' ''] msg;
         (cmd, s, hasArg) = cutChar (CHR '','') msg
     in if cmd = ''PUSH_REPLY'' then on_push_reply msg now c
        else if cmd = ''AUTH_FAILED'' then on_auth_failed (if hasArg \<and> s \<noteq> [] then Some s else None) c
        else if cmd = ''AUTH_PENDING'' then ok (on_auth_pending s now c)
        else if cmd \<in> set [''INFO'', ''INFO_PRE''] then ok c
        else if cmd = ''RESTART'' then failed ServerRestart c
        else if cmd = ''HALT'' then failed ServerHalt c
        else if cmd = ''EXIT'' then failed ServerExit c
        else ok c)"

datatype key_event = EvExchanged serverMessage tlsState bool | EvMessage string | EvError tls_fail

definition handleKeyEvent :: "kptr \<Rightarrow> key_event \<Rightarrow> time \<Rightarrow> client \<Rightarrow> unit act" where
  "handleKeyEvent p ev now c =
    (if k_dropped (ksAt c p) then ok c
     else case ev of
       EvError e \<Rightarrow>
         if \<not> l_up c \<or> l_primary c = Some p then failed (TLSFailed (k_id (ksAt c p)) e) c
         else if l_negotiating c = Some p then failed (RenegotiationFailed (k_id (ksAt c p)) e) c
         else ok c
     | EvExchanged sm cs canEKM \<Rightarrow>
         let c = setKs p (\<lambda>k. k\<lparr>k_exchanged := True, k_server := Some sm, k_cs := cs, k_canEKM := canEKM\<rparr>) c in
         if \<not> l_up c then
           ok ((sendControlMessage (Some p) ''PUSH_REQUEST'' (c\<lparr>l_pushing := True\<rparr>))\<lparr>l_pushNext := time_add now (d_pushInterval (cl_d c))\<rparr>)
         else activateKey p now c
     | EvMessage msg \<Rightarrow> handleControlMessage msg now c)"

section \<open>The end of a session\<close>

definition closeGrace :: duration where "closeGrace = 200000000"
definition maxExitNotify :: int where "maxExitNotify = 10"

fun exitPackets :: "time \<Rightarrow> nat \<Rightarrow> channel \<Rightarrow> client \<Rightarrow> unit act" where
  "exitPackets now 0 ch c = ok c"
| "exitPackets now (Suc n) ch c =
    (case SealOCC (cl_store c) ch [] OCCExit of
       (Inl Panic, st) \<Rightarrow> (Inl Panic, c\<lparr>cl_store := st\<rparr>)
     | (Inl (Err _), st) \<Rightarrow> ok (c\<lparr>cl_store := st\<rparr>)
     | (Inr pkt, st) \<Rightarrow>
       case writeRaw now pkt (c\<lparr>cl_store := st\<rparr>) of (e, c) \<Rightarrow> if e \<noteq> None \<and> isDone c then ok c else exitPackets now n ch c)"

definition beginClose :: "time \<Rightarrow> client \<Rightarrow> unit act" where
  "beginClose now c =
    (if \<not> l_up c then failed SessionClosed c
     else
     let c = c\<lparr>l_closing := True, l_closeDeadline := time_add now closeGrace\<rparr> in
     if l_ccExit c \<and> (case l_primary c of None \<Rightarrow> False | Some p \<Rightarrow> k_exchanged (ksAt c p)) then
       ok ((sendControlMessage (l_primary c) ''EXIT'' c)\<lparr>l_exitSent := True\<rparr>)
     else
     andThen (case cl_data c of
         Some ch \<Rightarrow> if \<not> cl_tcp c \<and> l_exitNotify c > 0 then exitPackets now (nat (min (l_exitNotify c) maxExitNotify)) ch c else ok c
       | None \<Rightarrow> ok c) (\<lambda>_ c. failed SessionClosed c))"

text \<open>The control packets read before the transport failed are handled first.\<close>

fun drainControl :: "time \<Rightarrow> control_packet list \<Rightarrow> client \<Rightarrow> unit act" where
  "drainControl now [] c = ok c"
| "drainControl now (p # ps) c = andThen (handleControlPacket p now (c\<lparr>cl_ctlIn := ps\<rparr>)) (\<lambda>_ c. drainControl now ps c)"

definition transportDown :: "string \<Rightarrow> time \<Rightarrow> client \<Rightarrow> unit act" where
  "transportDown e now c =
    andThen (drainControl now (cl_ctlIn c) c) (\<lambda>_ c. ok (c\<lparr>l_readErr := Some e, l_readErrDeadline := time_add now closeGrace\<rparr>))"

section \<open>Packets\<close>

definition packetQueueLen :: int where "packetQueueLen = 1024"
definition controlQueueLen :: int where "controlQueueLen = 256"
definition maxQueuedBytes :: int where "maxQueuedBytes = 2 * 2 ^ 20"
definition maxDataOverhead :: int where "maxDataOverhead = 256"

text \<open>\<open>queued\<close>, the bytes in the queue.\<close>

definition queued :: "client \<Rightarrow> int" where
  "queued c = sum_list (map glen (cl_packets c))"

definition dropPacket :: "client \<Rightarrow> client" where
  "dropPacket c = c\<lparr>cl_dropped := cl_dropped c + 1\<rparr>"

definition queuePacket :: "bytes \<Rightarrow> client \<Rightarrow> client" where
  "queuePacket p c =
    (if p = [] then c
     else if glen p > cl_maxPacket c then dropPacket c
     else if queued c + glen p \<le> maxQueuedBytes \<and> glen (cl_packets c) < packetQueueLen then c\<lparr>cl_packets := cl_packets c @ [p]\<rparr>
     else dropPacket c)"

definition handleOCC :: "bytes \<Rightarrow> client \<Rightarrow> client" where
  "handleOCC msg c = (if msg \<noteq> [] \<and> hd msg = OCCExit then cl_fail ServerExitNotify c else c)"

definition dispatchData :: "bytes \<Rightarrow> time \<Rightarrow> client \<Rightarrow> unit act" where
  "dispatchData pkt now c =
    (case cl_data c of None \<Rightarrow> ok c
     | Some ch \<Rightarrow>
       if glen pkt > cl_maxPacket c + maxDataOverhead then ok (dropPacket c)
       else case Open (cl_store c) ch [] pkt of
         (Inl Panic, st) \<Rightarrow> (Inl Panic, c\<lparr>cl_store := st\<rparr>)
       | (Inl (Err _), st) \<Rightarrow> ok (c\<lparr>cl_store := st\<rparr>)
       | (Inr (x, k), st) \<Rightarrow>
         let c = markRecv now (c\<lparr>cl_store := st\<rparr>)
         in ok (if k = KindPacket then queuePacket x c else if k = KindOCC then handleOCC x c else c))"

text \<open>
  A control packet waits for room in the queue over TCP (this step is then taken later) and is
  dropped over UDP when there is none.
\<close>

definition dispatchControl :: "bytes \<Rightarrow> client \<Rightarrow> unit act" where
  "dispatchControl pkt c =
    (case wrapper_Unwrap (cl_wrapper c) pkt of
       (Inl Panic, w) \<Rightarrow> (Inl Panic, c)
     | (Inl (Err _), w) \<Rightarrow> ok (c\<lparr>cl_wrapper := w\<rparr>)
     | (Inr p, w) \<Rightarrow>
       let c = c\<lparr>cl_wrapper := w\<rparr> in
       ok (if cl_tcp c \<or> glen (cl_ctlIn c) < controlQueueLen then c\<lparr>cl_ctlIn := cl_ctlIn c @ [p]\<rparr> else c))"

definition dispatch :: "bytes \<Rightarrow> time \<Rightarrow> client \<Rightarrow> unit act" where
  "dispatch pkt now c =
    (case pkt of [] \<Rightarrow> (Inl Panic, c)
     | b0 # _ \<Rightarrow>
       let op = fst (SplitHeader b0) in
       if IsData op then dispatchData pkt now c
       else if IsControl op then dispatchControl pkt c
       else ok c)"

text \<open>
  \<open>ReadPacket\<close> into a buffer of \<open>n\<close> bytes: the error of a session that is over, the bytes and whether the packet was cut short,
  or \<open>None\<close>: it waits.
\<close>

definition client_ReadPacket :: "nat \<Rightarrow> client \<Rightarrow> (client_err + bytes \<times> bool) option \<times> client" where
  "client_ReadPacket n c =
    (case cl_err c of Some e \<Rightarrow> (Some (Inl e), c)
     | None \<Rightarrow> (case cl_packets c of [] \<Rightarrow> (None, c) | p # ps \<Rightarrow> (Some (Inr (take n p, n < length p)), c\<lparr>cl_packets := ps\<rparr>)))"

datatype packet_err = Ended client_err | NoDataKey | Sealing dc_err | Writing write_err

definition client_WritePacket :: "bytes \<Rightarrow> time \<Rightarrow> client \<Rightarrow> (packet_err, unit) res \<times> client" where
  "client_WritePacket p now c =
    (case cl_err c of Some e \<Rightarrow> (Inl (Err (Ended e)), c)
     | None \<Rightarrow>
       case cl_data c of None \<Rightarrow> (Inl (Err NoDataKey), c)
       | Some ch \<Rightarrow>
         case Seal (cl_store c) ch [] p of
           (Inl Panic, st) \<Rightarrow> (Inl Panic, c\<lparr>cl_store := st\<rparr>)
         | (Inl (Err e), st) \<Rightarrow> (Inl (Err (Sealing e)), c\<lparr>cl_store := st\<rparr>)
         | (Inr pkt, st) \<Rightarrow>
           case writeRaw now pkt (c\<lparr>cl_store := st\<rparr>) of (None, c) \<Rightarrow> (Inr (), c) | (Some e, c) \<Rightarrow> (Inl (Err (Writing e)), c))"

section \<open>The control loop\<close>

text \<open>The top of the loop, and what it may find in its channels.\<close>

definition loopTop :: "time \<Rightarrow> client \<Rightarrow> unit act" where
  "loopTop now c = andThen (tick now c) (\<lambda>_ c. flush now c)"

datatype loop_input =
  InControl
| InEvent kptr key_event
| InWake
| InClosing
| InReadErr string

definition loopInput :: "loop_input \<Rightarrow> time \<Rightarrow> client \<Rightarrow> unit act" where
  "loopInput inp now c =
    (case inp of
       InControl \<Rightarrow> (case cl_ctlIn c of [] \<Rightarrow> ok c | p # ps \<Rightarrow> handleControlPacket p now (c\<lparr>cl_ctlIn := ps\<rparr>))
     | InEvent p ev \<Rightarrow> handleKeyEvent p ev now c
     | InWake \<Rightarrow> ok c
     | InClosing \<Rightarrow> beginClose now c
     | InReadErr e \<Rightarrow> transportDown e now c)"

text \<open>An error ends the loop: what is queued goes out first (not after \<open>tick\<close>), the session fails and the adapters are closed.\<close>

definition loopEnd :: "client_err \<Rightarrow> client \<Rightarrow> client" where
  "loopEnd e c = closeKeys (cl_fail e c)"

definition loopInputEnd :: "client_err \<Rightarrow> time \<Rightarrow> client \<Rightarrow> unit act" where
  "loopInputEnd e now c = andThen (flush now c) (\<lambda>_ c. ok (loopEnd e c))"

definition atTop :: "time \<Rightarrow> client \<Rightarrow> unit act" where
  "atTop now c = (case loopTop now c of (Inl (Err e), c) \<Rightarrow> ok (loopEnd e c) | r \<Rightarrow> r)"

definition onInput :: "loop_input \<Rightarrow> time \<Rightarrow> client \<Rightarrow> unit act" where
  "onInput inp now c = (case loopInput inp now c of (Inl (Err e), c) \<Rightarrow> loopInputEnd e now c | r \<Rightarrow> r)"

end
