(* ===== verification/Client_Dial.thy ===== *)
theory Client_Dial
  imports Client
begin

text \<open>
  From a profile to a session (\<open>core/proxy/openvpn/ovpn/client/client.go\<close>): what is prepared once for all remotes, the new
  session of one remote, and the order in which the remotes are tried. Opening the connection and running the session's goroutines
  until the tunnel is up is a parameter of the last. The overrides for tests (\<open>hooks\<close>) are not modelled.
\<close>

section \<open>The dialer\<close>

record config =
  cf_ClientProof :: "proofKey option"
  cf_Options :: "ovpnOptions option"
  cf_HasDial :: bool
  cf_Username :: string
  cf_Password :: string
  cf_Platform :: string
  cf_HandshakeTimeout :: duration
  cf_DisableEKM :: bool
  cf_DisableDataV2 :: bool

datatype dial_err =
  NoOptions
| NoDialFunc
| NoRemote
| TLSConfiguration
| CryptV2Key ctl_err
| CryptKey ctl_err
| AuthKey ctl_err
| Protection ctl_err
| RandomSessionID io_err
| SessionStart client_err

definition keyDirection :: "int \<Rightarrow> direction" where
  "keyDirection d = (if d = 0 then Normal else if d = 1 then Inverse else Bidirectional)"

text \<open>What the wrappers take from outside: keyed hashes, AES in counter mode, the PEM decoder and the time.\<close>

record wrap_env =
  we_hmac :: hmac_fn
  we_ctr :: ctr_fn
  we_pem :: pem_decode
  we_now :: u32

definition wrapRes :: "('a \<Rightarrow> wrapper) \<Rightarrow> (ctl_err, 'a) res \<Rightarrow> (dial_err, wrapper) res" where
  "wrapRes f r = (case r of Inl Panic \<Rightarrow> Inl Panic | Inl (Err e) \<Rightarrow> Inl (Err (Protection e)) | Inr a \<Rightarrow> Inr (f a))"

definition newWrapper :: "wrap_env \<Rightarrow> ovpnOptions \<Rightarrow> wrapSpec \<Rightarrow> (dial_err, wrapper) res" where
  "newWrapper we opt w =
    (case w of
       WrapTLSCryptV2 k wkc \<Rightarrow> wrapRes WCrypt (NewTLSCryptV2Client (we_hmac we) (we_ctr we) (we_now we) (Some k) wkc)
     | WrapTLSCrypt k \<Rightarrow> wrapRes WCrypt (NewTLSCrypt (we_hmac we) (we_ctr we) (we_now we) (Some k) True)
     | WrapTLSAuth k \<Rightarrow> wrapRes WAuth (NewTLSAuth (we_hmac we) (we_now we) (Some k) (keyDirection (o_KeyDirection opt)) (o_Auth opt))
     | WrapPlain \<Rightarrow> Inr WPlain)"

definition keyRes :: "(ctl_err \<Rightarrow> dial_err) \<Rightarrow> ('a \<Rightarrow> wrapSpec) \<Rightarrow> (ctl_err, 'a) res \<Rightarrow> (dial_err, wrapSpec) res" where
  "keyRes g f r = (case r of Inl Panic \<Rightarrow> Inl Panic | Inl (Err e) \<Rightarrow> Inl (Err (g e)) | Inr a \<Rightarrow> Inr (f a))"

definition given :: "string option \<Rightarrow> bool" where
  "given s \<longleftrightarrow> (case s of None \<Rightarrow> False | Some s \<Rightarrow> s \<noteq> [])"

definition wrapSpecOf :: "wrap_env \<Rightarrow> ovpnOptions \<Rightarrow> (dial_err, wrapSpec) res" where
  "wrapSpecOf we opt =
    (if given (o_TLSCryptV2 opt) then
       keyRes CryptV2Key (\<lambda>(k, wkc). WrapTLSCryptV2 k wkc) (ParseTLSCryptV2ClientKey (we_pem we) (bytes_of (the (o_TLSCryptV2 opt))))
     else if given (o_TLSCrypt opt) then keyRes CryptKey WrapTLSCrypt (ParseStaticKey (the (o_TLSCrypt opt)))
     else if given (o_TLSAuth opt) then keyRes AuthKey WrapTLSAuth (ParseStaticKey (the (o_TLSAuth opt)))
     else Inr WrapPlain)"

definition defaultHandshakeTimeout :: duration where "defaultHandshakeTimeout = 60 * Second"
definition dialConnectTimeout :: duration where "dialConnectTimeout = 30 * Second"
definition defaultPushInterval :: duration where "defaultPushInterval = 2 * Second"
definition defaultTransition :: duration where "defaultTransition = 60 * Second"
definition maxLoopSleep :: duration where "maxLoopSleep = 5 * Second"
definition defaultPingRestart :: duration where "defaultPingRestart = 120 * Second"
definition maxAcksPerPacket :: int where "maxAcksPerPacket = 4"
definition maxControlPacket :: int where "maxControlPacket = 1250"
definition controlHeaderMax :: int where "controlHeaderMax = 1 + 8 + 1 + 4 * maxAcksPerPacket + 8 + 4"
definition minControlChunk :: int where "minControlChunk = 256"

definition loginOf :: "config \<Rightarrow> ovpnOptions \<Rightarrow> bool \<times> string \<times> string" where
  "loginOf cf opt =
    (if cf_Username cf \<noteq> [] then (True, cf_Username cf, cf_Password cf)
     else if o_AuthUserPass opt then (True, o_Username opt, o_Password opt)
     else (False, [], []))"

definition timeoutsOf :: "config \<Rightarrow> ovpnOptions \<Rightarrow> duration \<times> duration" where
  "timeoutsOf cf opt =
    (let t = cf_HandshakeTimeout cf;
         t = (if t \<le> 0 then o_HandWindow opt else t);
         t = (if t \<le> 0 then defaultHandshakeTimeout else t);
         ct = o_ConnectTimeout opt;
         ct = (if ct \<le> 0 then dialConnectTimeout else ct)
     in (t, min ct t))"

text \<open>\<open>tlsOk\<close>: \<open>tlsconf.Build\<close> gave a configuration for the profile.\<close>

definition newDialer :: "wrap_env \<Rightarrow> (ovpnOptions \<Rightarrow> bool) \<Rightarrow> config \<Rightarrow> (dial_err, dialer) res" where
  "newDialer we tlsOk cf =
    (case cf_Options cf of None \<Rightarrow> Inl (Err NoOptions)
     | Some opt \<Rightarrow>
       if \<not> cf_HasDial cf then Inl (Err NoDialFunc)
       else if o_Remotes opt = [] then Inl (Err NoRemote)
       else if \<not> tlsOk opt then Inl (Err TLSConfiguration)
       else
       rbind (wrapSpecOf we opt) (\<lambda>w. rbind (newWrapper we opt w) (\<lambda>_.
       let (cs, fb) = cipherList opt; (lg, user, pass) = loginOf cf opt; (t, ct) = timeoutsOf cf opt;
           udp = \<lparr>InitialTimeout = 0, MaxTimeout = 0, SendWindow = 0, RecvWindow = 0, MaxAcksPerPacket = maxAcksPerPacket, RecentAcks = 0\<rparr>
       in Inr \<lparr>d_opts = opt, d_wrap = w, d_platform = cf_Platform cf, d_clientProof = cf_ClientProof cf, d_disableEKM = cf_DisableEKM cf, d_disableDataV2 = cf_DisableDataV2 cf,
            d_resetOp = (if given (o_TLSCryptV2 opt) then ControlHardResetClientV3 else ControlHardResetClientV2),
            d_ciphers = cs, d_fallback = fb, d_authUserPass = lg, d_username = user, d_password = pass,
            d_timeout = t, d_connectTimeout = ct, d_pushInterval = defaultPushInterval, d_transition = defaultTransition,
            d_defaultPingRestart = defaultPingRestart, d_maxSleep = maxLoopSleep,
            d_relUDP = udp, d_relTCP = udp\<lparr>InitialTimeout := -1\<rparr>\<rparr>)))"

section \<open>A new session\<close>

text \<open>Eight bytes at a time until they are not all zero.\<close>

function pickSessionID :: "bytes \<Rightarrow> (io_err + session_id) \<times> bytes" where
  "pickSessionID rnd =
    (case ReadFull rnd 8 of (Inl e, r) \<Rightarrow> (Inl e, r)
     | (Inr s, r) \<Rightarrow> if s = zeroSessionID then pickSessionID (drop 8 rnd) else (Inr s, r))"
  by auto
termination
  by (relation "measure length") (auto simp: ReadFull_def split: if_splits)

declare pickSessionID.simps [simp del]

definition chunkOf :: "dialer \<Rightarrow> wrapper \<Rightarrow> int" where
  "chunkOf d w =
    (let overhead = Overhead w;
         overhead = (case d_wrap d of WrapTLSCryptV2 _ wkc \<Rightarrow> max (overhead - glen wkc) 0 | _ \<Rightarrow> overhead)
     in max (maxControlPacket - overhead - controlHeaderMax) minControlChunk)"

definition blankClient :: "world \<Rightarrow> dialer \<Rightarrow> remote \<Rightarrow> bytes \<Rightarrow> wrapper \<Rightarrow> time \<Rightarrow> client" where
  "blankClient wd d r rnd w now =
    \<lparr>l_ourSID = zeroSessionID, l_serverSID = zeroSessionID, l_haveServerSID = False, l_keys = [], l_primary = None, l_lame = None,
     l_negotiating = None, l_lastKeyID = 0, l_start = now, l_hsDeadline = 0, l_connectDeadline = time_add now (d_connectTimeout d),
     l_pushed = NewPushed, l_pushing = False, l_gotPush = False, l_pushNext = 0, l_pending = False, l_up = False,
     l_cipher = [], l_digest = [], l_keyDerivation = [], l_ping = 0, l_pingRestart = 0, l_probe = False, l_probeTried = (0, 0),
     l_ccExit = False, l_exitNotify = 0, l_authUserPass = d_authUserPass d, l_username = d_username d, l_password = d_password d,
     l_authToken = [], l_authTokenUser = [], l_closing = False, l_closeDeadline = 0, l_exitSent = False,
     l_readErr = None, l_readErrDeadline = 0,
     cl_world = wd, cl_d = d, cl_remote = r, cl_tcp = isTCPNetwork (r_Network r), cl_rand = rnd, cl_wrapper = w,
     cl_chunk = chunkOf d w, cl_occ = occString (d_opts d) (d_fallback d) r, cl_ks = [], cl_store = Map.empty, cl_nextAddr = 0, cl_data = None,
     cl_epoch = now, cl_lastSend = (0, 0), cl_lastRecv = (0, 0), cl_pingTried = (0, 0), cl_established = False, cl_pingNs = 0,
     cl_pingRestartNs = 0, cl_hsDeadlineNs = 0, cl_maxPacket = 0, cl_packets = [], cl_dropped = 0, cl_ctlIn = [],
     cl_ready = False, cl_info = None, cl_writes = [], cl_wire = [], cl_err = None\<rparr>"

definition newClient :: "wrap_env \<Rightarrow> world \<Rightarrow> dialer \<Rightarrow> remote \<Rightarrow> bytes \<Rightarrow> time \<Rightarrow> (dial_err, client) res" where
  "newClient we wd d r rnd now =
    rbind (newWrapper we (d_opts d) (d_wrap d)) (\<lambda>w.
    let c = setPacketCeiling (o_TunMTU (d_opts d)) (blankClient wd d r rnd w now) in
    case pickSessionID (cl_rand c) of (Inl e, _) \<Rightarrow> Inl (Err (RandomSessionID e))
    | (Inr sid, rnd) \<Rightarrow>
      let c = setHandshakeDeadline (time_add now (d_timeout d)) (c\<lparr>l_ourSID := sid, cl_rand := rnd\<rparr>) in
      case newKeyState 0 (d_resetOp d) c of
        (Inl Panic, _) \<Rightarrow> Inl Panic
      | (Inl (Err e), _) \<Rightarrow> Inl (Err (SessionStart e))
      | (Inr p, c) \<Rightarrow> Inr (c\<lparr>l_primary := Some p\<rparr>))"

text \<open>\<open>connect\<close> counts the time of dialing, begun at \<open>start\<close>, for the handshake.\<close>

definition startSession :: "wrap_env \<Rightarrow> world \<Rightarrow> dialer \<Rightarrow> remote \<Rightarrow> bytes \<Rightarrow> time \<Rightarrow> time \<Rightarrow> (dial_err, client) res" where
  "startSession we wd d r rnd start now =
    rbind (newClient we wd d r rnd now) (\<lambda>c. Inr (setHandshakeDeadline (time_add start (d_timeout d)) c))"

section \<open>The remotes\<close>

definition isAuthFailed :: "client_err \<Rightarrow> bool" where
  "isAuthFailed e = (case e of AuthFailure _ \<Rightarrow> True | AuthTokenRejected _ \<Rightarrow> True | _ \<Rightarrow> False)"

datatype 'e dial_result_err = AuthStop 'e | NoneWorked "'e option" | ContextEnded

text \<open>\<open>ended i\<close>: the context has ended before the i-th attempt. \<open>auth\<close> tells \<open>ErrAuthFailed\<close> among the errors of \<open>conn\<close>.\<close>

fun dialRemotes :: "(nat \<Rightarrow> bool) \<Rightarrow> (remote \<Rightarrow> 'e + 'c) \<Rightarrow> ('e \<Rightarrow> bool) \<Rightarrow> nat \<Rightarrow> remote list \<Rightarrow> 'e option \<Rightarrow> 'e dial_result_err + 'c" where
  "dialRemotes ended conn auth i [] lst = Inl (NoneWorked lst)"
| "dialRemotes ended conn auth i (r # rs) lst =
    (if ended i then (case lst of None \<Rightarrow> Inl ContextEnded | Some e \<Rightarrow> Inl (NoneWorked (Some e)))
     else case conn r of Inr c \<Rightarrow> Inr c
     | Inl e \<Rightarrow> if auth e then Inl (AuthStop e) else dialRemotes ended conn auth (i + 1) rs (Some e))"

definition Dial :: "(nat \<Rightarrow> bool) \<Rightarrow> (remote \<Rightarrow> client_err + 'c) \<Rightarrow> dialer \<Rightarrow> bytes \<Rightarrow> (io_err + client_err dial_result_err) + 'c" where
  "Dial ended conn d rnd =
    (case (if o_RemoteRandom (d_opts d) then fst (shuffleRemotes (o_Remotes (d_opts d)) rnd) else Inr (o_Remotes (d_opts d))) of
       Inl e \<Rightarrow> Inl (Inl e)
     | Inr rs \<Rightarrow> (case dialRemotes ended conn isAuthFailed 0 rs None of Inl e \<Rightarrow> Inl (Inr e) | Inr c \<Rightarrow> Inr c))"

text \<open>A dialer for examples.\<close>

definition demoDialer :: dialer where
  "demoDialer = \<lparr>d_opts = defaultOptions [], d_wrap = WrapPlain, d_platform = ''linux'', d_clientProof = None, d_disableEKM = False, d_disableDataV2 = False,
     d_resetOp = ControlHardResetClientV2, d_ciphers = [''AES-256-GCM''], d_fallback = [], d_authUserPass = False, d_username = [], d_password = [],
     d_timeout = defaultHandshakeTimeout, d_connectTimeout = dialConnectTimeout, d_pushInterval = defaultPushInterval, d_transition = defaultTransition,
     d_defaultPingRestart = defaultPingRestart, d_maxSleep = maxLoopSleep,
     d_relUDP = \<lparr>InitialTimeout = 0, MaxTimeout = 0, SendWindow = 0, RecvWindow = 0, MaxAcksPerPacket = maxAcksPerPacket, RecentAcks = 0\<rparr>,
     d_relTCP = \<lparr>InitialTimeout = -1, MaxTimeout = 0, SendWindow = 0, RecvWindow = 0, MaxAcksPerPacket = maxAcksPerPacket, RecentAcks = 0\<rparr>\<rparr>"

end
