(* ===== verification/Client_Safe.thy ===== *)
theory Client_Safe
  imports Client_Dial Reliable_Timing Datachan_Run Ctlwrap_Packets Options_Pushed
begin

text \<open>
  What holds of a session at every moment, whatever happens: its layers, its wrapper, its data keys and its channel are
  well-formed, and no handler of the loop, no packet read and no packet written panics.
\<close>

section \<open>Results\<close>

text \<open>A call that does not panic, leaves \<open>P\<close> when it fails and \<open>Q\<close> of its value when it succeeds.\<close>

definition runs :: "(client \<Rightarrow> bool) \<Rightarrow> ('a \<Rightarrow> client \<Rightarrow> bool) \<Rightarrow> 'a act \<Rightarrow> bool" where
  "runs P Q m \<longleftrightarrow> (case m of (Inl Panic, _) \<Rightarrow> False | (Inl (Err _), c) \<Rightarrow> P c | (Inr a, c) \<Rightarrow> Q a c)"

lemma runs_ok [intro]: "Q () c \<Longrightarrow> runs P Q (ok c)"
  by (simp add: runs_def ok_def)

lemma runs_value [intro]: "Q a c \<Longrightarrow> runs P Q (Inr a, c)"
  by (simp add: runs_def)

lemma runs_failed [intro]: "P c \<Longrightarrow> runs P Q (failed e c)"
  by (simp add: runs_def failed_def)

lemma runs_Err [intro]: "P c \<Longrightarrow> runs P Q (Inl (Err e), c)"
  by (simp add: runs_def)

lemma runs_andThen: "runs P Q m \<Longrightarrow> (\<And>a c. Q a c \<Longrightarrow> runs P R (f a c)) \<Longrightarrow> runs P R (andThen m f)"
  unfolding andThen_def by (cases m; cases "fst m"; cases "projl (fst m)") (auto simp: runs_def)

lemma runs_weaken: "runs P Q m \<Longrightarrow> (\<And>c. P c \<Longrightarrow> P' c) \<Longrightarrow> (\<And>a c. Q a c \<Longrightarrow> Q' a c) \<Longrightarrow> runs P' Q' m"
  by (auto simp: runs_def split: prod.splits sum.splits fault.splits)

lemma runs_if: "(b \<Longrightarrow> runs P Q m) \<Longrightarrow> (\<not> b \<Longrightarrow> runs P Q n) \<Longrightarrow> runs P Q (if b then m else n)"
  by simp

lemma runs_option: "(x = None \<Longrightarrow> runs P Q m) \<Longrightarrow> (\<And>a. x = Some a \<Longrightarrow> runs P Q (n a)) \<Longrightarrow> runs P Q (case x of None \<Rightarrow> m | Some a \<Rightarrow> n a)"
  by (cases x) auto

lemma runs_no_panic: "runs P Q m \<Longrightarrow> \<not> panics (fst m)"
  by (auto simp: runs_def panics_def split: prod.splits sum.splits fault.splits)

section \<open>The invariant of the parts\<close>

definition wrapper_ok :: "wrapper \<Rightarrow> bool" where
  "wrapper_ok w = (case w of WPlain \<Rightarrow> True | WAuth a \<Rightarrow> auth_window.window_ok a | WCrypt t \<Rightarrow> crypt_window.window_ok t)"

definition keyCtl_ok :: "keyCtl \<Rightarrow> bool" where
  "keyCtl_ok k \<longleftrightarrow> layer_ok (k_layer k) \<and> since_ok (k_layer k) \<and> unat (k_id k) < 8 \<and> 0 < ad_chunk (k_adapter k)"

definition base_ok :: "client \<Rightarrow> bool" where
  "base_ok c \<longleftrightarrow>
    crypto_ok (w_crypto (cl_world c)) \<and> store_ok (cl_store c) \<and> (\<forall>a \<ge> cl_nextAddr c. cl_store c a = None) \<and>
    (\<forall>ch. cl_data c = Some ch \<longrightarrow> channel_ok (cl_store c) ch) \<and> wrapper_ok (cl_wrapper c) \<and>
    list_all keyCtl_ok (cl_ks c) \<and> list_all (\<lambda>p. p < length (cl_ks c)) (l_keys c) \<and> pushedOk (l_pushed c) \<and>
    list_all (\<lambda>p. unat (KeyID p) < 8) (cl_ctlIn c)"

text \<open>What the invariant looks at.\<close>

definition base_view :: "client \<Rightarrow> _" where
  "base_view c = (cl_world c, cl_store c, cl_nextAddr c, cl_data c, cl_wrapper c, cl_ks c, l_keys c, l_pushed c, cl_ctlIn c)"

lemma base_ok_cong: "base_ok c \<Longrightarrow> base_view c' = base_view c \<Longrightarrow> base_ok c'"
  by (simp add: base_ok_def base_view_def)

subsection \<open>Wrappers\<close>

lemma appendPID_no_panic: "appendPID s b \<noteq> (Inl Panic, s')"
  by (auto simp: appendPID_def sender_next_def Let_def split: prod.splits if_splits)

lemma checkPacket_no_panic: "checkPacket p \<noteq> Inl Panic"
  by (auto simp: checkPacket_def split: option.splits)

lemma auth_Wrap_safe: "auth_Wrap a p = (x, a') \<Longrightarrow> x \<noteq> Inl Panic \<and> ta_recv a' = ta_recv a"
  using checkPacket_no_panic [of p] appendPID_no_panic by (auto simp: auth_Wrap_def Let_def split: sum.splits prod.splits)

lemma crypt_Wrap_safe: "crypt_Wrap a p = (x, a') \<Longrightarrow> x \<noteq> Inl Panic \<and> tc_recv a' = tc_recv a"
  using checkPacket_no_panic [of p] appendPID_no_panic by (auto simp: crypt_Wrap_def Let_def split: sum.splits prod.splits)

lemma wrapper_Wrap_safe:
  assumes "wrapper_ok w" "wrapper_Wrap w p = (x, w')"
  shows "x \<noteq> Inl Panic \<and> wrapper_ok w'"
proof (cases w)
  case WPlain
  then show ?thesis using assms checkPacket_no_panic [of p]
    by (auto simp: wrapper_Wrap_def wrapper_ok_def plain_Wrap_def rbind_def split: sum.splits)
next
  case (WAuth a)
  then show ?thesis using assms auth_Wrap_safe [of a p]
    by (cases "auth_Wrap a p") (auto simp: wrapper_Wrap_def wrapper_ok_def auth_window.window_ok_def)
next
  case (WCrypt t)
  then show ?thesis using assms crypt_Wrap_safe [of t p]
    by (cases "crypt_Wrap t p") (auto simp: wrapper_Wrap_def wrapper_ok_def crypt_window.window_ok_def)
qed

lemma parsePacket_KeyID: "parsePacket op i sid body = Inr p \<Longrightarrow> KeyID p = i"
  by (auto simp: parsePacket_def ParseBody_def parseTail_def rbind_def Let_def split: sum.splits fault.splits if_splits)

lemma splitHead_KeyID: "splitHead b n knd = Inr (op, i) \<Longrightarrow> unat i < 8"
  using word_and7 by (auto simp: splitHead_def SplitHeader_def KeyIDMask_def rbind_def Let_def split: sum.splits if_splits)

lemma plain_Unwrap_safe: "plain_Unwrap b \<noteq> Inl Panic"
proof -
  show ?thesis
  proof (cases "length b < headLen")
    case True
    then show ?thesis by (simp add: plain_Unwrap_def splitHead_def rbind_def)
  next
    case False
    then have "gidx b 0 = (Inr (b ! 0) :: (ctl_err, u8) res)" by (auto simp: gidx_def ctl_consts glen_def)
    moreover have "gslice b 1 (int headLen) = (Inr (take 8 (drop 1 b)) :: (ctl_err, bytes) res)" "gfrom b (int headLen) = (Inr (drop headLen b) :: (ctl_err, bytes) res)"
      using False by (auto simp: gslice_def gfrom_def ctl_consts glen_def)
    ultimately show ?thesis using parsePacket_result False
      by (auto simp: plain_Unwrap_def splitHead_def rbind_def panics_def split: prod.splits if_splits)
  qed
qed

lemma wrapper_Unwrap_safe:
  assumes "wrapper_ok w" "wrapper_Unwrap w b = (x, w')"
  shows "x \<noteq> Inl Panic \<and> wrapper_ok w'"
  using assms plain_Unwrap_safe [of b]
  by (auto simp: wrapper_Unwrap_def wrapper_ok_def panics_def split: wrapper.splits prod.splits
      dest: auth_window.open_safe crypt_window.open_safe)

lemma wrapper_Unwrap_KeyID:
  assumes "wrapper_Unwrap w b = (Inr p, w')"
  shows "unat (KeyID p) < 8"
proof (cases w)
  case WPlain
  then show ?thesis using assms splitHead_KeyID
    by (auto simp: wrapper_Unwrap_def plain_Unwrap_def rbind_def split: sum.splits dest!: parsePacket_KeyID)
next
  case (WAuth a)
  then show ?thesis using assms splitHead_KeyID
    by (auto simp: wrapper_Unwrap_def auth_Unwrap_def Let_def split: sum.splits prod.splits if_splits bool.splits dest!: parsePacket_KeyID)
next
  case (WCrypt t)
  then show ?thesis using assms splitHead_KeyID
    by (auto simp: wrapper_Unwrap_def crypt_Unwrap_def Let_def split: sum.splits prod.splits if_splits bool.splits dest!: parsePacket_KeyID)
qed

section \<open>Calls that leave the loop's keys alone\<close>

text \<open>What the loop decides by: which keys there are, their roles, what they have reached, and the channel.\<close>

definition kview :: "keyCtl \<Rightarrow> _" where
  "kview k = (k_id k, k_dropped k, k_exchanged k, k_tlsStarted k, k_server k = None)"

definition loop_view :: "client \<Rightarrow> _" where
  "loop_view c = (l_keys c, l_primary c, l_lame c, l_negotiating c, l_lastKeyID c, l_up c, l_pushing c, cl_ready c, cl_data c, map kview (cl_ks c))"

definition calm :: "client \<Rightarrow> client \<Rightarrow> bool" where
  "calm c c' \<longleftrightarrow> base_ok c' \<and> loop_view c' = loop_view c"

abbreviation quiet :: "client \<Rightarrow> 'a act \<Rightarrow> bool" where
  "quiet c m \<equiv> runs (calm c) (\<lambda>_. calm c) m"

lemma calm_refl [intro]: "base_ok c \<Longrightarrow> calm c c"
  by (simp add: calm_def)

lemma calm_base: "calm c c' \<Longrightarrow> base_ok c'"
  by (simp add: calm_def)

lemma calm_trans: "calm c c' \<Longrightarrow> calm c' c'' \<Longrightarrow> calm c c''"
  by (simp add: calm_def)

lemma calm_keys: "calm c c' \<Longrightarrow> l_keys c' = l_keys c"
  by (simp add: calm_def loop_view_def)

lemma quiet_ok: "calm c c' \<Longrightarrow> quiet c (ok c')"
  by auto

lemma quiet_failed: "calm c c' \<Longrightarrow> quiet c (failed e c')"
  by auto

lemma quiet_after: "calm c c' \<Longrightarrow> quiet c' m \<Longrightarrow> quiet c m"
  by (erule runs_weaken) (auto intro: calm_trans)

lemma quiet_andThen: "quiet c m \<Longrightarrow> (\<And>a c'. calm c c' \<Longrightarrow> quiet c' (f a c')) \<Longrightarrow> quiet c (andThen m f)"
  by (erule runs_andThen) (auto intro: quiet_after)

text \<open>A change to fields neither the invariant nor the loop's decisions look at.\<close>

lemma calm_fields: "base_ok c \<Longrightarrow> base_view c' = base_view c \<Longrightarrow> loop_view c' = loop_view c \<Longrightarrow> calm c c'"
  using base_ok_cong by (simp add: calm_def)

lemmas views = base_view_def loop_view_def

lemma calm_setKs:
  assumes "base_ok c" "\<And>k. keyCtl_ok k \<Longrightarrow> keyCtl_ok (f k)" "\<And>k. kview (f k) = kview k"
  shows "calm c (setKs p f c)"
proof (cases "p < length (cl_ks c)")
  case True
  have "list_all keyCtl_ok ((cl_ks c)[p := f (cl_ks c ! p)])"
    using assms(1,2) True by (auto simp: base_ok_def list_all_length nth_list_update)
  moreover have "map kview ((cl_ks c)[p := f (cl_ks c ! p)]) = map kview (cl_ks c)"
    using True assms(3) by (simp add: map_update list_update_same_conv)
  ultimately show ?thesis using assms(1) by (simp add: calm_def base_ok_def loop_view_def setKs_def)
qed (use assms(1) in \<open>simp add: setKs_def list_update_beyond calm_refl\<close>)

subsection \<open>Writing\<close>

text \<open>A session without what a write may change.\<close>

definition unwritten :: "client \<Rightarrow> client" where
  "unwritten c = c\<lparr>cl_wire := [], cl_writes := [], cl_lastSend := (0, 0), cl_err := None\<rparr>"

lemma unwritten_views: "base_view (unwritten c) = base_view c" "loop_view (unwritten c) = loop_view c"
  by (simp_all add: unwritten_def views)

lemma writeRaw_unwritten: "unwritten (snd (writeRaw now b c)) = unwritten c"
proof -
  have "unwritten (snd (connWrite b c)) = unwritten c" for b c
    by (auto simp: connWrite_def Let_def unwritten_def split: list.split wres.split)
  then have "unwritten (snd (writeLocked b c)) = unwritten c"
    by (auto simp: writeLocked_def split: prod.split option.split)
  moreover have "unwritten (snd (afterWrite now r)) = unwritten (snd r)" for r
    by (cases r; cases "fst r") (auto simp: afterWrite_def markSend_def cl_fail_def unwritten_def split: option.split)
  ultimately show ?thesis by (simp add: writeRaw_def)
qed

lemma calm_unwritten: "base_ok c \<Longrightarrow> unwritten c' = unwritten c \<Longrightarrow> calm c c'"
  using unwritten_views by (intro calm_fields) metis+

lemma calm_writeRaw: "base_ok c \<Longrightarrow> calm c (snd (writeRaw now b c))"
  by (rule calm_unwritten [OF _ writeRaw_unwritten])

lemma tryWriteRaw_unwritten: "unwritten (tryWriteRaw now b c) = unwritten c"
  using writeRaw_unwritten [of now b c]
  by (auto simp: tryWriteRaw_def writeRaw_def unwritten_def split: list.split wres.split)

lemma calm_tryWriteRaw: "base_ok c \<Longrightarrow> calm c (tryWriteRaw now b c)"
  by (rule calm_unwritten [OF _ tryWriteRaw_unwritten])

text \<open>The store after a packet was sealed or opened.\<close>

lemma calm_store:
  assumes "base_ok c" "store_ok st" "\<And>ch. cl_data c = Some ch \<Longrightarrow> channel_ok st ch" "\<And>a. a \<ge> cl_nextAddr c \<Longrightarrow> st a = None"
  shows "calm c (c\<lparr>cl_store := st\<rparr>)"
  using assms by (simp add: calm_def base_ok_def loop_view_def)

lemma base_channel: "base_ok c \<Longrightarrow> cl_data c = Some ch \<Longrightarrow> store_ok (cl_store c) \<and> channel_ok (cl_store c) ch"
  by (simp add: base_ok_def)

lemma Seal_dom: "Seal st ch dst p = (r, st') \<Longrightarrow> st a = None \<Longrightarrow> st' a = None"
  by (auto simp: Seal_def Let_def split: option.splits prod.splits)

lemma Open_dom: "Open st ch dst p = (r, st') \<Longrightarrow> st a = None \<Longrightarrow> st' a = None"
  by (auto simp: Open_def Let_def split: option.splits prod.splits sum.splits fault.splits if_splits)

lemma base_fresh: "base_ok c \<Longrightarrow> a \<ge> cl_nextAddr c \<Longrightarrow> cl_store c a = None"
  by (simp add: base_ok_def)

lemma calm_Seal:
  assumes "base_ok c" "cl_data c = Some ch" "Seal (cl_store c) ch dst p = (r, st)"
  shows "calm c (c\<lparr>cl_store := st\<rparr>)" "r \<noteq> Inl Panic"
  using base_channel [OF assms(1,2)] Seal_ok [OF _ _ assms(3)] Seal_dom [OF assms(3) base_fresh [OF assms(1)]] assms(2)
  by (auto intro!: calm_store [OF assms(1)])

lemma calm_Open:
  assumes "base_ok c" "cl_data c = Some ch" "Open (cl_store c) ch dst p = (r, st)"
  shows "calm c (c\<lparr>cl_store := st\<rparr>)" "r \<noteq> Inl Panic"
  using base_channel [OF assms(1,2)] Open_ok(1-3) [OF _ _ assms(3)] Open_dom [OF assms(3) base_fresh [OF assms(1)]] assms(2)
  by (auto intro!: calm_store [OF assms(1)])

lemma quiet_sendKeepalive:
  assumes c: "base_ok c"
  shows "quiet c (sendKeepalive now k c)"
proof (cases "cl_data c")
  case None
  then show ?thesis using c by (auto simp: sendKeepalive_def)
next
  case (Some ch)
  obtain r st where s: "sealKeepalive k (cl_store c) ch = (r, st)" by fastforce
  obtain b where b: "Seal (cl_store c) ch [] b = (r, st)"
    using s by (cases k) (auto simp: sealKeepalive_def SealPing_def SealOCC_def)
  note S = calm_Seal [OF c Some b]
  show ?thesis
    using S calm_trans [OF S(1) calm_tryWriteRaw [OF calm_base [OF S(1)]]]
    by (auto simp: sendKeepalive_def Some s split: sum.split fault.split intro!: quiet_ok)
qed

lemma kview_told: "kview (k\<lparr>k_told := t\<rparr>) = kview k" "keyCtl_ok (k\<lparr>k_told := t\<rparr>) = keyCtl_ok k"
  by (simp_all add: kview_def keyCtl_ok_def)

lemma kview_flushed: "kview (k\<lparr>k_layer := l, k_adapter := a\<rparr>) = kview k"
  by (simp add: kview_def)

lemma calm_sendControlMessage: "base_ok c \<Longrightarrow> calm c (sendControlMessage po msg c)"
  by (auto simp: sendControlMessage_def kview_told intro!: calm_setKs split: option.split)

subsection \<open>Sending control packets\<close>

lemma base_wrapper: "base_ok c \<Longrightarrow> wrapper_ok w \<Longrightarrow> calm c (c\<lparr>cl_wrapper := w\<rparr>)"
  by (simp add: calm_def base_ok_def loop_view_def)

lemma quiet_flushPackets: "base_ok c \<Longrightarrow> list_all (\<lambda>p. p \<noteq> None) ps \<Longrightarrow> quiet c (flushPackets now i ps c)"
proof (induction now i ps c rule: flushPackets.induct)
  case (1 now i c)
  then show ?case by auto
next
  case (2 now i ps c)
  then show ?case by simp
next
  case (3 now i p ps c)
  let ?p = "Some (p\<lparr>KeyID := i, SessionID := l_ourSID c, RemoteSessionID := l_serverSID c\<rparr>)"
  obtain x w where w: "wrapper_Wrap (cl_wrapper c) ?p = (x, w)" by fastforce
  have W: "x \<noteq> Inl Panic" "wrapper_ok w" using wrapper_Wrap_safe [OF _ w] 3(3) by (auto simp: base_ok_def)
  note C = base_wrapper [OF 3(3) W(2)]
  show ?case
  proof (cases x)
    case (Inl f)
    then obtain e where x: "x = Inl (Err e)" using W(1) by (cases f) auto
    have "quiet (c\<lparr>cl_wrapper := w\<rparr>) (flushPackets now i ps (c\<lparr>cl_wrapper := w\<rparr>))"
      using 3(1) [OF w [symmetric] x refl calm_base [OF C]] 3(4) by simp
    then show ?thesis using w x quiet_after [OF C] by simp
  next
    case (Inr b)
    obtain e d where d: "writeRaw now b (c\<lparr>cl_wrapper := w\<rparr>) = (e, d)" by fastforce
    have D: "calm c d" using calm_trans [OF C calm_writeRaw [OF calm_base [OF C], of now b]] d by simp
    have "quiet d (flushPackets now i ps d)" if "\<not> (e \<noteq> None \<and> isDone d)"
      using 3(2) [OF w [symmetric] Inr d [symmetric] that calm_base [OF D]] 3(4) by simp
    then show ?thesis using w Inr d D by (auto intro: quiet_after)
  qed
qed

lemma keyCtl_ok_flush:
  assumes "keyCtl_ok k" "l = foldl (\<lambda>l b. snd (Send l ControlV1 b)) (k_layer k) bs"
  shows "layer_ok l" "since_ok l" "keyCtl_ok (k\<lparr>k_layer := snd (Poll l now), k_adapter := (k_adapter k)\<lparr>ad_out := []\<rparr>\<rparr>)"
proof -
  have "layer_ok (foldl (\<lambda>l b. snd (Send l ControlV1 b)) l0 bs) \<and> since_ok (foldl (\<lambda>l b. snd (Send l ControlV1 b)) l0 bs)"
    if "layer_ok l0" "since_ok l0" for l0
    using that
  proof (induction bs arbitrary: l0)
    case (Cons b bs)
    have "since_ok (snd (Send l0 ControlV1 b))" using Cons.prems since_ok_step [of l0 "OpSend ControlV1 b"] by simp
    then show ?case using Cons layer_ok_Send by simp
  qed simp
  then show l: "layer_ok l" "since_ok l" using assms by (auto simp: keyCtl_ok_def)
  show "keyCtl_ok (k\<lparr>k_layer := snd (Poll l now), k_adapter := (k_adapter k)\<lparr>ad_out := []\<rparr>\<rparr>)"
    using assms(1) layer_ok_Poll [OF l(1)] since_ok_step [OF l, of "OpPoll now"] by (simp add: keyCtl_ok_def)
qed

lemma base_key: "base_ok c \<Longrightarrow> p < length (cl_ks c) \<Longrightarrow> keyCtl_ok (ksAt c p)"
  by (simp add: base_ok_def list_all_length ksAt_def)

lemma quiet_flushKey:
  assumes c: "base_ok c" and p: "p < length (cl_ks c)"
  shows "quiet c (flushKey now p c)"
proof -
  define l where "l = foldl (\<lambda>l b. snd (Send l ControlV1 b)) (k_layer (ksAt c p)) (ad_out (k_adapter (ksAt c p)))"
  note L = keyCtl_ok_flush [OF base_key [OF c p] l_def]
  let ?f = "\<lambda>k. k\<lparr>k_layer := snd (Poll l now), k_adapter := (k_adapter k)\<lparr>ad_out := []\<rparr>\<rparr>"
  have P: "Poll l now = (Inr (map Some (pollPackets l now)), snd (Poll l now))"
    using Poll_eq(1) [OF layer_ok_poll [OF L(1)], of now] by (metis prod.collapse)
  have "keyCtl_ok (?f k)" if "keyCtl_ok k" for k using that L(3) by (auto simp: keyCtl_ok_def)
  then have C: "calm c (setKs p ?f c)" by (intro calm_setKs [OF c] kview_flushed)
  have "flushKey now p c = flushPackets now (k_id (ksAt c p)) (map Some (pollPackets l now)) (setKs p ?f c)"
    unfolding flushKey_def Let_def l_def [symmetric] by (subst P) simp
  then show ?thesis using quiet_after [OF C quiet_flushPackets [OF calm_base [OF C]]] by (simp add: list_all_iff)
qed

lemma quiet_flushKeys: "base_ok c \<Longrightarrow> list_all (\<lambda>p. p < length (cl_ks c)) ps \<Longrightarrow> quiet c (flushKeys now ps c)"
proof (induction ps arbitrary: c)
  case (Cons p ps)
  have "quiet c' (flushKeys now ps c')" if "calm c c'" for c'
  proof (rule Cons.IH [OF calm_base [OF that]])
    have "length (cl_ks c') = length (cl_ks c)" using that by (auto simp: calm_def loop_view_def dest: map_eq_imp_length_eq)
    then show "list_all (\<lambda>p. p < length (cl_ks c')) ps" using Cons.prems(2) by simp
  qed
  then show ?case using Cons.prems by (auto intro!: quiet_andThen quiet_flushKey quiet_ok calm_refl dest: calm_base)
qed auto

lemma quiet_flush: "base_ok c \<Longrightarrow> quiet c (flush now c)"
  unfolding flush_def by (rule runs_if) (auto intro!: quiet_ok quiet_flushKeys, simp add: base_ok_def)

subsection \<open>Packets\<close>

lemma quiet_exitPackets: "base_ok c \<Longrightarrow> cl_data c = Some ch \<Longrightarrow> quiet c (exitPackets now n ch c)"
proof (induction n arbitrary: c)
  case (Suc n)
  obtain r st where s: "Seal (cl_store c) ch [] (OCCPrefix @ [OCCExit]) = (r, st)" by fastforce
  note S = calm_Seal [OF Suc.prems s]
  show ?case
  proof (cases r)
    case (Inl f)
    then show ?thesis using S s by (cases f) (auto simp: SealOCC_def intro!: quiet_ok)
  next
    case (Inr b)
    obtain e d where d: "writeRaw now b (c\<lparr>cl_store := st\<rparr>) = (e, d)" by fastforce
    have D: "calm c d" using calm_trans [OF S(1) calm_writeRaw [OF calm_base [OF S(1)], of now b]] d by simp
    then have "cl_data d = Some ch" using Suc.prems(2) by (simp add: calm_def loop_view_def)
    then have "quiet c (exitPackets now n ch d)" using quiet_after [OF D] Suc.IH [OF calm_base [OF D]] by blast
    then show ?thesis using s Inr d D by (auto simp: SealOCC_def)
  qed
qed auto

lemma calm_queue:
  assumes "base_ok c"
  shows "calm c (queuePacket b c)" "calm c (handleOCC b c)" "calm c (markRecv now c)" "calm c (markSend now c)" "calm c (dropPacket c)"
  using assms by (auto intro!: calm_fields simp: queuePacket_def handleOCC_def markRecv_def markSend_def dropPacket_def cl_fail_def views)

lemma quiet_dispatchData:
  assumes c: "base_ok c"
  shows "quiet c (dispatchData pkt now c)"
proof (cases "cl_data c")
  case None
  then show ?thesis using c by (auto simp: dispatchData_def)
next
  case (Some ch)
  obtain r st where s: "Open (cl_store c) ch [] pkt = (r, st)" by fastforce
  note S = calm_Open [OF c Some s]
  have R: "calm c (markRecv now (c\<lparr>cl_store := st\<rparr>))" using S(1) calm_queue(3) [OF calm_base [OF S(1)]] by (rule calm_trans)
  have "calm c (queuePacket b (markRecv now (c\<lparr>cl_store := st\<rparr>)))" "calm c (handleOCC b (markRecv now (c\<lparr>cl_store := st\<rparr>)))" for b
    using calm_trans [OF R] calm_queue(1,2) [OF calm_base [OF R]] by blast+
  then show ?thesis using S R calm_queue(5) [OF c]
    by (auto simp: dispatchData_def Some s Let_def split: sum.split fault.split intro!: quiet_ok)
qed

lemma quiet_dispatchControl:
  assumes c: "base_ok c"
  shows "quiet c (dispatchControl pkt c)"
proof -
  obtain x w where u: "wrapper_Unwrap (cl_wrapper c) pkt = (x, w)" by fastforce
  have W: "x \<noteq> Inl Panic" "wrapper_ok w" using wrapper_Unwrap_safe [OF _ u] c by (auto simp: base_ok_def)
  have "calm c (c\<lparr>cl_wrapper := w, cl_ctlIn := cl_ctlIn c @ [p]\<rparr>)" if "x = Inr p" for p
    using wrapper_Unwrap_KeyID [of "cl_wrapper c" pkt p w] u that c W(2) by (simp add: calm_def base_ok_def loop_view_def)
  then show ?thesis using u W(1) base_wrapper [OF c W(2)]
    by (auto simp: dispatchControl_def Let_def split: sum.split fault.split intro!: quiet_ok)
qed

lemma quiet_dispatch: "base_ok c \<Longrightarrow> pkt \<noteq> [] \<Longrightarrow> quiet c (dispatch pkt now c)"
  by (cases pkt) (auto simp: dispatch_def Let_def intro!: quiet_dispatchData quiet_dispatchControl)

lemma client_WritePacket_safe:
  assumes c: "base_ok c" and w: "client_WritePacket p now c = (r, d)"
  shows "r \<noteq> Inl Panic \<and> calm c d"
proof (cases "cl_err c \<noteq> None \<or> cl_data c = None")
  case True
  then show ?thesis using assms by (auto simp: client_WritePacket_def split: option.splits)
next
  case False
  then obtain ch where f: "cl_err c = None" "cl_data c = Some ch" by auto
  obtain x st where s: "Seal (cl_store c) ch [] p = (x, st)" by fastforce
  note S = calm_Seal [OF c f(2) s]
  have "calm c (snd (writeRaw now b (c\<lparr>cl_store := st\<rparr>)))" for b
    using S(1) calm_writeRaw [OF calm_base [OF S(1)]] by (rule calm_trans)
  then show ?thesis using w f s S
    by (auto simp: client_WritePacket_def split: sum.splits fault.splits prod.splits option.splits) (metis snd_conv)+
qed

subsection \<open>Keys\<close>

lemma keyCtl_ok_feed: "keyCtl_ok k \<Longrightarrow> keyCtl_ok (feedKey p now k)" and kview_feed: "kview (feedKey p now k) = kview k"
proof -
  obtain ms l where r: "Receive (k_layer k) (Some p) now = (ms, l)" by fastforce
  have d: "ad_chunk (deliver b a) = ad_chunk a" for b a by (simp add: deliver_def closeWith_def)
  have t: "kview (takeMessage k m) = kview k" "keyCtl_ok (takeMessage k m) = keyCtl_ok k" for k m
    by (simp_all add: takeMessage_def kview_def keyCtl_ok_def d)
  have f: "kview (foldl takeMessage k ms) = kview k \<and> keyCtl_ok (foldl takeMessage k ms) = keyCtl_ok k" for k
    by (induction ms arbitrary: k) (simp_all add: t)
  have v: "kview (k\<lparr>k_layer := l\<rparr>) = kview k" by (simp add: kview_def)
  show "kview (feedKey p now k) = kview k" using f v by (simp add: feedKey_def r)
  assume k: "keyCtl_ok k"
  then have "keyCtl_ok (k\<lparr>k_layer := l\<rparr>)"
    using layer_ok_Receive [of "k_layer k" "Some p" now] since_ok_Receive [of "k_layer k" "Some p" now] r by (simp add: keyCtl_ok_def)
  then show "keyCtl_ok (feedKey p now k)" using f by (simp add: feedKey_def r)
qed

lemma TLS1PRF_length: "length (TLS1PRF hmac s l b) = length b"
proof -
  have "length (pHashLoop mac a seed dx pre b) = length pre + length b" for mac a seed dx pre b
  proof (induction mac a seed dx pre b rule: pHashLoop.induct)
    case (1 mac a seed dx pre b)
    then show ?case by (subst pHashLoop.simps) (auto simp: Let_def xorBytes_def)
  qed
  then show ?thesis by (simp add: TLS1PRF_def Let_def pHash_def)
qed

lemma key2From_ok: "length b = 256 \<Longrightarrow> key_ok (ClientSend (key2From b)) \<and> key_ok (ClientRecv (key2From b))"
  by (simp add: key2From_def ClientSend_def ClientRecv_def key_ok_def)

lemma key2Of_ok: "key2Of p c = Inr k \<Longrightarrow> key_ok (ClientSend k) \<and> key_ok (ClientRecv k)"
  using key2From_ok
  by (auto simp: key2Of_def Let_def Key2FromEKM_def EKMLength_def DeriveKey2PRF_def TLS1PRF_length glen_def
      split: if_splits option.splits sum.splits fault.splits)

lemma key2Of_safe: "k_server (ksAt c p) \<noteq> None \<Longrightarrow> key2Of p c \<noteq> Inl Panic"
  by (auto simp: key2Of_def Let_def Key2FromEKM_def split: option.splits)

lemma NewKeyState_id: "NewKeyState cr rnd i cipher digest s r = Inr ks \<Longrightarrow> ks_KeyID ks = i AND KeyIDMask"
  by (auto simp: NewKeyState_def newAEADState_def newCBCState_def emptyKeyState_def Let_def split: option.splits if_splits)

lemma calm_wipe: "base_ok c \<Longrightarrow> calm c (wipe p c)"
  unfolding wipe_def by (intro calm_setKs) (auto simp: keyCtl_ok_def kview_def)

lemma id_mask: "unat i < 8 \<Longrightarrow> i AND 7 = (i :: u8)"
proof -
  assume "unat i < 8"
  then have "unat (take_bit 3 i) = unat i" unfolding unsigned_take_bit_eq by (simp add: take_bit_nat_eq_self)
  moreover have "take_bit 3 i = i AND 7" by (simp add: take_bit_eq_mask mask_eq_exp_minus_1)
  ultimately show ?thesis by (metis unsigned_word_eqI)
qed

text \<open>A new data key has the id of its key state, at an address that was free.\<close>

lemma runs_dataKey:
  assumes c: "base_ok c" and p: "p < length (cl_ks c)" "k_server (ksAt c p) \<noteq> None"
  shows "runs (calm c) (\<lambda>a d. calm c d \<and> (\<exists>dk. cl_store d a = Some dk \<and> ks_KeyID dk = k_id (ksAt c p))) (dataKey p c)"
proof (cases "key2Of p c")
  case (Inl f)
  then show ?thesis using key2Of_safe [OF p(2)] c by (cases f) (auto simp: dataKey_def)
next
  case (Inr k2)
  let ?w = "wipe p c"
  note C = calm_wipe [OF c, of p]
  have W: "cl_world ?w = cl_world c" "cl_nextAddr ?w = cl_nextAddr c" "cl_store ?w = cl_store c" "cl_data ?w = cl_data c"
      "k_id (ksAt ?w p) = k_id (ksAt c p)" "l_cipher ?w = l_cipher c" "l_digest ?w = l_digest c"
    using p(1) by (simp_all add: wipe_def setKs_def ksAt_def)
  define n where "n = NewKeyState (w_crypto (cl_world c)) (w_ivs (cl_world c) (cl_nextAddr c)) (k_id (ksAt c p)) (l_cipher c) (l_digest c)
    (Some (ClientSend k2)) (Some (ClientRecv k2))"
  have N: "n \<noteq> Inl Panic" "\<And>ks. n = Inr ks \<Longrightarrow> keyOk ks"
    unfolding n_def using NewKeyState_made key2Of_ok [OF Inr] c by (auto simp: base_ok_def)
  have "unat (k_id (ksAt c p)) < 8" using base_key [OF c p(1)] by (simp add: keyCtl_ok_def)
  then have K: "ks_KeyID ks = k_id (ksAt c p)" if "n = Inr ks" for ks
    using NewKeyState_id that id_mask unfolding n_def KeyIDMask_def by metis
  have "calm c (?w\<lparr>cl_store := (cl_store c)(cl_nextAddr c \<mapsto> ks), cl_nextAddr := cl_nextAddr c + 1\<rparr>)" if "n = Inr ks" for ks
    using C channel_ok_new [where st = "cl_store c" and a = "cl_nextAddr c"] base_fresh [OF c, of "cl_nextAddr c"] store_ok_update [OF _ N(2) [OF that]] W
    by (auto simp: calm_def base_ok_def loop_view_def)
  then show ?thesis
    using Inr N(1) C K unfolding dataKey_def Let_def
    by (auto simp: runs_def failed_def W n_def [symmetric] split: sum.split fault.split)
qed

lemma calm_updateAuthToken: "base_ok c \<Longrightarrow> quiet c (updateAuthToken msg c)"
proof -
  assume c: "base_ok c"
  obtain r p where r: "ApplyPushReply NewPushed msg (o_PullFilters (d_opts (cl_d c))) = (r, p)" by fastforce
  have "\<not> panics r" using ApplyPushReply_keeps [OF NewPushed_ok, of msg "o_PullFilters (d_opts (cl_d c))"] r by (simp add: keeps_def)
  moreover have "calm c (c\<lparr>l_authToken := t, l_authTokenUser := u\<rparr>)" "calm c (c\<lparr>l_authToken := t\<rparr>)" for t u
    using c by (auto intro!: calm_fields simp: views)
  ultimately show ?thesis using r c
    by (auto simp: updateAuthToken_def panics_def split: sum.split fault.split intro!: quiet_ok)
qed

lemma calm_on_auth_pending: "base_ok c \<Longrightarrow> calm c (on_auth_pending s now c)"
  by (auto intro!: calm_fields simp: on_auth_pending_def setHandshakeDeadline_def Let_def views split: option.split)

text \<open>The steps of the TLS goroutine on its adapter.\<close>

lemma calm_adapter:
  assumes "base_ok c"
  shows "calm c (setKs p (\<lambda>k. k\<lparr>k_adapter := snd (adapter_Write (k_adapter k) b)\<rparr>) c)"
    "calm c (setKs p (\<lambda>k. k\<lparr>k_adapter := snd (adapter_Read (k_adapter k) n)\<rparr>) c)"
    "calm c (setKs p (\<lambda>k. k\<lparr>k_tlsDone := True\<rparr>) c)" "calm c (closeKeys c)"
proof -
  have w: "ad_chunk (snd (adapter_Write a b)) = ad_chunk a" "ad_chunk (snd (adapter_Read a n)) = ad_chunk a" "ad_chunk (closeWith e a) = ad_chunk a" for a b n e
    by (simp_all add: adapter_Write_def adapter_Read_def closeWith_def)
  show "calm c (setKs p (\<lambda>k. k\<lparr>k_adapter := snd (adapter_Write (k_adapter k) b)\<rparr>) c)"
      "calm c (setKs p (\<lambda>k. k\<lparr>k_adapter := snd (adapter_Read (k_adapter k) n)\<rparr>) c)"
      "calm c (setKs p (\<lambda>k. k\<lparr>k_tlsDone := True\<rparr>) c)"
    using assms by (auto intro!: calm_setKs simp: keyCtl_ok_def kview_def w)
  have "calm c (foldl (\<lambda>c p. setKs p (\<lambda>k. k\<lparr>k_adapter := closeWith NetClosed (k_adapter k)\<rparr>) c) c ps)" for ps
    using assms
  proof (induction ps arbitrary: c)
    case (Cons q ps)
    have "calm c (setKs q (\<lambda>k. k\<lparr>k_adapter := closeWith NetClosed (k_adapter k)\<rparr>) c)"
      using Cons.prems by (auto intro!: calm_setKs simp: keyCtl_ok_def kview_def w)
    then show ?case using Cons.IH [OF calm_base] by (auto intro: calm_trans)
  qed auto
  then show "calm c (closeKeys c)" by (simp add: closeKeys_def)
qed

end
