(* ===== verification/Client_Keys.thy ===== *)
theory Client_Keys
  imports Client_Safe
begin

text \<open>
  The keys of a session. The loop knows at most three key states, with distinct ids: the primary one, the one before it
  (kept to open packets for a while) and the one being negotiated. Once the tunnel is up the channel seals with the data
  key of the primary key state and holds data keys of the first two only. Every handler keeps this, with the
  invariant of the parts, and none panics (C39).
\<close>

section \<open>The invariant of the loop\<close>

definition keys_ok :: "client \<Rightarrow> bool" where
  "keys_ok c \<longleftrightarrow> distinct (l_keys c) \<and> inj_on (\<lambda>q. k_id (ksAt c q)) (set (l_keys c)) \<and>
    (\<forall>q < length (cl_ks c). k_dropped (ksAt c q) \<longleftrightarrow> q \<notin> set (l_keys c)) \<and>
    (\<forall>q \<in> set (l_keys c). k_exchanged (ksAt c q) \<longrightarrow> k_tlsStarted (ksAt c q) \<and> k_server (ksAt c q) \<noteq> None)"

definition roles_ok :: "kptr \<Rightarrow> client \<Rightarrow> bool" where
  "roles_ok p c \<longleftrightarrow> l_primary c = Some p \<and>
    set (l_keys c) = insert p (set_option (l_lame c) \<union> set_option (l_negotiating c)) \<and>
    l_lame c \<noteq> Some p \<and> l_negotiating c \<noteq> Some p \<and> (\<forall>q. l_lame c = Some q \<longrightarrow> l_negotiating c \<noteq> Some q) \<and>
    (\<forall>q. l_negotiating c = Some q \<longrightarrow> \<not> k_exchanged (ksAt c q)) \<and> (\<forall>q. l_lame c = Some q \<longrightarrow> k_exchanged (ksAt c q))"

definition last_ok :: "kptr \<Rightarrow> client \<Rightarrow> bool" where
  "last_ok p c \<longleftrightarrow> l_lastKeyID c = k_id (ksAt c (case l_negotiating c of Some q \<Rightarrow> q | None \<Rightarrow> p))"

text \<open>The channel seals with the key in the primary's slot; the only other slot in use is that of the key before it.\<close>

definition channel_keys :: "channel \<Rightarrow> u8 \<Rightarrow> u8 option \<Rightarrow> bool" where
  "channel_keys ch i j \<longleftrightarrow> cs_primary (c_state ch) \<noteq> None \<and> cs_keys (c_state ch) ! unat i = cs_primary (c_state ch) \<and>
    (\<forall>n < 8. cs_keys (c_state ch) ! n \<noteq> None \<longrightarrow> n = unat i \<or> (\<exists>j'. j = Some j' \<and> n = unat j'))"

definition phase_ok :: "kptr \<Rightarrow> client \<Rightarrow> bool" where
  "phase_ok p c \<longleftrightarrow>
    (if l_up c then \<not> l_pushing c \<and> k_exchanged (ksAt c p) \<and>
       (\<exists>ch. cl_data c = Some ch \<and> channel_keys ch (k_id (ksAt c p)) (map_option (\<lambda>q. k_id (ksAt c q)) (l_lame c)))
     else l_lame c = None \<and> l_negotiating c = None \<and> cl_data c = None \<and> \<not> cl_ready c \<and> (l_pushing c \<longrightarrow> k_exchanged (ksAt c p)))"

definition loop_at :: "kptr \<Rightarrow> client \<Rightarrow> bool" where
  "loop_at p c \<longleftrightarrow> keys_ok c \<and> roles_ok p c \<and> phase_ok p c \<and> last_ok p c"

definition session_ok :: "client \<Rightarrow> bool" where
  "session_ok c \<longleftrightarrow> base_ok c \<and> (\<exists>p. loop_at p c)"

lemma keys_range: "base_ok c \<Longrightarrow> q \<in> set (l_keys c) \<Longrightarrow> q < length (cl_ks c)"
  by (auto simp: base_ok_def list_all_iff)

lemma roles_mem: "roles_ok p c \<Longrightarrow> p \<in> set (l_keys c)" "roles_ok p c \<Longrightarrow> l_lame c = Some q \<Longrightarrow> q \<in> set (l_keys c)"
  "roles_ok p c \<Longrightarrow> l_negotiating c = Some q \<Longrightarrow> q \<in> set (l_keys c)"
  by (auto simp: roles_ok_def)

text \<open>A session whose keys look the same is as well off; a key may have started TLS meanwhile.\<close>

definition same_keys :: "client \<Rightarrow> client \<Rightarrow> bool" where
  "same_keys c c' \<longleftrightarrow> length (cl_ks c') = length (cl_ks c) \<and>
    (\<forall>q < length (cl_ks c). k_id (ksAt c' q) = k_id (ksAt c q) \<and> k_dropped (ksAt c' q) = k_dropped (ksAt c q) \<and>
       k_exchanged (ksAt c' q) = k_exchanged (ksAt c q) \<and> (k_tlsStarted (ksAt c q) \<longrightarrow> k_tlsStarted (ksAt c' q)) \<and>
       (k_server (ksAt c' q) = None \<longleftrightarrow> k_server (ksAt c q) = None))"

definition loop_fields :: "client \<Rightarrow> _" where
  "loop_fields c = (l_keys c, l_primary c, l_lame c, l_negotiating c, l_lastKeyID c, l_up c, l_pushing c, cl_ready c, cl_data c)"

lemma calm_same_keys: "calm c c' \<Longrightarrow> same_keys c c'"
proof -
  assume "calm c c'"
  then have m: "map kview (cl_ks c') = map kview (cl_ks c)" by (simp add: calm_def loop_view_def)
  then have n: "length (cl_ks c') = length (cl_ks c)" by (rule map_eq_imp_length_eq)
  have "kview (cl_ks c' ! q) = kview (cl_ks c ! q)" if "q < length (cl_ks c)" for q
    using arg_cong [OF m, of "\<lambda>xs. xs ! q"] that n by simp
  then show ?thesis using n by (simp add: same_keys_def ksAt_def kview_def)
qed

lemma loop_at_same:
  assumes b: "base_ok c" and l: "loop_at p c" and v: "same_keys c c'" "loop_fields c' = loop_fields c"
  shows "loop_at p c'"
proof -
  have S: "k_id (ksAt c' q) = k_id (ksAt c q)" "k_dropped (ksAt c' q) = k_dropped (ksAt c q)" "k_exchanged (ksAt c' q) = k_exchanged (ksAt c q)"
      "k_server (ksAt c' q) = None \<longleftrightarrow> k_server (ksAt c q) = None" "k_tlsStarted (ksAt c q) \<Longrightarrow> k_tlsStarted (ksAt c' q)"
    if "q < length (cl_ks c)" for q using that v(1) by (simp_all add: same_keys_def)
  have R: "q < length (cl_ks c)" if "q \<in> set (l_keys c)" for q using keys_range [OF b that] .
  have r: "roles_ok p c" using l by (simp add: loop_at_def)
  have F: "l_keys c' = l_keys c" "l_primary c' = l_primary c" "l_lame c' = l_lame c" "l_negotiating c' = l_negotiating c"
      "l_lastKeyID c' = l_lastKeyID c" "l_up c' = l_up c" "l_pushing c' = l_pushing c" "cl_ready c' = cl_ready c" "cl_data c' = cl_data c"
      "length (cl_ks c') = length (cl_ks c)"
    using v by (simp_all add: loop_fields_def same_keys_def)
  have i: "inj_on (\<lambda>q. k_id (ksAt c' q)) (set (l_keys c)) = inj_on (\<lambda>q. k_id (ksAt c q)) (set (l_keys c))"
    by (rule inj_on_cong) (simp add: S R)
  have K: "keys_ok c'" using l i by (auto simp: loop_at_def keys_ok_def F S R)
  have m: "p < length (cl_ks c)" "\<And>q. l_lame c = Some q \<Longrightarrow> q < length (cl_ks c)" "\<And>q. l_negotiating c = Some q \<Longrightarrow> q < length (cl_ks c)"
    using roles_mem [OF r] R by blast+
  have "roles_ok p c'" using r m unfolding roles_ok_def F by (auto simp: S split: option.splits)
  moreover have "last_ok p c'" using l m unfolding loop_at_def last_ok_def F by (auto simp: S split: option.splits)
  moreover have "map_option (\<lambda>q. k_id (ksAt c' q)) (l_lame c) = map_option (\<lambda>q. k_id (ksAt c q)) (l_lame c)"
    using m(2) by (cases "l_lame c") (simp_all add: S)
  then have "phase_ok p c'" using l m(1) unfolding loop_at_def phase_ok_def F by (simp add: S)
  ultimately show ?thesis using K by (simp add: loop_at_def)
qed

lemma session_same: "session_ok c \<Longrightarrow> base_ok c' \<Longrightarrow> same_keys c c' \<Longrightarrow> loop_fields c' = loop_fields c \<Longrightarrow> session_ok c'"
  using loop_at_same by (auto simp: session_ok_def)

lemma session_calm: "session_ok c \<Longrightarrow> calm c c' \<Longrightarrow> session_ok c'"
  by (erule session_same [OF _ calm_base calm_same_keys]) (simp_all add: calm_def loop_view_def loop_fields_def)

abbreviation good :: "unit act \<Rightarrow> bool" where
  "good m \<equiv> runs base_ok (\<lambda>_. session_ok) m"

lemma good_quiet: "session_ok c \<Longrightarrow> quiet c m \<Longrightarrow> good m"
  by (erule runs_weaken) (auto intro: session_calm simp: calm_def)

lemma session_base: "session_ok c \<Longrightarrow> base_ok c"
  by (simp add: session_ok_def)

section \<open>Dropping a key\<close>

lemma dropDataKey_eq: "dropDataKey i c = c\<lparr>cl_data := map_option (\<lambda>ch. DropKey ch i) (cl_data c)\<rparr>"
  by (cases "cl_data c") (simp_all add: dropDataKey_def)

lemma forgetKey_eq:
  "forgetKey p c = c\<lparr>l_keys := remove1 p (l_keys c), l_lame := (if l_lame c = Some p then None else l_lame c),
    l_negotiating := (if l_negotiating c = Some p then None else l_negotiating c)\<rparr>"
  by (simp add: forgetKey_def Let_def)

lemma dropKey_fields:
  assumes "q < length (cl_ks c)" "\<not> k_dropped (ksAt c q)" "c' = dropKey (Some q) c"
  shows "cl_ks c' = (cl_ks c)[q := (ksAt c q)\<lparr>k_dropped := True, k_adapter := closeWith NetClosed (k_adapter (ksAt c q))\<rparr>]"
    "l_keys c' = remove1 q (l_keys c)" "l_lame c' = (if l_lame c = Some q then None else l_lame c)"
    "l_negotiating c' = (if l_negotiating c = Some q then None else l_negotiating c)"
    "cl_data c' = (if k_exchanged (ksAt c q) then map_option (\<lambda>ch. DropKey ch (k_id (ksAt c q))) (cl_data c) else cl_data c)"
    "l_primary c' = l_primary c" "l_lastKeyID c' = l_lastKeyID c" "l_up c' = l_up c" "l_pushing c' = l_pushing c" "cl_ready c' = cl_ready c"
    "cl_store c' = cl_store c" "cl_nextAddr c' = cl_nextAddr c" "cl_wrapper c' = cl_wrapper c" "l_pushed c' = l_pushed c"
    "cl_ctlIn c' = cl_ctlIn c" "cl_world c' = cl_world c" "cl_d c' = cl_d c" "l_closing c' = l_closing c"
proof -
  let ?k = "(ksAt c q)\<lparr>k_dropped := True, k_adapter := closeWith NetClosed (k_adapter (ksAt c q))\<rparr>"
  have "c' = forgetKey q (if k_exchanged (ksAt c q) then c\<lparr>cl_data := map_option (\<lambda>ch. DropKey ch (k_id (ksAt c q))) (cl_data c), cl_ks := (cl_ks c)[q := ?k]\<rparr>
      else c\<lparr>cl_ks := (cl_ks c)[q := ?k]\<rparr>)"
    using assms(1,2) by (simp add: assms(3) dropKey_def setKs_def ksAt_def Let_def dropDataKey_eq)
  then show
    "cl_ks c' = (cl_ks c)[q := (ksAt c q)\<lparr>k_dropped := True, k_adapter := closeWith NetClosed (k_adapter (ksAt c q))\<rparr>]"
    "l_keys c' = remove1 q (l_keys c)" "l_lame c' = (if l_lame c = Some q then None else l_lame c)"
    "l_negotiating c' = (if l_negotiating c = Some q then None else l_negotiating c)"
    "cl_data c' = (if k_exchanged (ksAt c q) then map_option (\<lambda>ch. DropKey ch (k_id (ksAt c q))) (cl_data c) else cl_data c)"
    "l_primary c' = l_primary c" "l_lastKeyID c' = l_lastKeyID c" "l_up c' = l_up c" "l_pushing c' = l_pushing c" "cl_ready c' = cl_ready c"
    "cl_store c' = cl_store c" "cl_nextAddr c' = cl_nextAddr c" "cl_wrapper c' = cl_wrapper c" "l_pushed c' = l_pushed c"
    "cl_ctlIn c' = cl_ctlIn c" "cl_world c' = cl_world c" "cl_d c' = cl_d c" "l_closing c' = l_closing c"
    by (simp_all add: forgetKey_eq)
qed

lemma base_dropKey:
  assumes c: "base_ok c" and q: "q < length (cl_ks c)" "\<not> k_dropped (ksAt c q)"
  shows "base_ok (dropKey (Some q) c)"
proof -
  note F = dropKey_fields [OF q refl]
  have "keyCtl_ok ((ksAt c q)\<lparr>k_dropped := True, k_adapter := closeWith NetClosed (k_adapter (ksAt c q))\<rparr>)"
    using base_key [OF c q(1)] by (simp add: keyCtl_ok_def closeWith_def)
  then have "list_all keyCtl_ok (cl_ks (dropKey (Some q) c))"
    using c q(1) unfolding F by (auto simp: base_ok_def list_all_length nth_list_update)
  moreover have "list_all (\<lambda>p. p < length (cl_ks c)) (remove1 q (l_keys c))"
    using c by (auto simp: base_ok_def list_all_iff dest: notin_set_remove1)
  ultimately show ?thesis using c DropKey_ok unfolding base_ok_def F by auto
qed

lemma DropKey_other:
  assumes ch: "channel_ok st ch" and a: "cs_primary (c_state ch) = Some a" "cs_keys (c_state ch) ! unat i = Some a"
    and i: "unat i < 8" "unat j < 8" "i \<noteq> j"
  shows "c_state (DropKey ch j) = (c_state ch)\<lparr>cs_keys := (cs_keys (c_state ch))[unat j := None]\<rparr>"
proof -
  have "unat i \<noteq> unat j" using i(3) by (simp add: word_unat_eq_iff)
  then have "cs_keys (c_state ch) ! unat j \<noteq> Some a" using ch a i unfolding channel_ok_def by (metis option.inject)
  moreover have "unat (j AND KeyIDMask) = unat j" using id_mask [OF i(2)] by (simp add: KeyIDMask_def)
  ultimately show ?thesis using a by (simp add: DropKey_def update_def Let_def)
qed

lemma channel_keys_drop:
  assumes k: "channel_keys ch i (Some j)" and ch: "channel_ok st ch" and i: "unat i < 8" "unat j < 8" "i \<noteq> j"
  shows "channel_keys (DropKey ch j) i None"
proof -
  obtain a where a: "cs_primary (c_state ch) = Some a" "cs_keys (c_state ch) ! unat i = Some a" using k by (auto simp: channel_keys_def)
  have "length (cs_keys (c_state ch)) = 8" "unat i \<noteq> unat j" using ch i(3) by (simp_all add: channel_ok_def word_unat_eq_iff)
  then show ?thesis using k a i DropKey_other [OF ch a i] by (auto simp: channel_keys_def nth_list_update)
qed

lemma drop_other:
  assumes c: "base_ok c" and l: "keys_ok c" "roles_ok p c" "phase_ok p c" and q: "q \<in> set (l_keys c)" "q \<noteq> p"
  shows "base_ok (dropKey (Some q) c) \<and> keys_ok (dropKey (Some q) c) \<and> roles_ok p (dropKey (Some q) c) \<and> phase_ok p (dropKey (Some q) c)"
proof -
  let ?d = "dropKey (Some q) c"
  have ql: "q < length (cl_ks c)" by (rule keys_range [OF c q(1)])
  have qd: "\<not> k_dropped (ksAt c q)" using l(1) ql q(1) by (simp add: keys_ok_def)
  note F = dropKey_fields [OF ql qd refl]
  have A: "ksAt ?d r = (if r = q then (ksAt c q)\<lparr>k_dropped := True, k_adapter := closeWith NetClosed (k_adapter (ksAt c q))\<rparr> else ksAt c r)" for r
    using ql by (simp add: ksAt_def F(1) nth_list_update)
  have S: "set (l_keys ?d) = set (l_keys c) - {q}" using l(1) by (simp add: F keys_ok_def)
  have K: "keys_ok ?d" using l(1) q ql unfolding keys_ok_def S
    by (auto simp: A F inj_on_def) 
  have R: "roles_ok p ?d" using l(2) q(2) unfolding roles_ok_def S
    by (auto simp: F A)
  have "phase_ok p ?d"
  proof (cases "l_up c")
    case False
    then have "l_keys c \<noteq> [] \<longrightarrow> set (l_keys c) = {p}" using l(2,3) by (simp add: phase_ok_def roles_ok_def)
    then show ?thesis using q by (cases "l_keys c") auto
  next
    case True
    then obtain ch where ch: "cl_data c = Some ch" "channel_keys ch (k_id (ksAt c p)) (map_option (\<lambda>q. k_id (ksAt c q)) (l_lame c))"
      using l(3) by (auto simp: phase_ok_def)
    have Ap: "ksAt ?d p = ksAt c p" using A q(2) by simp
    show ?thesis
    proof (cases "l_lame c = Some q")
      case lame: True
      have e: "k_exchanged (ksAt c q)" using l(2) lame by (simp add: roles_ok_def)
      have "p \<in> set (l_keys c)" using l(2) by (rule roles_mem(1))
      then have ne: "k_id (ksAt c p) \<noteq> k_id (ksAt c q)" using l(1) q unfolding keys_ok_def inj_on_def by metis
      have "unat (k_id (ksAt c p)) < 8" "unat (k_id (ksAt c q)) < 8"
        using base_key [OF c keys_range [OF c]] q(1) \<open>p \<in> set (l_keys c)\<close> by (auto simp: keyCtl_ok_def)
      then have "channel_keys (DropKey ch (k_id (ksAt c q))) (k_id (ksAt c p)) None"
        using channel_keys_drop [OF _ conjunct2 [OF base_channel [OF c ch(1)]]] ch(2) lame ne by simp
      then show ?thesis using l(3) True ch(1) e lame by (simp add: phase_ok_def F Ap)
    next
      case False
      then have ng: "l_negotiating c = Some q" using l(2) q by (auto simp: roles_ok_def)
      then have e: "\<not> k_exchanged (ksAt c q)" using l(2) by (simp add: roles_ok_def)
      have "map_option (\<lambda>r. k_id (ksAt ?d r)) (l_lame c) = map_option (\<lambda>r. k_id (ksAt c r)) (l_lame c)"
        using False by (cases "l_lame c") (simp_all add: A)
      then show ?thesis using l(3) True ch e False by (simp add: phase_ok_def F Ap)
    qed
  qed
  then show ?thesis using base_dropKey [OF c ql qd] K R by simp
qed

section \<open>A new key\<close>

text \<open>A key state as \<open>newKeyState\<close> makes it.\<close>

definition newKey_ok :: "u8 \<Rightarrow> keyCtl \<Rightarrow> bool" where
  "newKey_ok i k \<longleftrightarrow> keyCtl_ok k \<and> k_id k = i \<and> \<not> k_dropped k \<and> \<not> k_exchanged k"

lemma newKeyState_made:
  assumes "unat i < 8" "newKeyState i resetOp c = (Inr p, c')"
  shows "\<exists>k r. newKey_ok i k \<and> p = length (cl_ks c) \<and>
    c' = c\<lparr>cl_rand := r, cl_ks := cl_ks c @ [k], l_keys := l_keys c @ [p], l_lastKeyID := i\<rparr>"
proof -
  obtain x r where x: "NewClientKeySource (cl_rand c) = (x, r)" by fastforce
  then obtain src where s: "x = Inr src" using assms(2) by (cases x) (auto simp: newKeyState_def failed_def split: fault.splits)
  let ?l = "snd (Send (New (relOptions c)) resetOp [])"
  have "layer_ok ?l" using layer_ok_Send layer_ok_New by blast
  moreover have "since_ok (New (relOptions c))" by (simp add: since_ok_def New_def Let_def)
  then have "since_ok ?l" using since_ok_step [OF layer_ok_New, of "relOptions c" "OpSend resetOp []"] by simp
  moreover have "0 < ad_chunk (newTLSAdapter n)" for n by (simp add: newTLSAdapter_def)
  ultimately show ?thesis
    using assms x s unfolding newKeyState_def newKey_ok_def keyCtl_ok_def
    by (simp add: Let_def) (metis keyCtl.select_convs)
qed

lemma newKeyState_safe: "newKeyState i resetOp c = (Inl f, c') \<Longrightarrow> f \<noteq> Panic \<and> (\<exists>r. c' = c\<lparr>cl_rand := r\<rparr>)"
  by (auto simp: newKeyState_def NewClientKeySource_def failed_def Let_def split: prod.splits sum.splits fault.splits)

lemma base_rand: "base_ok c \<Longrightarrow> base_ok (c\<lparr>cl_rand := r\<rparr>)"
  by (simp add: base_ok_def)

text \<open>The key under negotiation, added to a session that has none.\<close>

lemma add_key:
  assumes c: "base_ok c" and l: "keys_ok c" "roles_ok p c" "phase_ok p c" and up: "l_up c" "l_negotiating c = None"
    and k: "newKey_ok i k" and i: "\<And>q. q \<in> set (l_keys c) \<Longrightarrow> k_id (ksAt c q) \<noteq> i"
    and d: "d = c\<lparr>cl_rand := r, l_keys := l_keys c @ [length (cl_ks c)], l_lastKeyID := i, cl_ks := cl_ks c @ [k], l_negotiating := Some (length (cl_ks c))\<rparr>"
  shows "session_ok d \<and> length (cl_ks c) < length (cl_ks d)"
proof -
  let ?n = "length (cl_ks c)"
  have A: "ksAt d q = ksAt c q" if "q < ?n" for q using that by (simp add: d ksAt_def nth_append)
  have N: "ksAt d ?n = k" by (simp add: d ksAt_def)
  have F: "l_keys d = l_keys c @ [?n]" "l_primary d = l_primary c" "l_lame d = l_lame c" "l_negotiating d = Some ?n" "l_lastKeyID d = i"
      "l_up d = l_up c" "l_pushing d = l_pushing c" "cl_data d = cl_data c" "cl_ready d = cl_ready c" "length (cl_ks d) = Suc ?n"
    by (simp_all add: d)
  have R: "q < ?n" if "q \<in> set (l_keys c)" for q by (rule keys_range [OF c that])
  have b: "base_ok d" using c k by (auto simp: d base_ok_def newKey_ok_def list_all_iff)
  have "inj_on (\<lambda>q. k_id (ksAt d q)) (set (l_keys c))"
    using l(1) inj_on_cong [of "set (l_keys c)" "\<lambda>q. k_id (ksAt d q)" "\<lambda>q. k_id (ksAt c q)"] by (simp add: A R keys_ok_def)
  moreover have "k_id (ksAt d ?n) \<notin> (\<lambda>q. k_id (ksAt d q)) ` set (l_keys c)" using i k by (auto simp: A R N newKey_ok_def) metis
  ultimately have "inj_on (\<lambda>q. k_id (ksAt d q)) (insert ?n (set (l_keys c)))" by auto
  moreover have "k_dropped (ksAt d q) \<longleftrightarrow> q \<notin> set (l_keys d)" if "q < length (cl_ks d)" for q
  proof (cases "q < ?n")
    case True
    then show ?thesis using l(1) by (auto simp: A keys_ok_def F)
  next
    case False
    then have "q = ?n" using that by (simp add: F)
    then show ?thesis using k N by (simp add: newKey_ok_def F)
  qed
  moreover have "?n \<notin> set (l_keys c)" using R by blast
  ultimately have K: "keys_ok d" using l(1) k unfolding keys_ok_def by (auto simp: A R N newKey_ok_def F)
  have m: "p < ?n" "\<And>q. l_lame c = Some q \<Longrightarrow> q < ?n" using roles_mem [OF l(2)] R by blast+
  have "roles_ok p d" using l(2) up m k unfolding roles_ok_def by (auto simp: A N newKey_ok_def F)
  moreover have "map_option (\<lambda>q. k_id (ksAt d q)) (l_lame c) = map_option (\<lambda>q. k_id (ksAt c q)) (l_lame c)"
    using m(2) by (cases "l_lame c") (simp_all add: A)
  then have "phase_ok p d" using l(3) up m(1) unfolding phase_ok_def by (simp add: A F)
  moreover have "last_ok p d" using k N by (simp add: last_ok_def newKey_ok_def F)
  ultimately show ?thesis using b K by (auto simp: session_ok_def loop_at_def F)
qed

lemma set_deadline:
  "k_id (k\<lparr>k_deadline := t\<rparr>) = k_id k" "newKey_ok i (k\<lparr>k_deadline := t\<rparr>) = newKey_ok i k"
  by (simp_all add: newKey_ok_def keyCtl_ok_def)

text \<open>The common end of both renegotiations.\<close>

definition negotiate :: "u8 \<Rightarrow> time \<Rightarrow> client \<Rightarrow> kptr act" where
  "negotiate i now c = andThen (newKeyState i ControlSoftResetV1 c) (\<lambda>p c.
     (Inr p, (setKs p (\<lambda>k. k\<lparr>k_deadline := time_add now (d_timeout (cl_d c))\<rparr>) c)\<lparr>l_negotiating := Some p\<rparr>))"

lemma negotiate_eqs:
  "serverRenegotiation i now c = negotiate i now (dropKey (l_negotiating c) c)"
  "startRenegotiation now c =
    andThen (negotiate (nextKeyID (l_lastKeyID c)) now (dropKey (keyByID c (nextKeyID (l_lastKeyID c))) c)) (\<lambda>_ c. ok c)"
  unfolding serverRenegotiation_def startRenegotiation_def negotiate_def Let_def
  by (auto simp: andThen_def ok_def split: prod.split sum.split)

lemma runs_negotiate:
  assumes "base_ok c" "keys_ok c" "roles_ok p c" "phase_ok p c" "l_up c" "l_negotiating c = None"
    and "unat i < 8" "\<And>q. q \<in> set (l_keys c) \<Longrightarrow> k_id (ksAt c q) \<noteq> i"
  shows "runs base_ok (\<lambda>q d. session_ok d \<and> q < length (cl_ks d)) (negotiate i now c)"
proof (cases "newKeyState i ControlSoftResetV1 c")
  case (Pair x d)
  show ?thesis
  proof (cases x)
    case (Inl f)
    then show ?thesis using newKeyState_safe [of i ControlSoftResetV1 c f d] Pair base_rand [OF assms(1)]
      by (cases f) (auto simp: negotiate_def andThen_def)
  next
    case (Inr q)
    obtain k r where k: "newKey_ok i k" "q = length (cl_ks c)"
        "d = c\<lparr>cl_rand := r, cl_ks := cl_ks c @ [k], l_keys := l_keys c @ [q], l_lastKeyID := i\<rparr>"
      using newKeyState_made [OF assms(7)] Pair Inr by blast
    let ?k = "k\<lparr>k_deadline := time_add now (d_timeout (cl_d c))\<rparr>"
    have "newKey_ok i ?k" using k(1) by (simp add: set_deadline)
    from add_key [OF assms(1-6) this assms(8) refl, of r] show ?thesis
      using Pair Inr k(2,3) by (simp add: negotiate_def andThen_def setKs_def runs_def nth_append)
  qed
qed

lemma nextKeyID_facts: "unat (nextKeyID i) < 8" "nextKeyID i \<noteq> i"
proof -
  have "nextKeyID i = (if (i + 1) AND 7 = 0 then 1 else (i + 1) AND 7)" by (simp add: nextKeyID_def Let_def KeyIDMask_def)
  then show "unat (nextKeyID i) < 8" using word_and7 [of "i + 1"] by simp
  show "nextKeyID i \<noteq> i"
  proof
    assume e: "nextKeyID i = i"
    have "(i + 1) AND 7 = take_bit 3 (i + 1)" by (simp add: take_bit_eq_mask mask_eq_exp_minus_1)
    have "i = 0 \<or> i = 1 \<or> i = 2 \<or> i = 3 \<or> i = 4 \<or> i = 5 \<or> i = 6 \<or> i = 7"
    proof -
      have "unat i < 8" using \<open>unat (nextKeyID i) < 8\<close> e by simp
      then have "unat i \<in> {0, 1, 2, 3, 4, 5, 6, 7}" by auto
      then show ?thesis by (auto simp: word_unat_eq_iff)
    qed
    then show False using e by (auto simp: nextKeyID_def Let_def KeyIDMask_def)
  qed
qed

section \<open>Renegotiation\<close>

lemma keyByID_Some: "keyByID c i = Some q \<Longrightarrow> q \<in> set (l_keys c) \<and> k_id (ksAt c q) = i"
  by (auto simp: keyByID_def find_Some_iff)

lemma keyByID_None: "keyByID c i = None \<Longrightarrow> q \<in> set (l_keys c) \<Longrightarrow> k_id (ksAt c q) \<noteq> i"
  by (auto simp: keyByID_def find_None_iff)

lemma dropKey_ids:
  assumes "base_ok c" "keys_ok c" "q \<in> set (l_keys c)"
  shows "k_id (ksAt (dropKey (Some q) c) r) = k_id (ksAt c r)" "set (l_keys (dropKey (Some q) c)) = set (l_keys c) - {q}"
    "l_up (dropKey (Some q) c) = l_up c" "l_negotiating (dropKey (Some q) c) = (if l_negotiating c = Some q then None else l_negotiating c)"
    "l_lastKeyID (dropKey (Some q) c) = l_lastKeyID c"
proof -
  have q: "q < length (cl_ks c)" "\<not> k_dropped (ksAt c q)" using keys_range [OF assms(1,3)] assms(2,3) by (auto simp: keys_ok_def)
  note F = dropKey_fields [OF q refl]
  show "k_id (ksAt (dropKey (Some q) c) r) = k_id (ksAt c r)" using q(1) by (simp add: ksAt_def F(1) nth_list_update)
  show "set (l_keys (dropKey (Some q) c)) = set (l_keys c) - {q}" using assms(2) by (simp add: F keys_ok_def)
qed (simp_all add: dropKey_fields [OF keys_range [OF assms(1,3)] _ refl] assms(2,3) keys_ok_def keys_range [OF assms(1,3)] assms(2) [unfolded keys_ok_def])

lemma session_drop_lame:
  assumes s: "session_ok c" and q: "l_lame c = Some q"
  shows "session_ok (dropKey (Some q) c)"
proof -
  obtain p where l: "base_ok c" "keys_ok c" "roles_ok p c" "phase_ok p c" "last_ok p c" using s by (auto simp: session_ok_def loop_at_def)
  have q': "q \<in> set (l_keys c)" "q \<noteq> p" "l_negotiating c \<noteq> Some q" using l(3) q by (auto simp: roles_ok_def)
  have "last_ok p (dropKey (Some q) c)" using l(5) dropKey_ids [OF l(1,2) q'(1)] q'(3) by (simp add: last_ok_def)
  then show ?thesis using drop_other [OF l(1-4) q'(1,2)] by (auto simp: session_ok_def loop_at_def)
qed

lemma runs_serverRenegotiation:
  assumes s: "session_ok c" and up: "l_up c" and i: "unat i < 8" "keyByID c i = None"
  shows "runs base_ok (\<lambda>q d. session_ok d \<and> q < length (cl_ks d)) (serverRenegotiation i now c)"
proof -
  obtain p where l: "base_ok c" "keys_ok c" "roles_ok p c" "phase_ok p c" using s by (auto simp: session_ok_def loop_at_def)
  show ?thesis
  proof (cases "l_negotiating c")
    case None
    then show ?thesis using runs_negotiate [OF l up None i(1)] keyByID_None [OF i(2)] by (simp add: negotiate_eqs dropKey_def)
  next
    case (Some q)
    have q: "q \<in> set (l_keys c)" "q \<noteq> p" using l(3) Some by (auto simp: roles_ok_def)
    note D = drop_other [OF l q] and I = dropKey_ids [OF l(1,2) q(1)]
    show ?thesis unfolding negotiate_eqs Some
      by (rule runs_negotiate [where p = p]) (use D I up Some i keyByID_None [OF i(2)] in auto)
  qed
qed

lemma good_startRenegotiation:
  assumes s: "session_ok c" and up: "l_up c" "l_negotiating c = None"
  shows "good (startRenegotiation now c)"
proof -
  obtain p where l: "base_ok c" "keys_ok c" "roles_ok p c" "phase_ok p c" "last_ok p c" using s by (auto simp: session_ok_def loop_at_def)
  define i where "i = nextKeyID (l_lastKeyID c)"
  have i: "unat i < 8" "k_id (ksAt c p) \<noteq> i" using nextKeyID_facts l(5) up(2) unfolding i_def last_ok_def by (simp, metis option.simps(4))
  have "runs base_ok (\<lambda>q d. session_ok d \<and> q < length (cl_ks d)) (negotiate i now (dropKey (keyByID c i) c))"
  proof (cases "keyByID c i")
    case None
    then show ?thesis using runs_negotiate [OF l(1-4) up i(1)] keyByID_None [OF None] by (simp add: dropKey_def)
  next
    case (Some q)
    have q: "q \<in> set (l_keys c)" "k_id (ksAt c q) = i" using keyByID_Some [OF Some] by auto
    then have qp: "q \<noteq> p" using i(2) by auto
    note D = drop_other [OF l(1-4) q(1) qp] and I = dropKey_ids [OF l(1,2) q(1)]
    have "k_id (ksAt c r) \<noteq> i" if "r \<in> set (l_keys c)" "r \<noteq> q" for r
      using l(2) that q unfolding keys_ok_def inj_on_def by metis
    then show ?thesis unfolding Some by (intro runs_negotiate [where p = p]) (use D I up i(1) in auto)
  qed
  then show ?thesis unfolding negotiate_eqs i_def [symmetric] by (rule runs_andThen) auto
qed

section \<open>Timers\<close>

lemma good_tick_up:
  assumes s: "session_ok c" "l_up c"
  shows "good (tick_up now c)"
proof -
  have ping: "quiet c (tick_ping now c)" "quiet c (tick_probe now c)" if "base_ok c" for c
    using that unfolding tick_ping_def tick_probe_def
    by (auto intro!: runs_if quiet_ok quiet_after [OF _ quiet_sendKeepalive] calm_fields base_ok_cong [OF that] simp: views)
  have up: "l_up d" if "calm c d" "l_up c" for c d using that by (simp add: calm_def loop_view_def)
  have lame: "session_ok (tick_lame now d) \<and> l_up (tick_lame now d)" if sd: "session_ok d" and ud: "l_up d" for d
  proof (cases "l_lame d")
    case None
    then show ?thesis using that by (simp add: tick_lame_def)
  next
    case (Some q)
    obtain p where "base_ok d" "keys_ok d" "roles_ok p d" using sd unfolding session_ok_def loop_at_def by blast
    then have "l_up (dropKey (Some q) d)" using dropKey_ids(3) [of d q] roles_mem(2) [of p d q] Some that(2) by simp
    then show ?thesis using that Some session_drop_lame [OF that(1) Some] by (simp add: tick_lame_def)
  qed
  have neg: "good (tick_negotiation now d)" if "session_ok d" "l_up d" for d
    using that session_base [OF that(1)] good_startRenegotiation [OF that]
    by (auto simp: tick_negotiation_def split: option.split intro!: runs_if)
  have p1: "runs base_ok (\<lambda>_ d. session_ok d \<and> l_up d) (tick_ping now d)" "runs base_ok (\<lambda>_ d. session_ok d \<and> l_up d) (tick_probe now d)"
    if "session_ok d" "l_up d" for d
    using ping [OF session_base [OF that(1)]] that by (auto elim!: runs_weaken intro: session_calm up dest: calm_base)
  show ?thesis unfolding tick_up_def
    by (intro runs_if runs_failed session_base [OF s(1)] runs_andThen [OF p1(1) [OF s]] runs_andThen [OF p1(2)])
      (use lame neg in blast)+
qed

lemma good_tick:
  assumes s: "session_ok c"
  shows "good (tick now c)"
proof -
  note b = session_base [OF s]
  have "good (tick_setup now c)"
    unfolding tick_setup_def
    by (intro runs_if good_quiet [OF s] quiet_failed quiet_ok calm_refl b calm_trans [OF calm_sendControlMessage [OF b]])
      (auto intro!: calm_fields calm_base [OF calm_sendControlMessage] b simp: views)
  moreover have "good (tick_closing now c)"
    using b unfolding tick_closing_def by (auto intro!: good_quiet [OF s] runs_if quiet_failed quiet_ok split: option.split)
  ultimately show ?thesis
    using good_tick_up [OF s] b unfolding tick_def
    by (auto intro!: runs_if good_quiet [OF s] quiet_failed quiet_ok split: option.split)
qed

section \<open>Control packets\<close>

lemma session_maybeStartTLS:
  assumes s: "session_ok c"
  shows "session_ok (maybeStartTLS q c)"
proof -
  let ?f = "\<lambda>k. k\<lparr>k_tlsStarted := True, k_login := Some (credentials c)\<rparr>"
  have "session_ok (setKs q ?f c)"
  proof (cases "q < length (cl_ks c)")
    case True
    have "keyCtl_ok (?f (cl_ks c ! q))" using base_key [OF session_base [OF s] True] by (simp add: keyCtl_ok_def ksAt_def)
    then have "base_ok (setKs q ?f c)"
      using session_base [OF s] True by (auto simp: base_ok_def setKs_def list_all_length nth_list_update)
    moreover have "same_keys c (setKs q ?f c)" using True by (auto simp: same_keys_def setKs_def ksAt_def nth_list_update)
    ultimately show ?thesis using session_same [OF s] by (simp add: loop_fields_def setKs_def)
  qed (use s in \<open>simp add: setKs_def list_update_beyond\<close>)
  then show ?thesis using s by (simp add: maybeStartTLS_def Let_def)
qed

lemma session_receive:
  assumes s: "session_ok c"
  shows "session_ok (maybeStartTLS q (setKs q (feedKey p now) (markRecv now c)))"
proof -
  have m: "calm c (markRecv now c)" using calm_queue(3) [OF session_base [OF s]] .
  have "calm (markRecv now c) (setKs q (feedKey p now) (markRecv now c))"
    by (rule calm_setKs [OF calm_base [OF m]]) (rule keyCtl_ok_feed, assumption, rule kview_feed)
  then show ?thesis using session_maybeStartTLS session_calm [OF s] calm_trans [OF m] by blast
qed

lemma good_handleControlPacket:
  assumes s: "session_ok c" and p: "unat (KeyID p) < 8"
  shows "good (handleControlPacket p now c)"
proof (cases "checkSession p c")
  case None
  then show ?thesis using s by (auto simp: handleControlPacket_def)
next
  case (Some d)
  have "calm c d" using Some session_base [OF s] by (auto simp: checkSession_def views split: if_splits intro!: calm_fields)
  then have d: "session_ok d" by (rule session_calm [OF s])
  show ?thesis
  proof (cases "keyByID d (KeyID p)")
    case (Some q)
    then show ?thesis using \<open>checkSession p c = Some d\<close> session_receive [OF d] by (auto simp: handleControlPacket_def Let_def)
  next
    case None
    have "good (andThen (serverRenegotiation (KeyID p) now d) (\<lambda>q c. ok (maybeStartTLS q (setKs q (feedKey p now) (markRecv now c)))))" if "l_up d"
      by (rule runs_andThen [OF runs_serverRenegotiation [OF d that p None]]) (auto intro: session_receive)
    then show ?thesis using Some None d by (auto simp: handleControlPacket_def Let_def intro!: runs_if)
  qed
qed

lemma session_ctlIn: "session_ok c \<Longrightarrow> list_all (\<lambda>p. unat (KeyID p) < 8) ps \<Longrightarrow> session_ok (c\<lparr>cl_ctlIn := ps\<rparr>)"
proof -
  assume s: "session_ok c" and p: "list_all (\<lambda>p. unat (KeyID p) < 8) ps"
  have "calm c (c\<lparr>cl_ctlIn := ps\<rparr>)" using session_base [OF s] p by (simp add: calm_def base_ok_def loop_view_def)
  then show ?thesis by (rule session_calm [OF s])
qed

lemma good_drainControl: "session_ok c \<Longrightarrow> list_all (\<lambda>p. unat (KeyID p) < 8) ps \<Longrightarrow> good (drainControl now ps c)"
proof (induction ps arbitrary: c)
  case (Cons p ps)
  then show ?case by (auto intro!: runs_andThen [OF good_handleControlPacket] session_ctlIn)
qed auto

lemma good_transportDown:
  assumes s: "session_ok c"
  shows "good (transportDown e now c)"
proof -
  have "list_all (\<lambda>p. unat (KeyID p) < 8) (cl_ctlIn c)" using session_base [OF s] by (simp add: base_ok_def)
  moreover have "session_ok (d\<lparr>l_readErr := x, l_readErrDeadline := t\<rparr>)" if "session_ok d" for d x t
    using that session_base [OF that] by (auto elim!: session_calm intro!: calm_fields simp: views)
  ultimately show ?thesis unfolding transportDown_def by (auto intro!: runs_andThen [OF good_drainControl [OF s]])
qed

end
