(* ===== verification/Client_Flush.thy ===== *)
theory Client_Flush
  imports Client_Keys
begin

text \<open>
  What sending leaves behind: a layer that was polled has nothing more to send before its next deadline, and \<open>flush\<close> polls
  every key and changes nothing else but the connection.
\<close>

section \<open>A polled layer\<close>

lemma Poll_then_nothing:
  assumes ok: "layer_ok l"
  shows "pollPackets (snd (Poll l now)) now = []"
proof -
  let ?l = "snd (Poll l now)"
  note P = Poll_eq [OF layer_ok_poll [OF ok], of now]
  have n: "nsent l \<le> limitOf l" "limitOf l \<le> length (out l)" using ok by (auto simp: layer_ok_def send_ok_def limitOf_def)
  have q: "0 < InitialTimeout (opts l)" if "retransmit l" using ok that by (simp add: layer_ok_def)
  have "now < due (polledOut l now ! i)" if re: "retransmit l" and i: "i < limitOf l" and na: "\<not> acked (out l ! i)" for i
  proof (cases "i < nsent l")
    case False
    then show ?thesis using i n q [OF re] re by (simp add: polledOut_nth startTimer_def time_add_def)
  next
    case True
    then have "out l ! i \<in> set (take (nsent l) (out l))" using n by (auto simp: in_set_conv_nth intro!: exI [of _ i])
    then have t: "timer_ok (opts l) (out l ! i)" using ok re by (auto simp: layer_ok_def send_ok_def)
    then have "0 < backoff (opts l) (timeout (out l ! i))" using backoff_bounds(1) [OF q [OF re]] q [OF re] by (fastforce simp: timer_ok_def)
    then show ?thesis using True i n re na by (auto simp: polledOut_nth restartTimer_def isDue_def time_add_def)
  qed
  then have "\<not> isDue now (polledOut l now ! i)" if "retransmit l" "i < limitOf l" for i
    using that n polledOut_same(1) [of i l now] by (cases "acked (out l ! i)") (simp_all add: isDue_def)
  then have "dueIdx ?l now = []" by (auto simp: dueIdx_def P filter_empty_conv)
  then show ?thesis using layer_ok_Poll [OF ok] by (simp add: pollPackets_Nil P limitOf_def)
qed

lemma lastNow_Poll: "lastNow (snd (Poll l now)) = max (lastNow l) now"
proof -
  have "lastNow (remember l ids) = lastNow l" for l ids by (simp add: remember_def Let_def)
  then have "lastNow (pollDone l n st) = lastNow l" for l n st by (simp add: pollDone_def Let_def)
  moreover have "lastNow (observe l now) = max (lastNow l) now" by (simp add: observe_def max_def)
  ultimately show ?thesis unfolding Poll_def Let_def by (simp only: if_distrib [of snd] if_distrib [of lastNow] snd_conv if_cancel)
qed

lemma unacked_Poll: "unacked (snd (Poll l now)) = unacked l"
proof -
  have "unacked (remember l ids) = unacked l" for l ids by (simp add: remember_def Let_def)
  then have "unacked (pollDone l n st) = unacked l" for l n st by (simp add: pollDone_def Let_def)
  moreover have "unacked (observe l now) = unacked l" by (simp add: observe_def)
  ultimately show ?thesis unfolding Poll_def Let_def by (simp only: if_distrib [of snd] if_distrib [of unacked] snd_conv if_cancel)
qed

text \<open>With nothing to send \<open>Poll\<close> only notes the time.\<close>

lemma Poll_nothing:
  assumes ok: "layer_ok l" and n: "pollPackets l now = []"
  shows "snd (Poll l now) = observe l now"
proof -
  have l: "nsent l = limitOf l" "dueIdx l now = []" "acks l = []" using n ok by (auto simp: pollPackets_Nil layer_ok_def send_ok_def)
  have d: "(if retransmit l then int (length (filter (isDue now) (take (nsent l) (out l)))) else 0) = int (length (dueIdx l now))"
    using layer_ok_poll [OF ok] by (intro dueIdx_count) (auto simp: poll_ok_def limitOf_def)
  have o: "out (observe l now) = out l" "nsent (observe l now) = nsent l" "acks (observe l now) = acks l" "opts (observe l now) = opts l"
    "retransmit (observe l now) = retransmit l" by (simp_all add: observe_def)
  show ?thesis unfolding Poll_def Let_def o d by (subst if_P) (use l in \<open>simp_all add: limitOf_def\<close>)
qed

lemma polled_layer:
  assumes ok: "layer_ok l" "since_ok l" and now: "longAgo \<le> now" "lastNow l \<le> now" and l': "l' = snd (Poll l now)"
  shows "NextDeadline l' = 0 \<or> now < NextDeadline l'"
    "now \<le> t \<Longrightarrow> NextDeadline l' = 0 \<or> t < NextDeadline l' \<Longrightarrow> pollPackets l' t = []"
proof -
  have o': "layer_ok l'" "since_ok l'" using layer_ok_Poll [OF ok(1)] since_ok_step [OF ok, of "OpPoll now"] by (simp_all add: l')
  have n: "lastNow l' \<le> now" using now by (simp add: l' lastNow_Poll)
  show "NextDeadline l' = 0 \<or> now < NextDeadline l'"
    using NextDeadline_iff [OF o' now(1) n] Poll_then_nothing [OF ok(1), of now] by (auto simp: l')
  show "now \<le> t \<Longrightarrow> NextDeadline l' = 0 \<or> t < NextDeadline l' \<Longrightarrow> pollPackets l' t = []"
    using NextDeadline_iff [OF o', of t] now n by auto
qed

lemma sends_frame:
  assumes "l' = foldl (\<lambda>l b. snd (Send l ControlV1 b)) l bs"
  shows "lastNow l' = lastNow l \<and> unacked l' = unacked l + glen bs"
  using assms by (induction bs arbitrary: l) (simp_all add: Send_def Let_def glen_def)

section \<open>Flushing\<close>

text \<open>A key as \<open>flush\<close> leaves it.\<close>

definition polled :: "time \<Rightarrow> keyCtl \<Rightarrow> keyCtl" where
  "polled now k =
    k\<lparr>k_layer := snd (Poll (foldl (\<lambda>l b. snd (Send l ControlV1 b)) (k_layer k) (ad_out (k_adapter k))) now), k_adapter := (k_adapter k)\<lparr>ad_out := []\<rparr>\<rparr>"

text \<open>All but the keys and what a write changes.\<close>

definition still :: "client \<Rightarrow> client" where
  "still c = (unwritten c)\<lparr>cl_ks := [], cl_wrapper := WPlain\<rparr>"

definition sentSince :: "time \<Rightarrow> client \<Rightarrow> client \<Rightarrow> bool" where
  "sentSince now c d \<longleftrightarrow> still d = still c \<and> cl_lastSend d \<in> {cl_lastSend c, stampAt c now}"

lemma still_fields:
  assumes "still d = still c"
  shows "l_keys d = l_keys c" "l_primary d = l_primary c" "l_lame d = l_lame c" "l_negotiating d = l_negotiating c"
    "l_hsDeadline d = l_hsDeadline c" "l_connectDeadline d = l_connectDeadline c" "l_haveServerSID d = l_haveServerSID c"
    "l_pushing d = l_pushing c" "l_gotPush d = l_gotPush c" "l_pushNext d = l_pushNext c" "l_up d = l_up c" "l_ping d = l_ping c"
    "l_pingRestart d = l_pingRestart c" "l_probe d = l_probe c" "l_probeTried d = l_probeTried c" "l_closing d = l_closing c"
    "l_closeDeadline d = l_closeDeadline c" "l_exitSent d = l_exitSent c" "l_readErr d = l_readErr c" "l_readErrDeadline d = l_readErrDeadline c"
    "cl_world d = cl_world c" "cl_d d = cl_d c" "cl_store d = cl_store c" "cl_data d = cl_data c" "cl_epoch d = cl_epoch c"
    "cl_lastRecv d = cl_lastRecv c" "cl_pingTried d = cl_pingTried c" "stampAt d t = stampAt c t"
  using
    arg_cong [OF assms, of l_keys] arg_cong [OF assms, of l_primary] arg_cong [OF assms, of l_lame] arg_cong [OF assms, of l_negotiating]
    arg_cong [OF assms, of l_hsDeadline] arg_cong [OF assms, of l_connectDeadline] arg_cong [OF assms, of l_haveServerSID] arg_cong [OF assms, of l_pushing]
    arg_cong [OF assms, of l_gotPush] arg_cong [OF assms, of l_pushNext] arg_cong [OF assms, of l_up] arg_cong [OF assms, of l_ping]
    arg_cong [OF assms, of l_pingRestart] arg_cong [OF assms, of l_probe] arg_cong [OF assms, of l_probeTried] arg_cong [OF assms, of l_closing]
    arg_cong [OF assms, of l_closeDeadline] arg_cong [OF assms, of l_exitSent] arg_cong [OF assms, of l_readErr] arg_cong [OF assms, of l_readErrDeadline]
    arg_cong [OF assms, of cl_world] arg_cong [OF assms, of cl_d] arg_cong [OF assms, of cl_store] arg_cong [OF assms, of cl_data]
    arg_cong [OF assms, of cl_epoch] arg_cong [OF assms, of cl_lastRecv] arg_cong [OF assms, of cl_pingTried]
  by (simp_all add: still_def unwritten_def stampAt_def)

lemma sentSince_refl [simp]: "sentSince now c c"
  by (simp add: sentSince_def)

lemma sentSince_trans: "sentSince now c d \<Longrightarrow> sentSince now d e \<Longrightarrow> sentSince now c e"
  using still_fields(28) [of d c now] by (auto simp: sentSince_def)

lemma sentSince_set: "sentSince now c (c\<lparr>cl_wrapper := w\<rparr>)" "sentSince now c (setKs p f c)"
  by (simp_all add: sentSince_def still_def setKs_def unwritten_def)

lemma writeRaw_sent:
  assumes "writeRaw now b c = (e, d)"
  shows "sentSince now c d" "cl_ks d = cl_ks c"
proof -
  have x: "cl_ks (snd (connWrite b c)) = cl_ks c \<and> cl_wrapper (snd (connWrite b c)) = cl_wrapper c \<and> cl_lastSend (snd (connWrite b c)) = cl_lastSend c \<and>
      cl_epoch (snd (connWrite b c)) = cl_epoch c \<and> cl_world (snd (connWrite b c)) = cl_world c" for b c
    by (auto simp: connWrite_def Let_def split: list.split wres.split)
  obtain r where r: "writeLocked b c = r" by blast
  then have y: "cl_ks (snd r) = cl_ks c" "cl_wrapper (snd r) = cl_wrapper c" "cl_lastSend (snd r) = cl_lastSend c" "stampAt (snd r) now = stampAt c now"
    using x by (auto simp: writeLocked_def stampAt_def split: prod.split option.split)
  have d: "d = snd (afterWrite now r)" using assms r by (simp add: writeRaw_def)
  have z: "cl_ks d = cl_ks (snd r)" "cl_wrapper d = cl_wrapper (snd r)" "cl_lastSend d \<in> {cl_lastSend (snd r), stampAt (snd r) now}"
    unfolding d by (cases r; cases "fst r"; auto simp: afterWrite_def markSend_def cl_fail_def split: option.split)+
  show "cl_ks d = cl_ks c" using z(1) y(1) by simp
  have "unwritten d = unwritten c" using writeRaw_unwritten [of now b c] assms by simp
  then have "still d = still c" by (simp add: still_def)
  then show "sentSince now c d" using z(3) y by (simp add: sentSince_def)
qed

lemma flushPackets_sent:
  assumes "flushPackets now i ps c = (x, d)"
  shows "sentSince now c d \<and> cl_ks d = cl_ks c \<and> (x = Inr True \<longrightarrow> isDone d)"
  using assms
proof (induction now i ps c rule: flushPackets.induct)
  case (1 now i c)
  then show ?case by auto
next
  case (2 now i ps c)
  then show ?case by auto
next
  case (3 now i p ps c)
  obtain y w where w: "wrapper_Wrap (cl_wrapper c) (Some (p\<lparr>KeyID := i, SessionID := l_ourSID c, RemoteSessionID := l_serverSID c\<rparr>)) = (y, w)" by fastforce
  let ?c = "c\<lparr>cl_wrapper := w\<rparr>"
  note s = sentSince_set(1) [of now c w]
  show ?case
  proof (cases y)
    case (Inl f)
    then show ?thesis using 3(1,3) w s sentSince_trans [OF s] by (cases f) auto
  next
    case (Inr b)
    obtain e c' where e: "writeRaw now b ?c = (e, c')" by fastforce
    note W = writeRaw_sent [OF e]
    show ?thesis
    proof (cases "e \<noteq> None \<and> isDone c'")
      case True
      then show ?thesis using 3(3) w Inr e W sentSince_trans [OF s W(1)] by auto
    next
      case False
      then have f: "flushPackets now i ps c' = (x, d)" using 3(3) w Inr e by auto
      have "sentSince now c' d \<and> cl_ks d = cl_ks c' \<and> (x = Inr True \<longrightarrow> isDone d)"
        using 3(2) [OF w [symmetric] Inr e [symmetric]] False f by auto
      then show ?thesis using W sentSince_trans [OF sentSince_trans [OF s W(1)]] by simp
    qed
  qed
qed

lemma flushKey_eq:
  assumes "keyCtl_ok (ksAt c p)" and l: "l = foldl (\<lambda>l b. snd (Send l ControlV1 b)) (k_layer (ksAt c p)) (ad_out (k_adapter (ksAt c p)))"
  shows "flushKey now p c = flushPackets now (k_id (ksAt c p)) (map Some (pollPackets l now)) (setKs p (polled now) c)"
proof -
  have P: "Poll l now = (Inr (map Some (pollPackets l now)), snd (Poll l now))"
    using Poll_eq(1) [OF layer_ok_poll [OF keyCtl_ok_flush(1) [OF assms]], of now] by (metis prod.collapse)
  have S: "setKs p (\<lambda>k. k\<lparr>k_layer := snd (Poll l now), k_adapter := (k_adapter k)\<lparr>ad_out := []\<rparr>\<rparr>) c = setKs p (polled now) c"
    by (simp add: setKs_def polled_def l ksAt_def)
  show ?thesis unfolding flushKey_def Let_def l [symmetric] by (subst P) (simp only: prod.case sum.case S)
qed

lemma flushKeys_sent:
  assumes "flushKeys now ps c = (Inr (), d)" "\<not> isDone d" "base_ok c" "distinct ps" "list_all (\<lambda>p. p < length (cl_ks c)) ps"
  shows "sentSince now c d \<and> length (cl_ks d) = length (cl_ks c) \<and>
    (\<forall>q < length (cl_ks c). ksAt d q = (if q \<in> set ps then polled now (ksAt c q) else ksAt c q))"
  using assms
proof (induction ps arbitrary: c)
  case Nil
  then show ?case by (auto simp: ok_def)
next
  case (Cons p ps)
  obtain x e where e: "flushKey now p c = (x, e)" by fastforce
  have p: "p < length (cl_ks c)" using Cons.prems(5) by simp
  note F = flushPackets_sent [OF e [unfolded flushKey_eq [OF base_key [OF Cons.prems(3) p] refl]]]
  have s: "sentSince now c e" using F sentSince_trans [OF sentSince_set(2)] by blast
  have k: "cl_ks e = (cl_ks c)[p := polled now (cl_ks c ! p)]" using F by (simp add: setKs_def)
  obtain o' where o: "x = Inr o'" using Cons.prems(1) e by (cases x) (simp_all add: andThen_def)
  have "\<not> o'"
  proof
    assume "o'"
    then have "d = e" using Cons.prems(1) e o by (simp add: andThen_def ok_def)
    then show False using F o \<open>o'\<close> Cons.prems(2) by simp
  qed
  then have n: "flushKeys now ps e = (Inr (), d)" using Cons.prems(1) e o by (simp add: andThen_def)
  have "quiet c (flushKey now p c)" by (rule quiet_flushKey [OF Cons.prems(3) p])
  then have "base_ok e" using e o by (auto simp: runs_def dest: calm_base)
  from Cons.IH [OF n Cons.prems(2) this] Cons.prems(4,5) k have
    I: "sentSince now e d" "length (cl_ks d) = length (cl_ks e)" "\<forall>q < length (cl_ks e). ksAt d q = (if q \<in> set ps then polled now (ksAt e q) else ksAt e q)"
    by simp_all
  have "ksAt d q = (if q \<in> set (p # ps) then polled now (ksAt c q) else ksAt c q)" if "q < length (cl_ks c)" for q
    using I(3) that k Cons.prems(4) p by (auto simp: ksAt_def nth_list_update)
  then show ?case using sentSince_trans [OF s I(1)] I(2) k by simp
qed

text \<open>A key with nothing to write and nothing due: only its clock moves.\<close>

definition idled :: "time \<Rightarrow> client \<Rightarrow> client \<Rightarrow> bool" where
  "idled t c d \<longleftrightarrow> d = c\<lparr>cl_ks := cl_ks d\<rparr> \<and> list_all2 (\<lambda>k k'. k' = k \<or> k' = k\<lparr>k_layer := observe (k_layer k) t\<rparr>) (cl_ks c) (cl_ks d)"

lemma idled_refl [simp]: "idled t c c"
  by (simp add: idled_def list_all2_refl)

lemma idled_step:
  assumes "idled t (setKs p f c) d" "\<And>k. k = cl_ks c ! p \<Longrightarrow> f k = k\<lparr>k_layer := observe (k_layer k) t\<rparr>"
  shows "idled t c d"
proof -
  have o: "observe (observe l t) t = observe l t" for l by (simp add: observe_def)
  have "d = c\<lparr>cl_ks := cl_ks d\<rparr>" using assms(1) by (simp add: idled_def setKs_def)
  moreover have "cl_ks d ! q = cl_ks c ! q \<or> cl_ks d ! q = (cl_ks c ! q)\<lparr>k_layer := observe (k_layer (cl_ks c ! q)) t\<rparr>" if "q < length (cl_ks c)" for q
    using assms that by (cases "q = p") (auto simp: idled_def setKs_def list_all2_conv_all_nth o)
  ultimately show ?thesis using assms(1) by (simp add: idled_def setKs_def list_all2_conv_all_nth)
qed

lemma flush_idle:
  assumes "base_ok c" "\<And>p. p \<in> set (l_keys c) \<Longrightarrow> ad_out (k_adapter (ksAt c p)) = [] \<and> pollPackets (k_layer (ksAt c p)) t = []" "distinct (l_keys c)"
  shows "\<exists>d. flush t c = (Inr (), d) \<and> idled t c d"
proof -
  have "\<exists>d. flushKeys t ps c = (Inr (), d) \<and> idled t c d" if "set ps \<subseteq> set (l_keys c)" "distinct ps" for ps
    using that assms(1,2)
  proof (induction ps arbitrary: c)
    case Nil
    then show ?case by (simp add: ok_def)
  next
    case (Cons p ps)
    have p: "p < length (cl_ks c)" "ad_out (k_adapter (ksAt c p)) = []" "pollPackets (k_layer (ksAt c p)) t = []"
      using Cons.prems by (auto intro: keys_range)
    have l: "layer_ok (k_layer (ksAt c p))" using base_key [OF Cons.prems(3) p(1)] by (simp add: keyCtl_ok_def)
    let ?e = "setKs p (polled t) c"
    have k: "flushKey t p c = (Inr False, ?e)" using flushKey_eq [OF base_key [OF Cons.prems(3) p(1)] refl, of t] p by simp
    have "quiet c (flushKey t p c)" by (rule quiet_flushKey [OF Cons.prems(3) p(1)])
    then have b: "base_ok ?e" using k by (auto simp: runs_def dest: calm_base)
    have "ad_out (k_adapter (ksAt ?e q)) = [] \<and> pollPackets (k_layer (ksAt ?e q)) t = []" if "q \<in> set (l_keys ?e)" for q
    proof (cases "q = p")
      case True
      then show ?thesis using p l Poll_then_nothing by (simp add: ksAt_def setKs_def polled_def)
    next
      case False
      then show ?thesis using Cons.prems(4) that by (simp add: ksAt_def setKs_def)
    qed
    moreover have "set ps \<subseteq> set (l_keys ?e)" "distinct ps" using Cons.prems(1,2) by (simp_all add: setKs_def)
    ultimately obtain d where d: "flushKeys t ps ?e = (Inr (), d)" "idled t ?e d" using Cons.IH [OF _ _ b] by blast
    have "polled t (ksAt c p) = (ksAt c p)\<lparr>k_layer := observe (k_layer (ksAt c p)) t\<rparr>" using p Poll_nothing [OF l] by (simp add: polled_def)
    then have "idled t c d" using idled_step [OF d(2)] by (simp add: ksAt_def)
    then show ?case using k d(1) by (simp add: andThen_def)
  qed
  then show ?thesis using assms(3) by (simp add: flush_def ok_def)
qed

end
