(* ===== verification/Client_Run.thy ===== *)
theory Client_Run
  imports Client_Keys
begin

text \<open>
  The rest of the handlers (setup of the tunnel, a new key taking over, messages of the server, closing) keep the invariant
  of the session; then any run of a session: its loop interleaved with TLS, the network, the watchdog and its owner (C39).
\<close>

section \<open>Keys of the channel\<close>

lemma kviews_same_keys: "map kview (cl_ks c') = map kview (cl_ks c) \<Longrightarrow> same_keys c c'"
proof -
  assume m: "map kview (cl_ks c') = map kview (cl_ks c)"
  then have n: "length (cl_ks c') = length (cl_ks c)" by (rule map_eq_imp_length_eq)
  have "kview (cl_ks c' ! q) = kview (cl_ks c ! q)" if "q < length (cl_ks c)" for q
    using arg_cong [OF m, of "\<lambda>xs. xs ! q"] that n by simp
  then show ?thesis using n by (simp add: same_keys_def ksAt_def kview_def)
qed

lemma installKey_slots:
  assumes c: "base_ok c" and ch: "channel_ok (cl_store c) ch" and a: "cl_store c a = Some dk" and i: "unat (ks_KeyID dk) < 8"
  shows "base_ok (installKey a ch c) \<and> (\<exists>ch'. cl_data (installKey a ch c) = Some ch' \<and> cs_primary (c_state ch') = Some a \<and>
     cs_keys (c_state ch') = (cs_keys (c_state ch))[unat (ks_KeyID dk) := Some a])"
    "cl_ks (installKey a ch c) = cl_ks c" "loop_fields (installKey a ch c) = loop_fields (c\<lparr>cl_data := cl_data (installKey a ch c)\<rparr>)"
proof -
  obtain st' ch' where p: "SetPrimary (cl_store c) ch (Some a) = (st', ch')" by fastforce
  have ok: "store_ok st'" "channel_ok st' ch'" using SetPrimary_ok [OF _ ch p] c by (auto simp: base_ok_def)
  have st: "st' = (cl_store c)(a \<mapsto> setReplayWindow dk (o_ReplayWindow (c_opts ch)))"
    and s: "cs_primary (c_state ch') = Some a" "cs_keys (c_state ch') = (cs_keys (c_state ch))[unat (ks_KeyID dk) := Some a]"
    using p a id_mask [OF i] by (auto simp: SetPrimary_def update_def KeyIDMask_def)
  have "st' b = None" if "b \<ge> cl_nextAddr c" for b using base_fresh [OF c that] a st by auto
  then have "base_ok (c\<lparr>cl_store := st', cl_data := Some ch'\<rparr>)" using c ok by (simp add: base_ok_def)
  then show "base_ok (installKey a ch c) \<and> (\<exists>ch'. cl_data (installKey a ch c) = Some ch' \<and> cs_primary (c_state ch') = Some a \<and>
     cs_keys (c_state ch') = (cs_keys (c_state ch))[unat (ks_KeyID dk) := Some a])"
    using p s by (simp add: installKey_def)
qed (simp_all add: installKey_def loop_fields_def split: prod.split)

lemma channel_switch:
  assumes k: "channel_keys ch i lam" and ch: "channel_ok st ch"
    and n: "cs_primary (c_state ch') = Some a" "cs_keys (c_state ch') = (cs_keys (c_state ch))[unat j := Some a]" "channel_ok st' ch'"
    and i: "unat i < 8" "unat j < 8" "i \<noteq> j"
  shows "lam = None \<Longrightarrow> channel_keys ch' j (Some i)"
    "lam = Some r \<Longrightarrow> unat r < 8 \<Longrightarrow> r \<noteq> j \<Longrightarrow> channel_keys (DropKey ch' r) j (Some i)"
proof -
  have len: "length (cs_keys (c_state ch)) = 8" using ch by (simp add: channel_ok_def)
  have j: "cs_keys (c_state ch') ! unat j = Some a" using n(2) len i(2) by simp
  have slots: "cs_keys (c_state ch) ! m \<noteq> None" if "cs_keys (c_state ch') ! m \<noteq> None" "m \<noteq> unat j" for m using that n(2) by simp
  have others: "m = unat i \<or> (\<exists>r. lam = Some r \<and> m = unat r)" if "m < 8" "cs_keys (c_state ch) ! m \<noteq> None" for m
    using k that unfolding channel_keys_def by blast
  show "channel_keys ch' j (Some i)" if "lam = None"
    unfolding channel_keys_def using j n(1) slots others that by auto
  show "channel_keys (DropKey ch' r) j (Some i)" if r: "lam = Some r" "unat r < 8" "r \<noteq> j"
  proof -
    have "unat r \<noteq> unat j" using r(3) by (simp add: word_unat_eq_iff)
    moreover have "length (cs_keys (c_state ch')) = 8" using n(2) len by simp
    moreover note D = DropKey_other [OF n(3,1) j i(2) r(2) r(3) [symmetric]]
    ultimately have "cs_keys (c_state (DropKey ch' r)) ! m = (if m = unat r then None else cs_keys (c_state ch') ! m)" for m
      using r(2) by (simp add: nth_list_update)
    moreover have "cs_primary (c_state (DropKey ch' r)) = Some a" using D n(1) by simp
    ultimately show ?thesis unfolding channel_keys_def using j slots others r(1) \<open>unat r \<noteq> unat j\<close> by auto
  qed
qed

section \<open>A new key takes over\<close>

lemma session_activated:
  assumes s: "base_ok c" "loop_at p c" "l_up c" "l_negotiating c = Some q" and t: "k_tlsStarted (ksAt c q)"
    and b: "base_ok d" "length (cl_ks d) = length (cl_ks c)"
    and k: "\<And>x. x < length (cl_ks c) \<Longrightarrow> k_id (ksAt d x) = k_id (ksAt c x) \<and> k_dropped (ksAt d x) = (k_dropped (ksAt c x) \<or> l_lame c = Some x) \<and>
        k_exchanged (ksAt d x) = (k_exchanged (ksAt c x) \<or> x = q) \<and> k_tlsStarted (ksAt d x) = k_tlsStarted (ksAt c x) \<and>
        (k_server (ksAt d x) = None \<longleftrightarrow> k_server (ksAt c x) = None \<and> x \<noteq> q)"
    and f: "set (l_keys d) = set (l_keys c) - set_option (l_lame c)" "distinct (l_keys d)" "l_primary d = Some q" "l_lame d = Some p"
        "l_negotiating d = None" "l_lastKeyID d = l_lastKeyID c" "l_up d" "\<not> l_pushing d"
    and ch: "cl_data d = Some ch" "channel_keys ch (k_id (ksAt c q)) (Some (k_id (ksAt c p)))"
  shows "session_ok d"
proof -
  have l: "keys_ok c" "roles_ok p c" "phase_ok p c" "last_ok p c" using s(2) by (simp_all add: loop_at_def)
  have R: "x < length (cl_ks c)" if "x \<in> set (l_keys c)" for x by (rule keys_range [OF s(1) that])
  have pq: "p < length (cl_ks c)" "q < length (cl_ks c)" "p \<in> set (l_keys c)" "q \<in> set (l_keys c)"
    using roles_mem [OF l(2)] s(4) R by blast+
  have "l_lame c \<noteq> Some p" "l_lame c \<noteq> Some q" "p \<noteq> q" using l(2) s(4) by (auto simp: roles_ok_def)
  then have S: "set (l_keys d) = {p, q}" using f(1) l(2) s(4) by (auto simp: roles_ok_def)
  have ids: "k_id (ksAt c p) \<noteq> k_id (ksAt c q)" using l(1) pq \<open>p \<noteq> q\<close> unfolding keys_ok_def inj_on_def by metis
  have e: "k_exchanged (ksAt c p)" using l(3) s(3) by (simp add: phase_ok_def)
  have "k_dropped (ksAt d x) \<longleftrightarrow> x \<notin> set (l_keys d)" if "x < length (cl_ks d)" for x
    using k [of x] that l(1) f(1) b(2) by (auto simp: keys_ok_def)
  moreover have "k_tlsStarted (ksAt c p) \<and> k_server (ksAt c p) \<noteq> None" using l(1) pq(3) e by (simp add: keys_ok_def)
  ultimately have "keys_ok d" using f(2) ids k [OF pq(1)] k [OF pq(2)] t unfolding keys_ok_def S by (auto simp: inj_on_def)
  moreover have "roles_ok q d" using f S k [OF pq(1)] e \<open>p \<noteq> q\<close> by (auto simp: roles_ok_def)
  moreover have "last_ok q d" using l(4) s(4) f k [OF pq(2)] by (simp add: last_ok_def)
  moreover have "phase_ok q d" using f ch k [OF pq(1)] k [OF pq(2)] by (simp add: phase_ok_def)
  ultimately show ?thesis using b(1) by (auto simp: session_ok_def loop_at_def)
qed

lemma calm_kview: "calm c c' \<Longrightarrow> q < length (cl_ks c) \<Longrightarrow> kview (ksAt c' q) = kview (ksAt c q)"
proof -
  assume c: "calm c c'" and q: "q < length (cl_ks c)"
  have m: "map kview (cl_ks c') = map kview (cl_ks c)" using c by (simp add: calm_def loop_view_def)
  then have "length (cl_ks c') = length (cl_ks c)" by (rule map_eq_imp_length_eq)
  then show ?thesis using arg_cong [OF m, of "\<lambda>xs. xs ! q"] q by (simp add: ksAt_def)
qed

text \<open>The key before the last is dropped, if there is one.\<close>

lemma drop_lame_fields:
  assumes c: "base_ok c" and r: "\<And>r. l_lame c = Some r \<Longrightarrow> r < length (cl_ks c) \<and> \<not> k_dropped (ksAt c r)"
    and d: "d = (if l_lame c \<noteq> None then dropKey (l_lame c) c else c)"
  shows "base_ok d" "length (cl_ks d) = length (cl_ks c)"
    "x < length (cl_ks c) \<Longrightarrow> k_id (ksAt d x) = k_id (ksAt c x) \<and> k_dropped (ksAt d x) = (k_dropped (ksAt c x) \<or> l_lame c = Some x) \<and>
       k_exchanged (ksAt d x) = k_exchanged (ksAt c x) \<and> k_tlsStarted (ksAt d x) = k_tlsStarted (ksAt c x) \<and> k_server (ksAt d x) = k_server (ksAt c x)"
    "l_keys d = (case l_lame c of None \<Rightarrow> l_keys c | Some r \<Rightarrow> remove1 r (l_keys c))" "l_primary d = l_primary c"
    "l_lastKeyID d = l_lastKeyID c" "l_up d = l_up c" "l_pushing d = l_pushing c" "cl_d d = cl_d c"
    "cl_data d = (case l_lame c of Some r \<Rightarrow> if k_exchanged (ksAt c r) then map_option (\<lambda>ch. DropKey ch (k_id (ksAt c r))) (cl_data c) else cl_data c
       | None \<Rightarrow> cl_data c)"
proof -
  have "base_ok d \<and> length (cl_ks d) = length (cl_ks c) \<and>
    (x < length (cl_ks c) \<longrightarrow> k_id (ksAt d x) = k_id (ksAt c x) \<and> k_dropped (ksAt d x) = (k_dropped (ksAt c x) \<or> l_lame c = Some x) \<and>
       k_exchanged (ksAt d x) = k_exchanged (ksAt c x) \<and> k_tlsStarted (ksAt d x) = k_tlsStarted (ksAt c x) \<and> k_server (ksAt d x) = k_server (ksAt c x)) \<and>
    l_keys d = (case l_lame c of None \<Rightarrow> l_keys c | Some r \<Rightarrow> remove1 r (l_keys c)) \<and> l_primary d = l_primary c \<and>
    l_lastKeyID d = l_lastKeyID c \<and> l_up d = l_up c \<and> l_pushing d = l_pushing c \<and> cl_d d = cl_d c \<and>
    cl_data d = (case l_lame c of Some r \<Rightarrow> if k_exchanged (ksAt c r) then map_option (\<lambda>ch. DropKey ch (k_id (ksAt c r))) (cl_data c) else cl_data c
       | None \<Rightarrow> cl_data c)"
  proof (cases "l_lame c")
    case None
    then show ?thesis using c d by simp
  next
    case (Some r')
    have q: "r' < length (cl_ks c)" "\<not> k_dropped (ksAt c r')" using r Some by auto
    note F = dropKey_fields [OF q refl]
    have "ksAt (dropKey (Some r') c) x = (if x = r' then (ksAt c r')\<lparr>k_dropped := True, k_adapter := closeWith NetClosed (k_adapter (ksAt c r'))\<rparr> else ksAt c x)"
      using q(1) by (simp add: ksAt_def F(1) nth_list_update)
    then show ?thesis using base_dropKey [OF c q] Some by (simp add: d F(2-)) (simp add: F(1))
  qed
  then show "base_ok d" "length (cl_ks d) = length (cl_ks c)"
    "x < length (cl_ks c) \<Longrightarrow> k_id (ksAt d x) = k_id (ksAt c x) \<and> k_dropped (ksAt d x) = (k_dropped (ksAt c x) \<or> l_lame c = Some x) \<and>
       k_exchanged (ksAt d x) = k_exchanged (ksAt c x) \<and> k_tlsStarted (ksAt d x) = k_tlsStarted (ksAt c x) \<and> k_server (ksAt d x) = k_server (ksAt c x)"
    "l_keys d = (case l_lame c of None \<Rightarrow> l_keys c | Some r \<Rightarrow> remove1 r (l_keys c))" "l_primary d = l_primary c"
    "l_lastKeyID d = l_lastKeyID c" "l_up d = l_up c" "l_pushing d = l_pushing c" "cl_d d = cl_d c"
    "cl_data d = (case l_lame c of Some r \<Rightarrow> if k_exchanged (ksAt c r) then map_option (\<lambda>ch. DropKey ch (k_id (ksAt c r))) (cl_data c) else cl_data c
       | None \<Rightarrow> cl_data c)"
    by simp_all
qed

lemma good_activateKey:
  assumes s: "base_ok c" "loop_at p c" "l_up c" "l_negotiating c = Some q" and t: "k_tlsStarted (ksAt c q)"
    and c1: "c1 = setKs q (\<lambda>k. k\<lparr>k_exchanged := True, k_server := Some sm, k_cs := cs, k_canEKM := ekm\<rparr>) c"
  shows "good (activateKey q now c1)"
proof -
  have l: "keys_ok c" "roles_ok p c" "phase_ok p c" using s(2) by (simp_all add: loop_at_def)
  have q: "q < length (cl_ks c)" "q \<in> set (l_keys c)" "p \<noteq> q" "p < length (cl_ks c)" "p \<in> set (l_keys c)"
    using roles_mem [OF l(2)] s(4) keys_range [OF s(1)] l(2) by (auto simp: roles_ok_def)
  have A1: "ksAt c1 x = (if x = q then (ksAt c q)\<lparr>k_exchanged := True, k_server := Some sm, k_cs := cs, k_canEKM := ekm\<rparr> else ksAt c x)" for x
    using q(1) by (simp add: c1 setKs_def ksAt_def nth_list_update)
  have n1: "length (cl_ks c1) = length (cl_ks c)" by (simp add: c1 setKs_def)
  have "keyCtl_ok (ksAt c1 q)" using base_key [OF s(1) q(1)] by (simp add: A1 keyCtl_ok_def)
  then have b1: "base_ok c1" using s(1) q(1) by (auto simp: c1 base_ok_def setKs_def ksAt_def list_all_length nth_list_update)
  have F1: "loop_fields c1 = loop_fields c" by (simp add: c1 setKs_def loop_fields_def)
  obtain ch where ch: "cl_data c = Some ch" "channel_keys ch (k_id (ksAt c p)) (map_option (\<lambda>q. k_id (ksAt c q)) (l_lame c))"
    using l(3) s(3) by (auto simp: phase_ok_def)
  have ids: "unat (k_id (ksAt c x)) < 8" if "x < length (cl_ks c)" for x using base_key [OF s(1) that] by (simp add: keyCtl_ok_def)
  have pq: "k_id (ksAt c p) \<noteq> k_id (ksAt c q)" using l(1) q unfolding keys_ok_def inj_on_def by metis
  have "good (takeOver q now a c2)"
    if c2: "calm c1 c2" and a: "cl_store c2 a = Some dk" "ks_KeyID dk = k_id (ksAt c1 q)" for a c2 dk
  proof -
    have F2: "l_keys c2 = l_keys c" "l_primary c2 = Some p" "l_lame c2 = l_lame c" "l_negotiating c2 = Some q" "l_lastKeyID c2 = l_lastKeyID c"
        "l_up c2" "\<not> l_pushing c2" "cl_data c2 = Some ch"
      using c2 F1 s ch(1) l(2,3) by (auto simp: calm_def loop_view_def loop_fields_def roles_ok_def phase_ok_def)
    have K2: "k_id (ksAt c2 x) = k_id (ksAt c x) \<and> k_dropped (ksAt c2 x) = k_dropped (ksAt c x) \<and>
        k_exchanged (ksAt c2 x) = (k_exchanged (ksAt c x) \<or> x = q) \<and> k_tlsStarted (ksAt c2 x) = k_tlsStarted (ksAt c x) \<and>
        (k_server (ksAt c2 x) = None \<longleftrightarrow> k_server (ksAt c x) = None \<and> x \<noteq> q)" if "x < length (cl_ks c)" for x
      using calm_kview [OF c2, of x] that n1 A1 [of x] by (auto simp: kview_def)
    have n2: "length (cl_ks c2) = length (cl_ks c)" using calm_same_keys [OF c2] n1 by (simp add: same_keys_def)
    have dk: "ks_KeyID dk = k_id (ksAt c q)" using a(2) A1 [of q] by simp
    define c3 where "c3 = installKey a ch c2"
    have chok: "channel_ok (cl_store c2) ch" using base_channel [OF calm_base [OF c2] F2(8)] by simp
    obtain ch3 where I: "base_ok c3" "cl_data c3 = Some ch3" "cs_primary (c_state ch3) = Some a"
        "cs_keys (c_state ch3) = (cs_keys (c_state ch))[unat (k_id (ksAt c q)) := Some a]"
      and I2: "cl_ks c3 = cl_ks c2" "loop_fields c3 = loop_fields (c2\<lparr>cl_data := cl_data c3\<rparr>)"
      using installKey_slots [OF calm_base [OF c2] chok a(1)] ids [OF q(1)] dk unfolding c3_def by auto
    have F3: "l_keys c3 = l_keys c" "l_primary c3 = Some p" "l_lame c3 = l_lame c" "l_negotiating c3 = Some q" "l_lastKeyID c3 = l_lastKeyID c"
        "l_up c3" "\<not> l_pushing c3" "length (cl_ks c3) = length (cl_ks c)" "\<And>x. ksAt c3 x = ksAt c2 x"
      using I2 F2 n2 by (simp_all add: loop_fields_def ksAt_def)
    have lame: "r < length (cl_ks c) \<and> \<not> k_dropped (ksAt c r) \<and> k_exchanged (ksAt c r) \<and> r \<noteq> q \<and> r \<in> set (l_keys c)" if "l_lame c = Some r" for r
      using that roles_mem(2) [OF l(2) that] keys_range [OF s(1)] l(1,2) s(4) by (auto simp: keys_ok_def roles_ok_def)
    define c4 where "c4 = (if l_lame c3 \<noteq> None then dropKey (l_lame c3) c3 else c3)"
    have "r < length (cl_ks c3) \<and> \<not> k_dropped (ksAt c3 r)" if "l_lame c3 = Some r" for r
      using lame that K2 unfolding F3 by auto
    note D = drop_lame_fields [OF I(1) this c4_def]
    define ch4 where "ch4 = (case l_lame c of None \<Rightarrow> ch3 | Some r \<Rightarrow> DropKey ch3 (k_id (ksAt c r)))"
    have ch3ok: "channel_ok (cl_store c3) ch3" using base_channel [OF I(1,2)] by simp
    note W = channel_switch [OF ch(2) chok I(3,4) ch3ok ids [OF q(4)] ids [OF q(1)] pq]
    have ch4: "channel_keys ch4 (k_id (ksAt c q)) (Some (k_id (ksAt c p)))"
    proof (cases "l_lame c")
      case None
      then show ?thesis using W(1) by (simp add: ch4_def)
    next
      case (Some r)
      have "k_id (ksAt c r) \<noteq> k_id (ksAt c q)" using l(1) lame [OF Some] q(2) unfolding keys_ok_def inj_on_def by metis
      then show ?thesis using W(2) [of "k_id (ksAt c r)"] Some ids lame [OF Some] by (simp add: ch4_def)
    qed
    have d4: "cl_data c4 = Some ch4"
      using D(10) I(2) lame K2 unfolding F3 by (auto simp: ch4_def split: option.splits)
    define c5 where "c5 = setKs q (\<lambda>k. k\<lparr>k_established := now\<rparr>)
      ((setKs p (\<lambda>k. k\<lparr>k_expires := time_add now (d_transition (cl_d c4))\<rparr>) c4)\<lparr>l_lame := Some p, l_primary := Some q, l_negotiating := None\<rparr>)"
    have e: "takeOver q now a c2 = ok c5"
      using D(5) F3(2) unfolding takeOver_def F2(8) option.case Let_def c3_def [symmetric] c4_def [symmetric] c5_def by simp
    have A5: "k_id (ksAt c5 x) = k_id (ksAt c4 x) \<and> k_dropped (ksAt c5 x) = k_dropped (ksAt c4 x) \<and> k_exchanged (ksAt c5 x) = k_exchanged (ksAt c4 x) \<and>
        k_tlsStarted (ksAt c5 x) = k_tlsStarted (ksAt c4 x) \<and> k_server (ksAt c5 x) = k_server (ksAt c4 x)" if "x < length (cl_ks c)" for x
      using that q D(2) F3(8) by (simp add: c5_def setKs_def ksAt_def nth_list_update)
    have "session_ok c5"
    proof (rule session_activated [OF s t])
      have e4: "calm c4 (setKs p (\<lambda>k. k\<lparr>k_expires := time_add now (d_transition (cl_d c4))\<rparr>) c4)"
        by (rule calm_setKs [OF D(1)]) (simp_all add: keyCtl_ok_def kview_def)
      let ?c = "(setKs p (\<lambda>k. k\<lparr>k_expires := time_add now (d_transition (cl_d c4))\<rparr>) c4)\<lparr>l_lame := Some p, l_primary := Some q, l_negotiating := None\<rparr>"
      have "base_ok ?c" by (rule base_ok_cong [OF calm_base [OF e4]]) (simp add: base_view_def)
      then have "calm ?c c5" unfolding c5_def by (rule calm_setKs) (simp_all add: keyCtl_ok_def kview_def)
      then show "base_ok c5" by (rule calm_base)
      show "length (cl_ks c5) = length (cl_ks c)" using D(2) F3 by (simp add: c5_def setKs_def)
      show "k_id (ksAt c5 x) = k_id (ksAt c x) \<and> k_dropped (ksAt c5 x) = (k_dropped (ksAt c x) \<or> l_lame c = Some x) \<and>
        k_exchanged (ksAt c5 x) = (k_exchanged (ksAt c x) \<or> x = q) \<and> k_tlsStarted (ksAt c5 x) = k_tlsStarted (ksAt c x) \<and>
        (k_server (ksAt c5 x) = None \<longleftrightarrow> k_server (ksAt c x) = None \<and> x \<noteq> q)" if "x < length (cl_ks c)" for x
        using D(3) [of x] K2 [OF that] A5 [OF that] that F3 by simp
      have k5: "l_keys c5 = l_keys c4" by (simp add: c5_def setKs_def)
      show "set (l_keys c5) = set (l_keys c) - set_option (l_lame c)" "distinct (l_keys c5)"
        using l(1) D(4) F3 unfolding k5 keys_ok_def by (auto split: option.splits)
      show "l_primary c5 = Some q" "l_lame c5 = Some p" "l_negotiating c5 = None" "l_lastKeyID c5 = l_lastKeyID c" "l_up c5" "\<not> l_pushing c5"
        "cl_data c5 = Some ch4"
        using D F3 d4 by (simp_all add: c5_def setKs_def)
      show "channel_keys ch4 (k_id (ksAt c q)) (Some (k_id (ksAt c p)))" by (rule ch4)
    qed
    then show ?thesis unfolding e by auto
  qed
  then show ?thesis unfolding activateKey_def
    by (intro runs_andThen [OF runs_weaken [OF runs_dataKey [OF b1]]]) (use q(1) n1 A1 in \<open>auto simp: calm_base\<close>)
qed

section \<open>The tunnel comes up\<close>

lemma session_up:
  assumes c: "base_ok c" "loop_at p c" and e: "k_exchanged (ksAt c p)" "\<not> l_up c"
    and d: "base_ok d" "same_keys c d" "l_keys d = l_keys c" "l_primary d = l_primary c" "l_lame d = l_lame c" "l_negotiating d = l_negotiating c"
      "l_lastKeyID d = l_lastKeyID c" "l_up d" "\<not> l_pushing d" "cl_data d = Some ch" "channel_keys ch (k_id (ksAt c p)) None"
  shows "session_ok d"
proof -
  let ?d = "d\<lparr>l_up := l_up c, l_pushing := l_pushing c, cl_ready := cl_ready c, cl_data := cl_data c\<rparr>"
  have "same_keys c ?d" using d(2) by (simp add: same_keys_def ksAt_def)
  then have l: "loop_at p ?d" by (rule loop_at_same [OF c]) (simp add: loop_fields_def d)
  then have "keys_ok ?d" "roles_ok p ?d" "last_ok p ?d" unfolding loop_at_def by blast+
  then have "keys_ok d" "roles_ok p d" "last_ok p d" unfolding keys_ok_def roles_ok_def last_ok_def ksAt_def by simp_all
  moreover have "l_lame d = None" using l e(2) by (simp add: loop_at_def phase_ok_def)
  moreover have "p < length (cl_ks c)" using c keys_range roles_mem(1) by (auto simp: loop_at_def)
  then have "k_id (ksAt d p) = k_id (ksAt c p)" "k_exchanged (ksAt d p)" using d(2) e(1) by (simp_all add: same_keys_def)
  ultimately show ?thesis using d by (auto simp: session_ok_def loop_at_def phase_ok_def)
qed

lemma calm_settleSession: "base_ok c \<Longrightarrow> calm c (settleSession c)"
  by (rule calm_fields) (auto simp: settleSession_def Let_def views)

lemma chooseCipher_safe: "chooseCipher cs fb p o' \<noteq> Inl Panic" and dataDigest_safe: "dataDigest opt cipher \<noteq> Inl Panic"
  by (auto simp: chooseCipher_def dataDigest_def Let_def split: option.splits)

text \<open>The end of the setup, once there is a data key.\<close>

lemma good_setup_end:
  assumes c: "base_ok c" "loop_at p c" and e: "k_exchanged (ksAt c p)" "\<not> l_up c" "\<not> cl_ready c"
    and a: "cl_store c a = Some dk" "ks_KeyID dk = k_id (ksAt c p)"
  shows "good (markUp p now ((settleSession (openChannel a (setPacketCeiling m c)))\<lparr>cl_info := info\<rparr>))"
proof -
  have p: "p < length (cl_ks c)" using c keys_range roles_mem(1) by (auto simp: loop_at_def)
  have i: "unat (k_id (ksAt c p)) < 8" using base_key [OF c(1) p] by (simp add: keyCtl_ok_def)
  let ?c1 = "setPacketCeiling m c"
  have C1: "calm c ?c1" using c(1) by (auto intro!: calm_fields simp: setPacketCeiling_def views)
  have s1: "cl_store ?c1 = cl_store c" by (simp add: setPacketCeiling_def)
  obtain o' where op: "openChannel a ?c1 = installKey a (NewChannel o') ?c1" by (simp add: openChannel_def Let_def)
  define c2 where "c2 = installKey a (NewChannel o') ?c1"
  obtain ch where I: "base_ok c2" "cl_data c2 = Some ch" "cs_primary (c_state ch) = Some a"
      "cs_keys (c_state ch) = (cs_keys (c_state (NewChannel o')))[unat (k_id (ksAt c p)) := Some a]"
    and I2: "cl_ks c2 = cl_ks ?c1" "loop_fields c2 = loop_fields (?c1\<lparr>cl_data := cl_data c2\<rparr>)"
    using installKey_slots [where c = ?c1 and ch = "NewChannel o'" and a = a and dk = dk, OF calm_base [OF C1] NewChannel_ok] a i s1
    unfolding c2_def by auto
  have "cs_keys (c_state (NewChannel o')) = replicate 8 None" by (simp add: NewChannel_def Let_def)
  then have ch: "channel_keys ch (k_id (ksAt c p)) None" using I(3,4) i by (auto simp: channel_keys_def nth_list_update)
  let ?c3 = "(settleSession c2)\<lparr>cl_info := info\<rparr>"
  have C3: "calm c2 ?c3" using calm_settleSession [OF I(1)] by (rule calm_trans) (auto intro!: calm_fields calm_base [OF calm_settleSession [OF I(1)]] simp: views)
  define c4 where "c4 = setKs p (\<lambda>k. k\<lparr>k_established := now\<rparr>) (?c3\<lparr>l_up := True, l_pushing := False\<rparr>)"
  define c5 where "c5 = (let c = markSend now (markRecv now c4)
    in c\<lparr>cl_pingNs := l_ping c, cl_pingRestartNs := l_pingRestart c, cl_established := True\<rparr>)"
  have b3: "base_ok (?c3\<lparr>l_up := True, l_pushing := False\<rparr>)" using calm_base [OF C3] by (rule base_ok_cong) (simp add: base_view_def)
  have "calm (?c3\<lparr>l_up := True, l_pushing := False\<rparr>) c4" unfolding c4_def
    by (rule calm_setKs [OF b3]) (simp_all add: keyCtl_ok_def kview_def)
  moreover have "calm c4 c5" by (rule calm_fields [OF calm_base [OF calculation]]) (simp_all add: c5_def markSend_def markRecv_def Let_def views)
  ultimately have C5: "calm (?c3\<lparr>l_up := True, l_pushing := False\<rparr>) c5" by (rule calm_trans)
  have F3: "l_keys ?c3 = l_keys c" "l_primary ?c3 = l_primary c" "l_lame ?c3 = l_lame c" "l_negotiating ?c3 = l_negotiating c"
      "l_lastKeyID ?c3 = l_lastKeyID c" "cl_ready ?c3 = cl_ready c" "cl_data ?c3 = Some ch" "map kview (cl_ks ?c3) = map kview (cl_ks c)"
    using C3 I2 I(2) C1 by (simp_all add: calm_def loop_view_def loop_fields_def)
  have F5: "loop_view c5 = loop_view (?c3\<lparr>l_up := True, l_pushing := False\<rparr>)" using C5 by (simp add: calm_def)
  let ?d = "c5\<lparr>cl_ready := True\<rparr>"
  have "base_ok ?d" using calm_base [OF C5] by (rule base_ok_cong) (simp add: base_view_def)
  moreover have "map kview (cl_ks ?d) = map kview (cl_ks c)" using F5 F3(8) by (simp add: loop_view_def)
  then have "same_keys c ?d" by (rule kviews_same_keys)
  ultimately have "session_ok ?d"
    by (rule session_up [OF c e(1,2), where ch = ch]) (use F5 F3 ch in \<open>simp_all add: loop_view_def\<close>)
  moreover have "\<not> cl_ready c5" using F5 F3(6) e(3) by (simp add: loop_view_def)
  moreover have "markUp p now ?c3 = (if cl_ready c5 then (Inl Panic, c5) else ok ?d)"
    unfolding markUp_def c5_def c4_def Let_def ..
  ultimately show ?thesis unfolding op c2_def [symmetric] by auto
qed

lemma loop_at_calm: "base_ok c \<Longrightarrow> loop_at p c \<Longrightarrow> calm c c' \<Longrightarrow> loop_at p c'"
  by (erule loop_at_same) (auto simp: calm_same_keys, simp add: calm_def loop_view_def loop_fields_def)

lemma good_completeSetup:
  assumes s: "session_ok c" and e: "l_pushing c" "\<not> l_up c"
  shows "good (completeSetup now c)"
proof -
  obtain p where c: "base_ok c" "loop_at p c" using s by (auto simp: session_ok_def)
  have l: "keys_ok c" "roles_ok p c" "phase_ok p c" using c(2) by (simp_all add: loop_at_def)
  have p: "l_primary c = Some p" "p \<in> set (l_keys c)" "p < length (cl_ks c)" "k_exchanged (ksAt c p)" "\<not> cl_ready c"
    using l(2,3) e roles_mem(1) [OF l(2)] keys_range [OF c(1)] by (auto simp: roles_ok_def phase_ok_def)
  obtain sm where sm: "k_server (ksAt c p) = Some sm" using l(1) p(2,4) by (auto simp: keys_ok_def)
  let ?C = "chooseCipher (d_ciphers (cl_d c)) (d_fallback (cl_d c)) (p_Cipher (l_pushed c)) (sOptions sm)"
  have "good (andThen (dataKey p c1) (\<lambda>a c. markUp p now ((settleSession (openChannel a (setPacketCeiling m c)))\<lparr>cl_info := info a c\<rparr>)))"
    if c1: "c1 = c\<lparr>l_cipher := x, l_digest := y, l_keyDerivation := z\<rparr>" for c1 x y z m info
  proof -
    have C1: "calm c c1" using c(1) by (auto intro!: calm_fields simp: c1 views)
    have A: "ksAt c1 q = ksAt c q" "length (cl_ks c1) = length (cl_ks c)" for q by (simp_all add: c1 ksAt_def)
    have "good (markUp p now ((settleSession (openChannel a (setPacketCeiling m c2)))\<lparr>cl_info := info a c2\<rparr>))"
      if c2: "calm c1 c2" and a: "cl_store c2 a = Some dk" "ks_KeyID dk = k_id (ksAt c1 p)" for a c2 dk
    proof -
      have C2: "calm c c2" using C1 c2 by (rule calm_trans)
      have K: "kview (ksAt c2 p) = kview (ksAt c p)" using calm_kview [OF C2 p(3)] .
      show ?thesis
        by (rule good_setup_end [OF calm_base [OF C2] loop_at_calm [OF c C2] _ _ _ a(1)])
          (use C2 K p e(2) a(2) A in \<open>auto simp: kview_def calm_def loop_view_def\<close>)
    qed
    then show ?thesis
      by (intro runs_andThen [OF runs_weaken [OF runs_dataKey [OF calm_base [OF C1]]]]) (use p(3) sm A calm_base in auto)
  qed
  moreover have "good (Inl f, c)" if "dataDigest opt cipher = Inl f" for f opt cipher
    using dataDigest_safe [of opt cipher] that c(1) by (cases f) auto
  ultimately show ?thesis
    unfolding completeSetup_def Let_def p(1) option.case sm
    using chooseCipher_safe c(1)
    by (auto split: sum.split fault.split)
qed

section \<open>Messages and events\<close>

lemma session_pushed:
  assumes s: "session_ok c" and p: "pushedOk p"
  shows "session_ok (c\<lparr>l_pushed := p, l_gotPush := g\<rparr>)" "base_ok (c\<lparr>l_pushed := p\<rparr>)"
proof -
  have "calm c (c\<lparr>l_pushed := p, l_gotPush := g\<rparr>)" "calm c (c\<lparr>l_pushed := p\<rparr>)"
    using session_base [OF s] p by (simp_all add: calm_def base_ok_def loop_view_def)
  then show "session_ok (c\<lparr>l_pushed := p, l_gotPush := g\<rparr>)" "base_ok (c\<lparr>l_pushed := p\<rparr>)" using session_calm [OF s] calm_base by blast+
qed

lemma good_push_reply:
  assumes s: "session_ok c"
  shows "good (on_push_reply msg now c)"
proof (cases "l_up c \<or> \<not> l_pushing c")
  case True
  then show ?thesis using good_quiet [OF s calm_updateAuthToken [OF session_base [OF s]]] by (simp add: on_push_reply_def)
next
  case False
  obtain r p where r: "ApplyPushReply (l_pushed c) msg (o_PullFilters (d_opts (cl_d c))) = (r, p)" by fastforce
  have "pushedOk (l_pushed c)" using session_base [OF s] by (simp add: base_ok_def)
  then have k: "pushedOk p" "\<not> panics r" using ApplyPushReply_keeps [of "l_pushed c" msg "o_PullFilters (d_opts (cl_d c))"] r by (simp_all add: keeps_def)
  note S = session_pushed [OF s k(1)]
  have "good (completeSetup now (c\<lparr>l_pushed := p, l_gotPush := True\<rparr>))" by (rule good_completeSetup [OF S(1)]) (use False in auto)
  then show ?thesis using False k(2) S by (auto simp: on_push_reply_def r panics_def Let_def split: sum.split fault.split)
qed

lemma good_handleControlMessage:
  assumes s: "session_ok c"
  shows "good (handleControlMessage msg now c)"
proof -
  note b = session_base [OF s]
  have "base_ok (c\<lparr>l_authToken := t, l_authTokenUser := u\<rparr>)" for t u using b by (rule base_ok_cong) (simp add: base_view_def)
  then have "good (on_auth_failed x c)" for x using b by (auto simp: on_auth_failed_def)
  moreover have "session_ok (on_auth_pending x now c)" for x using session_calm [OF s calm_on_auth_pending [OF b]] .
  moreover obtain cmd x h where "cutChar (CHR '','') (trimRightSet [CHR 0x0D, CHR 0x0A, CHR 0x09, CHR '' ''] msg) = (cmd, x, h)"
    by (rule prod_cases3)
  ultimately show ?thesis using good_push_reply [OF s]
    unfolding handleControlMessage_def Let_def by (simp only: prod.case) (intro runs_if runs_ok runs_failed b s; assumption?)
qed

lemma base_exchanged:
  assumes "base_ok c"
  shows "base_ok (setKs q (\<lambda>k. k\<lparr>k_exchanged := True, k_server := x, k_cs := cs, k_canEKM := ekm\<rparr>) c)"
proof (cases "q < length (cl_ks c)")
  case True
  have "keyCtl_ok ((cl_ks c ! q)\<lparr>k_exchanged := True, k_server := x, k_cs := cs, k_canEKM := ekm\<rparr>)"
    using base_key [OF assms True] by (simp add: keyCtl_ok_def ksAt_def)
  then show ?thesis using assms True by (auto simp: base_ok_def setKs_def list_all_length nth_list_update)
qed (use assms in \<open>simp add: setKs_def list_update_beyond\<close>)

text \<open>The first key is exchanged: the tunnel is not up yet.\<close>

lemma session_exchanged:
  assumes s: "base_ok c" "loop_at p c" and u: "\<not> l_up c" and t: "k_tlsStarted (ksAt c p)"
  shows "session_ok ((setKs p (\<lambda>k. k\<lparr>k_exchanged := True, k_server := Some sm, k_cs := cs, k_canEKM := ekm\<rparr>) c)\<lparr>l_pushing := True\<rparr>)"
proof -
  let ?d = "(setKs p (\<lambda>k. k\<lparr>k_exchanged := True, k_server := Some sm, k_cs := cs, k_canEKM := ekm\<rparr>) c)\<lparr>l_pushing := True\<rparr>"
  have l: "keys_ok c" "roles_ok p c" "phase_ok p c" "last_ok p c" using s(2) by (simp_all add: loop_at_def)
  have n: "l_lame c = None" "l_negotiating c = None" using l(3) u by (simp_all add: phase_ok_def)
  then have k: "set (l_keys c) = {p}" using l(2) by (simp add: roles_ok_def)
  then have p: "p < length (cl_ks c)" using keys_range [OF s(1)] by simp
  have A: "ksAt ?d x = (if x = p then (ksAt c p)\<lparr>k_exchanged := True, k_server := Some sm, k_cs := cs, k_canEKM := ekm\<rparr> else ksAt c x)" for x
    using p by (simp add: setKs_def ksAt_def nth_list_update)
  have F: "l_keys ?d = l_keys c" "l_primary ?d = l_primary c" "l_lame ?d = None" "l_negotiating ?d = None" "l_lastKeyID ?d = l_lastKeyID c"
      "l_up ?d = l_up c" "l_pushing ?d" "cl_data ?d = cl_data c" "cl_ready ?d = cl_ready c" "length (cl_ks ?d) = length (cl_ks c)"
    using n by (simp_all add: setKs_def)
  have "base_ok ?d" using base_exchanged [OF s(1)] by (rule base_ok_cong) (simp add: base_view_def)
  moreover have "keys_ok ?d" using l(1) t unfolding keys_ok_def F k A by auto
  moreover have "roles_ok p ?d" using l(2) n unfolding roles_ok_def F A by simp
  moreover have "last_ok p ?d" using l(4) n unfolding last_ok_def F A by simp
  moreover have "phase_ok p ?d" using l(3) u unfolding phase_ok_def F A by simp
  ultimately show ?thesis by (auto simp: session_ok_def loop_at_def)
qed

text \<open>
  What the TLS goroutine of a key reports: nothing before it was started, the exchange once, and messages after it.
\<close>

definition event_ok :: "kptr \<Rightarrow> key_event \<Rightarrow> client \<Rightarrow> bool" where
  "event_ok p ev c \<longleftrightarrow> p < length (cl_ks c) \<and> k_tlsStarted (ksAt c p) \<and>
    (case ev of EvExchanged _ _ _ \<Rightarrow> \<not> k_exchanged (ksAt c p) | EvMessage _ \<Rightarrow> k_exchanged (ksAt c p) | EvError _ \<Rightarrow> True)"

lemma good_handleKeyEvent:
  assumes s: "session_ok c" and ev: "event_ok q ev c"
  shows "good (handleKeyEvent q ev now c)"
proof (cases "k_dropped (ksAt c q)")
  case True
  then show ?thesis using s by (auto simp: handleKeyEvent_def)
next
  case False
  obtain p where c: "base_ok c" "loop_at p c" using s by (auto simp: session_ok_def)
  have l: "keys_ok c" "roles_ok p c" "phase_ok p c" using c(2) by (simp_all add: loop_at_def)
  have q: "q < length (cl_ks c)" "k_tlsStarted (ksAt c q)" "q \<in> set (l_keys c)" using ev False l(1) by (auto simp: event_ok_def keys_ok_def)
  show ?thesis
  proof (cases ev)
    case (EvMessage m)
    then show ?thesis using False good_handleControlMessage [OF s] by (simp add: handleKeyEvent_def)
  next
    case (EvError e)
    then show ?thesis using False s c(1) by (auto simp: handleKeyEvent_def)
  next
    case (EvExchanged sm cs ekm)
    have ne: "\<not> k_exchanged (ksAt c q)" using ev EvExchanged by (simp add: event_ok_def)
    let ?d = "setKs q (\<lambda>k. k\<lparr>k_exchanged := True, k_server := Some sm, k_cs := cs, k_canEKM := ekm\<rparr>) c"
    have u: "l_up ?d = l_up c" by (simp add: setKs_def)
    show ?thesis
    proof (cases "l_up c")
      case True
      have "q \<noteq> p" "l_lame c \<noteq> Some q" using ne l(2,3) True by (auto simp: phase_ok_def roles_ok_def)
      then have "l_negotiating c = Some q" using q(3) l(2) by (auto simp: roles_ok_def)
      from good_activateKey [OF c True this q(2) refl] show ?thesis using False True u EvExchanged by (simp add: handleKeyEvent_def Let_def)
    next
      case up: False
      then have "q = p" using q(3) l(2,3) by (auto simp: phase_ok_def roles_ok_def)
      then have d: "session_ok (?d\<lparr>l_pushing := True\<rparr>)" using session_exchanged [OF c up] q(2) by simp
      have "calm (?d\<lparr>l_pushing := True\<rparr>) ((sendControlMessage (Some q) m (?d\<lparr>l_pushing := True\<rparr>))\<lparr>l_pushNext := t\<rparr>)" for m t
        by (rule calm_trans [OF calm_sendControlMessage [OF session_base [OF d]]])
          (rule calm_fields [OF calm_base [OF calm_sendControlMessage [OF session_base [OF d]]]], simp_all add: views)
      then show ?thesis using False up u EvExchanged session_calm [OF d] by (auto simp: handleKeyEvent_def Let_def)
    qed
  qed
qed

lemma good_beginClose:
  assumes s: "session_ok c"
  shows "good (beginClose now c)"
proof -
  note b = session_base [OF s]
  define d where "d = c\<lparr>l_closing := True, l_closeDeadline := time_add now closeGrace\<rparr>"
  have d: "session_ok d" unfolding d_def by (rule session_calm [OF s]) (auto intro!: calm_fields [OF b] simp: views)
  have "quiet d (case cl_data d of
         Some ch \<Rightarrow> if \<not> cl_tcp d \<and> l_exitNotify d > 0 then exitPackets now (nat (min (l_exitNotify d) maxExitNotify)) ch d else ok d
       | None \<Rightarrow> ok d)" (is "quiet d ?m")
    using session_base [OF d] quiet_exitPackets [OF session_base [OF d]] by (auto split: option.split intro!: quiet_ok)
  then have "quiet d (andThen ?m (\<lambda>_ c. failed SessionClosed c))"
    by (rule quiet_andThen) (auto intro!: quiet_failed dest: calm_base)
  then have "good (andThen ?m (\<lambda>_ c. failed SessionClosed c))" by (rule good_quiet [OF d])
  moreover have "calm d ((sendControlMessage po m d)\<lparr>l_exitSent := True\<rparr>)" for po m
    by (rule calm_trans [OF calm_sendControlMessage [OF session_base [OF d]]])
      (rule calm_fields [OF calm_base [OF calm_sendControlMessage [OF session_base [OF d]]]], simp_all add: views)
  ultimately show ?thesis using b session_calm [OF d] unfolding beginClose_def Let_def d_def [symmetric] by (auto intro!: runs_if)
qed

section \<open>Runs\<close>

text \<open>
  What may happen at any time: a round of the loop or an input to it, while the session is not over; a packet from the
  network; the owner writing or reading a packet; TLS writing to a key's adapter, reading from it or completing its handshake;
  the watchdog ending the session, or anyone else who may with any error (\<open>Close\<close> that waited long enough, a
  context that ended, a transport that died twice). What the TLS goroutine reports is in the order shown in \<open>Client_Tls\<close>. The last rule lets the outcomes of writes be anything.
\<close>

inductive client_does :: "client \<Rightarrow> unit act \<Rightarrow> bool" where
  loop_top: "\<not> isDone c \<Longrightarrow> client_does c (atTop now c)"
| loop_event: "\<not> isDone c \<Longrightarrow> event_ok p ev c \<Longrightarrow> client_does c (onInput (InEvent p ev) now c)"
| loop_input: "\<not> isDone c \<Longrightarrow> inp \<in> {InControl, InWake, InClosing} \<union> range InReadErr \<Longrightarrow> client_does c (onInput inp now c)"
| network: "pkt \<noteq> [] \<Longrightarrow> client_does c (dispatch pkt now c)"
| owner_write: "client_WritePacket b now c = (x, d) \<Longrightarrow> client_does c (if x = Inl Panic then Inl Panic else Inr (), d)"
| owner_read: "client_does c (ok (snd (client_ReadPacket n c)))"
| tls_write: "client_does c (ok (setKs p (\<lambda>k. k\<lparr>k_adapter := snd (adapter_Write (k_adapter k) b)\<rparr>) c))"
| tls_read: "client_does c (ok (setKs p (\<lambda>k. k\<lparr>k_adapter := snd (adapter_Read (k_adapter k) n)\<rparr>) c))"
| tls_done: "client_does c (ok (setKs p (\<lambda>k. k\<lparr>k_tlsDone := True\<rparr>) c))"
| watchdog: "watch c closing' now = Inl (Err e) \<Longrightarrow> client_does c (ok (cl_fail e c))"
| given_up: "client_does c (ok (cl_fail e c))"
| outcomes: "client_does c (ok (c\<lparr>cl_writes := ws\<rparr>))"

inductive client_run :: "client \<Rightarrow> client \<Rightarrow> bool" for c0 where
  start: "client_run c0 c0"
| step: "client_run c0 c \<Longrightarrow> client_does c (x, d) \<Longrightarrow> client_run c0 d"

definition run_ok :: "client \<Rightarrow> bool" where
  "run_ok c \<longleftrightarrow> base_ok c \<and> (isDone c \<or> session_ok c)"

abbreviation kept :: "unit act \<Rightarrow> bool" where
  "kept m \<equiv> runs run_ok (\<lambda>_. run_ok) m"

lemma isDone_calm_fail: "base_ok c \<Longrightarrow> run_ok (cl_fail e c)"
proof -
  assume "base_ok c"
  then have "base_ok (cl_fail e c)" by (rule base_ok_cong) (simp add: cl_fail_def base_view_def)
  then show ?thesis by (simp add: run_ok_def isDone_def cl_fail_def)
qed

lemma run_ok_loopEnd: "base_ok c \<Longrightarrow> run_ok (loopEnd e c)"
proof -
  assume c: "base_ok c"
  have f: "base_ok (cl_fail e c)" using isDone_calm_fail [OF c] by (simp add: run_ok_def)
  have "isDone (closeKeys d) = isDone d" for d
  proof -
    have "cl_err (foldl (\<lambda>c p. setKs p (\<lambda>k. k\<lparr>k_adapter := closeWith NetClosed (k_adapter k)\<rparr>) c) d ps) = cl_err d" for ps
      by (induction ps arbitrary: d) (simp_all add: setKs_def)
    then show ?thesis by (simp add: closeKeys_def isDone_def)
  qed
  then show ?thesis using calm_base [OF calm_adapter(4) [OF f]] by (simp add: loopEnd_def run_ok_def) (simp add: isDone_def cl_fail_def)
qed

lemma kept_ended: "good m \<Longrightarrow> (\<And>e c. base_ok c \<Longrightarrow> kept (f e c)) \<Longrightarrow> kept (case m of (Inl (Err e), c) \<Rightarrow> f e c | r \<Rightarrow> r)"
  by (cases m; cases "fst m"; cases "projl (fst m)") (auto simp: runs_def run_ok_def session_ok_def)

lemma good_loopTop: "session_ok c \<Longrightarrow> good (loopTop now c)"
  unfolding loopTop_def by (rule runs_andThen [OF good_tick]) (auto intro: good_quiet quiet_flush session_base)

lemma kept_atTop: "session_ok c \<Longrightarrow> kept (atTop now c)"
  unfolding atTop_def by (rule kept_ended [OF good_loopTop]) (auto intro: run_ok_loopEnd)

lemma flush_no_error: "fst (flush now c) \<noteq> Inl (Err e)"
proof -
  have p: "fst (flushPackets now i ps c) \<noteq> Inl (Err e)" for i ps c
    by (induction now i ps c rule: flushPackets.induct) (auto split: prod.split sum.split fault.split)
  have k: "fst (flushKey now p c) \<noteq> Inl (Err e)" for p c
    using \<open>\<And>i ps c. fst (flushPackets now i ps c) \<noteq> Inl (Err e)\<close> by (auto simp: flushKey_def Let_def split: prod.split sum.split)
  have "fst (flushKeys now ps c) \<noteq> Inl (Err e)" for ps c
  proof (induction ps arbitrary: c)
    case (Cons p ps)
    then show ?case using k [of p c] by (auto simp: andThen_def ok_def split: prod.split sum.split)
  qed (simp add: ok_def)
  then show ?thesis by (simp add: flush_def ok_def)
qed

lemma runs_flush: "base_ok c \<Longrightarrow> runs (\<lambda>_. False) (\<lambda>_. base_ok) (flush now c)"
  using quiet_flush [of c now] flush_no_error [of now c] by (auto simp: runs_def calm_def split: prod.splits sum.splits fault.splits)

lemma kept_onInput:
  assumes s: "session_ok c" and i: "\<And>p ev. inp = InEvent p ev \<Longrightarrow> event_ok p ev c"
  shows "kept (onInput inp now c)"
proof -
  have k: "list_all (\<lambda>p. unat (KeyID p) < 8) (cl_ctlIn c)" using session_base [OF s] by (simp add: base_ok_def)
  have "good (loopInput inp now c)"
  proof (cases inp)
    case InControl
    then show ?thesis using s k good_handleControlPacket [OF session_ctlIn [OF s]] by (auto simp: loopInput_def split: list.split)
  next
    case (InEvent p ev)
    then show ?thesis using good_handleKeyEvent [OF s i] by (simp add: loopInput_def)
  next
    case InWake
    then show ?thesis using s by (auto simp: loopInput_def)
  next
    case InClosing
    then show ?thesis using good_beginClose [OF s] by (simp add: loopInput_def)
  next
    case (InReadErr e)
    then show ?thesis using good_transportDown [OF s] by (simp add: loopInput_def)
  qed
  moreover have "kept (loopInputEnd e now d)" if "base_ok d" for e d
    unfolding loopInputEnd_def
    by (rule runs_andThen [OF runs_weaken [OF runs_flush [OF that]], where Q = "\<lambda>_. base_ok"]) (auto intro: run_ok_loopEnd)
  ultimately show ?thesis unfolding onInput_def by (rule kept_ended)
qed

lemma kept_quiet: "run_ok c \<Longrightarrow> quiet c m \<Longrightarrow> (\<And>d. snd m = d \<Longrightarrow> isDone c \<Longrightarrow> isDone d) \<Longrightarrow> kept m"
  by (cases m) (auto simp: runs_def run_ok_def split: sum.splits fault.splits dest: calm_base session_calm)

lemma isDone_writeRaw: "isDone c \<Longrightarrow> isDone (snd (writeRaw now b c))"
proof -
  have "cl_err (snd (connWrite b c)) = cl_err c" for b c
    by (auto simp: connWrite_def Let_def split: list.split wres.split)
  then have "cl_err (snd (writeLocked b c)) = cl_err c" by (auto simp: writeLocked_def split: prod.split option.split)
  moreover have "cl_err (snd r) \<noteq> None \<Longrightarrow> cl_err (snd (afterWrite now r)) \<noteq> None" for r
    by (cases r; cases "fst r") (auto simp: afterWrite_def markSend_def split: option.split)
  ultimately show "isDone c \<Longrightarrow> isDone (snd (writeRaw now b c))" by (simp add: isDone_def writeRaw_def)
qed

lemma isDone_dispatchData: "isDone c \<Longrightarrow> isDone (snd (dispatchData pkt now c))"
proof (cases "cl_data c")
  case (Some ch)
  assume d: "isDone c"
  obtain x st where o: "Open (cl_store c) ch [] pkt = (x, st)" by fastforce
  have q: "isDone (if k = KindPacket then queuePacket b e else if k = KindOCC then handleOCC b e else e)" if "isDone e" for k b e
    using that by (simp add: isDone_def queuePacket_def handleOCC_def cl_fail_def dropPacket_def)
  have dp: "isDone (dropPacket c)" using d by (simp add: isDone_def dropPacket_def)
  have m: "isDone (markRecv now (c\<lparr>cl_store := st\<rparr>))" using d by (simp add: isDone_def markRecv_def)
  show ?thesis
  proof (cases x)
    case (Inl f)
    then show ?thesis using d Some o by (cases f) (simp_all add: dispatchData_def ok_def isDone_def dropPacket_def)
  next
    case (Inr y)
    then show ?thesis using d Some o q [OF m] by (cases y) (simp add: dispatchData_def ok_def Let_def dp)
  qed
qed (simp add: dispatchData_def ok_def)

lemma isDone_dispatchControl: "isDone c \<Longrightarrow> isDone (snd (dispatchControl pkt c))"
proof -
  assume d: "isDone c"
  obtain x w where u: "wrapper_Unwrap (cl_wrapper c) pkt = (x, w)" by fastforce
  show ?thesis
  proof (cases x)
    case (Inl f)
    then show ?thesis using d u by (cases f) (simp_all add: dispatchControl_def ok_def isDone_def)
  next
    case (Inr p)
    then show ?thesis using d u by (simp add: dispatchControl_def ok_def isDone_def Let_def)
  qed
qed

lemma isDone_dispatch: "isDone c \<Longrightarrow> isDone (snd (dispatch pkt now c))"
  using isDone_dispatchData [of c pkt now] isDone_dispatchControl [of c pkt]
  by (cases pkt) (simp_all add: dispatch_def ok_def Let_def)

lemma isDone_WritePacket: "isDone c \<Longrightarrow> client_WritePacket b now c = (x, d) \<Longrightarrow> isDone d"
  by (auto simp: client_WritePacket_def isDone_def split: option.splits)

lemma run_ok_calm: "run_ok c \<Longrightarrow> calm c d \<Longrightarrow> (isDone c \<Longrightarrow> isDone d) \<Longrightarrow> run_ok d"
  unfolding run_ok_def using calm_base session_calm by blast

lemma kept_calm:
  assumes "run_ok c" "calm c d" "cl_err d = cl_err c"
  shows "kept (ok d)"
proof (rule runs_ok)
  show "run_ok d" by (rule run_ok_calm [OF assms(1,2)]) (simp add: isDone_def assms(3))
qed

lemma kept_does:
  assumes "run_ok c" "client_does c r"
  shows "kept r"
  using assms(2)
proof cases
  case (loop_top now)
  then show ?thesis using assms(1) kept_atTop by (simp add: run_ok_def)
next
  case (loop_event p ev now)
  then show ?thesis using assms(1) kept_onInput [of c "InEvent p ev"] by (simp add: run_ok_def)
next
  case (loop_input inp now)
  then show ?thesis using assms(1) kept_onInput [of c inp] by (auto simp: run_ok_def)
next
  case (network pkt now)
  then show ?thesis using assms(1) kept_quiet [OF assms(1) quiet_dispatch] isDone_dispatch by (auto simp: run_ok_def)
next
  case (owner_write b now x d)
  have "x \<noteq> Inl Panic \<and> calm c d" using client_WritePacket_safe [OF _ owner_write(2)] assms(1) by (simp add: run_ok_def)
  then have "run_ok d" "x \<noteq> Inl Panic" using run_ok_calm [OF assms(1)] isDone_WritePacket [OF _ owner_write(2)] by blast+
  then show ?thesis unfolding owner_write(1) by (simp add: runs_def)
next
  case (owner_read n)
  have "calm c (snd (client_ReadPacket n c))" "cl_err (snd (client_ReadPacket n c)) = cl_err c"
    using assms(1) by (auto simp: client_ReadPacket_def run_ok_def views split: list.split option.split intro!: calm_fields)
  then show ?thesis using owner_read kept_calm [OF assms(1)] by simp
next
  case (tls_write p b)
  then show ?thesis using assms(1) kept_calm [OF assms(1) calm_adapter(1)] by (simp add: run_ok_def setKs_def)
next
  case (tls_read p n)
  then show ?thesis using assms(1) kept_calm [OF assms(1) calm_adapter(2)] by (simp add: run_ok_def setKs_def)
next
  case (tls_done p)
  then show ?thesis using assms(1) kept_calm [OF assms(1) calm_adapter(3)] by (simp add: run_ok_def setKs_def)
next
  case (watchdog closing' now e)
  then show ?thesis using assms(1) isDone_calm_fail by (auto simp: run_ok_def)
next
  case (given_up e)
  then show ?thesis using assms(1) isDone_calm_fail by (auto simp: run_ok_def)
next
  case (outcomes ws)
  have "calm c (c\<lparr>cl_writes := ws\<rparr>)" using assms(1) by (auto simp: run_ok_def views intro!: calm_fields)
  then show ?thesis using outcomes kept_calm [OF assms(1)] by simp
qed

lemma run_ok_run: "client_run c0 c \<Longrightarrow> run_ok c0 \<Longrightarrow> run_ok c"
proof (induction rule: client_run.induct)
  case (step c x d)
  then have "kept (x, d)" using kept_does by blast
  then show ?case by (auto simp: runs_def split: sum.splits fault.splits)
qed

end
