(* ===== verification/Client_Session.thy ===== *)
theory Client_Session
  imports Client_Run Ctlwrap_Sessions
begin

text \<open>
  The session as a whole: the one \<open>newClient\<close> makes satisfies the invariant, so every state it can come to does, and no step panics.
\<close>

section \<open>A new session\<close>

lemma newWrapper_ok: "newWrapper we opt w = Inr x \<Longrightarrow> wrapper_ok x"
proof (cases w)
  case WrapPlain
  then show "newWrapper we opt w = Inr x \<Longrightarrow> wrapper_ok x" by (auto simp: newWrapper_def wrapper_ok_def)
next
  case (WrapTLSAuth k)
  then show "newWrapper we opt w = Inr x \<Longrightarrow> wrapper_ok x"
    using new_window_ok(1) by (fastforce simp: newWrapper_def wrapRes_def wrapper_ok_def split: sum.splits fault.splits)
next
  case (WrapTLSCrypt k)
  then show "newWrapper we opt w = Inr x \<Longrightarrow> wrapper_ok x"
    using new_window_ok(2) by (fastforce simp: newWrapper_def wrapRes_def wrapper_ok_def NewTLSCrypt_def split: sum.splits fault.splits)
next
  case (WrapTLSCryptV2 k wkc)
  then show "newWrapper we opt w = Inr x \<Longrightarrow> wrapper_ok x"
    using new_window_ok(2) by (fastforce simp: newWrapper_def wrapRes_def wrapper_ok_def NewTLSCryptV2Client_def rbind_def split: sum.splits fault.splits)
qed

text \<open>The fields the invariant looks at, before the first key is made.\<close>

lemma blank_fields:
  "base_view (setHandshakeDeadline t (e\<lparr>l_ourSID := sid, cl_rand := rnd\<rparr>)) = base_view e"
  "loop_view (setHandshakeDeadline t (e\<lparr>l_ourSID := sid, cl_rand := rnd\<rparr>)) = loop_view e"
  "base_view (setPacketCeiling m e) = base_view e" "loop_view (setPacketCeiling m e) = loop_view e"
  "cl_err (setHandshakeDeadline t (e\<lparr>l_ourSID := sid, cl_rand := rnd\<rparr>)) = cl_err e" "cl_err (setPacketCeiling m e) = cl_err e"
  by (simp_all add: setHandshakeDeadline_def setPacketCeiling_def views Let_def)

lemma blank_ok:
  assumes "wrapper_ok w" "crypto_ok (w_crypto wd)"
  shows "base_ok (blankClient wd d r rnd w now)"
  using assms NewPushed_ok by (simp add: base_ok_def blankClient_def store_ok_def)

text \<open>A session whose first key was just made.\<close>

lemma first_key:
  assumes b: "base_ok e" and k: "newKey_ok 0 k"
    and e: "l_keys e = []" "cl_ks e = []" "l_lame e = None" "l_negotiating e = None" "\<not> l_up e" "cl_data e = None" "\<not> cl_ready e" "\<not> l_pushing e"
    and c: "c = e\<lparr>cl_rand := rnd, cl_ks := [k], l_keys := [0], l_lastKeyID := 0, l_primary := Some 0\<rparr>"
  shows "session_ok c"
proof -
  have F: "l_keys c = [0]" "cl_ks c = [k]" "l_lame c = None" "l_negotiating c = None" "\<not> l_up c" "cl_data c = None" "\<not> cl_ready c"
      "\<not> l_pushing c" "l_lastKeyID c = 0" "l_primary c = Some 0" "ksAt c 0 = k"
    using e by (simp_all add: c ksAt_def)
  have "base_ok c" using b k by (simp add: c base_ok_def newKey_ok_def)
  moreover have "loop_at 0 c" using k by (simp add: loop_at_def keys_ok_def roles_ok_def phase_ok_def last_ok_def newKey_ok_def F)
  ultimately show ?thesis by (auto simp: session_ok_def)
qed

lemma newClient_ok:
  assumes "newClient we wd d r rnd now = Inr c" "crypto_ok (w_crypto wd)"
  shows "session_ok c \<and> \<not> isDone c"
proof -
  obtain w where w: "newWrapper we (d_opts d) (d_wrap d) = Inr w"
    using assms(1) by (cases "newWrapper we (d_opts d) (d_wrap d)") (auto simp: newClient_def rbind_def)
  define e where "e = setPacketCeiling (o_TunMTU (d_opts d)) (blankClient wd d r rnd w now)"
  obtain x rn where x: "pickSessionID (cl_rand e) = (x, rn)" by fastforce
  then obtain sid where sid: "x = Inr sid" using assms(1) by (cases x) (auto simp: newClient_def w rbind_def e_def [symmetric] Let_def)
  define f where "f = setHandshakeDeadline (time_add now (d_timeout d)) (e\<lparr>l_ourSID := sid, cl_rand := rn\<rparr>)"
  obtain y g where y: "newKeyState 0 (d_resetOp d) f = (y, g)" by fastforce
  have n: "newClient we wd d r rnd now = (case y of Inl Panic \<Rightarrow> Inl Panic | Inl (Err e) \<Rightarrow> Inl (Err (SessionStart e)) | Inr p \<Rightarrow> Inr (g\<lparr>l_primary := Some p\<rparr>))"
    using y by (simp add: newClient_def w rbind_def e_def [symmetric] Let_def x sid f_def [symmetric] split: sum.split fault.split)
  obtain p where p: "y = Inr p" using n assms(1) by (cases y) (auto split: fault.splits)
  have V: "base_view f = base_view (blankClient wd d r rnd w now)" "loop_view f = loop_view (blankClient wd d r rnd w now)" "cl_err f = None"
    by (simp_all add: f_def e_def blank_fields) (simp add: blankClient_def)
  have b: "base_ok f" by (rule base_ok_cong [OF blank_ok [OF newWrapper_ok [OF w] assms(2)] V(1)])
  have L: "l_keys f = []" "cl_ks f = []" "l_lame f = None" "l_negotiating f = None" "\<not> l_up f" "cl_data f = None" "\<not> cl_ready f" "\<not> l_pushing f"
    using V(2) by (simp_all add: loop_view_def blankClient_def)
  obtain k r' where k: "newKey_ok 0 k" "p = 0" "g = f\<lparr>cl_rand := r', cl_ks := [k], l_keys := [0], l_lastKeyID := 0\<rparr>"
    using newKeyState_made [of 0 "d_resetOp d" f p g] y p L(1,2) by auto
  have c: "c = f\<lparr>cl_rand := r', cl_ks := [k], l_keys := [0], l_lastKeyID := 0, l_primary := Some 0\<rparr>" using assms(1) n p k by simp
  have "\<not> isDone c" using V(3) by (simp add: c isDone_def)
  then show ?thesis using first_key [OF b k(1) L c] by simp
qed

lemma startSession_ok:
  assumes "startSession we wd d r rnd start now = Inr c" "crypto_ok (w_crypto wd)"
  shows "session_ok c \<and> \<not> isDone c"
proof -
  obtain e where e: "newClient we wd d r rnd now = Inr e" "c = setHandshakeDeadline (time_add start (d_timeout d)) e"
    using assms(1) by (cases "newClient we wd d r rnd now") (auto simp: startSession_def rbind_def)
  note s = newClient_ok [OF e(1) assms(2)]
  have "calm e c" unfolding e(2) using s by (auto intro!: calm_fields session_base simp: setHandshakeDeadline_def views)
  then show ?thesis using s session_calm by (auto simp: isDone_def e(2) setHandshakeDeadline_def)
qed

section \<open>Every session\<close>

lemma session_keys:
  assumes "session_ok c"
  shows "length (l_keys c) \<le> 3 \<and> distinct (map (\<lambda>q. k_id (ksAt c q)) (l_keys c))"
proof -
  obtain p where l: "keys_ok c" "roles_ok p c" using assms by (auto simp: session_ok_def loop_at_def)
  have "card (set (l_keys c)) \<le> 3"
    using l(2) by (cases "l_lame c"; cases "l_negotiating c") (simp_all add: roles_ok_def card_insert_if)
  then show ?thesis using l(1) by (simp add: keys_ok_def distinct_card distinct_map)
qed

lemma session_phase:
  assumes "session_ok c"
  shows "if l_up c then \<exists>p ch. l_primary c = Some p \<and> k_exchanged (ksAt c p) \<and> cl_data c = Some ch \<and>
      channel_keys ch (k_id (ksAt c p)) (map_option (\<lambda>q. k_id (ksAt c q)) (l_lame c))
    else \<exists>p. l_keys c = [p] \<and> l_primary c = Some p \<and> cl_data c = None \<and> \<not> cl_ready c"
proof -
  obtain p where l: "keys_ok c" "roles_ok p c" "phase_ok p c" using assms by (auto simp: session_ok_def loop_at_def)
  show ?thesis
  proof (cases "l_up c")
    case False
    then have "set (l_keys c) = {p}" "distinct (l_keys c)" using l by (auto simp: phase_ok_def roles_ok_def keys_ok_def)
    then have "l_keys c = [p]" by (metis distinct_card card.insert card.empty finite.emptyI empty_iff length_0_conv length_Suc_conv list.simps(15) One_nat_def set_ConsD singletonD empty_set list.set_intros(1) set_empty)
    then show ?thesis using False l by (simp add: phase_ok_def roles_ok_def)
  next
    case True
    then show ?thesis using l by (auto simp: phase_ok_def roles_ok_def)
  qed
qed


definition demoEnv :: wrap_env where
  "demoEnv = \<lparr>we_hmac = (\<lambda>_ _ _. []), we_ctr = (\<lambda>_. None), we_pem = (\<lambda>_. None), we_now = 5\<rparr>"

definition demoWorld :: world where
  "demoWorld = \<lparr>w_crypto = demoCrypto2, w_ivs = (\<lambda>_. []), w_wall = int\<rparr>"

definition demoRemote :: remote where
  "demoRemote = \<lparr>r_Host = ''vpn.example'', r_Port = 1194, r_Network = ''udp''\<rparr>"

lemma demo_random:
  "pickSessionID (replicate 200 1) = (Inr (replicate 8 1), replicate 192 1)"
  "\<exists>src. NewClientKeySource (replicate 192 1) = (Inr src, replicate 80 1)"
proof -
  have "ReadFull (replicate 200 1) 8 = (Inr (replicate 8 1), replicate 192 (1 :: u8))" by code_simp
  moreover have "replicate 8 1 \<noteq> zeroSessionID" by code_simp
  ultimately show "pickSessionID (replicate 200 1) = (Inr (replicate 8 1), replicate 192 1)" by (subst pickSessionID.simps) simp
  have "case NewClientKeySource (replicate 192 1) of (Inr _, r) \<Rightarrow> r = replicate 80 1 | _ \<Rightarrow> False" by code_simp
  then show "\<exists>src. NewClientKeySource (replicate 192 1) = (Inr src, replicate 80 1)"
    by (cases "NewClientKeySource (replicate 192 1)"; cases "fst (NewClientKeySource (replicate 192 1))") auto
qed

lemma demo_starts: "\<exists>c0. startSession demoEnv demoWorld demoDialer demoRemote (replicate 200 1) 0 0 = Inr c0"
proof -
  obtain src where n: "NewClientKeySource (replicate 192 1) = (Inr src, replicate 80 1)" using demo_random(2) by blast
  have r: "cl_rand (setPacketCeiling m (blankClient wd d r rnd w t)) = rnd" for m wd d r rnd w t
    by (simp add: setPacketCeiling_def blankClient_def Let_def)
  have k: "\<exists>p c. newKeyState i op (setHandshakeDeadline t (e\<lparr>l_ourSID := s, cl_rand := replicate 192 1\<rparr>)) = (Inr p, c)" for i op t e s
    by (simp add: newKeyState_def n setHandshakeDeadline_def Let_def)
  have w: "newWrapper demoEnv (d_opts demoDialer) (d_wrap demoDialer) = Inr WPlain" by (simp add: newWrapper_def demoDialer_def)
  have "\<exists>c. newClient demoEnv demoWorld demoDialer demoRemote (replicate 200 1) 0 = Inr c"
    unfolding newClient_def w rbind_def sum.case Let_def r demo_random(1) prod.case
    by (rule exE [OF k], erule exE, erule ssubst) simp
  then obtain c where "newClient demoEnv demoWorld demoDialer demoRemote (replicate 200 1) 0 = Inr c" by blast
  then show ?thesis by (simp add: startSession_def rbind_def)
qed


end
