(* ===== verification/Client_Timers.thy ===== *)
theory Client_Timers
  imports Client_Flush Client_Session
begin

text \<open>
  The timers of the control loop. After a round of the loop nothing is due, so its sleep ends strictly later; and until then, if nothing
  comes in, another round would do nothing: the loop neither spins nor misses a deadline.
\<close>

section \<open>When nothing is due\<close>

definition settledUp :: "time \<Rightarrow> client \<Rightarrow> bool" where
  "settledUp now c \<longleftrightarrow>
    (0 < l_pingRestart c \<longrightarrow> sinceRecv c now < l_pingRestart c) \<and> (0 < l_ping c \<longrightarrow> 0 < pingWait c now) \<and> (l_probe c \<longrightarrow> 0 < probeWait c now) \<and>
    (\<forall>p. l_lame c = Some p \<longrightarrow> now < k_expires (ksAt c p)) \<and>
    (case l_negotiating c of Some p \<Rightarrow> now < k_deadline (ksAt c p) | None \<Rightarrow> \<not> renegotiationDue c now)"

definition settledClosing :: "time \<Rightarrow> client \<Rightarrow> bool" where
  "settledClosing now c \<longleftrightarrow> now < l_closeDeadline c \<and>
    (\<forall>p. l_primary c = Some p \<and> l_exitSent c \<longrightarrow> pendingOut (k_adapter (ksAt c p)) \<noteq> 0 \<or> Unacked (k_layer (ksAt c p)) \<noteq> 0)"

definition settledSetup :: "time \<Rightarrow> client \<Rightarrow> bool" where
  "settledSetup now c \<longleftrightarrow> now < l_hsDeadline c \<and> (\<not> l_haveServerSID c \<longrightarrow> now < l_connectDeadline c) \<and>
    (l_pushing c \<and> \<not> l_gotPush c \<longrightarrow> now < l_pushNext c)"

definition settled :: "time \<Rightarrow> client \<Rightarrow> bool" where
  "settled now c \<longleftrightarrow>
    (if l_readErr c \<noteq> None then now < l_readErrDeadline c
     else if \<not> l_up c then settledSetup now c else if l_closing c then settledClosing now c else settledUp now c)"

text \<open>The intervals the timers use are positive.\<close>

definition intervals_ok :: "client \<Rightarrow> bool" where
  "intervals_ok c \<longleftrightarrow> 0 < d_pushInterval (cl_d c) \<and> 0 < d_timeout (cl_d c) \<and> 0 < d_maxSleep (cl_d c) \<and> (l_probe c \<longrightarrow> 12 \<le> l_pingRestart c)"

lemma since_self [simp]: "since s s = 0"
  by (simp add: since_def)

lemma since_nonneg [simp]: "0 \<le> since s t"
  by (simp add: since_def)

lemma time_add_later: "0 < d \<Longrightarrow> now < time_add now d"
  by (simp add: time_add_def)

text \<open>A settled session does nothing.\<close>

lemma tick_settled: "settled now c \<Longrightarrow> tick now c = ok c"
proof -
  assume s: "settled now c"
  have up: "tick_up now c = ok c" if "settledUp now c"
  proof -
    have "tick_ping now c = ok c" "tick_probe now c = ok c" "tick_lame now c = c" "tick_negotiation now c = ok c"
      using that by (auto simp: settledUp_def tick_ping_def tick_probe_def tick_lame_def tick_negotiation_def split: option.splits)
    moreover have "\<not> (0 < l_pingRestart c \<and> l_pingRestart c \<le> sinceRecv c now)" using that by (auto simp: settledUp_def)
    ultimately show ?thesis unfolding tick_up_def by (subst if_not_P) (simp_all add: andThen_def ok_def)
  qed
  have "tick_setup now c = ok c" if "settledSetup now c" using that by (auto simp: settledSetup_def tick_setup_def)
  moreover have "tick_closing now c = ok c" if "settledClosing now c" using that by (auto simp: settledClosing_def tick_closing_def split: option.split)
  ultimately show ?thesis using s up unfolding settled_def tick_def by (auto split: option.splits)
qed

section \<open>The next deadline\<close>

lemma considered:
  "t < foldl (\<lambda>n t. considerTime t n) n ts \<longleftrightarrow> t < n \<and> (\<forall>s \<in> set ts. s = 0 \<or> t < s)"
proof (induction ts arbitrary: n)
  case (Cons s ts)
  have "t < considerTime s n \<longleftrightarrow> t < n \<and> (s = 0 \<or> t < s)" unfolding considerTime_def by (cases "s = 0"; cases "s < n") auto
  then show ?case unfolding foldl.simps Cons.IH by simp
qed simp

lemma nextDeadline_iff:
  "t < nextDeadline c now \<longleftrightarrow> t < time_add now (d_maxSleep (cl_d c)) \<and> (\<forall>s \<in> set (deadlines c now). s = 0 \<or> t < s)"
  by (simp add: nextDeadline_def considered)

text \<open>The layers of the keys are polled.\<close>

definition polledKeys :: "time \<Rightarrow> client \<Rightarrow> bool" where
  "polledKeys now c \<longleftrightarrow> (\<forall>p \<in> set (l_keys c). NextDeadline (k_layer (ksAt c p)) = 0 \<or> now < NextDeadline (k_layer (ksAt c p)))"

lemma settled_sleeps:
  assumes "settled now c" "intervals_ok c" "l_readErr c = None \<Longrightarrow> polledKeys now c"
  shows "now < nextDeadline c now"
proof -
  have m: "now < time_add now (d_maxSleep (cl_d c))" using assms(2) time_add_later by (simp add: intervals_ok_def)
  have w: "now < time_add now d" if "0 < d" for d by (rule time_add_later [OF that])
  have "s = 0 \<or> now < s" if "s \<in> set (deadlines c now)" for s
  proof (cases "l_readErr c")
    case (Some e)
    then show ?thesis using assms(1) that by (simp add: deadlines_def settled_def)
  next
    case None
    note k = assms(3) [OF None, unfolded polledKeys_def]
    consider "\<not> l_up c" | "l_up c" "l_closing c" | "l_up c" "\<not> l_closing c" by blast
    then show ?thesis
    proof cases
      case 1
      then have "settledSetup now c" using assms(1) None by (simp add: settled_def)
      then show ?thesis using that None 1 k by (auto simp: deadlines_def settledSetup_def split: if_splits)
    next
      case 2
      then have "settledClosing now c" using assms(1) None by (simp add: settled_def)
      then show ?thesis using that None 2 k by (auto simp: deadlines_def settledClosing_def)
    next
      case 3
      then have u: "settledUp now c" using assms(1) None by (simp add: settled_def)
      have r: "now < time_add (k_established (ksAt c p)) (o_RenegSec (d_opts (cl_d c)))"
        if "l_negotiating c = None" "l_primary c = Some p" "0 < o_RenegSec (d_opts (cl_d c))" for p
        using u that by (auto simp: settledUp_def renegotiationDue_def Let_def)
      show ?thesis using that None 3 k u w r by (auto simp: deadlines_def settledUp_def split: if_splits option.splits)
    qed
  qed
  then show ?thesis using m by (simp add: nextDeadline_iff)
qed

section \<open>Until then\<close>

text \<open>The wall clock gains nothing on the monotonic one: the device was not suspended.\<close>

definition steady :: "client \<Rightarrow> time \<Rightarrow> time \<Rightarrow> bool" where
  "steady c now t \<longleftrightarrow> w_wall (cl_world c) t - w_wall (cl_world c) now \<le> int t - int now"

lemma since_later:
  assumes "steady c now t" "now \<le> t"
  shows "since (stampAt c t) x \<le> since (stampAt c now) x + (int t - int now)"
  using assms unfolding since_def stampAt_def steady_def fst_conv snd_conv by linarith

lemma later_than: "t < time_add now d \<Longrightarrow> now \<le> t \<Longrightarrow> int t - int now < d"
  by (simp add: time_add_def zless_nat_eq_int_zless)

lemma waits_later:
  assumes "steady c now t" "now \<le> t"
  shows "sinceRecv c t \<le> sinceRecv c now + (int t - int now)" "pingWait c now \<le> pingWait c t + (int t - int now)"
    "probeWait c now \<le> probeWait c t + (int t - int now)"
proof -
  note s = since_later [OF assms]
  show "sinceRecv c t \<le> sinceRecv c now + (int t - int now)" unfolding sinceRecv_def by (rule s)
  show "pingWait c now \<le> pingWait c t + (int t - int now)"
    using s [of "cl_lastSend c"] s [of "cl_pingTried c"] unfolding pingWait_def sinceSendAt_def by linarith
  show "probeWait c now \<le> probeWait c t + (int t - int now)"
    using s [of "cl_lastRecv c"] s [of "l_probeTried c"] unfolding probeWait_def Let_def by linarith
qed

lemma settledUp_later:
  assumes u: "settledUp now c" and t: "now \<le> t" "steady c now t"
    and d: "\<And>s. s \<in> set (deadlines c now) \<Longrightarrow> s = 0 \<or> t < s" and c: "l_readErr c = None" "l_up c" "\<not> l_closing c"
  shows "settledUp t c"
proof -
  note w = waits_later [OF t(2,1)]
  have D: "t < s" if "s \<in> set (deadlines c now)" "now < s" for s using d [OF that(1)] that(2) by auto
  have "sinceRecv c t < l_pingRestart c" if "0 < l_pingRestart c"
  proof -
    have "sinceRecv c now < l_pingRestart c" using u that by (simp add: settledUp_def)
    then have "t < time_add now (l_pingRestart c - sinceRecv c now)" using that c by (intro D time_add_later) (simp_all add: deadlines_def)
    then show ?thesis using later_than [of t now] t(1) w(1) by fastforce
  qed
  moreover have "0 < pingWait c t" if "0 < l_ping c"
  proof -
    have "t < time_add now (pingWait c now)" using u that c by (intro D time_add_later) (simp_all add: deadlines_def settledUp_def)
    then show ?thesis using later_than [of t now] t(1) w(2) by fastforce
  qed
  moreover have "0 < probeWait c t" if "l_probe c"
  proof -
    have "t < time_add now (probeWait c now)" using u that c by (intro D time_add_later) (simp_all add: deadlines_def settledUp_def)
    then show ?thesis using later_than [of t now] t(1) w(3) by fastforce
  qed
  moreover have "t < k_expires (ksAt c p)" if "l_lame c = Some p" for p
    using u that c by (intro D) (simp_all add: deadlines_def settledUp_def)
  moreover have "case l_negotiating c of Some p \<Rightarrow> t < k_deadline (ksAt c p) | None \<Rightarrow> \<not> renegotiationDue c t"
  proof (cases "l_negotiating c")
    case (Some p)
    then show ?thesis using u c D [of "k_deadline (ksAt c p)"] by (simp add: deadlines_def settledUp_def)
  next
    case None
    then have n: "\<not> renegotiationDue c now" using u by (simp add: settledUp_def)
    let ?r = "o_RenegSec (d_opts (cl_d c))"
    have "t < time_add (k_established (ksAt c p)) ?r" if "l_primary c = Some p" "0 < ?r" for p
      using n that None c by (intro D) (simp_all add: deadlines_def renegotiationDue_def Let_def)
    then show ?thesis using n None by (auto simp: renegotiationDue_def Let_def split: option.splits)
  qed
  ultimately show ?thesis by (simp add: settledUp_def)
qed

lemma settled_later:
  assumes s: "settled now c" and t: "now \<le> t" "steady c now t" "t < nextDeadline c now"
  shows "settled t c"
proof -
  have d: "s = 0 \<or> t < s" if "s \<in> set (deadlines c now)" for s using t(3) that by (simp add: nextDeadline_iff)
  have D: "t < s" if "s \<in> set (deadlines c now)" "now < s" for s using d [OF that(1)] that(2) by auto
  show ?thesis
  proof (cases "l_readErr c")
    case (Some e)
    then show ?thesis using s D [of "l_readErrDeadline c"] by (simp add: settled_def deadlines_def)
  next
    case None
    consider "\<not> l_up c" | "l_up c" "l_closing c" | "l_up c" "\<not> l_closing c" by blast
    then show ?thesis
    proof cases
      case 1
      then show ?thesis using s None D [of "l_hsDeadline c"] D [of "l_connectDeadline c"] D [of "l_pushNext c"]
        by (simp add: settled_def settledSetup_def deadlines_def)
    next
      case 2
      then show ?thesis using s None D [of "l_closeDeadline c"] by (simp add: settled_def settledClosing_def deadlines_def)
    next
      case 3
      then show ?thesis using s None settledUp_later [OF _ t(1,2) d None] by (simp add: settled_def)
    qed
  qed
qed

section \<open>A round settles the session\<close>

text \<open>What the waits look at.\<close>

definition due_view :: "client \<Rightarrow> _" where
  "due_view c = (l_readErr c, l_up c, l_closing c, l_ping c, l_pingRestart c, l_probe c, l_probeTried c, cl_lastRecv c, cl_pingTried c, cl_world c, cl_epoch c, cl_d c)"

definition waits_ok :: "time \<Rightarrow> client \<Rightarrow> bool" where
  "waits_ok now c \<longleftrightarrow> (0 < l_pingRestart c \<longrightarrow> sinceRecv c now < l_pingRestart c) \<and> (0 < l_ping c \<longrightarrow> 0 < pingWait c now) \<and> (l_probe c \<longrightarrow> 0 < probeWait c now)"

lemma waits_ok_cong:
  assumes "waits_ok now c" "due_view d = due_view c" "cl_lastSend d \<in> {cl_lastSend c, stampAt c now}"
  shows "waits_ok now d"
proof -
  have s: "stampAt d now = stampAt c now" using assms(2) by (simp add: due_view_def stampAt_def)
  have "0 < pingWait d now" if "0 < l_ping c"
  proof -
    have "0 < l_ping c - min (since (stampAt c now) (cl_lastSend c)) (since (stampAt c now) (cl_pingTried c))"
      using assms(1) that by (simp add: waits_ok_def pingWait_def sinceSendAt_def)
    moreover have "cl_pingTried d = cl_pingTried c" "l_ping d = l_ping c" using assms(2) by (simp_all add: due_view_def)
    ultimately show ?thesis using assms(3) that s by (auto simp: pingWait_def sinceSendAt_def min_def)
  qed
  then show ?thesis using assms(1,2) s by (simp add: waits_ok_def due_view_def sinceRecv_def probeWait_def Let_def)
qed

lemma sendKeepalive_sent:
  assumes "sendKeepalive now k c = (Inr (), d)"
  shows "due_view d = due_view c \<and> cl_lastSend d \<in> {cl_lastSend c, stampAt c now} \<and> cl_ks d = cl_ks c \<and> l_keys d = l_keys c \<and>
    l_primary d = l_primary c \<and> l_lame d = l_lame c \<and> l_negotiating d = l_negotiating c"
proof -
  have t: "due_view (tryWriteRaw now b e) = due_view e \<and> cl_lastSend (tryWriteRaw now b e) \<in> {cl_lastSend e, stampAt e now} \<and>
      cl_ks (tryWriteRaw now b e) = cl_ks e \<and> l_keys (tryWriteRaw now b e) = l_keys e \<and> l_primary (tryWriteRaw now b e) = l_primary e \<and>
      l_lame (tryWriteRaw now b e) = l_lame e \<and> l_negotiating (tryWriteRaw now b e) = l_negotiating e" for b e
  proof (cases "\<exists>ws. cl_writes e = WBusy # ws")
    case True
    then show ?thesis by (auto simp: tryWriteRaw_def due_view_def)
  next
    case False
    then have w: "tryWriteRaw now b e = snd (writeRaw now b e)" by (auto simp: tryWriteRaw_def writeRaw_def split: list.split wres.split)
    obtain x f where f: "writeRaw now b e = (x, f)" by fastforce
    note W = writeRaw_sent [OF f]
    then have s: "still f = still e" by (simp add: sentSince_def)
    show ?thesis using W still_fields [OF s] by (simp add: w f sentSince_def due_view_def)
  qed
  have st: "due_view (c\<lparr>cl_store := st\<rparr>) = due_view c" "stampAt (c\<lparr>cl_store := st\<rparr>) now = stampAt c now" for st by (simp_all add: due_view_def stampAt_def)
  show ?thesis
  proof (cases "cl_data c")
    case None
    then show ?thesis using assms by (simp add: sendKeepalive_def ok_def)
  next
    case (Some ch)
    obtain x st' where x: "sealKeepalive k (cl_store c) ch = (x, st')" by fastforce
    show ?thesis
    proof (cases x)
      case (Inl e)
      then show ?thesis using assms x Some st by (cases e) (auto simp: sendKeepalive_def ok_def)
    next
      case (Inr pkt)
      then have "d = tryWriteRaw now pkt (c\<lparr>cl_store := st'\<rparr>)" using assms x Some by (simp add: sendKeepalive_def ok_def)
      then show ?thesis using t [of pkt "c\<lparr>cl_store := st'\<rparr>"] st by simp
    qed
  qed
qed

text \<open>The keepalives leave the keys alone, and afterwards none is due.\<close>

definition pinged :: "client \<Rightarrow> client \<Rightarrow> bool" where
  "pinged c d \<longleftrightarrow> cl_ks d = cl_ks c \<and> l_keys d = l_keys c \<and> l_primary d = l_primary c \<and> l_lame d = l_lame c \<and> l_negotiating d = l_negotiating c \<and>
    cl_d d = cl_d c \<and> l_probe d = l_probe c \<and> l_pingRestart d = l_pingRestart c \<and> l_readErr d = l_readErr c \<and> l_up d = l_up c \<and> l_closing d = l_closing c"

lemma goQuot_12: "12 \<le> a \<Longrightarrow> 0 < goQuot a 12"
  by (simp add: goQuot_def pos_imp_zdiv_pos_iff)

lemma tick_ping_sent:
  assumes t: "tick_ping now c = (Inr (), d)"
  shows "pinged c d \<and> sinceRecv d now = sinceRecv c now \<and> (0 < l_ping d \<longrightarrow> 0 < pingWait d now)"
proof (cases "0 < l_ping c \<and> pingWait c now \<le> 0")
  case True
  then have "sendKeepalive now Ping (c\<lparr>cl_pingTried := stampAt c now\<rparr>) = (Inr (), d)" using t by (simp add: tick_ping_def)
  from sendKeepalive_sent [OF this] have k: "due_view d = due_view (c\<lparr>cl_pingTried := stampAt c now\<rparr>)" and
    p: "cl_ks d = cl_ks c" "l_keys d = l_keys c" "l_primary d = l_primary c" "l_lame d = l_lame c" "l_negotiating d = l_negotiating c" by simp_all
  have s: "stampAt d now = stampAt c now" "sinceRecv d now = sinceRecv c now" "cl_pingTried d = stampAt d now"
    using k by (simp_all add: due_view_def stampAt_def sinceRecv_def)
  have "sinceSendAt d (stampAt d now) = 0" using s(3) since_nonneg [of "stampAt d now" "cl_lastSend d"] by (simp add: sinceSendAt_def)
  then show ?thesis using k p s by (simp add: pinged_def due_view_def pingWait_def)
next
  case False
  then have "tick_ping now c = ok c" unfolding tick_ping_def by (rule if_not_P)
  then have "d = c" using t by (simp add: ok_def)
  then show ?thesis using False by (auto simp: pinged_def)
qed

lemma tick_probe_sent:
  assumes t: "tick_probe now c = (Inr (), d)" and w: "0 < l_ping c \<longrightarrow> 0 < pingWait c now" "0 < l_pingRestart c \<longrightarrow> sinceRecv c now < l_pingRestart c"
    and i: "l_probe c \<longrightarrow> 12 \<le> l_pingRestart c"
  shows "pinged c d \<and> waits_ok now d"
proof (cases "l_probe c \<and> probeWait c now \<le> 0")
  case True
  let ?e = "c\<lparr>l_probeTried := stampAt c now\<rparr>"
  have k: "sendKeepalive now OCCRequest ?e = (Inr (), d)" using t True by (simp add: tick_probe_def)
  note S = sendKeepalive_sent [OF k]
  have s: "stampAt ?e now = stampAt c now" by (simp add: stampAt_def)
  have "0 < goQuot (l_pingRestart c) 12" using goQuot_12 i True by simp
  then have "0 < probeWait ?e now" by (simp add: probeWait_def Let_def s)
  moreover have "pingWait ?e now = pingWait c now" "sinceRecv ?e now = sinceRecv c now" by (simp_all add: pingWait_def sinceSendAt_def sinceRecv_def s)
  ultimately have "waits_ok now ?e" using w by (simp add: waits_ok_def)
  then have "waits_ok now d" using waits_ok_cong S by blast
  then show ?thesis using S by (simp add: pinged_def due_view_def)
next
  case False
  then have "tick_probe now c = ok c" unfolding tick_probe_def by (rule if_not_P)
  then have "d = c" using t by (simp add: ok_def)
  then show ?thesis using False w by (auto simp: pinged_def waits_ok_def)
qed

text \<open>Dropping a key, or making one, leaves the waits and the times of the other keys.\<close>

definition timesOf :: "keyCtl \<Rightarrow> time \<times> time \<times> time \<times> time" where
  "timesOf k = (k_expires k, k_deadline k, k_established k, lastNow (k_layer k))"

definition key_times :: "client \<Rightarrow> kptr \<Rightarrow> time \<times> time \<times> time \<times> time" where
  "key_times c p = timesOf (ksAt c p)"

lemma setKs_times:
  assumes "\<And>k. timesOf (f k) = timesOf k"
  shows "key_times (setKs p f c) q = key_times c q"
  using assms by (cases "p < length (cl_ks c)"; cases "q = p") (simp_all add: key_times_def ksAt_def setKs_def list_update_beyond)

lemma dropKey_times:
  assumes "d = dropKey po c"
  shows "due_view d = due_view c \<and> cl_lastSend d = cl_lastSend c \<and> length (cl_ks d) = length (cl_ks c) \<and> (\<forall>q. key_times d q = key_times c q) \<and>
    l_lame d \<in> {None, l_lame c} \<and> l_negotiating d \<in> {None, l_negotiating c}"
proof (cases po)
  case None
  then show ?thesis using assms by (simp add: dropKey_def)
next
  case (Some p)
  show ?thesis
  proof (cases "k_dropped (ksAt c p)")
    case True
    then show ?thesis using assms Some by (simp add: dropKey_def)
  next
    case False
    define e where "e = setKs p (\<lambda>k. k\<lparr>k_dropped := True\<rparr>) c"
    define f where "f = (if k_exchanged (ksAt e p) then dropDataKey (k_id (ksAt e p)) e else e)"
    define g where "g = setKs p (\<lambda>k. k\<lparr>k_adapter := closeWith NetClosed (k_adapter k)\<rparr>) f"
    have d: "d = forgetKey p g" using assms False Some by (simp add: dropKey_def Let_def e_def f_def g_def)
    have f: "cl_ks f = cl_ks e" "due_view f = due_view e" "cl_lastSend f = cl_lastSend e" "l_lame f = l_lame e" "l_negotiating f = l_negotiating e"
      by (simp_all add: f_def dropDataKey_def due_view_def split: option.split)
    have h: "cl_ks d = cl_ks g" "due_view d = due_view g" "cl_lastSend d = cl_lastSend g" "l_lame d \<in> {None, l_lame g}" "l_negotiating d \<in> {None, l_negotiating g}"
      by (simp_all add: d forgetKey_def due_view_def Let_def)
    have "key_times d q = key_times c q" for q
    proof -
      have "key_times d q = key_times g q" "key_times f q = key_times e q" using h(1) f(1) by (simp_all add: key_times_def ksAt_def)
      moreover have "key_times g q = key_times f q" "key_times e q = key_times c q" unfolding g_def e_def by (rule setKs_times, simp add: timesOf_def)+
      ultimately show ?thesis by simp
    qed
    then show ?thesis using h f by (simp add: g_def e_def setKs_def due_view_def)
  qed
qed

lemma tick_lame_times:
  assumes "d = tick_lame now c" and l: "\<And>p. l_lame c = Some p \<Longrightarrow> p < length (cl_ks c) \<and> \<not> k_dropped (ksAt c p)"
  shows "due_view d = due_view c \<and> cl_lastSend d = cl_lastSend c \<and> length (cl_ks d) = length (cl_ks c) \<and> (\<forall>q. key_times d q = key_times c q) \<and>
    (\<forall>p. l_lame d = Some p \<longrightarrow> p < length (cl_ks d) \<and> now < k_expires (ksAt d p)) \<and> l_negotiating d \<in> {None, l_negotiating c}"
proof (cases "l_lame c")
  case None
  then show ?thesis using assms(1) by (simp add: tick_lame_def)
next
  case (Some p)
  show ?thesis
  proof (cases "k_expires (ksAt c p) \<le> now")
    case True
    then have d: "d = dropKey (Some p) c" using assms(1) Some by (simp add: tick_lame_def)
    have "l_lame d = None" using dropKey_fields(3) [of p c d] l [OF Some] d Some by simp
    then show ?thesis using dropKey_times [OF d] by simp
  next
    case False
    then show ?thesis using assms(1) l [OF Some] Some by (simp add: tick_lame_def)
  qed
qed

lemma negotiate_times:
  assumes n: "negotiate i now c = (Inr q, d)" and t: "0 < d_timeout (cl_d c)"
  shows "due_view d = due_view c \<and> cl_lastSend d = cl_lastSend c \<and> l_lame d = l_lame c \<and> (\<forall>p < length (cl_ks c). key_times d p = key_times c p) \<and>
    length (cl_ks d) = Suc (length (cl_ks c)) \<and> lastNow (k_layer (ksAt d (length (cl_ks c)))) = 0 \<and> l_negotiating d = Some q \<and> now < k_deadline (ksAt d q)"
proof -
  obtain x e where e: "newKeyState i ControlSoftResetV1 c = (x, e)" by fastforce
  obtain p where p: "x = Inr p" using n e by (cases x) (simp_all add: negotiate_def andThen_def)
  have d: "q = p" "d = (setKs p (\<lambda>k. k\<lparr>k_deadline := time_add now (d_timeout (cl_d e))\<rparr>) e)\<lparr>l_negotiating := Some p\<rparr>"
    using n e p by (auto simp: negotiate_def andThen_def)
  obtain y r where y: "NewClientKeySource (cl_rand c) = (y, r)" by fastforce
  then obtain src where s: "y = Inr src" using e p by (cases y) (auto simp: newKeyState_def failed_def split: fault.splits)
  have "\<exists>k. e = c\<lparr>cl_rand := r, cl_ks := cl_ks c @ [k], l_keys := l_keys c @ [p], l_lastKeyID := i\<rparr> \<and> p = length (cl_ks c) \<and> lastNow (k_layer k) = 0"
    using e p y s by (auto simp: newKeyState_def Let_def Send_def New_def)
  then obtain k where k: "e = c\<lparr>cl_rand := r, cl_ks := cl_ks c @ [k], l_keys := l_keys c @ [p], l_lastKeyID := i\<rparr>" "p = length (cl_ks c)" "lastNow (k_layer k) = 0" by blast
  show ?thesis using d k(2,3) time_add_later [OF t, of now] by (simp add: k(1) setKs_def ksAt_def due_view_def key_times_def nth_append)
qed

text \<open>What a round leaves of the waits and of the keys' clocks.\<close>

definition clocked :: "time \<Rightarrow> client \<Rightarrow> bool" where
  "clocked now c \<longleftrightarrow> (\<forall>p < length (cl_ks c). lastNow (k_layer (ksAt c p)) \<le> now)"

lemma tick_negotiation_settled:
  assumes n: "tick_negotiation now c = (Inr (), d)" and w: "waits_ok now c" "clocked now c" "0 < d_timeout (cl_d c)"
    and l: "\<forall>p. l_lame c = Some p \<longrightarrow> p < length (cl_ks c) \<and> now < k_expires (ksAt c p)"
  shows "settledUp now d \<and> clocked now d \<and> due_view d = due_view c"
proof -
  have s: "settledUp now d" if "waits_ok now d" "\<And>p. l_lame d = Some p \<Longrightarrow> now < k_expires (ksAt d p)"
      "case l_negotiating d of Some p \<Rightarrow> now < k_deadline (ksAt d p) | None \<Rightarrow> \<not> renegotiationDue d now"
    using that by (simp add: settledUp_def waits_ok_def)
  show ?thesis
  proof (cases "l_negotiating c = None \<and> renegotiationDue c now")
    case False
    then have "d = c \<and> (case l_negotiating c of Some p \<Rightarrow> now < k_deadline (ksAt c p) | None \<Rightarrow> \<not> renegotiationDue c now)"
      using n by (auto simp: tick_negotiation_def ok_def failed_def split: option.splits if_splits)
    then show ?thesis using s w l by auto
  next
    case True
    define i where "i = nextKeyID (l_lastKeyID c)"
    define e where "e = dropKey (keyByID c i) c"
    obtain x f where x: "negotiate i now e = (x, f)" by fastforce
    have r: "andThen (negotiate i now e) (\<lambda>_ c. ok c) = (Inr (), d)" using n True by (simp add: tick_negotiation_def negotiate_eqs i_def e_def)
    then obtain q where q: "negotiate i now e = (Inr q, d)" using x by (cases x) (auto simp: andThen_def ok_def)
    note D = dropKey_times [OF e_def]
    then have "0 < d_timeout (cl_d e)" using w(3) by (simp add: due_view_def)
    note N = negotiate_times [OF q this]
    have v: "due_view d = due_view c" "cl_lastSend d = cl_lastSend c" using D N by simp_all
    have k: "key_times d p = key_times c p" if "p < length (cl_ks c)" for p using D N that by simp
    have "clocked now d" unfolding clocked_def
    proof (intro allI impI)
      fix p assume "p < length (cl_ks d)"
      then consider "p < length (cl_ks c)" | "p = length (cl_ks e)" using D N by linarith
      then show "lastNow (k_layer (ksAt d p)) \<le> now"
        by cases (use k w(2) N in \<open>auto simp: clocked_def key_times_def timesOf_def\<close>)
    qed
    moreover have "now < k_expires (ksAt d p)" if "l_lame d = Some p" for p
    proof -
      have "l_lame c = Some p" using that D N by auto
      then show ?thesis using l k [of p] by (simp add: key_times_def timesOf_def)
    qed
    moreover have "waits_ok now d" using waits_ok_cong [OF w(1) v(1)] v(2) by simp
    ultimately show ?thesis using s N v by simp
  qed
qed

lemma tick_up_settled:
  assumes s: "session_ok c" and t: "tick_up now c = (Inr (), d)" and i: "intervals_ok c" "clocked now c"
  shows "settledUp now d \<and> clocked now d \<and> l_readErr d = l_readErr c \<and> l_up d = l_up c \<and> l_closing d = l_closing c \<and> intervals_ok d"
proof -
  have r: "0 < l_pingRestart c \<longrightarrow> sinceRecv c now < l_pingRestart c" using t by (auto simp: tick_up_def failed_def split: if_splits)
  then have u: "andThen (tick_ping now c) (\<lambda>_ c. andThen (tick_probe now c) (\<lambda>_ c. tick_negotiation now (tick_lame now c))) = (Inr (), d)"
    using t by (simp add: tick_up_def split: if_splits)
  then obtain e where e: "tick_ping now c = (Inr (), e)" by (cases "tick_ping now c"; cases "fst (tick_ping now c)") (auto simp: andThen_def)
  have v: "andThen (tick_probe now e) (\<lambda>_ c. tick_negotiation now (tick_lame now c)) = (Inr (), d)" using u e by (simp add: andThen_def)
  then obtain f where f: "tick_probe now e = (Inr (), f)" by (cases "tick_probe now e"; cases "fst (tick_probe now e)") (auto simp: andThen_def)
  have n: "tick_negotiation now (tick_lame now f) = (Inr (), d)" using v f by (simp add: andThen_def)
  note P = tick_ping_sent [OF e]
  have Q: "pinged e f \<and> waits_ok now f" by (rule tick_probe_sent [OF f]) (use P r i(1) in \<open>simp_all add: pinged_def intervals_ok_def\<close>)
  have k: "cl_ks f = cl_ks c" "l_keys f = l_keys c" "l_lame f = l_lame c" "cl_d f = cl_d c" using P Q by (simp_all add: pinged_def)
  obtain p where p: "base_ok c" "keys_ok c" "roles_ok p c" using s by (auto simp: session_ok_def loop_at_def)
  have l: "q < length (cl_ks f) \<and> \<not> k_dropped (ksAt f q)" if "l_lame f = Some q" for q
    using roles_mem(2) [OF p(3), of q] keys_range [OF p(1)] p(2) that k by (simp add: keys_ok_def ksAt_def)
  define g where "g = tick_lame now f"
  note L = tick_lame_times [OF g_def l]
  have w: "waits_ok now g" by (rule waits_ok_cong [of now f]) (use Q L in simp_all)
  have c: "clocked now g" unfolding clocked_def
  proof (intro allI impI)
    fix q assume q: "q < length (cl_ks g)"
    have "key_times g q = key_times f q" "length (cl_ks g) = length (cl_ks c)" using L k by simp_all
    then show "lastNow (k_layer (ksAt g q)) \<le> now" using i(2) q k by (simp add: clocked_def key_times_def timesOf_def ksAt_def)
  qed
  have "0 < d_timeout (cl_d g)" using L k i(1) by (simp add: intervals_ok_def due_view_def)
  note T = tick_negotiation_settled [OF n [folded g_def] w c this]
  have "\<forall>p. l_lame g = Some p \<longrightarrow> p < length (cl_ks g) \<and> now < k_expires (ksAt g p)" using L by blast
  from T [OF this] have "settledUp now d" "clocked now d" "due_view d = due_view f" using L by simp_all
  then show ?thesis using P Q i(1) by (simp add: pinged_def due_view_def intervals_ok_def)
qed

lemma tick_settles:
  assumes s: "session_ok c" and t: "tick now c = (Inr (), d)" and i: "intervals_ok c" "clocked now c"
  shows "settled now d \<and> clocked now d \<and> intervals_ok d"
proof (cases "l_readErr c")
  case (Some e)
  then show ?thesis using t i by (auto simp: tick_def settled_def failed_def ok_def split: if_splits)
next
  case None
  consider "\<not> l_up c" | "l_up c" "l_closing c" | "l_up c" "\<not> l_closing c" by blast
  then show ?thesis
  proof cases
    case 1
    then have t': "tick_setup now c = (Inr (), d)" using t None by (simp add: tick_def)
    have k: "key_times (sendControlMessage po m c) p = key_times c p" "length (cl_ks (sendControlMessage po m c)) = length (cl_ks c)" for po m p
      by (auto simp: sendControlMessage_def timesOf_def setKs_def intro!: setKs_times [unfolded setKs_def] split: option.split)
    have m: "due_view (sendControlMessage po m c) = due_view c" "l_hsDeadline (sendControlMessage po m c) = l_hsDeadline c"
      "l_haveServerSID (sendControlMessage po m c) = l_haveServerSID c" "l_connectDeadline (sendControlMessage po m c) = l_connectDeadline c" for po m
      by (auto simp: sendControlMessage_def due_view_def setKs_def split: option.split)
    let ?e = "sendControlMessage (l_primary c) ''PUSH_REQUEST'' c"
    have h: "now < l_hsDeadline c" "\<not> l_haveServerSID c \<longrightarrow> now < l_connectDeadline c"
      and d: "d = ?e\<lparr>l_pushNext := time_add now (d_pushInterval (cl_d c))\<rparr> \<or> d = c \<and> (l_pushing c \<and> \<not> l_gotPush c \<longrightarrow> now < l_pushNext c)"
      using t' by (auto simp: tick_setup_def failed_def ok_def split: if_splits)
    have p: "now < time_add now (d_pushInterval (cl_d c))" using time_add_later i(1) by (simp add: intervals_ok_def)
    from d show ?thesis
    proof
      assume d: "d = ?e\<lparr>l_pushNext := time_add now (d_pushInterval (cl_d c))\<rparr>"
      have "clocked now d" using i(2) k [of "l_primary c" "''PUSH_REQUEST''"] by (simp add: d clocked_def key_times_def timesOf_def ksAt_def)
      moreover have "intervals_ok d" using i(1) m(1) [of "l_primary c" "''PUSH_REQUEST''"] by (simp add: d intervals_ok_def due_view_def)
      ultimately show ?thesis using 1 None h p m [of "l_primary c" "''PUSH_REQUEST''"] by (simp add: d settled_def settledSetup_def due_view_def)
    next
      assume "d = c \<and> (l_pushing c \<and> \<not> l_gotPush c \<longrightarrow> now < l_pushNext c)"
      then show ?thesis using 1 None h i by (simp add: settled_def settledSetup_def)
    qed
  next
    case 2
    then have "tick_closing now c = (Inr (), d)" using t None by (simp add: tick_def)
    then have "d = c \<and> settledClosing now c" by (auto simp: tick_closing_def settledClosing_def failed_def ok_def split: if_splits option.splits)
    then show ?thesis using 2 None i by (simp add: settled_def)
  next
    case 3
    then have "tick_up now c = (Inr (), d)" using t None by (simp add: tick_def)
    then show ?thesis using tick_up_settled [OF s _ i] 3 None by (simp add: settled_def)
  qed
qed

section \<open>Sending keeps it settled\<close>

lemma polled_fields:
  "k_expires (polled now k) = k_expires k" "k_deadline (polled now k) = k_deadline k" "k_established (polled now k) = k_established k"
  "ad_out (k_adapter (polled now k)) = []" "lastNow (k_layer (polled now k)) = max (lastNow (k_layer k)) now"
  by (simp_all add: polled_def lastNow_Poll sends_frame [OF refl, THEN conjunct1])

lemma polled_unacked:
  assumes "keyCtl_ok k"
  shows "Unacked (k_layer (polled now k)) = Unacked (k_layer k) + pendingOut (k_adapter k)" "0 \<le> Unacked (k_layer k)" "0 \<le> pendingOut (k_adapter k)"
  using assms by (simp_all add: polled_def Unacked_def pendingOut_def unacked_Poll sends_frame [OF refl, THEN conjunct2] keyCtl_ok_def layer_ok_def send_ok_def glen_def)

lemma flush_settled:
  assumes c: "session_ok c" "settled now c" "clocked now c" "l_readErr c = None" and now: "longAgo \<le> now"
    and f: "flush now c = (Inr (), d)" "\<not> isDone d"
  shows "settled now d \<and> polledKeys now d \<and> due_view d = due_view c \<and>
    (\<forall>p \<in> set (l_keys d). ad_out (k_adapter (ksAt d p)) = [] \<and>
      (\<forall>t \<ge> now. NextDeadline (k_layer (ksAt d p)) = 0 \<or> t < NextDeadline (k_layer (ksAt d p)) \<longrightarrow> pollPackets (k_layer (ksAt d p)) t = []))"
proof -
  obtain p where p: "base_ok c" "keys_ok c" "roles_ok p c" using c(1) by (auto simp: session_ok_def loop_at_def)
  have r: "q < length (cl_ks c)" if "q \<in> set (l_keys c)" for q using keys_range [OF p(1) that] .
  have F: "sentSince now c d" "\<forall>q < length (cl_ks c). ksAt d q = (if q \<in> set (l_keys c) then polled now (ksAt c q) else ksAt c q)"
    using flushKeys_sent [of now "l_keys c" c d] f c(4) p(1,2) r by (simp_all add: flush_def keys_ok_def list_all_iff)
  have st: "still d = still c" "cl_lastSend d \<in> {cl_lastSend c, stampAt c now}" using F(1) by (simp_all add: sentSince_def)
  note S = still_fields [OF st(1)]
  have v: "due_view d = due_view c" by (simp add: due_view_def S)
  have k: "ksAt d q = polled now (ksAt c q)" if "q \<in> set (l_keys c)" for q using F(2) r that by simp
  have ko: "keyCtl_ok (ksAt c q)" if "q \<in> set (l_keys c)" for q using base_key [OF p(1) r [OF that]] .
  note R = roles_mem [OF p(3)]
  have "settled now d"
  proof -
    consider "\<not> l_up c" | "l_up c" "l_closing c" | "l_up c" "\<not> l_closing c" by blast
    then show ?thesis
    proof cases
      case 1
      then show ?thesis using c(2,4) by (simp add: settled_def settledSetup_def S)
    next
      case 2
      have q: "l_primary c = Some p" using p(3) by (simp add: roles_ok_def)
      have "settledClosing now c" using c(2,4) 2 by (simp add: settled_def)
      then have "settledClosing now d" using polled_unacked(1) [OF ko [OF R(1)], of now] polled_unacked(2,3) [OF ko [OF R(1)]] k [OF R(1)] q polled_fields(4) [of now "ksAt c p"]
        by (auto simp: settledClosing_def S)
      then show ?thesis using c(4) 2 by (simp add: settled_def S)
    next
      case 3
      then have u: "settledUp now c" using c(2,4) by (simp add: settled_def)
      have w: "waits_ok now d" by (rule waits_ok_cong [OF _ v st(2)]) (use u in \<open>simp add: settledUp_def waits_ok_def\<close>)
      have q: "l_primary c = Some p" using p(3) by (simp add: roles_ok_def)
      have "renegotiationDue d now = renegotiationDue c now" using k [OF R(1)] q by (cases "cl_data c") (simp_all add: renegotiationDue_def S polled_fields)
      then have "settledUp now d" using u w k R(2,3)
        by (auto simp: settledUp_def waits_ok_def S polled_fields split: option.splits)
      then show ?thesis using c(4) 3 by (simp add: settled_def S)
    qed
  qed
  moreover have L: "NextDeadline (k_layer (ksAt d q)) = 0 \<or> now < NextDeadline (k_layer (ksAt d q))"
    "now \<le> t \<Longrightarrow> NextDeadline (k_layer (ksAt d q)) = 0 \<or> t < NextDeadline (k_layer (ksAt d q)) \<Longrightarrow> pollPackets (k_layer (ksAt d q)) t = []"
    "ad_out (k_adapter (ksAt d q)) = []" if q: "q \<in> set (l_keys c)" for q t
  proof -
    let ?l = "foldl (\<lambda>l b. snd (Send l ControlV1 b)) (k_layer (ksAt c q)) (ad_out (k_adapter (ksAt c q)))"
    have "lastNow ?l \<le> now" using c(3) r [OF q] sends_frame [OF refl] by (simp add: clocked_def)
    note P = polled_layer [OF keyCtl_ok_flush(1,2) [OF ko [OF q] refl] now this refl]
    have e: "k_layer (ksAt d q) = snd (Poll ?l now)" using k [OF q] by (simp add: polled_def)
    show "NextDeadline (k_layer (ksAt d q)) = 0 \<or> now < NextDeadline (k_layer (ksAt d q))" unfolding e by (rule P(1))
    show "now \<le> t \<Longrightarrow> NextDeadline (k_layer (ksAt d q)) = 0 \<or> t < NextDeadline (k_layer (ksAt d q)) \<Longrightarrow> pollPackets (k_layer (ksAt d q)) t = []"
      unfolding e by (rule P(2))
    show "ad_out (k_adapter (ksAt d q)) = []" using k [OF q] by (simp add: polled_fields)
  qed
  ultimately show ?thesis using v L by (auto simp: polledKeys_def S)
qed

section \<open>A round and the sleep after it\<close>

lemma round_settled:
  assumes c: "session_ok c" "intervals_ok c" "clocked now c" and now: "longAgo \<le> now"
    and r: "loopTop now c = (Inr (), d)" "\<not> isDone d"
  shows "now < nextDeadline d now"
    "now \<le> t \<Longrightarrow> t < nextDeadline d now \<Longrightarrow> steady d now t \<Longrightarrow> \<exists>e. loopTop t d = (Inr (), e) \<and> idled t d e"
proof -
  obtain e where t: "tick now c = (Inr (), e)" "flush now e = (Inr (), d)"
    using r(1) by (cases "tick now c"; cases "fst (tick now c)") (auto simp: loopTop_def andThen_def)
  have e: "settled now e" "clocked now e" "intervals_ok e" using tick_settles [OF c(1) t(1) c(2,3)] by simp_all
  have s: "session_ok e" using good_tick [OF c(1), of now] t(1) by (simp add: runs_def)
  have s': "session_ok d" using good_quiet [OF s quiet_flush [OF session_base [OF s]], of now] t(2) by (simp add: runs_def)
  have *: "now < nextDeadline d now \<and> (now \<le> t \<longrightarrow> t < nextDeadline d now \<longrightarrow> steady d now t \<longrightarrow> (\<exists>e. loopTop t d = (Inr (), e) \<and> idled t d e))"
  proof (cases "l_readErr e")
    case (Some x)
    then have d: "d = e" using t(2) by (simp add: flush_def ok_def)
    have "loopTop t d = (Inr (), d)" if "settled t d" using tick_settled [OF that] Some d by (simp add: loopTop_def andThen_def ok_def flush_def)
    then show ?thesis using settled_sleeps [OF e(1,3)] settled_later [OF e(1)] Some d idled_refl by auto
  next
    case None
    note F = flush_settled [OF s e(1,2) None now t(2) r(2)]
    have i: "intervals_ok d" using e(3) F by (simp add: intervals_ok_def due_view_def)
    have re: "l_readErr d = None" using F None by (simp add: due_view_def)
    have "\<exists>e. loopTop t d = (Inr (), e) \<and> idled t d e" if l: "now \<le> t" "t < nextDeadline d now" "steady d now t"
    proof -
      have "\<forall>p \<in> set (l_keys d). NextDeadline (k_layer (ksAt d p)) = 0 \<or> t < NextDeadline (k_layer (ksAt d p))"
        using l(2) re by (auto simp: nextDeadline_iff deadlines_def)
      then have "\<And>p. p \<in> set (l_keys d) \<Longrightarrow> ad_out (k_adapter (ksAt d p)) = [] \<and> pollPackets (k_layer (ksAt d p)) t = []" using F l(1) by blast
      moreover have "distinct (l_keys d)" using s' by (auto simp: session_ok_def loop_at_def keys_ok_def)
      ultimately obtain x where "flush t d = (Inr (), x)" "idled t d x" using flush_idle [OF session_base [OF s']] by blast
      moreover have "tick t d = ok d" using F by (intro tick_settled settled_later [OF _ l(1,3,2)]) simp
      ultimately show ?thesis by (simp add: loopTop_def andThen_def ok_def)
    qed
    then show ?thesis using settled_sleeps [OF _ i] F by blast
  qed
  then show "now < nextDeadline d now" "now \<le> t \<Longrightarrow> t < nextDeadline d now \<Longrightarrow> steady d now t \<Longrightarrow> \<exists>e. loopTop t d = (Inr (), e) \<and> idled t d e" by blast+
qed

text \<open>
  Claim C37. The timers of the control loop. Take any state of a session, a round of the loop that does not end it, and a clock that has
  not gone back. Afterwards the loop sleeps: the time \<open>nextDeadline\<close> names is later than now. And it may sleep that long: at any moment
  before, as long as nothing comes in and the device is not suspended, a round would send nothing, end nothing and change nothing but
  the time the control-channel layers last saw. So the loop neither spins nor sleeps through a retransmission, a keepalive, a timeout,
  an expiring key or a renegotiation.
\<close>

theorem loop_sleeps_until_due:
  assumes "startSession we wd d r rnd start t0 = Inr c0" "crypto_ok (w_crypto wd)" "client_run c0 c" "\<not> isDone c"
    and "intervals_ok c" "clocked now c" "longAgo \<le> now" "loopTop now c = (Inr (), c')" "\<not> isDone c'"
  shows "now < nextDeadline c' now \<and>
    (\<forall>t. now \<le> t \<and> t < nextDeadline c' now \<and> steady c' now t \<longrightarrow> (\<exists>c''. loopTop t c' = (Inr (), c'') \<and> idled t c' c''))"
proof -
  have "run_ok c0" using startSession_ok [OF assms(1,2)] session_base by (simp add: run_ok_def)
  then have "run_ok c" by (rule run_ok_run [OF assms(3)])
  then have "session_ok c" using assms(4) by (simp add: run_ok_def)
  from round_settled [OF this assms(5-9)] show ?thesis by blast
qed

text \<open>A new session, for the witness.\<close>

definition fresh :: "time \<Rightarrow> dialer \<Rightarrow> client \<Rightarrow> bool" where
  "fresh t d c \<longleftrightarrow> cl_d c = d \<and> l_readErr c = None \<and> \<not> l_up c \<and> \<not> l_probe c \<and> \<not> l_pushing c \<and> l_connectDeadline c = time_add t (d_connectTimeout d) \<and>
    cl_writes c = [] \<and> clocked 0 c"

lemma newClient_fresh:
  assumes "newClient we wd d r rnd now = Inr c"
  shows "fresh now d c \<and> cl_tcp c = isTCPNetwork (r_Network r)"
proof -
  obtain w where w: "newWrapper we (d_opts d) (d_wrap d) = Inr w"
    using assms(1) by (cases "newWrapper we (d_opts d) (d_wrap d)") (auto simp: newClient_def rbind_def)
  define e where "e = setPacketCeiling (o_TunMTU (d_opts d)) (blankClient wd d r rnd w now)"
  obtain x rn where x: "pickSessionID (cl_rand e) = (x, rn)" by fastforce
  then obtain sid where sid: "x = Inr sid" using assms(1) by (cases x) (auto simp: newClient_def w rbind_def e_def [symmetric] Let_def)
  define f where "f = setHandshakeDeadline (time_add now (d_timeout d)) (e\<lparr>l_ourSID := sid, cl_rand := rn\<rparr>)"
  obtain y g where y: "newKeyState 0 (d_resetOp d) f = (y, g)" by fastforce
  have n: "newClient we wd d r rnd now = (case y of Inl Panic \<Rightarrow> Inl Panic | Inl (Err e) \<Rightarrow> Inl (Err (SessionStart e)) | Inr p \<Rightarrow> Inr (g\<lparr>l_primary := Some p\<rparr>))"
    using y by (simp add: newClient_def w rbind_def e_def [symmetric] Let_def x sid f_def [symmetric] split: sum.split fault.split)
  obtain p where p: "y = Inr p" using n assms(1) by (cases y) (auto split: fault.splits)
  obtain z r' where z: "NewClientKeySource (cl_rand f) = (z, r')" by fastforce
  then obtain src where s: "z = Inr src" using y p by (cases z) (auto simp: newKeyState_def failed_def split: fault.splits)
  obtain k where k: "g = f\<lparr>cl_rand := r', cl_ks := cl_ks f @ [k], l_keys := l_keys f @ [p], l_lastKeyID := 0\<rparr>" "lastNow (k_layer k) = 0"
    using y p z s by (auto simp: newKeyState_def Let_def Send_def New_def)
  have c: "c = g\<lparr>l_primary := Some p\<rparr>" using assms(1) n p by simp
  have "cl_ks f = []" by (simp add: f_def e_def setHandshakeDeadline_def setPacketCeiling_def blankClient_def Let_def)
  then have "clocked 0 c" using k(2) by (simp add: c k(1) clocked_def ksAt_def)
  then show ?thesis by (simp add: fresh_def c k(1) f_def e_def setHandshakeDeadline_def setPacketCeiling_def blankClient_def Let_def)
qed

text \<open>A datagram socket that takes what is written.\<close>

definition writable :: "client \<Rightarrow> bool" where
  "writable c \<longleftrightarrow> cl_writes c = [] \<and> \<not> cl_tcp c \<and> cl_err c = None"

lemma flushPackets_writable: "writable c \<Longrightarrow> writable (snd (flushPackets now i ps c))"
proof (induction now i ps c rule: flushPackets.induct)
  case (3 now i p ps c)
  obtain y w where w: "wrapper_Wrap (cl_wrapper c) (Some (p\<lparr>KeyID := i, SessionID := l_ourSID c, RemoteSessionID := l_serverSID c\<rparr>)) = (y, w)" by fastforce
  have u: "writable (c\<lparr>cl_wrapper := w\<rparr>)" using 3(3) by (simp add: writable_def)
  show ?case
  proof (cases y)
    case (Inl f)
    then show ?thesis using 3(1,3) w u by (cases f) auto
  next
    case (Inr b)
    let ?d = "markSend now ((c\<lparr>cl_wrapper := w\<rparr>)\<lparr>cl_wire := cl_wire c @ [b]\<rparr>)"
    have r: "writeRaw now b (c\<lparr>cl_wrapper := w\<rparr>) = (None, ?d)" using u by (simp add: writeRaw_def writeLocked_def connWrite_def afterWrite_def writable_def)
    have "writable ?d" using u by (simp add: writable_def markSend_def)
    then show ?thesis using 3(2) [OF w [symmetric] Inr r [symmetric]] w Inr r by simp
  qed
qed simp_all

lemma flush_writable:
  assumes "writable c"
  shows "writable (snd (flush now c))"
proof -
  have k: "writable (snd (flushKey now p c))" if "writable c" for p c
  proof -
    have "writable (setKs p f c)" for f using that by (simp add: writable_def setKs_def)
    then show ?thesis using that flushPackets_writable unfolding flushKey_def Let_def by (auto split: prod.split sum.split)
  qed
  have "writable (snd (flushKeys now ps c))" if "writable c" for ps c
    using that
  proof (induction ps arbitrary: c)
    case (Cons p ps)
    then show ?case using k [OF Cons.prems, of p] by (auto simp: andThen_def ok_def split: prod.splits sum.splits)
  qed (simp add: ok_def)
  then show ?thesis using assms by (simp add: flush_def ok_def)
qed

lemma demo_round:
  "\<exists>c0 c'. startSession demoEnv demoWorld demoDialer demoRemote (replicate 200 1) 0 0 = Inr c0 \<and> \<not> isDone c0 \<and> intervals_ok c0 \<and> clocked 5 c0 \<and>
    loopTop 5 c0 = (Inr (), c') \<and> \<not> isDone c'"
proof -
  obtain c0 where c0: "startSession demoEnv demoWorld demoDialer demoRemote (replicate 200 1) 0 0 = Inr c0" using demo_starts by blast
  then obtain e where e: "newClient demoEnv demoWorld demoDialer demoRemote (replicate 200 1) 0 = Inr e" "c0 = setHandshakeDeadline (time_add 0 (d_timeout demoDialer)) e"
    by (cases "newClient demoEnv demoWorld demoDialer demoRemote (replicate 200 1) 0") (auto simp: startSession_def rbind_def)
  have w: "crypto_ok (w_crypto demoWorld)" by (simp add: demoWorld_def demoCrypto2_ok)
  note S = startSession_ok [OF c0 w]
  have F: "fresh 0 demoDialer e" "\<not> cl_tcp e" using newClient_fresh [OF e(1)] by (simp_all add: demoRemote_def isTCPNetwork_def)
  have i: "intervals_ok c0" using F(1) by (simp add: e(2) setHandshakeDeadline_def fresh_def intervals_ok_def demoDialer_def defaultPushInterval_def defaultHandshakeTimeout_def maxLoopSleep_def Second_def)
  have k: "clocked 5 c0" using F(1) by (auto simp: e(2) setHandshakeDeadline_def fresh_def clocked_def ksAt_def)
  have t: "tick 5 c0 = ok c0" by (rule tick_settled)
      (use F(1) in \<open>simp add: e(2) setHandshakeDeadline_def fresh_def settled_def settledSetup_def demoDialer_def time_add_def defaultHandshakeTimeout_def dialConnectTimeout_def Second_def\<close>)
  obtain x c' where f: "flush 5 c0 = (x, c')" by fastforce
  have "writable c0" using F S by (simp add: writable_def isDone_def fresh_def e(2) setHandshakeDeadline_def)
  then have "\<not> isDone c'" using flush_writable [of c0 5] f by (simp add: writable_def isDone_def)
  moreover have "x = Inr ()" using runs_flush [OF session_base, of c0 5] S f by (cases x; cases "projl x") (auto simp: runs_def)
  ultimately show ?thesis using c0 S i k t f by (auto simp: loopTop_def andThen_def ok_def)
qed

theorem loop_sleeps_until_due_witness:
  "\<exists>c0 c'. startSession demoEnv demoWorld demoDialer demoRemote (replicate 200 1) 0 0 = Inr c0 \<and> loopTop 5 c0 = (Inr (), c') \<and> 5 < nextDeadline c' 5"
proof -
  obtain c0 c' where c: "startSession demoEnv demoWorld demoDialer demoRemote (replicate 200 1) 0 0 = Inr c0" "\<not> isDone c0" "intervals_ok c0" "clocked 5 c0"
    "loopTop 5 c0 = (Inr (), c')" "\<not> isDone c'" using demo_round by blast
  have w: "crypto_ok (w_crypto demoWorld)" by (simp add: demoWorld_def demoCrypto2_ok)
  have "longAgo \<le> 5" by (simp add: longAgo_def)
  from loop_sleeps_until_due [OF c(1) w client_run.start c(2-4) this c(5,6)] show ?thesis using c(1,5) by blast
qed

end
