(* ===== verification/Client_Tls.thy ===== *)
theory Client_Tls
  imports Client_Dial Handshake_Codec
begin

text \<open>
  The TLS goroutine of a key (\<open>runKeyTLS\<close> in \<open>core/proxy/openvpn/ovpn/client/keyexchange.go\<close>): the key-method 2 message it sends and
  the events it reports, as a function of what TLS gives it: the outcome of the handshake, of the write, and of each read.
  Its buffer of 16 KiB per read bounds a read, which the model leaves open. A goroutine that waits for the next read has
  reported what the reads so far give; when the session ends in between, it stops after some of the events.
\<close>

section \<open>The goroutine\<close>

definition VersionTLS10 :: u16 where "VersionTLS10 = 0x0301"
definition VersionTLS12 :: u16 where "VersionTLS12 = 0x0303"
definition maxServerMessage :: int where "maxServerMessage = 64 * 2 ^ 10"
definition maxControlMessage :: int where "maxControlMessage = 256 * 2 ^ 10"

text \<open>A read: the bytes, and the error that came with them.\<close>

type_synonym tls_read = "bytes \<times> string option"

definition canExport :: "dialer \<Rightarrow> tlsState \<Rightarrow> bool" where
  "canExport d cs \<longleftrightarrow> \<not> d_disableEKM d \<and> tls_Export cs EKMLabel EKMLength \<noteq> None"

definition proofLine :: "hmac_fn \<Rightarrow> dialer \<Rightarrow> tlsState \<Rightarrow> tls_fail + string" where
  "proofLine hmac d cs =
    (case d_clientProof d of None \<Rightarrow> Inr []
     | Some k \<Rightarrow>
       if tls_Version cs < VersionTLS12 then Inl ProofTLSVersion
       else case tls_Export cs ExporterLabel proof_ExporterLength of None \<Rightarrow> Inl ProofExport
       | Some x \<Rightarrow> (case Generate hmac (Some k) x of Inl _ \<Rightarrow> Inl ProofGeneration
         | Inr v \<Rightarrow> Inr (PeerInfoKey @ ''='' @ v @ [CHR 0x0A])))"

text \<open>
  Reading the server's message: \<open>None\<close> while more reads are needed, else the message, the bytes after it and the reads left.
\<close>

fun readServer :: "bytes \<Rightarrow> tls_read list \<Rightarrow> (tls_fail, serverMessage \<times> bytes \<times> tls_read list) res option" where
  "readServer buf [] = None"
| "readServer buf ((b, e) # rs) =
    (let buf = buf @ b;
         p = (if buf = [] then Inl (Err HsShort) else ParseServerMessage buf)
     in case p of
          Inr (sm, used) \<Rightarrow> Some (Inr (sm, drop (nat used) buf, rs))
        | Inl Panic \<Rightarrow> Some (Inl Panic)
        | Inl (Err x) \<Rightarrow>
          if x \<noteq> HsShort then Some (Inl (Err (ReadingMessage x)))
          else case e of Some e \<Rightarrow> Some (Inl (Err (ReadingStopped e)))
          | None \<Rightarrow> if glen buf > maxServerMessage then Some (Inl (Err MessageTooLong)) else readServer buf rs)"

fun readMessages :: "bytes \<Rightarrow> tls_read list \<Rightarrow> key_event list" where
  "readMessages pending rs =
    (let (ms, rest) = splitControlMessages pending in
     map EvMessage ms @
     (if glen rest > maxControlMessage then [EvError ControlTooLong]
      else case rs of [] \<Rightarrow> []
      | (b, e) # rs \<Rightarrow>
        (case e of None \<Rightarrow> readMessages (rest @ b) rs
         | Some e \<Rightarrow> map EvMessage (fst (splitControlMessages (rest @ b))) @ [EvError (ControlChannel e)])))"

declare readMessages.simps [simp del]

definition keyEvents :: "tlsState \<Rightarrow> bool \<Rightarrow> tls_read list \<Rightarrow> (unit, key_event list) res" where
  "keyEvents cs canEKM rs =
    (case readServer [] rs of None \<Rightarrow> Inr []
     | Some (Inl Panic) \<Rightarrow> Inl Panic
     | Some (Inl (Err e)) \<Rightarrow> Inr [EvError e]
     | Some (Inr (sm, buf, rs)) \<Rightarrow> Inr (EvExchanged sm cs canEKM # readMessages buf rs))"

definition clientMessageFor :: "dialer \<Rightarrow> string \<Rightarrow> clientKeySource \<Rightarrow> string \<times> string \<Rightarrow> bool \<Rightarrow> string \<Rightarrow> clientMessage" where
  "clientMessageFor d occ src login canEKM line =
    \<lparr>cSource = src, cOptions = occ, cUsername = fst login, cPassword = snd login,
     cPeerInfo = peerInfoText (d_platform d) (d_disableDataV2 d) (d_ciphers d) canEKM @ line\<rparr>"

text \<open>\<open>hs\<close>: the error of the handshake or the session; \<open>werr\<close>: the error of writing the message. The result: what was written, the events.\<close>

definition runKeyTLS :: "hmac_fn \<Rightarrow> dialer \<Rightarrow> string \<Rightarrow> clientKeySource \<Rightarrow> string \<times> string \<Rightarrow> string + tlsState \<Rightarrow> string option \<Rightarrow>
    tls_read list \<Rightarrow> (unit, bytes option \<times> key_event list) res" where
  "runKeyTLS hmac d occ src login hs werr rs =
    (case hs of Inl e \<Rightarrow> Inr (None, [EvError (HandshakeFailed e)])
     | Inr cs \<Rightarrow>
       if tls_Version cs = VersionTLS10 then Inr (None, [EvError TLS10])
       else case proofLine hmac d cs of Inl e \<Rightarrow> Inr (None, [EvError e])
       | Inr line \<Rightarrow>
         let canEKM = canExport d cs;
             b = ClientMessage_Marshal (clientMessageFor d occ src login canEKM line)
         in case werr of Some e \<Rightarrow> Inr (None, [EvError (SendingMessage e)])
            | None \<Rightarrow> rbind (keyEvents cs canEKM rs) (\<lambda>evs. Inr (Some b, evs)))"

section \<open>The messages of a stream\<close>

lemma split_tail: "0 \<notin> set b \<Longrightarrow> splitControlMessages b = ([], b)"
  by (subst splitControlMessages.simps) simp

lemma split_terminated:
  assumes "0 \<notin> set m"
  shows "splitControlMessages (m @ 0 # b) =
    (case splitControlMessages b of (ms, rest) \<Rightarrow> (if m \<noteq> [] then string_of m # ms else ms, rest))"
proof -
  have "takeWhile (\<lambda>x. x \<noteq> 0) (m @ 0 # b) = m" using assms by (subst takeWhile_append2) auto
  then show ?thesis by (subst splitControlMessages.simps) (simp add: Let_def)
qed

lemma stream_induct [case_names tail terminated]:
  fixes P :: "bytes \<Rightarrow> bool"
  assumes "\<And>b. 0 \<notin> set b \<Longrightarrow> P b" "\<And>m b. 0 \<notin> set m \<Longrightarrow> P b \<Longrightarrow> P (m @ 0 # b)"
  shows "P b"
proof (induction b rule: length_induct)
  case (1 b)
  show ?case
  proof (cases "0 \<in> set b")
    case True
    then obtain m r where b: "b = m @ 0 # r" "0 \<notin> set m" using split_list_first by fastforce
    then show ?thesis using 1 assms(2) by simp
  qed (rule assms(1))
qed

lemma split_rest: "0 \<notin> set (snd (splitControlMessages b))"
  by (induction b rule: stream_induct) (auto simp: split_tail split_terminated split: prod.splits)

text \<open>Cutting off the messages of a part first, or all at once: the same.\<close>

lemma split_append:
  "splitControlMessages (a @ b) =
    (case splitControlMessages a of (ms, rest) \<Rightarrow> case splitControlMessages (rest @ b) of (ms', rest') \<Rightarrow> (ms @ ms', rest'))"
  by (induction a rule: stream_induct) (simp_all add: split_tail split_terminated split: prod.split)

lemma bytes_of_Nil [simp]: "bytes_of s = [] \<longleftrightarrow> s = []"
  by (metis length_bytes_of length_0_conv)

lemma split_messages:
  "list_all (\<lambda>m. m \<noteq> [] \<and> 0 \<notin> set (bytes_of m)) ms \<Longrightarrow> splitControlMessages (concat (map (\<lambda>m. bytes_of m @ [0]) ms) @ b) =
    (case splitControlMessages b of (ms', rest) \<Rightarrow> (ms @ ms', rest))"
  by (induction ms) (auto simp: split_terminated bytes_of_def [of "[]"] split: prod.split)

text \<open>The tail of what was read is a piece of a message.\<close>

lemma split_prefix_rest:
  assumes "list_all (\<lambda>m. glen m \<le> n \<and> 0 \<notin> set (bytes_of m)) ms" "a @ b = concat (map (\<lambda>m. bytes_of m @ [0]) ms)" "0 \<le> n"
  shows "glen (snd (splitControlMessages a)) \<le> n"
  using assms(1,2)
proof (induction ms arbitrary: a)
  case Nil
  then show ?case using assms(3) by (simp add: split_tail)
next
  case (Cons m ms)
  show ?case
  proof (cases "length a \<le> length m")
    case True
    then have "a = take (length a) (bytes_of m)" using arg_cong [OF Cons.prems(2), of "take (length a)"] by simp
    then have "0 \<notin> set a" using Cons.prems(1) in_set_takeD [of 0 "length a" "bytes_of m"] by auto
    then show ?thesis using True Cons.prems(1) by (simp add: split_tail glen_def)
  next
    case False
    define a' where "a' = drop (Suc (length m)) a"
    have "take (Suc (length m)) a = bytes_of m @ [0]" using arg_cong [OF Cons.prems(2), of "take (Suc (length m))"] False by simp
    then have a: "a = bytes_of m @ 0 # a'" using append_take_drop_id [of "Suc (length m)" a] by (simp add: a'_def)
    then have "a' @ b = concat (map (\<lambda>m. bytes_of m @ [0]) ms)" using Cons.prems(2) by simp
    then have "glen (snd (splitControlMessages a')) \<le> n" using Cons by simp
    then show ?thesis using Cons.prems(1) unfolding a by (auto simp: split_terminated split: prod.split)
  qed
qed

text \<open>The events of reads without an error, when no tail is too long, are the messages of all that was read.\<close>

lemma readMessages_all:
  assumes "\<And>n. glen (snd (splitControlMessages (pending @ concat (take n bs)))) \<le> maxControlMessage"
  shows "readMessages pending (map (\<lambda>b. (b, None)) bs) = map EvMessage (fst (splitControlMessages (pending @ concat bs)))"
  using assms
proof (induction bs arbitrary: pending)
  case Nil
  then show ?case using Nil [of 0] by (subst readMessages.simps) (auto simp: Let_def split: prod.split)
next
  case (Cons b bs)
  obtain ms rest where s: "splitControlMessages pending = (ms, rest)" by fastforce
  have "glen rest \<le> maxControlMessage" using Cons.prems [of 0] s by simp
  moreover have "glen (snd (splitControlMessages ((rest @ b) @ concat (take n bs)))) \<le> maxControlMessage" for n
    using Cons.prems [of "Suc n"] by (simp add: split_append [of pending] s split: prod.splits)
  then have "readMessages (rest @ b) (map (\<lambda>b. (b, None)) bs) = map EvMessage (fst (splitControlMessages ((rest @ b) @ concat bs)))"
    by (rule Cons.IH)
  ultimately show ?case by (subst readMessages.simps) (simp add: Let_def s split_append [of pending] split: prod.split)
qed

section \<open>The server's message\<close>

text \<open>When the peer information is empty, the message ends in zeros, which separate no messages.\<close>

lemma empty_strings:
  assumes "serverSourceOk (sSource m)" "sPeerInfo m = []" "a = 71 + nat (wireLen (sOptions m))"
  shows "drop a (ServerMessage_Marshal m) = [0, 0, 0, 0, 0, 0]"
proof -
  have "length (stringBytes (sOptions m)) = nat (2 + wireLen (sOptions m))" using glen_stringBytes [of "sOptions m"] by (simp add: glen_def)
  then have "length (serverFixed (sSource m) @ stringBytes (sOptions m)) = a"
    using assms wireLen_bounds(1) [of "sOptions m"] by (simp add: serverFixed_def serverSourceOk_def)
  moreover have "ServerMessage_Marshal m = (serverFixed (sSource m) @ stringBytes (sOptions m)) @ [0, 0, 0, 0, 0, 0]"
    using assms(2) by (simp add: ServerMessage_Marshal_eq stringBytes_def [of "[]"] wireCut_def cString_def)
  ultimately show ?thesis by (metis append_eq_conv_conj)
qed

lemma split_zeros: "set z \<subseteq> {0} \<Longrightarrow> splitControlMessages (z @ b) = splitControlMessages b"
proof (induction z)
  case (Cons x z)
  then show ?case using split_terminated [of "[]" "z @ b"] by (auto split: prod.split)
qed simp

lemma Parse_empty: "ParseServerMessage [] = Inl (Err HsShort)"
  by (simp add: ParseServerMessage_def checkFixed_def)

text \<open>Reads that hold the message: it is reported when it is all there, and what follows it is left, with at most zeros before it.\<close>

lemma readServer_stream:
  assumes m: "serverSourceOk (sSource m)" "wireLen (sOptions m) + wireLen (sPeerInfo m) \<le> MaxStrings" "glen (ServerMessage_Marshal m) \<le> maxServerMessage"
    and a: "a = 71 + nat (wireLen (sOptions m))"
    and cs: "buf @ concat cs = ServerMessage_Marshal m @ rest" "length buf < length (ServerMessage_Marshal m)"
    and b: "sPeerInfo m = [] \<or> (\<forall>n. length (buf @ concat (take n cs)) \<notin> {a, a + 2, a + 4})"
  shows "\<exists>x ds z. readServer buf (map (\<lambda>b. (b, None)) cs) = Some (Inr (cutServer m, x, map (\<lambda>b. (b, None)) ds)) \<and>
    set z \<subseteq> {0} \<and> x @ concat ds = z @ rest"
  using cs b
proof (induction cs arbitrary: buf)
  case Nil
  then show ?case using arg_cong [OF Nil(1), of length] by simp
next
  case (Cons c cs)
  define k where "k = length (buf @ c)"
  have all: "(buf @ c) @ concat cs = ServerMessage_Marshal m @ rest" using Cons.prems(1) by simp
  have t: "buf @ c = take k (ServerMessage_Marshal m @ rest)" unfolding k_def all [symmetric] by simp
  have d: "concat cs = drop k (ServerMessage_Marshal m @ rest)" unfolding k_def all [symmetric] by simp
  note p = ParseServerMessage_stream [OF m(1,2) a, of k rest, folded t]
  have q: "(if buf @ c = [] then Inl (Err HsShort) else ParseServerMessage (buf @ c)) = ParseServerMessage (buf @ c)" by (simp add: Parse_empty)
  show ?case
  proof (cases "k \<in> {a, a + 2, a + 4}")
    case True
    then have e: "sPeerInfo m = []" using Cons.prems(3) by (metis k_def One_nat_def append.right_neutral concat.simps take0 take_Suc_Cons)
    then have "(cutServer m)\<lparr>sPeerInfo := []\<rparr> = cutServer m" by (simp add: cutServer_def wireCut_def cString_def)
    moreover have ne: "buf @ c \<noteq> []" using True a by (auto simp: k_def)
    ultimately have r: "readServer buf (map (\<lambda>b. (b, None)) (c # cs)) = Some (Inr (cutServer m, [], map (\<lambda>b. (b, None)) cs))"
      using p True ne by (simp only: list.map readServer.simps Let_def q) (simp add: k_def)
    obtain j where j: "k = a + j" "j \<le> 4" using True by auto
    have dz: "drop k (ServerMessage_Marshal m) = drop j [0, 0, 0, 0, 0, 0]" using empty_strings [OF m(1) e a] by (simp only: j(1) add.commute [of a j] drop_drop [symmetric])
    have "length (ServerMessage_Marshal m) - k = 6 - j" using arg_cong [OF dz, of length] by (simp only: length_drop) simp
    then have "k \<le> length (ServerMessage_Marshal m)" using j(2) by simp
    then have "[] @ concat cs = drop j [0, 0, 0, 0, 0, 0] @ rest" unfolding d using dz by simp
    moreover have "set (drop j [0, 0, 0, 0, 0, 0 :: u8]) \<subseteq> {0}" using set_drop_subset [of j "[0, 0, 0, 0, 0, 0 :: u8]"] by auto
    ultimately show ?thesis using r by blast
  next
    case False
    show ?thesis
    proof (cases "k < length (ServerMessage_Marshal m)")
      case True
      have "sPeerInfo m = [] \<or> (\<forall>n. length ((buf @ c) @ concat (take n cs)) \<notin> {a, a + 2, a + 4})"
        using Cons.prems(3) by (metis append.assoc concat.simps(2) take_Suc_Cons)
      from Cons.IH [OF all _ this] True have "\<exists>x ds z. readServer (buf @ c) (map (\<lambda>b. (b, None)) cs) =
          Some (Inr (cutServer m, x, map (\<lambda>b. (b, None)) ds)) \<and> set z \<subseteq> {0} \<and> x @ concat ds = z @ rest" by (simp add: k_def)
      moreover have "glen (buf @ c) \<le> maxServerMessage" using True m(3) by (simp add: k_def glen_def)
      then have "readServer buf (map (\<lambda>b. (b, None)) (c # cs)) = readServer (buf @ c) (map (\<lambda>b. (b, None)) cs)"
        using p True False by (simp only: list.map readServer.simps Let_def q) (simp add: maxServerMessage_def)
      ultimately show ?thesis by simp
    next
      case full: False
      then have "buf @ c \<noteq> []" using Cons.prems(2) by (auto simp: k_def)
      then have "readServer buf (map (\<lambda>b. (b, None)) (c # cs)) =
          Some (Inr (cutServer m, drop (length (ServerMessage_Marshal m)) (buf @ c), map (\<lambda>b. (b, None)) cs))"
        using p False full by (simp only: list.map readServer.simps Let_def q) simp
      moreover have "drop (length (ServerMessage_Marshal m)) (buf @ c) @ concat cs = [] @ rest"
        using full arg_cong [OF all, of "drop (length (ServerMessage_Marshal m))"] by (simp add: k_def)
      ultimately show ?thesis by (metis empty_set empty_subsetI)
    qed
  qed
qed

section \<open>What the goroutine reports\<close>

text \<open>The order of its events: the exchange once and first, then messages, an error last.\<close>

fun messagesThenError :: "key_event list \<Rightarrow> bool" where
  "messagesThenError [] \<longleftrightarrow> True"
| "messagesThenError (EvMessage _ # evs) \<longleftrightarrow> messagesThenError evs"
| "messagesThenError (EvError _ # evs) \<longleftrightarrow> evs = []"
| "messagesThenError (EvExchanged _ _ _ # evs) \<longleftrightarrow> False"

definition inOrder :: "key_event list \<Rightarrow> bool" where
  "inOrder evs = (case evs of EvExchanged _ _ _ # evs \<Rightarrow> messagesThenError evs | EvMessage _ # _ \<Rightarrow> False | _ \<Rightarrow> messagesThenError evs)"

lemma messagesThenError_map [simp]: "messagesThenError (map EvMessage ms @ evs) = messagesThenError evs"
  by (induction ms) simp_all

lemma readMessages_order: "messagesThenError (readMessages pending rs)"
proof (induction rs arbitrary: pending)
  case Nil
  have "messagesThenError (map EvMessage ms)" for ms using messagesThenError_map [of ms "[]"] by simp
  then show ?case by (subst readMessages.simps) (auto simp: Let_def split: prod.split)
next
  case (Cons r rs)
  then show ?case by (subst readMessages.simps) (auto simp: Let_def split: prod.split option.split)
qed

lemma readServer_no_panic: "readServer buf rs \<noteq> Some (Inl Panic)"
proof (induction rs arbitrary: buf)
  case (Cons r rs)
  obtain b e where r: "r = (b, e)" by fastforce
  have "ParseServerMessage (buf @ b) \<noteq> Inl Panic" using consumes_server [of "buf @ b"] by (auto simp: consumes_def)
  then show ?case using Cons.IH by (simp add: r Let_def Parse_empty split: sum.split fault.split option.split)
qed simp

lemma keyEvents_order: "\<exists>evs. keyEvents cs ekm rs = Inr evs \<and> inOrder evs"
proof (cases "readServer [] rs")
  case None
  then show ?thesis by (simp add: keyEvents_def inOrder_def)
next
  case (Some x)
  then have "x \<noteq> Inl Panic" using readServer_no_panic [of "[]" rs] by blast
  then show ?thesis using Some readMessages_order by (cases x; cases "projl x") (auto simp: keyEvents_def inOrder_def)
qed

lemma runKeyTLS_order: "\<exists>w evs. runKeyTLS hmac d occ src login hs werr rs = Inr (w, evs) \<and> inOrder evs"
proof (cases hs)
  case (Inl e)
  then show ?thesis by (simp add: runKeyTLS_def inOrder_def)
next
  case (Inr cs)
  obtain evs where "keyEvents cs (canExport d cs) rs = Inr evs" "inOrder evs" using keyEvents_order by blast
  then show ?thesis using Inr
    by (cases "proofLine hmac d cs"; cases werr) (simp_all add: runKeyTLS_def Let_def inOrder_def [of "[EvError _]"])
qed

lemma keyEvents_stream:
  assumes m: "serverSourceOk (sSource m)" "wireLen (sOptions m) + wireLen (sPeerInfo m) \<le> MaxStrings" "glen (ServerMessage_Marshal m) \<le> maxServerMessage"
    and ms: "list_all (\<lambda>s. s \<noteq> [] \<and> 0 \<notin> set (bytes_of s) \<and> glen s \<le> maxControlMessage) ms"
    and bs: "concat bs = ServerMessage_Marshal m @ concat (map (\<lambda>s. bytes_of s @ [0]) ms)"
    and a: "a = 71 + nat (wireLen (sOptions m))" and b: "sPeerInfo m = [] \<or> (\<forall>n. length (concat (take n bs)) \<notin> {a, a + 2, a + 4})"
  shows "keyEvents cs ekm (map (\<lambda>b. (b, None)) bs) = Inr (EvExchanged (cutServer m) cs ekm # map EvMessage ms)"
proof -
  let ?rest = "concat (map (\<lambda>s. bytes_of s @ [0]) ms)"
  have "[] @ concat bs = ServerMessage_Marshal m @ ?rest" "length ([] :: bytes) < length (ServerMessage_Marshal m)"
      "sPeerInfo m = [] \<or> (\<forall>n. length ([] @ concat (take n bs)) \<notin> {a, a + 2, a + 4})"
    using bs b by (simp_all add: ServerMessage_Marshal_eq serverFixed_def)
  from readServer_stream [OF m a this] obtain x ds z where r: "readServer [] (map (\<lambda>b. (b, None)) bs) = Some (Inr (cutServer m, x, map (\<lambda>b. (b, None)) ds))"
      and z: "set z \<subseteq> {0}" "x @ concat ds = z @ ?rest" by blast
  have "glen (snd (splitControlMessages (x @ concat (take n ds)))) \<le> maxControlMessage" for n
  proof -
    have w: "(x @ concat (take n ds)) @ concat (drop n ds) = z @ ?rest"
      using z(2) by (metis append.assoc append_take_drop_id concat_append)
    show ?thesis
    proof (cases "length (x @ concat (take n ds)) \<le> length z")
      case True
      define y where "y = x @ concat (take n ds)"
      note w' = w [folded y_def] True [folded y_def]
      have "y = take (length y) z" using arg_cong [OF w'(1), of "take (length y)"] w'(2) by simp
      then have "set y \<subseteq> {0}" using z(1) by (metis set_take_subset subset_trans)
      then show ?thesis using split_zeros [of y "[]"] unfolding y_def [symmetric] by (simp add: split_tail maxControlMessage_def)
    next
      case False
      then have "take (length z) (x @ concat (take n ds)) = z" using arg_cong [OF w, of "take (length z)"] by simp
      then obtain u where u: "x @ concat (take n ds) = z @ u" by (metis append_take_drop_id)
      have v: "u @ concat (drop n ds) = ?rest" using w unfolding u by simp
      have "list_all (\<lambda>m. glen m \<le> maxControlMessage \<and> 0 \<notin> set (bytes_of m)) ms" using ms by (auto simp: list_all_iff)
      then show ?thesis unfolding u split_zeros [OF z(1)] by (rule split_prefix_rest [OF _ v]) (simp add: maxControlMessage_def)
    qed
  qed
  from readMessages_all [OF this] have "readMessages x (map (\<lambda>b. (b, None)) ds) = map EvMessage (fst (splitControlMessages ?rest))"
    by (simp add: z(2) split_zeros [OF z(1)])
  moreover have "list_all (\<lambda>s. s \<noteq> [] \<and> 0 \<notin> set (bytes_of s)) ms" using ms by (auto simp: list_all_iff)
  then have "splitControlMessages ?rest = (ms, [])" using split_messages [of ms "[]"] by (simp add: split_tail)
  ultimately show ?thesis by (simp add: keyEvents_def r)
qed


definition demoSource :: clientKeySource where
  "demoSource = \<lparr>PreMaster = replicate 48 1, cRandom1 = replicate 32 2, cRandom2 = replicate 32 3\<rparr>"

definition demoReads :: "bytes list" where
  "demoReads = map (\<lambda>b. [b]) (ServerMessage_Marshal (demoServer\<lparr>sPeerInfo := []\<rparr>) @ concat (map (\<lambda>s. bytes_of s @ [0]) [''PUSH_REPLY'', ''INFO'']))"


end
