(* ===== verification/Client_Read.thy ===== *)
theory Client_Read
  imports Client_Safe
begin

text \<open>
  The reader (\<open>readLoop\<close> and \<open>rxPacer\<close> in \<open>core/proxy/openvpn/ovpn/client/transport.go\<close>): which read errors it tolerates, when it pauses, and
  that it survives every packet. What is read, and when each read began and ended, is given; over TCP a read is a frame of the
  stream (\<open>ReadPacket\<close> of the frame reader).
\<close>

section \<open>Pauses\<close>

definition Microsecond :: duration where "Microsecond = 1000"
definition rxCoalesce :: duration where "rxCoalesce = 2 * 1000 * Microsecond"
definition rxBatch :: int where "rxBatch = 4"
definition rxSlowGap :: duration where "rxSlowGap = 300 * Microsecond"
definition rxStreamGap :: duration where "rxStreamGap = 3 * rxCoalesce"
definition rxReadBlocked :: duration where "rxReadBlocked = 100 * Microsecond"

record rxPacer =
  rx_last :: time
  rx_batchAt :: time
  rx_packets :: int
  rx_gap :: duration

definition newPacer :: rxPacer where
  "newPacer = \<lparr>rx_last = 0, rx_batchAt = 0, rx_packets = 0, rx_gap = 0\<rparr>"

definition sub :: "time \<Rightarrow> time \<Rightarrow> duration" where
  "sub a b = int a - int b"

text \<open>The pause after a read from \<open>start\<close> to \<open>fin\<close>; \<open>None\<close>: the division panics.\<close>

definition pacer_read :: "time \<Rightarrow> time \<Rightarrow> rxPacer \<Rightarrow> duration option \<times> rxPacer" where
  "pacer_read start fin p =
    (if rx_last p = 0 \<or> sub fin (rx_last p) \<ge> rxStreamGap then (Some 0, newPacer\<lparr>rx_last := fin, rx_batchAt := fin\<rparr>)
     else
     let p = p\<lparr>rx_last := fin, rx_packets := rx_packets p + 1\<rparr> in
     if sub fin start \<le> rxReadBlocked then (Some 0, p)
     else if rx_packets p = 0 then (None, p)
     else
     let per = goQuot (sub fin (rx_batchAt p)) (rx_packets p);
         p = (if rx_gap p = 0 then p\<lparr>rx_gap := per\<rparr> else p\<lparr>rx_gap := rx_gap p + goQuot (per - rx_gap p) 4\<rparr>);
         p = p\<lparr>rx_batchAt := fin, rx_packets := 0\<rparr>
     in if rx_gap p < rxSlowGap then (Some 0, p) else (Some (min (rxBatch * rx_gap p) rxCoalesce), p))"

section \<open>The loop\<close>

definition maxTransientErrors :: int where "maxTransientErrors = 1000"

text \<open>A packet (or nothing), or an error: whether \<open>isTransientUDP\<close> holds of it, and its text.\<close>

datatype net_read = NetPacket bytes | NetError bool string

text \<open>The loop over reads: the error it hands to the control loop, or \<open>None\<close> while it goes on or when the session is over; and its pauses.\<close>

fun readLoop :: "(net_read \<times> time \<times> time) list \<Rightarrow> int \<Rightarrow> rxPacer option \<Rightarrow> client \<Rightarrow> (string option \<times> duration list) act" where
  "readLoop [] transient pacer c = (Inr (None, []), c)"
| "readLoop ((NetError t e, start, fin) # rs) transient pacer c =
    (if isDone c then (Inr (None, []), c)
     else if \<not> cl_tcp c \<and> t \<and> transient < maxTransientErrors then readLoop rs (transient + 1) pacer c
     else (Inr (Some e, []), c))"
| "readLoop ((NetPacket b, start, fin) # rs) transient pacer c =
    andThen (if b \<noteq> [] then dispatch b fin c else ok c) (\<lambda>_ c.
    case pacer of None \<Rightarrow> readLoop rs 0 None c
    | Some p \<Rightarrow>
      (case pacer_read start fin p of (None, _) \<Rightarrow> (Inl Panic, c)
       | (Some d, p) \<Rightarrow>
         andThen (readLoop rs 0 (Some p) c) (\<lambda>(e, ds) c. (Inr (e, if d > 0 then d # ds else ds), c))))"

definition startReader :: "(net_read \<times> time \<times> time) list \<Rightarrow> client \<Rightarrow> (string option \<times> duration list) act" where
  "startReader rs c = readLoop rs 0 (if \<not> cl_tcp c \<and> rxCoalesce > 0 then Some newPacer else None) c"

section \<open>Pauses are short and the reader survives\<close>

definition pacer_ok :: "rxPacer \<Rightarrow> bool" where
  "pacer_ok p \<longleftrightarrow> 0 \<le> rx_packets p"

lemma pacer_read_ok:
  assumes "pacer_ok p" "pacer_read start fin p = (x, q)"
  shows "pacer_ok q \<and> (\<exists>d. x = Some d \<and> 0 \<le> d \<and> d \<le> rxCoalesce)"
proof -
  have c: "0 \<le> rxCoalesce" "0 \<le> rxSlowGap" "0 \<le> rxBatch" by (simp_all add: rxCoalesce_def rxSlowGap_def rxBatch_def Microsecond_def)
  then have g: "0 \<le> rxBatch * g" if "\<not> g < rxSlowGap" for g using that by simp
  show ?thesis
    using assms c g by (auto simp: pacer_read_def pacer_ok_def newPacer_def Let_def split: if_splits)
qed

abbreviation short_pauses :: "duration list \<Rightarrow> bool" where
  "short_pauses \<equiv> list_all (\<lambda>t. 0 < t \<and> t \<le> rxCoalesce)"

lemma readLoop_ok:
  "base_ok c \<Longrightarrow> (\<And>p. pacer = Some p \<Longrightarrow> pacer_ok p) \<Longrightarrow>
    runs (calm c) (\<lambda>r d. calm c d \<and> short_pauses (snd r)) (readLoop rs transient pacer c)"
proof (induction rs arbitrary: transient pacer c)
  case Nil
  then show ?case by (auto simp: runs_def)
next
  case (Cons r rs)
  obtain n start fin where r: "r = (n, start, fin)" by (cases r) auto
  show ?case
  proof (cases n)
    case (NetError t e)
    have "runs (calm c) (\<lambda>r d. calm c d \<and> short_pauses (snd r)) (Inr (x, []), c)" for x using Cons.prems(1) by (auto simp: runs_def)
    then show ?thesis using Cons.IH [OF Cons.prems] unfolding r NetError readLoop.simps by (intro runs_if) assumption+
  next
    case (NetPacket b)
    have q: "quiet c (if b \<noteq> [] then dispatch b fin c else ok c)" using Cons.prems(1) quiet_dispatch [of c b fin] by (auto intro: quiet_ok)
    have "runs (calm c) (\<lambda>r d. calm c d \<and> short_pauses (snd r))
        (case pacer of None \<Rightarrow> readLoop rs 0 None d
         | Some p \<Rightarrow> (case pacer_read start fin p of (None, _) \<Rightarrow> (Inl Panic, d)
           | (Some t, p) \<Rightarrow> andThen (readLoop rs 0 (Some p) d) (\<lambda>(e, ds) c. (Inr (e, if t > 0 then t # ds else ds), c))))"
      if cd: "calm c d" for d
    proof (cases pacer)
      case None
      have "runs (calm d) (\<lambda>r e. calm d e \<and> short_pauses (snd r)) (readLoop rs 0 None d)" by (rule Cons.IH [OF calm_base [OF cd]]) simp
      then show ?thesis unfolding None option.case by (rule runs_weaken) (auto intro: calm_trans [OF cd])
    next
      case (Some p)
      obtain x q where x: "pacer_read start fin p = (x, q)" by fastforce
      then obtain t where t: "pacer_ok q" "x = Some t" "0 \<le> t" "t \<le> rxCoalesce" using pacer_read_ok [OF Cons.prems(2) [OF Some]] by blast
      have "runs (calm d) (\<lambda>r e. calm d e \<and> short_pauses (snd r)) (readLoop rs 0 (Some q) d)"
        by (rule Cons.IH [OF calm_base [OF cd]]) (simp add: t(1))
      then have "runs (calm c) (\<lambda>r e. calm c e \<and> short_pauses (snd r)) (readLoop rs 0 (Some q) d)"
        by (rule runs_weaken) (auto intro: calm_trans [OF cd])
      then show ?thesis unfolding Some option.case x prod.case t(2)
        by (rule runs_andThen) (use t(3,4) in \<open>auto split: prod.split\<close>)
    qed
    then show ?thesis unfolding r NetPacket readLoop.simps by (intro runs_andThen [OF q]) simp
  qed
qed

lemma reader_safe: "base_ok c \<Longrightarrow> runs (calm c) (\<lambda>r d. calm c d \<and> short_pauses (snd r)) (startReader rs c)"
  unfolding startReader_def by (rule readLoop_ok) (auto simp: newPacer_def pacer_ok_def split: if_splits)

end
