(* ===== verification/Spec2Isabelle.thy ===== *)
theory Spec2Isabelle
  imports Reliable_Live Handshake_Codec Datachan_Run Ctlwrap_Guard Options_Total Options_Address Client_Timers Client_Tls Client_Read
begin

text \<open>
  Verification of the OpenVPN stack of the panel's core (\<open>core/proxy/openvpn/ovpn\<close>).

  \<^bold>\<open>The program.\<close> The repository is a web panel (\<open>web\<close>, \<open>sub\<close>, \<open>database\<close>) around a fork of the Xray core (\<open>core\<close>), to which it adds a
  native OpenVPN client and server. The packages under \<open>core/proxy/openvpn/ovpn\<close> implement the protocol; a client session uses them as
  follows. A profile is read by \<open>options\<close>; \<open>client\<close> dials a remote and runs one control loop. Control packets (\<open>wire\<close>) are
  protected by \<open>ctlwrap\<close> and made reliable, per key, by \<open>reliable\<close>; over them runs TLS, and over TLS the key-method 2 exchange
  (\<open>handshake\<close>) and text messages, among them the options the server pushes (\<open>options\<close>). The exchanged keys open the data channel
  (\<open>datachan\<close>), which carries IP packets, framed by \<open>compress\<close>. The client may prove possession of a key (\<open>clientproof\<close>).

  \<^bold>\<open>Conventions.\<close> \<open>Prelude\<close> has bytes and machine words, Go's slices and indexing with their panics, and the result type: a call
  gives a value, an error or a panic, so that a panic of the source is a branch of the model and its absence is proved. Go's \<open>int\<close> is
  \<open>int\<close> (lengths and offsets stay far from its bounds), sized integers are words. A time is a number of nanoseconds, 0 the zero
  time of Go; a duration is an \<open>int\<close>. Strings are lists of byte characters; \<open>Go_Strings\<close> and \<open>Go_Std\<close> have the functions of Go's library the
  code uses. State is passed explicitly; shared objects are addresses in a store (data keys) or indices (key states). Error
  values keep what callers can tell apart, not the wording. Ciphers, keyed hashes, TLS, PEM, clocks, random sources, files and sockets
  are parameters; what the theorems assume of them are named predicates (\<open>crypto_ok\<close>, \<open>keys_match\<close>, lengths of hashes) with
  instances in the witnesses.

  \<^bold>\<open>Theories.\<close>

  \<^item> \<open>Wire\<close> (\<open>wire/wire.go\<close>): opcodes, control packets, data headers, TCP frames. Encoding and decoding undo each other (C4), decoders do not
    panic (C5), framed packets keep a stream in sync (C7).
  \<^item> \<open>Reliable\<close> (\<open>reliable/reliable.go\<close>) and \<open>Reliable_Recv\<close>, \<open>_Send\<close>, \<open>_Timing\<close>, \<open>_Session\<close>, \<open>_Live\<close>: the reliability layer. In-order
    delivery exactly once (C2), the invariant over any calls (C3), acks dealt out once (C8), exact deadlines (C9). Two layers over a network that
    loses, repeats and reorders refine a queue (C1) and can always finish (C10).
  \<^item> \<open>Compress\<close> (\<open>compress/compress.go\<close>), \<open>_Safe\<close>, \<open>_Format\<close>: decompression of untrusted data is safe and bounded (C11, C12), framing is undone (C13),
    LZ4 blocks get their meaning (C14). The loops of both decompressors are instances of one locale.
  \<^item> \<open>Replay\<close>: the replay window of a data key is exact (C15), an instance of the locale of replay filters, as is that of the control channel.
  \<^item> \<open>Handshake\<close> (\<open>handshake/handshake.go\<close>), \<open>_Codec\<close>: messages are read back from streams (C16, C17), parsers are bounded (C18), the keys are those of
    RFC 2246's PRF (C19).
  \<^item> \<open>Datachan\<close> (\<open>datachan/datachan.go\<close>), \<open>_Packet\<close>, \<open>_Channel\<close>, \<open>_Run\<close>: packet ids never repeat (C20), what is sealed is opened (C21), keys of both
    ends match (C22), no sequence of calls panics (C23), nothing is delivered twice (C24), failures change nothing (C25).
  \<^item> \<open>Ctlwrap\<close> (\<open>ctlwrap/*.go\<close>), \<open>_Window\<close>, \<open>_Packets\<close>, \<open>_Sessions\<close>, \<open>_V2\<close>, \<open>_Guard\<close>: the replay window is exact (C26); plain, tls-auth, tls-crypt and
    tls-crypt-v2 deliver what was wrapped (C27, C29), refuse replays and survive any packet (C28, C30). The source's interface
    \<open>Wrapper\<close> is a locale with an interpretation for each wrapper.
  \<^item> \<open>Options_Lex\<close>, \<open>Options\<close>, \<open>Options_Parse\<close> (\<open>options/lex.go\<close>, \<open>options.go\<close>, \<open>parse.go\<close>), \<open>_Args\<close>, \<open>_Profile\<close>, \<open>_Total\<close>, \<open>_Remotes\<close>: arguments (C31)
    and lists of remotes (C34) are read back, every accepted profile is well-formed (C32), includes end (C33), text alone reads no file (C35).
  \<^item> \<open>Options_Push\<close> (\<open>options/push.go\<close>), \<open>_Pushed\<close>, \<open>_Address\<close>: what is pushed stays bounded (C36), netmasks are exact, addresses arrive (C38).
  \<^item> \<open>Clientproof\<close> (\<open>clientproof/proof.go\<close>): a proof is accepted exactly when its key made it for this session (C6).
  \<^item> \<open>Client_Text\<close>, \<open>Client\<close>, \<open>Client_Dial\<close> (\<open>client/*.go\<close>): the session. \<open>client\<close> is the record of \<open>Client\<close> with its \<open>loopState\<close>;
    each handler of the control loop is a function of the time and the state. \<open>Client_Safe\<close>, \<open>_Keys\<close>, \<open>_Run\<close>, \<open>_Session\<close>: whatever the loop, TLS,
    the network, the watchdog and the owner do, in any order, nothing panics, and the keys keep their roles (C39). It composes the layers above:
    their invariants are its parts. \<open>Client_Flush\<close>, \<open>Client_Timers\<close>: after a round the loop sleeps until something is due, and neither spins nor
    misses a deadline (C37), which rests on the layers' own deadlines. \<open>Client_Tls\<close>: the TLS goroutine reports what the server sent, however the stream is cut (C40), in the
    order C39 assumes of it. \<open>Client_Read\<close>: the reader's pauses are short and it survives every packet.

  \<^bold>\<open>Bounds and termination.\<close> Loops over input are recursive functions with termination proofs; where the code's progress rests on a
  parameter (the PEM decoder) the loop stops if it makes none. The parser's nesting is bounded as in the code (\<open>maxIncludeDepth\<close>); no fuel is used.

  \<^bold>\<open>Not modelled.\<close> Log lines and their texts; buffer pools and the wiping of secrets, except where it changes what is read later; the
  scheduling of goroutines, beyond that their steps interleave; \<open>crypto/tls\<close> and certificate checks (\<open>tlsconf\<close>, calls into \<open>crypto/x509\<close>);
  the server's sessions (\<open>server\<close>: accepting, leases and dispatch around the same packages); the adapters to the core and
  gVisor (\<open>core/proxy/openvpn/*.go\<close>); test hooks; the upstream core (other proxies, router, transports); the panel (database
  transactions, HTTP, Telegram); generated code.
\<close>

end
